(* ===== verification/GW_Prelude.thy ===== *)
theory GW_Prelude
  imports Main "HOL-Library.AList" "HOL-Library.Sublist" "HOL-Library.Signed_Division"
begin

text \<open>
  Shared vocabulary of the development: Go's \<open>int64\<close> arithmetic, decimal formatting
  and parsing (\<open>fmt.Sprintf("%d")\<close>, \<open>strconv.ParseInt\<close>), Go error values with
  \<open>errors.Is\<close>, buffered channels, the concurrent map \<open>sync.Map\<close>, and
  transition systems with their reachable states. Nothing here is specific to one
  component of the gateway; every component theory imports this one.
\<close>

named_theorems gw_defs \<open>definitions of the code's small helpers, unfolded by component proofs\<close>
named_theorems gw_splits \<open>case splits over results and options of the code's operations\<close>

lemmas option_sum_splits [gw_splits] = option.splits sum.splits prod.splits if_splits

subsection \<open>Go's int64\<close>

text \<open>
  Values of \<open>int64\<close> (and of \<open>int\<close> on the 64-bit targets the gateway is built for)
  are integers in \<open>in64\<close>; \<open>i64\<close> is the two's complement wrap-around that Go's
  arithmetic performs, \<open>go_div\<close> its division, which truncates towards zero.
\<close>

definition in64 :: "int \<Rightarrow> bool" where
  "in64 x \<longleftrightarrow> - (2 ^ 63) \<le> x \<and> x < 2 ^ 63"

definition i64 :: "int \<Rightarrow> int" where
  "i64 x = (x + 2 ^ 63) mod 2 ^ 64 - 2 ^ 63"

definition go_div :: "int \<Rightarrow> int \<Rightarrow> int" where
  "go_div a b = i64 (sgn a * sgn b * (\<bar>a\<bar> div \<bar>b\<bar>))"

lemma i64_in64: "in64 (i64 x)"
proof -
  have "0 \<le> (x + 2 ^ 63) mod 2 ^ 64" "(x + 2 ^ 63) mod 2 ^ 64 < (2::int) ^ 64"
    by simp_all
  then show ?thesis by (simp add: in64_def i64_def)
qed

lemma i64_id [simp]: "in64 x \<Longrightarrow> i64 x = x"
  by (simp add: in64_def i64_def)

lemma i64_nonneg: "0 \<le> x \<Longrightarrow> x < 2 ^ 63 \<Longrightarrow> i64 x = x"
  by (rule i64_id) (simp add: in64_def)

lemma i64_mod: "i64 x mod 2 ^ 64 = x mod 2 ^ 64"
proof -
  have "((x + 2 ^ 63) mod 2 ^ 64 - 2 ^ 63) mod 2 ^ 64 = ((x + 2 ^ 63) - 2 ^ 63) mod (2::int) ^ 64"
    by (rule mod_diff_left_eq)
  then show ?thesis by (simp only: i64_def add_diff_cancel_right')
qed

lemma i64_cong: "x mod 2 ^ 64 = y mod 2 ^ 64 \<Longrightarrow> i64 x = i64 y"
  by (simp only: i64_def mod_add_left_eq [of x, symmetric] mod_add_left_eq [of y, symmetric])

text \<open>Intermediate wrap-around is absorbed by the next one.\<close>

lemma i64_absorb [simp]:
  "i64 (i64 x + y) = i64 (x + y)" "i64 (y + i64 x) = i64 (y + x)"
  "i64 (i64 x - y) = i64 (x - y)" "i64 (y - i64 x) = i64 (y - x)"
  by (rule i64_cong, metis i64_mod mod_add_left_eq mod_add_right_eq mod_diff_left_eq mod_diff_right_eq)+

lemma i64_idem [simp]: "i64 (i64 x) = i64 x"
  by (simp add: i64_in64)

lemma go_div_nonneg: "0 \<le> a \<Longrightarrow> 0 < b \<Longrightarrow> a < 2 ^ 63 \<Longrightarrow> go_div a b = a div b"
proof -
  assume a: "0 \<le> a" "0 < b" "a < 2 ^ 63"
  have "a div b \<le> a" using a zdiv_mono2 [of a 1 b] by simp
  moreover have "0 \<le> a div b" using a by (simp add: pos_imp_zdiv_nonneg_iff)
  ultimately have i: "i64 (a div b) = a div b"
    using a by (intro i64_nonneg) linarith+
  show ?thesis
    using a i by (cases "a = 0") (simp_all add: go_div_def)
qed

subsection \<open>Decimal text\<close>

definition digit :: "nat \<Rightarrow> char" where
  "digit d = ''0123456789'' ! d"

definition digit_value :: "char \<Rightarrow> nat option" where
  "digit_value c = map_of (zip ''0123456789'' [0..<10]) c"

fun fmt_nat :: "nat \<Rightarrow> string" where
  "fmt_nat n = (if n < 10 then [digit n] else fmt_nat (n div 10) @ [digit (n mod 10)])"

declare fmt_nat.simps [simp del]

text \<open>\<open>fmt.Sprintf("%d", x)\<close> and \<open>strconv.FormatInt(x, 10)\<close>.\<close>

definition fmt_d :: "int \<Rightarrow> string" where
  "fmt_d x = (if x < 0 then CHR ''-'' # fmt_nat (nat (- x)) else fmt_nat (nat x))"

fun parse_digits :: "nat \<Rightarrow> string \<Rightarrow> nat option" where
  "parse_digits acc [] = Some acc"
| "parse_digits acc (c # cs) =
     (case digit_value c of None \<Rightarrow> None | Some d \<Rightarrow> parse_digits (10 * acc + d) cs)"

definition parse_nat :: "string \<Rightarrow> nat option" where
  "parse_nat s = (if s = [] then None else parse_digits 0 s)"

text \<open>\<open>strconv.ParseInt(s, 10, 64)\<close>; \<open>None\<close> is its error.\<close>

definition parse_int64 :: "string \<Rightarrow> int option" where
  "parse_int64 s =
     (case s of
        [] \<Rightarrow> None
      | c # cs \<Rightarrow>
          if c = CHR ''-'' then
            (case parse_nat cs of None \<Rightarrow> None
             | Some n \<Rightarrow> if n \<le> 2 ^ 63 then Some (- int n) else None)
          else
            (case parse_nat (if c = CHR ''+'' then cs else s) of None \<Rightarrow> None
             | Some n \<Rightarrow> if n < 2 ^ 63 then Some (int n) else None))"

lemma digit_cases:
  assumes "d < 10"
  shows "digit d \<noteq> CHR ''-''" and "digit d \<noteq> CHR ''+''" and "digit_value (digit d) = Some d"
proof -
  from assms have "d \<in> set [0..<10]" by simp
  then have "d = 0 \<or> d = 1 \<or> d = 2 \<or> d = 3 \<or> d = 4 \<or> d = 5 \<or> d = 6 \<or> d = 7 \<or> d = 8 \<or> d = 9"
    by (auto simp: upt_rec)
  then show "digit d \<noteq> CHR ''-''" and "digit d \<noteq> CHR ''+''" and "digit_value (digit d) = Some d"
    by (auto simp: digit_def digit_value_def upt_rec)
qed

lemma fmt_nat_nonempty [simp]: "fmt_nat n \<noteq> []"
  by (subst fmt_nat.simps) simp

lemma fmt_nat_no_dash: "CHR ''-'' \<notin> set (fmt_nat n)"
proof (induction n rule: fmt_nat.induct)
  case (1 n)
  then show ?case
    using digit_cases(1) [of n] digit_cases(1) [of "n mod 10"]
    by (subst fmt_nat.simps) auto
qed

lemma fmt_nat_no_plus: "CHR ''+'' \<notin> set (fmt_nat n)"
proof (induction n rule: fmt_nat.induct)
  case (1 n)
  then show ?case
    using digit_cases(2) [of n] digit_cases(2) [of "n mod 10"]
    by (subst fmt_nat.simps) auto
qed

lemma parse_digits_append:
  "parse_digits acc (xs @ ys) =
     (case parse_digits acc xs of None \<Rightarrow> None | Some a \<Rightarrow> parse_digits a ys)"
  by (induction xs arbitrary: acc) (auto split: option.splits)

lemma parse_digits_fmt: "parse_digits 0 (fmt_nat n) = Some n"
proof (induction n rule: fmt_nat.induct)
  case (1 n)
  show ?case
  proof (cases "n < 10")
    case True
    then show ?thesis by (subst fmt_nat.simps) (simp add: digit_cases(3))
  next
    case False
    then have "parse_digits 0 (fmt_nat (n div 10) @ [digit (n mod 10)])
        = Some (10 * (n div 10) + n mod 10)"
      using "1.IH" by (simp add: parse_digits_append digit_cases(3))
    with False show ?thesis by (subst fmt_nat.simps) simp
  qed
qed

lemma parse_nat_fmt [simp]: "parse_nat (fmt_nat n) = Some n"
  by (simp add: parse_nat_def parse_digits_fmt)

lemma fmt_nat_head:
  obtains c cs where "fmt_nat n = c # cs" and "c \<noteq> CHR ''-''" and "c \<noteq> CHR ''+''"
  using fmt_nat_nonempty [of n] fmt_nat_no_dash [of n] fmt_nat_no_plus [of n]
  by (cases "fmt_nat n") auto

text \<open>Parsing what was printed gives the number back, for every \<open>int64\<close>.\<close>

lemma parse_fmt_d: "in64 x \<Longrightarrow> parse_int64 (fmt_d x) = Some x"
proof -
  assume x: "in64 x"
  show ?thesis
  proof (cases "x < 0")
    case True
    moreover from x True have "nat (- x) \<le> 2 ^ 63" by (simp add: in64_def nat_le_iff)
    ultimately show ?thesis by (simp add: fmt_d_def parse_int64_def)
  next
    case False
    obtain c cs where h: "fmt_nat (nat x) = c # cs" and c: "c \<noteq> CHR ''-''" "c \<noteq> CHR ''+''"
      by (rule fmt_nat_head)
    from x False have "nat x < 2 ^ 63" by (simp add: in64_def nat_less_iff)
    with False h c show ?thesis
      using parse_nat_fmt [of "nat x"] by (simp add: fmt_d_def parse_int64_def)
  qed
qed

lemma fmt_nat_inj: "fmt_nat m = fmt_nat n \<Longrightarrow> m = n"
  by (metis option.inject parse_nat_fmt)

text \<open>
  A key of the form \<open>"%d-%s"\<close> determines both parts, whatever characters the second
  part contains: the decimal text of an integer has no dash after its first character.
\<close>

lemma append_sep_inject:
  "xs @ s # ys = xs' @ s # ys' \<Longrightarrow> s \<notin> set xs \<Longrightarrow> s \<notin> set xs' \<Longrightarrow> xs = xs' \<and> ys = ys'"
proof (induction xs arbitrary: xs')
  case Nil
  then show ?case by (cases xs') auto
next
  case (Cons x xs)
  then show ?case by (cases xs') auto
qed

lemma fmt_d_dash_inject:
  assumes eq: "fmt_d x @ CHR ''-'' # k = fmt_d x' @ CHR ''-'' # k'"
  shows "x = x' \<and> k = k'"
proof -
  have sign: "hd (fmt_d z @ r) = CHR ''-'' \<longleftrightarrow> z < 0" for z r
  proof -
    obtain c cs where "fmt_nat (nat z) = c # cs" and "c \<noteq> CHR ''-''" by (rule fmt_nat_head)
    then show ?thesis by (simp add: fmt_d_def)
  qed
  from eq have "x < 0 \<longleftrightarrow> x' < 0" using sign by metis
  then have "fmt_nat (nat \<bar>x\<bar>) @ CHR ''-'' # k = fmt_nat (nat \<bar>x'\<bar>) @ CHR ''-'' # k'"
    using eq by (auto simp: fmt_d_def split: if_splits)
  from append_sep_inject [OF this fmt_nat_no_dash fmt_nat_no_dash]
  have "nat \<bar>x\<bar> = nat \<bar>x'\<bar>" and "k = k'"
    using fmt_nat_inj by auto
  with \<open>x < 0 \<longleftrightarrow> x' < 0\<close> show ?thesis by linarith
qed

lemma fmt_d_inject: "fmt_d x = fmt_d y \<Longrightarrow> x = y"
  using fmt_d_dash_inject [of x "[]" y "[]"] by simp

subsection \<open>Go errors\<close>

text \<open>
  The package-level error variables of the code (and the few of the standard library
  and of third-party packages it compares against) are sentinels. An error is a
  sentinel, an opaque error of code outside the repository, an error made from text
  only, or one that wraps others (\<open>fmt.Errorf\<close> with \<open>%w\<close>, \<open>multierr\<close>). The
  message text is not modelled. An \<open>error\<close> result is \<open>None\<close> for \<open>nil\<close>; a
  pair \<open>(value, error)\<close> is a sum.
\<close>

datatype sentinel =
    ErrRateLimitExceeded
  | ErrLinkClosed | ErrLinkV4Closed | ErrSubLinkInV5Closed | ErrTargetLinkNotFound
  | ErrUnKnownFrontendMessageFormat | ErrUnKnownFrontendMessageCommandType
  | ErrDuplicatedFrontendMessage | ErrCacheFrontendMessageFailed
  | ErrDeleteCachedFrontendMessageFailed | ErrMarshalMessageFailed
  | ErrDecryptMessageBodyFailed | ErrEncryptMessageBodyFailed
  | ErrMaxRetriesExceeded | ErrUnknownBizID | ErrUnKnownBackendMessageFormat
  | ErrCoordinatorStopped | ErrBatchResponseMismatch
  | ErrUnknownReceiver
  | ErrInvalidURI | ErrInvalidUserToken | ErrExistedUser
  | ErrNodeInfoNotExist | ErrRegistryMaxRetriesExceeded
  | ErrSessionExisted | ErrCreateSessionFailed | ErrDestroySessionFailed
  | ErrDecodeJWTTokenFailed | ErrInvalidJWTToken | ErrSupportedSignAlgorithm
  | ErrUnsupportedAlgorithm
  | NetErrClosed | RedisNil | ErrNoSubConnAvailable | CtxErr

datatype gerr = Sen sentinel | Ext string | Txt string | WrapE "gerr list"

fun errors_is :: "gerr \<Rightarrow> sentinel \<Rightarrow> bool" where
  "errors_is (Sen s) t = (s = t)"
| "errors_is (Ext m) t = False"
| "errors_is (Txt m) t = False"
| "errors_is (WrapE es) t = list_ex (\<lambda>e. errors_is e t) es"

text \<open>\<open>errors.Is(err, t)\<close> on an \<open>error\<close> result, which is false for \<open>nil\<close>.\<close>

definition err_is :: "gerr option \<Rightarrow> sentinel \<Rightarrow> bool" where
  "err_is e t = (case e of None \<Rightarrow> False | Some x \<Rightarrow> errors_is x t)"

lemma err_is_simps [simp]:
  "err_is None t = False" "err_is (Some e) t = errors_is e t"
  by (simp_all add: err_is_def)

subsection \<open>Outcomes of a call\<close>

text \<open>A call returns, waits for something only another goroutine can do, or panics.\<close>

datatype 'a exec = Ret 'a | Block | Panic

fun exec_bind :: "'a exec \<Rightarrow> ('a \<Rightarrow> 'b exec) \<Rightarrow> 'b exec" where
  "exec_bind (Ret a) f = f a"
| "exec_bind Block f = Block"
| "exec_bind Panic f = Panic"

lemma exec_bind_Ret: "exec_bind x f = Ret b \<longleftrightarrow> (\<exists>a. x = Ret a \<and> f a = Ret b)"
  by (cases x) auto

subsection \<open>Buffered channels\<close>

text \<open>
  A channel with capacity \<open>ch_cap\<close>. \<open>ch_try_send\<close> and \<open>ch_try_recv\<close> are the
  \<open>select\<close> statements with a \<open>default\<close> branch: \<open>None\<close> is the default branch.
\<close>

record 'a chan =
  ch_buf :: "'a list"
  ch_cap :: nat
  ch_closed :: bool

definition ch_make :: "nat \<Rightarrow> 'a chan" where
  "ch_make n = \<lparr>ch_buf = [], ch_cap = n, ch_closed = False\<rparr>"

definition ch_room :: "'a chan \<Rightarrow> bool" where
  "ch_room c \<longleftrightarrow> length (ch_buf c) < ch_cap c"

definition ch_try_send :: "'a chan \<Rightarrow> 'a \<Rightarrow> 'a chan option" where
  "ch_try_send c x = (if ch_room c then Some (c\<lparr>ch_buf := ch_buf c @ [x]\<rparr>) else None)"

definition ch_try_recv :: "'a chan \<Rightarrow> ('a \<times> 'a chan) option" where
  "ch_try_recv c = (case ch_buf c of [] \<Rightarrow> None | x # xs \<Rightarrow> Some (x, c\<lparr>ch_buf := xs\<rparr>))"

definition ch_ok :: "'a chan \<Rightarrow> bool" where
  "ch_ok c \<longleftrightarrow> length (ch_buf c) \<le> ch_cap c"

lemma ch_make_ok [simp]: "ch_ok (ch_make n)"
  by (simp add: ch_ok_def ch_make_def)

lemma ch_try_send_Some:
  "ch_try_send c x = Some c' \<longleftrightarrow> ch_room c \<and> c' = c\<lparr>ch_buf := ch_buf c @ [x]\<rparr>"
  by (auto simp: ch_try_send_def)

lemma ch_try_send_None: "ch_try_send c x = None \<longleftrightarrow> \<not> ch_room c"
  by (simp add: ch_try_send_def)

lemma ch_try_recv_Some:
  "ch_try_recv c = Some (x, c') \<longleftrightarrow> (\<exists>xs. ch_buf c = x # xs \<and> c' = c\<lparr>ch_buf := xs\<rparr>)"
  by (auto simp: ch_try_recv_def split: list.splits)

lemma ch_try_recv_None: "ch_try_recv c = None \<longleftrightarrow> ch_buf c = []"
  by (simp add: ch_try_recv_def split: list.splits)

lemma ch_try_send_ok: "ch_ok c \<Longrightarrow> ch_try_send c x = Some c' \<Longrightarrow> ch_ok c'"
  by (auto simp: ch_try_send_Some ch_ok_def ch_room_def)

lemma ch_try_recv_ok: "ch_ok c \<Longrightarrow> ch_try_recv c = Some (x, c') \<Longrightarrow> ch_ok c'"
  by (auto simp: ch_try_recv_Some ch_ok_def)

subsection \<open>The concurrent map\<close>

text \<open>
  \<open>syncx.Map\<close> is a typed view of Go's \<open>sync.Map\<close>: a map with distinct keys. It is
  an association list here, whose order stands for the (unspecified) order in which
  \<open>Range\<close> visits the keys: a fact about every such list holds for every order.
\<close>

type_synonym ('k, 'v) smap = "('k \<times> 'v) list"

definition sm_ok :: "('k, 'v) smap \<Rightarrow> bool" where
  "sm_ok m \<longleftrightarrow> distinct (map fst m)"

abbreviation sm_load :: "('k, 'v) smap \<Rightarrow> 'k \<Rightarrow> 'v option" where
  "sm_load m k \<equiv> map_of m k"

abbreviation sm_store :: "'k \<Rightarrow> 'v \<Rightarrow> ('k, 'v) smap \<Rightarrow> ('k, 'v) smap" where
  "sm_store \<equiv> AList.update"

abbreviation sm_delete :: "'k \<Rightarrow> ('k, 'v) smap \<Rightarrow> ('k, 'v) smap" where
  "sm_delete \<equiv> AList.delete"

text \<open>\<open>LoadOrStore\<close> returns the value now present and whether it was there before.\<close>

definition sm_load_or_store :: "'k \<Rightarrow> 'v \<Rightarrow> ('k, 'v) smap \<Rightarrow> 'v \<times> bool \<times> ('k, 'v) smap" where
  "sm_load_or_store k v m =
     (case sm_load m k of Some w \<Rightarrow> (w, True, m) | None \<Rightarrow> (v, False, sm_store k v m))"

definition sm_load_and_delete :: "'k \<Rightarrow> ('k, 'v) smap \<Rightarrow> 'v option \<times> ('k, 'v) smap" where
  "sm_load_and_delete k m = (sm_load m k, sm_delete k m)"

lemma sm_ok_Nil [simp]: "sm_ok []"
  by (simp add: sm_ok_def)

lemma sm_ok_store [simp]: "sm_ok m \<Longrightarrow> sm_ok (sm_store k v m)"
  by (simp add: sm_ok_def distinct_update)

lemma sm_ok_delete [simp]: "sm_ok m \<Longrightarrow> sm_ok (sm_delete k m)"
  by (simp add: sm_ok_def distinct_delete)

lemma sm_load_store [simp]: "sm_load (sm_store k v m) k' = (if k' = k then Some v else sm_load m k')"
  by (simp add: update_conv')

lemma sm_load_delete [simp]: "sm_load (sm_delete k m) k' = (if k' = k then None else sm_load m k')"
  by (simp add: delete_conv')

lemma sm_store_new: "sm_load m k = None \<Longrightarrow> sm_store k v m = m @ [(k, v)]"
  by (induction m) (auto split: if_splits)

lemma length_sm_store:
  "length (sm_store k v m) = (if sm_load m k = None then Suc (length m) else length m)"
  by (induction m) auto

lemma sm_delete_absent: "sm_load m k = None \<Longrightarrow> sm_delete k m = m"
  by (induction m) (auto split: if_splits)

lemma length_sm_delete:
  "sm_ok m \<Longrightarrow> length (sm_delete k m) = (if sm_load m k = None then length m else length m - 1)"
proof (induction m)
  case Nil
  then show ?case by simp
next
  case (Cons a m)
  obtain k' v where a: "a = (k', v)" by (cases a)
  from Cons.prems have m: "sm_ok m" and k': "k' \<notin> set (map fst m)"
    by (auto simp: sm_ok_def a)
  show ?case
  proof (cases "k' = k")
    case True
    with k' have "sm_load m k = None" by (auto simp: map_of_eq_None_iff)
    with True show ?thesis by (simp add: a sm_delete_absent)
  next
    case False
    have "m \<noteq> []" if "sm_load m k \<noteq> None" using that by auto
    with False Cons.IH [OF m] show ?thesis by (auto simp: a)
  qed
qed

lemma sm_in_iff: "sm_ok m \<Longrightarrow> (k, v) \<in> set m \<longleftrightarrow> sm_load m k = Some v"
  by (simp add: sm_ok_def)

lemma sm_in_store: "(k', v') \<in> set (sm_store k v m) \<Longrightarrow> (k', v') = (k, v) \<or> (k', v') \<in> set m"
  by (induction m) (auto split: if_splits)

lemma sm_in_delete [simp]: "(k', v') \<in> set (sm_delete k m) \<longleftrightarrow> k' \<noteq> k \<and> (k', v') \<in> set m"
  by (auto simp: AList.delete_eq)

lemma filter_keys:
  "sm_ok es \<Longrightarrow> filter (\<lambda>e. fst e \<notin> fst ` set (filter P es)) es = filter (\<lambda>e. \<not> P e) es"
  by (rule filter_cong [OF refl]) (force simp: sm_ok_def distinct_map inj_on_def)

lemma length_pos_if_load: "sm_load m k = Some v \<Longrightarrow> 0 < length m"
  by (cases m) auto

text \<open>
  Several components keep a \<open>sync.Map\<close> beside an atomic counter of its entries.
  \<open>counted_map\<close> is what removing an entry promises; the counter may be ahead of the
  number of entries by some \<open>d\<close>, which removals keep.
\<close>

locale counted_map =
  fixes ents :: "'s \<Rightarrow> ('k, 'v) smap"
    and cnt :: "'s \<Rightarrow> int"
    and rem :: "'k \<Rightarrow> 's \<Rightarrow> 's"
  assumes ents_rem: "ents (rem k s) = sm_delete k (ents s)"
    and cnt_rem: "cnt (rem k s) = (if sm_load (ents s) k = None then cnt s else i64 (cnt s - 1))"
begin

lemma rem_counts:
  assumes ok: "sm_ok (ents s)" and c: "cnt s = i64 (int (length (ents s)) + d)"
  shows "cnt (rem k s) = i64 (int (length (ents (rem k s))) + d)"
proof (cases "sm_load (ents s) k")
  case None
  then show ?thesis using c by (simp add: ents_rem cnt_rem sm_delete_absent)
next
  case (Some v)
  then have n: "int (length (sm_delete k (ents s))) = int (length (ents s)) - 1"
    using length_sm_delete [OF ok, of k] length_pos_if_load [OF Some]
    by (simp del: length_greater_0_conv)
  have "i64 (cnt s - 1) = i64 (int (length (ents s)) + d - 1)" using c by simp
  also have "\<dots> = i64 (int (length (sm_delete k (ents s))) + d)"
    by (rule arg_cong [of _ _ i64]) (use n in linarith)
  finally show ?thesis using Some by (simp add: ents_rem cnt_rem)
qed

lemma rem_ok: "sm_ok (ents s) \<Longrightarrow> sm_ok (ents (rem k s))"
  by (simp add: ents_rem)

lemma fold_rem_counts:
  "sm_ok (ents s) \<Longrightarrow> cnt s = i64 (int (length (ents s)) + d) \<Longrightarrow>
   cnt (fold rem ks s) = i64 (int (length (ents (fold rem ks s))) + d)"
  by (induction ks arbitrary: s) (simp_all add: rem_counts rem_ok)

end

subsection \<open>Transition systems\<close>

text \<open>
  The states a component can reach from its initial states when its operations, and the
  steps of its environment, interleave in any order. \<open>inv_system\<close> is the contract of
  an invariant: it holds initially and every step keeps it, so it holds in every
  reachable state. Each concurrent component interprets it on its own step relation.
\<close>

inductive reach :: "('s \<Rightarrow> bool) \<Rightarrow> ('s \<Rightarrow> 's \<Rightarrow> bool) \<Rightarrow> 's \<Rightarrow> bool"
  for init :: "'s \<Rightarrow> bool" and step :: "'s \<Rightarrow> 's \<Rightarrow> bool" where
  reach_init: "init s \<Longrightarrow> reach init step s"
| reach_step: "reach init step s \<Longrightarrow> step s t \<Longrightarrow> reach init step t"

locale inv_system =
  fixes init :: "'s \<Rightarrow> bool"
    and step :: "'s \<Rightarrow> 's \<Rightarrow> bool"
    and inv :: "'s \<Rightarrow> bool"
  assumes inv_init: "init s \<Longrightarrow> inv s"
    and inv_step: "inv s \<Longrightarrow> step s t \<Longrightarrow> inv t"
begin

lemma reach_inv: "reach init step s \<Longrightarrow> inv s"
  by (induction rule: reach.induct) (blast intro: inv_init inv_step)+

lemma steps_inv: "step\<^sup>*\<^sup>* s t \<Longrightarrow> inv s \<Longrightarrow> inv t"
  by (induction rule: rtranclp_induct) (blast intro: inv_step)+

end

text \<open>A stable property: once true it stays true along every run.\<close>

lemma stable_steps:
  assumes "\<And>s t. step s t \<Longrightarrow> P s \<Longrightarrow> P t"
  shows "step\<^sup>*\<^sup>* s t \<Longrightarrow> P s \<Longrightarrow> P t"
  by (induction rule: rtranclp_induct) (blast intro: assms)+


subsection \<open>Updates that a projection does not see\<close>

lemma map_update_same: "f y = f (xs ! i) \<Longrightarrow> map f (xs[i := y]) = map f xs"
  by (cases "i < length xs") (metis list_update_id map_update, simp add: list_update_beyond)

end
