(* ===== verification/GW_Types.thy ===== *)
theory GW_Types
  imports GW_Prelude "HOL-Library.Word"
begin

text \<open>
  The data the components exchange: the protobuf messages of \<open>api/proto\<close> (their
  payload fields; the bookkeeping fields of the generated code carry no behaviour),
  the user information of a session, and the retry strategy the code obtains from
  \<open>ekit/retry\<close>, which is outside the repository and therefore an argument.
\<close>

type_synonym byte = "8 word"
type_synonym bytes = "byte list"

text \<open>The command types of \<open>Message\<close>. A protobuf 3 enum is open: any other number
  can arrive.\<close>

datatype command_type =
    INVALID_UNSPECIFIED
  | HEARTBEAT
  | UPSTREAM_MESSAGE
  | UPSTREAM_ACK
  | DOWNSTREAM_MESSAGE
  | DOWNSTREAM_ACK
  | REDIRECT
  | RATE_LIMIT_EXCEEDED
  | UNRECOGNIZED int

record message =
  msg_cmd :: command_type
  msg_key :: string
  msg_body :: bytes

record push_message =
  pm_key :: string
  pm_bizId :: int
  pm_receiverId :: int
  pm_body :: bytes

record on_receive_request =
  req_key :: string
  req_body :: bytes

record on_receive_response =
  resp_msgId :: int
  resp_bizId :: int

record node =
  nd_id :: string
  nd_ip :: string
  nd_port :: int
  nd_weight :: int
  nd_location :: string
  nd_labels :: "string list"
  nd_capacity :: int
  nd_load :: int

record user_info =
  BizID :: int
  UserID :: int
  AutoClose :: bool

subsection \<open>Retry strategies\<close>

text \<open>
  \<open>retry.Strategy\<close> of \<open>ekit\<close>: \<open>Next\<close> returns the next waiting time and the
  strategy's new state, or reports that no retry is left (\<open>None\<close>).
  \<open>gives_up nxt rs n\<close> says that at most \<open>n\<close> retries are left in state \<open>rs\<close>, which
  is what the documentation of the exponential strategy promises for a positive
  \<open>maxRetries = n\<close>.
\<close>

type_synonym 'rs strategy = "'rs \<Rightarrow> (int \<times> 'rs) option"

fun gives_up :: "'rs strategy \<Rightarrow> 'rs \<Rightarrow> nat \<Rightarrow> bool" where
  "gives_up nxt rs 0 = (nxt rs = None)"
| "gives_up nxt rs (Suc n) =
     (case nxt rs of None \<Rightarrow> True | Some (_, rs') \<Rightarrow> gives_up nxt rs' n)"

text \<open>A strategy that counts its remaining retries, used where a closed instance is needed.\<close>

definition countdown :: "nat strategy" where
  "countdown n = (case n of 0 \<Rightarrow> None | Suc m \<Rightarrow> Some (1, m))"

lemma countdown_simps [simp]:
  "countdown 0 = None" "countdown (Suc n) = Some (1, n)"
  by (simp_all add: countdown_def)

lemma countdown_gives_up: "gives_up countdown n n"
  by (induction n) simp_all

subsection \<open>Remote calls\<close>

text \<open>The fate of one call to a store on the network: done; not executed; executed, but the answer was lost.\<close>

datatype remote_call = ROk | RRefused string | RLost string

definition remote_run :: "remote_call \<Rightarrow> ('r \<Rightarrow> 'a \<times> 'r) \<Rightarrow> 'r \<Rightarrow> (gerr + 'a) \<times> 'r" where
  "remote_run c f db =
     (case c of
        ROk \<Rightarrow> let (a, db') = f db in (Inr a, db')
      | RRefused err \<Rightarrow> (Inl (Ext err), db)
      | RLost err \<Rightarrow> (Inl (Ext err), snd (f db)))"

lemma remote_run_ROk [simp]: "remote_run ROk f db = (Inr (fst (f db)), snd (f db))"
  by (simp add: remote_run_def case_prod_beta)

end
