(* ===== verification/GW_Link.thy ===== *)
theory GW_Link
  imports GW_Types
begin

text \<open>
  \<open>internal/link/link.go\<close>: one user connection. The state of a \<open>Link\<close> with its
  options and constructor, its public operations, and the two goroutines
  \<open>sendLoop\<close> and \<open>receiveLoop\<close> as steps of a transition system in which they
  interleave with callers of \<open>Send\<close>, readers of \<open>Receive\<close>, closers, and the
  network. The network's answers (the result of a frame write, of a frame read, of
  closing the socket) are arguments of the steps; everything written is recorded in
  \<open>lk_wire\<close>, also the frames with which the control handler of \<open>wswrapper/reader.go\<close>
  answers control frames of the client while the receive loop is in \<open>Read\<close>. The second
  closing of the socket, by the deferred call of \<open>handleConn\<close>, is a step as well.
\<close>

subsection \<open>State\<close>

text \<open>\<open>FClose\<close> is the close frame \<open>Close\<close> writes; the last two are written by the control handler:
  the answer to a close frame of the client and to a ping.\<close>

datatype frame = FData bytes | FClose | FCloseReply | FPong

record link =
  lk_id :: string
  lk_user :: user_info
  lk_readTimeout :: int
  lk_writeTimeout :: int
  lk_compression :: "bool option"
  lk_initRetryInterval :: int
  lk_maxRetryInterval :: int
  lk_maxRetries :: int
  lk_sendCh :: "bytes chan"
  lk_receiveCh :: "bytes chan"
  lk_done :: bool
  lk_once :: bool
  lk_closeErr :: "gerr option"
  lk_autoClose :: bool
  lk_lastActive :: int
  lk_limitRate :: int
  lk_compressWriter :: bool
  lk_wire :: "frame list"
  lk_connCloses :: nat

text \<open>Times are in nanoseconds, as \<open>time.Duration\<close> is.\<close>

definition DefaultReadTimeout :: int where "DefaultReadTimeout = 30000000000"
definition DefaultWriteTimeout :: int where "DefaultWriteTimeout = 10000000000"
definition DefaultInitRetryInterval :: int where "DefaultInitRetryInterval = 1000000000"
definition DefaultMaxRetryInterval :: int where "DefaultMaxRetryInterval = 5000000000"
definition DefaultMaxRetries :: int where "DefaultMaxRetries = 3"
definition DefaultWriteBufferSize :: nat where "DefaultWriteBufferSize = 256"
definition DefaultReadBufferSize :: nat where "DefaultReadBufferSize = 256"
definition DefaultUserRateLimit :: int where "DefaultUserRateLimit = 10"

subsection \<open>Options and constructor\<close>

text \<open>
  An option is a function on the link under construction. \<open>make(chan T, n)\<close> panics
  for a negative \<open>n\<close>: \<open>None\<close> is that panic.
\<close>

type_synonym link_option = "link \<Rightarrow> link option"

definition WithTimeouts :: "int \<Rightarrow> int \<Rightarrow> link_option" where
  "WithTimeouts r w l = Some (l\<lparr>lk_readTimeout := r, lk_writeTimeout := w\<rparr>)"

definition WithCompression :: "bool option \<Rightarrow> link_option" where
  "WithCompression st l = Some (l\<lparr>lk_compression := st\<rparr>)"

definition WithRetry :: "int \<Rightarrow> int \<Rightarrow> int \<Rightarrow> link_option" where
  "WithRetry initInterval maxInterval maxRetries l =
     Some (l\<lparr>lk_initRetryInterval := initInterval, lk_maxRetryInterval := maxInterval,
             lk_maxRetries := maxRetries\<rparr>)"

definition WithBuffer :: "int \<Rightarrow> int \<Rightarrow> link_option" where
  "WithBuffer sendBuf recvBuf l =
     (if sendBuf < 0 \<or> recvBuf < 0 then None
      else Some (l\<lparr>lk_sendCh := ch_make (nat sendBuf), lk_receiveCh := ch_make (nat recvBuf)\<rparr>))"

definition WithAutoClose :: "bool \<Rightarrow> link_option" where
  "WithAutoClose b l = Some (l\<lparr>lk_autoClose := b\<rparr>)"

definition WithRateLimit :: "int \<Rightarrow> link_option" where
  "WithRateLimit rate l = Some (if rate > 0 then l\<lparr>lk_limitRate := rate\<rparr> else l)"

fun apply_options :: "link_option list \<Rightarrow> link_option" where
  "apply_options [] l = Some l"
| "apply_options (opt # opts) l =
     (case opt l of None \<Rightarrow> None | Some l' \<Rightarrow> apply_options opts l')"

text \<open>\<open>New\<close>, called at time \<open>now\<close>; starting the goroutines is the initial state of
  the transition system below.\<close>

definition link_new :: "int \<Rightarrow> string \<Rightarrow> user_info \<Rightarrow> link_option list \<Rightarrow> link option" where
  "link_new now i u opts =
     (let l = \<lparr>lk_id = i, lk_user = u,
               lk_readTimeout = DefaultReadTimeout, lk_writeTimeout = DefaultWriteTimeout,
               lk_compression = None,
               lk_initRetryInterval = DefaultInitRetryInterval,
               lk_maxRetryInterval = DefaultMaxRetryInterval,
               lk_maxRetries = DefaultMaxRetries,
               lk_sendCh = ch_make DefaultWriteBufferSize,
               lk_receiveCh = ch_make DefaultReadBufferSize,
               lk_done = False, lk_once = False, lk_closeErr = None,
               lk_autoClose = False, lk_lastActive = now, lk_limitRate = 0,
               lk_compressWriter = False, lk_wire = [], lk_connCloses = 0\<rparr>
      in case apply_options opts l of
           None \<Rightarrow> None
         | Some l' \<Rightarrow>
             Some (l'\<lparr>lk_compressWriter := (case lk_compression l' of None \<Rightarrow> False | Some b \<Rightarrow> b)\<rparr>))"

subsection \<open>Public operations\<close>

text \<open>
  \<open>Send\<close> selects between the closed context and the send channel. When both are
  ready Go picks either: \<open>pick\<close> is that choice. \<open>SBlocked\<close>: neither is ready, the
  caller waits. After the channel accepted the payload the context is checked again,
  so a payload can be queued and the call still report that the link is closed;
  \<open>late\<close> says that the link was closed between the two.
\<close>

datatype 'l send_result = SBlocked | SReturn "gerr option" 'l

definition link_send :: "bool \<Rightarrow> bool \<Rightarrow> link \<Rightarrow> bytes \<Rightarrow> link send_result" where
  "link_send pick late l p =
     (if lk_done l \<and> (pick \<or> \<not> ch_room (lk_sendCh l)) then
        SReturn (Some (WrapE [Sen ErrLinkClosed])) l
      else (case ch_try_send (lk_sendCh l) p of
              None \<Rightarrow> SBlocked
            | Some c \<Rightarrow>
                let l' = l\<lparr>lk_sendCh := c, lk_done := lk_done l \<or> late\<rparr>
                in SReturn (if lk_done l' then Some (WrapE [Sen ErrLinkClosed]) else None) l'))"

text \<open>
  \<open>Close\<close>. \<open>fw\<close>: whether the close frame reached the network (errors of that write
  are ignored), \<open>ce\<close>: what closing the socket returned. The body runs once.
\<close>

definition link_close :: "bool \<Rightarrow> gerr option \<Rightarrow> link \<Rightarrow> gerr option \<times> link" where
  "link_close fw ce l =
     (let l' = (if lk_once l then l
                else l\<lparr>lk_once := True,
                       lk_wire := (if fw then lk_wire l @ [FClose] else lk_wire l),
                       lk_done := True,
                       lk_connCloses := Suc (lk_connCloses l),
                       lk_closeErr := ce\<rparr>)
      in (lk_closeErr l', l'))"

definition link_updateActiveTime :: "int \<Rightarrow> link \<Rightarrow> link" where
  "link_updateActiveTime now l = (if \<not> lk_done l then l\<lparr>lk_lastActive := now\<rparr> else l)"

definition link_tryCloseIfIdle ::
  "int \<Rightarrow> int \<Rightarrow> bool \<Rightarrow> gerr option \<Rightarrow> link \<Rightarrow> bool \<times> link" where
  "link_tryCloseIfIdle now timeout fw ce l =
     (if lk_done l then (True, l)
      else if \<not> lk_autoClose l \<or> now - lk_lastActive l \<le> timeout then (False, l)
      else (True, snd (link_close fw ce l)))"

subsection \<open>The send loop\<close>

datatype write_res = WOk | WTimeout | WFail

datatype 'rs attempt_res = AtSent link | AtRetry 'rs link | AtGaveUp link

text \<open>One round of the loop in \<open>sendWithRetry\<close>, up to the wait before the next one.
  A write that succeeded put one data frame on the wire.\<close>

definition send_attempt ::
  "'rs strategy \<Rightarrow> 'rs \<Rightarrow> write_res \<Rightarrow> bytes \<Rightarrow> link \<Rightarrow> 'rs attempt_res" where
  "send_attempt nxt rs w p l =
     (if lk_done l then AtGaveUp l
      else (case w of
              WOk \<Rightarrow> AtSent (l\<lparr>lk_wire := lk_wire l @ [FData p]\<rparr>)
            | WTimeout \<Rightarrow> (case nxt rs of None \<Rightarrow> AtGaveUp l | Some (_, rs') \<Rightarrow> AtRetry rs' l)
            | WFail \<Rightarrow> AtGaveUp l))"

text \<open>
  The whole of \<open>sendWithRetry\<close> against a script of what happens in each round: was
  the link closed before the round, what did the write return, was the link closed
  while waiting. \<open>None\<close>: the script ended before the function returned. The strategy is the
  one the retry library made: the code ignores the constructor's error, and with intervals it refuses the strategy is nil.
\<close>

record round =
  rd_closedBefore :: bool
  rd_write :: write_res
  rd_closedWait :: bool

fun link_sendWithRetry ::
  "'rs strategy \<Rightarrow> 'rs \<Rightarrow> round list \<Rightarrow> bytes \<Rightarrow> link \<Rightarrow> (bool \<times> link) option" where
  "link_sendWithRetry nxt rs [] p l = None"
| "link_sendWithRetry nxt rs (r # rds) p l =
     (case send_attempt nxt rs (rd_write r) p (l\<lparr>lk_done := lk_done l \<or> rd_closedBefore r\<rparr>) of
        AtSent l' \<Rightarrow> Some (True, l')
      | AtGaveUp l' \<Rightarrow> Some (False, l')
      | AtRetry rs' l' \<Rightarrow>
          let l'' = l'\<lparr>lk_done := lk_done l' \<or> rd_closedWait r\<rparr>
          in if lk_done l'' then Some (False, l'') else link_sendWithRetry nxt rs' rds p l'')"

subsection \<open>The receive loop\<close>

text \<open>The result of \<open>Reader.Read\<close>: a message, a timeout of the read deadline, a close
  frame of the client with its status code, or another error.\<close>

datatype read_res = ROk bytes | RTimeout | RClosed int | RFail

datatype recv_res = RvPayload bytes | RvAgain | RvExit bool

definition StatusNoStatusRcvd :: int where "StatusNoStatusRcvd = 1005"
definition StatusGoingAway :: int where "StatusGoingAway = 1001"

text \<open>
  The reaction to one read: the flag of \<open>RvExit\<close> says that the exit is logged as an
  orderly close by the client. The code's condition
  \<open>errors.As(..) && Code == NoStatusRcvd || Code == GoingAway\<close> reads a zero code
  when the error is not a close error.
\<close>

definition receive_attempt :: "read_res \<Rightarrow> recv_res" where
  "receive_attempt r =
     (case r of
        ROk p \<Rightarrow> RvPayload p
      | RTimeout \<Rightarrow> RvAgain
      | RClosed code \<Rightarrow> RvExit (code = StatusNoStatusRcvd \<or> code = StatusGoingAway)
      | RFail \<Rightarrow> RvExit False)"

subsection \<open>The goroutines and their environment\<close>

text \<open>
  Where each goroutine stands: \<open>sendLoop\<close> at its select, writing a payload, waiting
  before a retry, or gone; \<open>receiveLoop\<close> at the top of its loop, reading, handing a
  payload over, or gone. \<open>ls_accepted\<close>, \<open>ls_read\<close> and \<open>ls_delivered\<close> record the
  payloads the send channel accepted, those read from the client, and those a reader
  took from \<open>Receive()\<close>. \<open>ls_answered\<close>: the control handler has answered a close frame;
  \<open>ls_deferred\<close>: the deferred \<open>conn.Close\<close> of \<open>handleConn\<close> has run.
\<close>

datatype 'rs send_pc = SSelect | SSend bytes 'rs | SWait bytes 'rs | SExit
datatype recv_pc = RTop | RRead | RDeliver bytes | RExit

record 'rs lsys =
  ls_link :: link
  ls_spc :: "'rs send_pc"
  ls_rpc :: recv_pc
  ls_accepted :: "bytes list"
  ls_read :: "bytes list"
  ls_delivered :: "bytes list"
  ls_answered :: bool
  ls_deferred :: bool

definition link_start :: "link \<Rightarrow> 'rs lsys" where
  "link_start l = \<lparr>ls_link = l, ls_spc = SSelect, ls_rpc = RTop,
                   ls_accepted = [], ls_read = [], ls_delivered = [],
                   ls_answered = False, ls_deferred = False\<rparr>"

definition sendLoop_exit :: "bool \<Rightarrow> gerr option \<Rightarrow> 'rs lsys \<Rightarrow> 'rs lsys" where
  "sendLoop_exit fw ce s = s\<lparr>ls_spc := SExit, ls_link := snd (link_close fw ce (ls_link s))\<rparr>"

text \<open>One step of \<open>sendLoop\<close> (with \<open>sendWithRetry\<close> inlined round by round);
  \<open>None\<close>: it is blocked or gone. \<open>pick\<close> resolves a select with two ready cases.\<close>

definition sendLoop_step ::
  "'rs strategy \<Rightarrow> 'rs \<Rightarrow> bool \<Rightarrow> write_res \<Rightarrow> bool \<Rightarrow> gerr option \<Rightarrow> 'rs lsys \<Rightarrow> 'rs lsys option" where
  "sendLoop_step nxt rs0 pick w fw ce s =
     (let l = ls_link s in
      case ls_spc s of
        SSelect \<Rightarrow>
          if lk_done l \<and> (pick \<or> ch_buf (lk_sendCh l) = []) then Some (sendLoop_exit fw ce s)
          else (case ch_try_recv (lk_sendCh l) of
                  None \<Rightarrow> None
                | Some (p, c) \<Rightarrow> Some (s\<lparr>ls_spc := SSend p rs0, ls_link := l\<lparr>lk_sendCh := c\<rparr>\<rparr>))
      | SSend p rs \<Rightarrow>
          (case send_attempt nxt rs w p l of
             AtSent l' \<Rightarrow> Some (s\<lparr>ls_spc := SSelect, ls_link := l'\<rparr>)
           | AtRetry rs' l' \<Rightarrow> Some (s\<lparr>ls_spc := SWait p rs', ls_link := l'\<rparr>)
           | AtGaveUp l' \<Rightarrow> Some (sendLoop_exit fw ce (s\<lparr>ls_link := l'\<rparr>)))
      | SWait p rs \<Rightarrow>
          if lk_done l \<and> pick then Some (sendLoop_exit fw ce s) else Some (s\<lparr>ls_spc := SSend p rs\<rparr>)
      | SExit \<Rightarrow> None)"

definition receiveLoop_exit :: "bool \<Rightarrow> gerr option \<Rightarrow> 'rs lsys \<Rightarrow> 'rs lsys" where
  "receiveLoop_exit fw ce s =
     (let l = ls_link s; l' = l\<lparr>lk_receiveCh := (lk_receiveCh l)\<lparr>ch_closed := True\<rparr>\<rparr>
      in s\<lparr>ls_rpc := RExit, ls_link := snd (link_close fw ce l')\<rparr>)"

definition receiveLoop_step ::
  "bool \<Rightarrow> read_res \<Rightarrow> bool \<Rightarrow> gerr option \<Rightarrow> 'rs lsys \<Rightarrow> 'rs lsys option" where
  "receiveLoop_step pick r fw ce s =
     (let l = ls_link s in
      case ls_rpc s of
        RTop \<Rightarrow> if lk_done l then Some (receiveLoop_exit fw ce s) else Some (s\<lparr>ls_rpc := RRead\<rparr>)
      | RRead \<Rightarrow>
          (case receive_attempt r of
             RvPayload p \<Rightarrow> Some (s\<lparr>ls_rpc := RDeliver p, ls_read := ls_read s @ [p]\<rparr>)
           | RvAgain \<Rightarrow> Some (s\<lparr>ls_rpc := RTop\<rparr>)
           | RvExit _ \<Rightarrow> Some (receiveLoop_exit fw ce s))
      | RDeliver p \<Rightarrow>
          if lk_done l \<and> (pick \<or> \<not> ch_room (lk_receiveCh l)) then Some (receiveLoop_exit fw ce s)
          else (case ch_try_send (lk_receiveCh l) p of
                  None \<Rightarrow> None
                | Some c \<Rightarrow> Some (s\<lparr>ls_rpc := RTop, ls_link := l\<lparr>lk_receiveCh := c\<rparr>\<rparr>))
      | RExit \<Rightarrow> None)"

text \<open>
  While \<open>Reader.Read\<close> runs, the control handler writes to the same connection: a pong for
  each ping, and one close frame in answer to a close frame of the client, after which
  \<open>Read\<close> returns its \<open>ClosedError\<close>, or another error when the close frame was malformed.
\<close>

definition control_frame :: "frame \<Rightarrow> bool" where
  "control_frame f \<longleftrightarrow> f = FPong \<or> f = FCloseReply"

definition control_reply :: "frame \<Rightarrow> 'rs lsys \<Rightarrow> 'rs lsys" where
  "control_reply f s = s\<lparr>ls_link := (ls_link s)\<lparr>lk_wire := lk_wire (ls_link s) @ [f]\<rparr>,
                         ls_answered := ls_answered s \<or> f = FCloseReply\<rparr>"

definition read_agrees :: "bool \<Rightarrow> read_res \<Rightarrow> bool" where
  "read_agrees answered r =
     (case r of RClosed code \<Rightarrow> answered | RFail \<Rightarrow> True | ROk p \<Rightarrow> \<not> answered | RTimeout \<Rightarrow> \<not> answered)"

lemma read_agrees_simps [simp]:
  "read_agrees a RFail" "read_agrees a (RClosed code) = a"
  "read_agrees a (ROk p) = (\<not> a)" "read_agrees a RTimeout = (\<not> a)"
  by (simp_all add: read_agrees_def)

text \<open>The socket is closed once more: \<open>handleConn\<close> defers this before it has a link, so it runs
  after the deferred \<open>Close\<close> of the link. The error (\<open>net.ErrClosed\<close>) is ignored.\<close>

definition conn_close :: "link \<Rightarrow> link" where
  "conn_close l = l\<lparr>lk_connCloses := Suc (lk_connCloses l)\<rparr>"

lemma conn_close_frame [simp]:
  "lk_id (conn_close l) = lk_id l" "lk_user (conn_close l) = lk_user l"
  "lk_sendCh (conn_close l) = lk_sendCh l" "lk_receiveCh (conn_close l) = lk_receiveCh l"
  "lk_done (conn_close l) = lk_done l" "lk_once (conn_close l) = lk_once l"
  "lk_wire (conn_close l) = lk_wire l" "lk_connCloses (conn_close l) = Suc (lk_connCloses l)"
  by (simp_all add: conn_close_def)

inductive link_step :: "'rs strategy \<Rightarrow> 'rs \<Rightarrow> 'rs lsys \<Rightarrow> 'rs lsys \<Rightarrow> bool"
  for nxt :: "'rs strategy" and rs0 :: 'rs where
  step_send: "link_send pick late (ls_link s) p = SReturn e l' \<Longrightarrow>
     link_step nxt rs0 s (s\<lparr>ls_link := l', ls_accepted := ls_accepted s @
        (if lk_sendCh l' = lk_sendCh (ls_link s) then [] else [p])\<rparr>)"
| step_close: "link_step nxt rs0 s (s\<lparr>ls_link := snd (link_close fw ce (ls_link s))\<rparr>)"
| step_idle: "link_step nxt rs0 s
     (s\<lparr>ls_link := snd (link_tryCloseIfIdle now timeout fw ce (ls_link s))\<rparr>)"
| step_touch: "link_step nxt rs0 s (s\<lparr>ls_link := link_updateActiveTime now (ls_link s)\<rparr>)"
| step_parent: "link_step nxt rs0 s (s\<lparr>ls_link := (ls_link s)\<lparr>lk_done := True\<rparr>\<rparr>)"
| step_sendLoop: "sendLoop_step nxt rs0 pick w fw ce s = Some t \<Longrightarrow> link_step nxt rs0 s t"
| step_receiveLoop: "receiveLoop_step pick r fw ce s = Some t \<Longrightarrow>
     (ls_rpc s = RRead \<Longrightarrow> read_agrees (ls_answered s) r) \<Longrightarrow> link_step nxt rs0 s t"
| step_control: "ls_rpc s = RRead \<Longrightarrow> \<not> ls_answered s \<Longrightarrow> control_frame f \<Longrightarrow>
     link_step nxt rs0 s (control_reply f s)"
| step_deferred: "lk_once (ls_link s) \<Longrightarrow> \<not> ls_deferred s \<Longrightarrow>
     link_step nxt rs0 s (s\<lparr>ls_link := conn_close (ls_link s), ls_deferred := True\<rparr>)"
| step_reader: "ch_try_recv (lk_receiveCh (ls_link s)) = Some (p, c) \<Longrightarrow>
     link_step nxt rs0 s (s\<lparr>ls_link := (ls_link s)\<lparr>lk_receiveCh := c\<rparr>,
                           ls_delivered := ls_delivered s @ [p]\<rparr>)"

subsection \<open>Facts about the operations\<close>

fun data_of :: "frame list \<Rightarrow> bytes list" where
  "data_of [] = []"
| "data_of (FData p # fs) = p # data_of fs"
| "data_of (FClose # fs) = data_of fs"
| "data_of (FCloseReply # fs) = data_of fs"
| "data_of (FPong # fs) = data_of fs"

definition close_replies :: "frame list \<Rightarrow> nat" where
  "close_replies fs = length (filter (\<lambda>f. f = FCloseReply) fs)"

definition close_frames :: "frame list \<Rightarrow> nat" where
  "close_frames fs = length (filter (\<lambda>f. f = FClose) fs)"

lemma data_of_append [simp]: "data_of (xs @ ys) = data_of xs @ data_of ys"
  by (induction xs rule: data_of.induct) auto

lemma close_frames_simps [simp]:
  "close_frames [] = 0"
  "close_frames (xs @ ys) = close_frames xs + close_frames ys"
  "close_frames (FData p # fs) = close_frames fs"
  "close_frames (FClose # fs) = Suc (close_frames fs)"
  by (simp_all add: close_frames_def)

lemma close_replies_simps [simp]:
  "close_replies [] = 0"
  "close_replies (xs @ ys) = close_replies xs + close_replies ys"
  "close_replies (FData p # fs) = close_replies fs"
  "close_replies (FClose # fs) = close_replies fs"
  by (simp_all add: close_replies_def)

lemma control_frame_data [simp]:
  "control_frame f \<Longrightarrow> data_of [f] = [] \<and> close_frames [f] = 0
     \<and> close_replies [f] = (if f = FCloseReply then 1 else 0)"
  by (auto simp: control_frame_def close_frames_def close_replies_def)

text \<open>The parts of a link that each operation leaves alone.\<close>

lemma link_close_frame [simp]:
  "lk_id (snd (link_close fw ce l)) = lk_id l"
  "lk_user (snd (link_close fw ce l)) = lk_user l"
  "lk_sendCh (snd (link_close fw ce l)) = lk_sendCh l"
  "lk_receiveCh (snd (link_close fw ce l)) = lk_receiveCh l"
  "lk_autoClose (snd (link_close fw ce l)) = lk_autoClose l"
  "lk_once (snd (link_close fw ce l))"
  "data_of (lk_wire (snd (link_close fw ce l))) = data_of (lk_wire l)"
  "close_replies (lk_wire (snd (link_close fw ce l))) = close_replies (lk_wire l)"
  by (simp_all add: link_close_def Let_def)

lemma link_close_done [simp]:
  "lk_done (snd (link_close fw ce l)) \<longleftrightarrow> \<not> lk_once l \<or> lk_done l"
  by (auto simp: link_close_def Let_def)

lemma link_close_counts:
  "lk_connCloses (snd (link_close fw ce l)) = lk_connCloses l + (if lk_once l then 0 else 1)"
  "close_frames (lk_wire (snd (link_close fw ce l)))
     = close_frames (lk_wire l) + (if lk_once l \<or> \<not> fw then 0 else 1)"
  by (simp_all add: link_close_def Let_def)

lemma link_updateActiveTime_frame [simp]:
  "lk_id (link_updateActiveTime now l) = lk_id l"
  "lk_user (link_updateActiveTime now l) = lk_user l"
  "lk_sendCh (link_updateActiveTime now l) = lk_sendCh l"
  "lk_receiveCh (link_updateActiveTime now l) = lk_receiveCh l"
  "lk_done (link_updateActiveTime now l) = lk_done l"
  "lk_once (link_updateActiveTime now l) = lk_once l"
  "lk_wire (link_updateActiveTime now l) = lk_wire l"
  "lk_connCloses (link_updateActiveTime now l) = lk_connCloses l"
  by (simp_all add: link_updateActiveTime_def)

lemma link_tryCloseIfIdle_cases:
  "snd (link_tryCloseIfIdle now timeout fw ce l) = l \<or>
   snd (link_tryCloseIfIdle now timeout fw ce l) = snd (link_close fw ce l)"
  by (simp add: link_tryCloseIfIdle_def)

lemma link_send_return:
  assumes "link_send pick late l p = SReturn e l'"
  shows "(e = Some (WrapE [Sen ErrLinkClosed]) \<and> lk_done l \<and> l' = l) \<or>
         (\<exists>c. ch_try_send (lk_sendCh l) p = Some c \<and>
              l' = l\<lparr>lk_sendCh := c, lk_done := lk_done l \<or> late\<rparr> \<and>
              e = (if lk_done l \<or> late then Some (WrapE [Sen ErrLinkClosed]) else None))"
  using assms
  by (auto simp: link_send_def Let_def split: if_splits option.splits)

lemma send_attempt_frame:
  "send_attempt nxt rs w p l = AtGaveUp l' \<Longrightarrow> l' = l"
  "send_attempt nxt rs w p l = AtRetry rs' l' \<Longrightarrow> l' = l"
  "send_attempt nxt rs w p l = AtSent l' \<Longrightarrow>
     \<not> lk_done l \<and> w = WOk \<and> l' = l\<lparr>lk_wire := lk_wire l @ [FData p]\<rparr>"
  by (auto simp: send_attempt_def split: if_splits write_res.splits option.splits)

subsection \<open>Links on a heap\<close>

text \<open>Which user each link on the heap belongs to: no operation of a link changes it.\<close>

definition heap_ids :: "link list \<Rightarrow> (string \<times> user_info) list" where
  "heap_ids h = map (\<lambda>l. (lk_id l, lk_user l)) h"

lemma length_heap_ids [simp]: "length (heap_ids h) = length h"
  by (simp add: heap_ids_def)

lemma heap_ids_nth: "r < length h \<Longrightarrow> heap_ids h ! r = (lk_id (h ! r), lk_user (h ! r))"
  by (simp add: heap_ids_def)

lemma heap_ids_append [simp]: "heap_ids (h @ [l]) = heap_ids h @ [(lk_id l, lk_user l)]"
  by (simp add: heap_ids_def)

lemma heap_ids_update:
  assumes "lk_id l' = lk_id (h ! r)" and "lk_user l' = lk_user (h ! r)"
  shows "heap_ids (h[r := l']) = heap_ids h"
proof (cases "r < length h")
  case True
  then have "heap_ids (h[r := l']) = (heap_ids h)[r := heap_ids h ! r]"
    using assms by (simp add: heap_ids_def map_update)
  then show ?thesis by simp
qed (simp add: list_update_beyond)

lemma link_send_ids:
  "link_send pick late l p = SReturn e l' \<Longrightarrow> lk_id l' = lk_id l \<and> lk_user l' = lk_user l"
  by (auto dest: link_send_return)

lemma link_tryClose_ids [simp]:
  "lk_id (snd (link_tryCloseIfIdle now t fw ce l)) = lk_id l"
  "lk_user (snd (link_tryCloseIfIdle now t fw ce l)) = lk_user l"
  by (simp_all add: link_tryCloseIfIdle_def)

subsection \<open>The invariant of a running link\<close>

definition send_inflight :: "'rs send_pc \<Rightarrow> bytes list" where
  "send_inflight pc = (case pc of SSend p _ \<Rightarrow> [p] | SWait p _ \<Rightarrow> [p] | _ \<Rightarrow> [])"

definition recv_inflight :: "recv_pc \<Rightarrow> bytes list" where
  "recv_inflight pc = (case pc of RDeliver p \<Rightarrow> [p] | _ \<Rightarrow> [])"

lemma inflight_simps [simp]:
  "send_inflight SSelect = []" "send_inflight (SSend p rs) = [p]"
  "send_inflight (SWait p rs) = [p]" "send_inflight SExit = []"
  "recv_inflight RTop = []" "recv_inflight RRead = []"
  "recv_inflight (RDeliver p) = [p]" "recv_inflight RExit = []"
  by (simp_all add: send_inflight_def recv_inflight_def)

text \<open>Sending side: what was written, is being written and is queued is, in this
  order, what was accepted; once the loop is gone, what was written is a prefix.\<close>

definition send_side :: "'rs lsys \<Rightarrow> bool" where
  "send_side s \<longleftrightarrow>
     (if ls_spc s = SExit then prefix (data_of (lk_wire (ls_link s))) (ls_accepted s)
      else data_of (lk_wire (ls_link s)) @ send_inflight (ls_spc s) @ ch_buf (lk_sendCh (ls_link s))
             = ls_accepted s)
     \<and> ch_ok (lk_sendCh (ls_link s))"

text \<open>Receiving side, likewise; and the channel is closed by its only writer, on exit.\<close>

definition recv_side :: "'rs lsys \<Rightarrow> bool" where
  "recv_side s \<longleftrightarrow>
     (if ls_rpc s = RExit then prefix (ls_delivered s @ ch_buf (lk_receiveCh (ls_link s))) (ls_read s)
      else ls_delivered s @ ch_buf (lk_receiveCh (ls_link s)) @ recv_inflight (ls_rpc s) = ls_read s)
     \<and> ch_ok (lk_receiveCh (ls_link s))
     \<and> (ch_closed (lk_receiveCh (ls_link s)) \<longleftrightarrow> ls_rpc s = RExit)"

definition close_side :: "'rs lsys \<Rightarrow> bool" where
  "close_side s \<longleftrightarrow>
     (lk_once (ls_link s) \<longrightarrow> lk_done (ls_link s))
     \<and> lk_connCloses (ls_link s) = (if lk_once (ls_link s) then 1 else 0) + (if ls_deferred s then 1 else 0)
     \<and> (ls_deferred s \<longrightarrow> lk_once (ls_link s))
     \<and> close_frames (lk_wire (ls_link s)) \<le> (if lk_once (ls_link s) then 1 else 0)
     \<and> close_replies (lk_wire (ls_link s)) = (if ls_answered s then 1 else 0)
     \<and> (ls_answered s \<longrightarrow> ls_rpc s = RRead \<or> ls_rpc s = RExit)
     \<and> (ls_spc s = SExit \<or> ls_rpc s = RExit \<longrightarrow> lk_once (ls_link s))"

definition link_inv :: "'rs lsys \<Rightarrow> bool" where
  "link_inv s \<longleftrightarrow> send_side s \<and> recv_side s \<and> close_side s"

text \<open>A freshly constructed link.\<close>

definition link_fresh :: "link \<Rightarrow> bool" where
  "link_fresh l \<longleftrightarrow> ch_buf (lk_sendCh l) = [] \<and> ch_buf (lk_receiveCh l) = [] \<and>
     \<not> ch_closed (lk_receiveCh l) \<and> \<not> lk_done l \<and> \<not> lk_once l \<and>
     lk_wire l = [] \<and> lk_connCloses l = 0"

definition link_init :: "'rs lsys \<Rightarrow> bool" where
  "link_init s \<longleftrightarrow> link_fresh (ls_link s) \<and> s = link_start (ls_link s)"

lemma link_init_inv: "link_init s \<Longrightarrow> link_inv s"
proof -
  assume a: "link_init s"
  then have f: "link_fresh (ls_link s)" and s: "s = link_start (ls_link s)"
    by (simp_all add: link_init_def)
  have "link_inv (link_start (ls_link s) :: 'a lsys)"
    using f by (simp add: link_inv_def send_side_def recv_side_def close_side_def link_start_def
        link_fresh_def ch_ok_def)
  with s show ?thesis by simp
qed

text \<open>Each kind of step keeps each side.\<close>

lemmas side_defs = send_side_def recv_side_def close_side_def

lemma close_step_inv: "link_inv s \<Longrightarrow> link_inv (s\<lparr>ls_link := snd (link_close fw ce (ls_link s))\<rparr>)"
  by (auto simp: link_inv_def side_defs link_close_counts split: if_splits)

lemma close_side_close:
  "close_side s \<Longrightarrow> close_side (s\<lparr>ls_spc := SExit, ls_link := snd (link_close fw ce (ls_link s))\<rparr>)"
  "close_side s \<Longrightarrow> close_side (s\<lparr>ls_rpc := RExit, ls_link := snd (link_close fw ce (ls_link s))\<rparr>)"
  by (auto simp: close_side_def link_close_counts)

lemma prefix_of_eq: "a @ b = c \<Longrightarrow> prefix a c" "a @ b @ d = c \<Longrightarrow> prefix (a @ b) c"
  by (auto simp: prefix_def)

lemma sendLoop_exit_inv: "link_inv s \<Longrightarrow> link_inv (sendLoop_exit fw ce s)"
proof -
  assume i: "link_inv s"
  have "send_side (sendLoop_exit fw ce s)"
    using i by (auto simp: link_inv_def send_side_def sendLoop_exit_def intro: prefix_of_eq split: if_splits)
  moreover have "recv_side (sendLoop_exit fw ce s)"
    using i by (auto simp: link_inv_def recv_side_def sendLoop_exit_def)
  moreover have "close_side (sendLoop_exit fw ce s)"
    using i close_side_close(1) by (auto simp: link_inv_def sendLoop_exit_def)
  ultimately show ?thesis by (simp add: link_inv_def)
qed

lemma receiveLoop_exit_inv: "link_inv s \<Longrightarrow> link_inv (receiveLoop_exit fw ce s)"
proof -
  assume i: "link_inv s"
  have "send_side (receiveLoop_exit fw ce s)"
    using i by (auto simp: link_inv_def send_side_def receiveLoop_exit_def Let_def)
  moreover have "recv_side (receiveLoop_exit fw ce s)"
    using i by (auto simp: link_inv_def recv_side_def receiveLoop_exit_def Let_def ch_ok_def
        intro: prefix_of_eq split: if_splits)
  moreover have "close_side (receiveLoop_exit fw ce s)"
    using i by (auto simp: link_inv_def close_side_def receiveLoop_exit_def Let_def link_close_counts)
  ultimately show ?thesis by (simp add: link_inv_def)
qed

lemma sendLoop_step_inv:
  assumes i: "link_inv s" and st: "sendLoop_step nxt rs0 pick w fw ce s = Some t"
  shows "link_inv t"
proof (cases "ls_spc s")
  case SSelect
  show ?thesis
  proof (cases "lk_done (ls_link s) \<and> (pick \<or> ch_buf (lk_sendCh (ls_link s)) = [])")
    case True
    with st SSelect have "t = sendLoop_exit fw ce s" by (simp add: sendLoop_step_def Let_def)
    with i show ?thesis by (simp add: sendLoop_exit_inv)
  next
    case False
    with st SSelect obtain p c where rc: "ch_try_recv (lk_sendCh (ls_link s)) = Some (p, c)"
      and t: "t = s\<lparr>ls_spc := SSend p rs0, ls_link := (ls_link s)\<lparr>lk_sendCh := c\<rparr>\<rparr>"
      by (auto simp: sendLoop_step_def Let_def split: if_splits option.splits)
    from rc have "ch_buf (lk_sendCh (ls_link s)) = p # ch_buf c" "ch_cap c = ch_cap (lk_sendCh (ls_link s))"
      by (auto simp: ch_try_recv_Some)
    with i SSelect t show ?thesis
      by (auto simp: link_inv_def side_defs ch_ok_def)
  qed
next
  case (SSend p rs)
  note pc = this
  show ?thesis
  proof (cases "send_attempt nxt rs w p (ls_link s)")
    case (AtSent l')
    with st pc have t: "t = s\<lparr>ls_spc := SSelect, ls_link := l'\<rparr>"
      by (simp add: sendLoop_step_def Let_def)
    from send_attempt_frame(3) [OF AtSent] i pc show ?thesis
      by (auto simp: t link_inv_def side_defs)
  next
    case (AtRetry rs' l')
    with st pc have "t = s\<lparr>ls_spc := SWait p rs', ls_link := l'\<rparr>"
      by (simp add: sendLoop_step_def Let_def)
    with send_attempt_frame(2) [OF AtRetry] i pc show ?thesis
      by (auto simp: link_inv_def side_defs)
  next
    case (AtGaveUp l')
    with st pc have "t = sendLoop_exit fw ce (s\<lparr>ls_link := l'\<rparr>)"
      by (simp add: sendLoop_step_def Let_def)
    with send_attempt_frame(1) [OF AtGaveUp] i show ?thesis by (simp add: sendLoop_exit_inv)
  qed
next
  case (SWait p rs)
  with st consider "t = sendLoop_exit fw ce s" | "t = s\<lparr>ls_spc := SSend p rs\<rparr>"
    by (auto simp: sendLoop_step_def Let_def split: if_splits)
  then show ?thesis
  proof cases
    case 1
    with i show ?thesis by (simp add: sendLoop_exit_inv)
  next
    case 2
    with i SWait show ?thesis by (simp add: link_inv_def side_defs)
  qed
next
  case SExit
  with st show ?thesis by (simp add: sendLoop_step_def Let_def)
qed

lemma receiveLoop_step_inv:
  assumes i: "link_inv s" and st: "receiveLoop_step pick r fw ce s = Some t"
    and ag: "ls_rpc s = RRead \<Longrightarrow> read_agrees (ls_answered s) r"
  shows "link_inv t"
proof (cases "ls_rpc s")
  case RTop
  with st consider "t = receiveLoop_exit fw ce s" | "t = s\<lparr>ls_rpc := RRead\<rparr>"
    by (auto simp: receiveLoop_step_def Let_def split: if_splits)
  then show ?thesis
  proof cases
    case 1
    with i show ?thesis by (simp add: receiveLoop_exit_inv)
  next
    case 2
    with i RTop show ?thesis by (simp add: link_inv_def side_defs)
  qed
next
  case RRead
  with st ag consider (p) p where "t = s\<lparr>ls_rpc := RDeliver p, ls_read := ls_read s @ [p]\<rparr>" "\<not> ls_answered s"
    | "t = s\<lparr>ls_rpc := RTop\<rparr>" "\<not> ls_answered s" | "t = receiveLoop_exit fw ce s"
    by (cases r) (auto simp: receiveLoop_step_def receive_attempt_def Let_def)
  then show ?thesis
  proof cases
    case p
    with i RRead show ?thesis by (auto simp: link_inv_def side_defs)
  next
    case 2
    with i RRead show ?thesis by (simp add: link_inv_def side_defs)
  next
    case 3
    with i show ?thesis by (simp add: receiveLoop_exit_inv)
  qed
next
  case (RDeliver p)
  with st consider "t = receiveLoop_exit fw ce s"
    | (snd) c where "ch_try_send (lk_receiveCh (ls_link s)) p = Some c"
        "t = s\<lparr>ls_rpc := RTop, ls_link := (ls_link s)\<lparr>lk_receiveCh := c\<rparr>\<rparr>"
    by (auto simp: receiveLoop_step_def Let_def split: if_splits option.splits)
  then show ?thesis
  proof cases
    case 1
    with i show ?thesis by (simp add: receiveLoop_exit_inv)
  next
    case snd
    with i RDeliver show ?thesis
      by (auto simp: link_inv_def side_defs ch_try_send_Some ch_room_def ch_ok_def)
  qed
next
  case RExit
  with st show ?thesis by (simp add: receiveLoop_step_def Let_def)
qed

lemma send_step_inv:
  assumes i: "link_inv s" and sd: "link_send pick late (ls_link s) p = SReturn e l'"
  shows "link_inv (s\<lparr>ls_link := l', ls_accepted := ls_accepted s @
           (if lk_sendCh l' = lk_sendCh (ls_link s) then [] else [p])\<rparr>)"
  using link_send_return [OF sd]
proof (elim disjE conjE exE)
  assume "l' = ls_link s"
  with i show ?thesis by (simp add: link_inv_def side_defs)
next
  fix c
  assume c: "ch_try_send (lk_sendCh (ls_link s)) p = Some c"
    and l': "l' = (ls_link s)\<lparr>lk_sendCh := c, lk_done := lk_done (ls_link s) \<or> late\<rparr>"
  from c have b: "ch_buf c = ch_buf (lk_sendCh (ls_link s)) @ [p]" and ok: "ch_ok c"
    by (auto simp: ch_try_send_Some ch_ok_def ch_room_def)
  then have "c \<noteq> lk_sendCh (ls_link s)" by auto
  with i b ok show ?thesis
    by (auto simp: l' link_inv_def side_defs simp flip: append_assoc intro: prefix_prefix)
qed

lemma reader_step_inv:
  assumes i: "link_inv s" and rc: "ch_try_recv (lk_receiveCh (ls_link s)) = Some (p, c)"
  shows "link_inv (s\<lparr>ls_link := (ls_link s)\<lparr>lk_receiveCh := c\<rparr>, ls_delivered := ls_delivered s @ [p]\<rparr>)"
proof -
  from rc have "ch_buf (lk_receiveCh (ls_link s)) = p # ch_buf c"
    "ch_cap c = ch_cap (lk_receiveCh (ls_link s))" "ch_closed c = ch_closed (lk_receiveCh (ls_link s))"
    by (auto simp: ch_try_recv_Some)
  with i show ?thesis
    by (auto simp: link_inv_def side_defs ch_ok_def)
qed

lemma idle_step_inv:
  "link_inv s \<Longrightarrow> link_inv (s\<lparr>ls_link := snd (link_tryCloseIfIdle now timeout fw ce (ls_link s))\<rparr>)"
proof -
  assume i: "link_inv s"
  from link_tryCloseIfIdle_cases [of now timeout fw ce "ls_link s"] show ?thesis
  proof
    assume "snd (link_tryCloseIfIdle now timeout fw ce (ls_link s)) = ls_link s"
    with i show ?thesis by simp
  next
    assume "snd (link_tryCloseIfIdle now timeout fw ce (ls_link s)) = snd (link_close fw ce (ls_link s))"
    with i show ?thesis by (simp add: close_step_inv)
  qed
qed

lemma touch_step_inv: "link_inv s \<Longrightarrow> link_inv (s\<lparr>ls_link := link_updateActiveTime now (ls_link s)\<rparr>)"
  by (simp add: link_inv_def side_defs)

lemma parent_step_inv: "link_inv s \<Longrightarrow> link_inv (s\<lparr>ls_link := (ls_link s)\<lparr>lk_done := True\<rparr>\<rparr>)"
  by (simp add: link_inv_def side_defs)

lemma control_step_inv:
  "link_inv s \<Longrightarrow> ls_rpc s = RRead \<Longrightarrow> \<not> ls_answered s \<Longrightarrow> control_frame f \<Longrightarrow> link_inv (control_reply f s)"
  by (auto simp: link_inv_def side_defs control_reply_def)

lemma deferred_step_inv:
  "link_inv s \<Longrightarrow> lk_once (ls_link s) \<Longrightarrow> \<not> ls_deferred s \<Longrightarrow>
   link_inv (s\<lparr>ls_link := conn_close (ls_link s), ls_deferred := True\<rparr>)"
  by (simp add: link_inv_def side_defs)

lemma link_step_inv: "link_step nxt rs0 s t \<Longrightarrow> link_inv s \<Longrightarrow> link_inv t"
  by (induction rule: link_step.induct)
    (blast intro: send_step_inv close_step_inv idle_step_inv touch_step_inv parent_step_inv
      reader_step_inv sendLoop_step_inv receiveLoop_step_inv control_step_inv deferred_step_inv)+

interpretation lk: inv_system "link_init" "link_step nxt rs0" "link_inv" for nxt :: "'rs strategy" and rs0
  by unfold_locales (blast intro: link_init_inv link_step_inv)+

subsection \<open>Properties of the link\<close>

text \<open>A closed instance: a link with one payload accepted, taken and written.\<close>

definition ex_user :: user_info where
  "ex_user = \<lparr>BizID = 1, UserID = 7, AutoClose = True\<rparr>"

definition ex_link :: link where
  "ex_link = \<lparr>lk_id = ''1-7'', lk_user = ex_user, lk_readTimeout = 1, lk_writeTimeout = 1,
     lk_compression = None, lk_initRetryInterval = 1, lk_maxRetryInterval = 2, lk_maxRetries = 3,
     lk_sendCh = ch_make 2, lk_receiveCh = ch_make 2, lk_done = False, lk_once = False,
     lk_closeErr = None, lk_autoClose = True, lk_lastActive = 0, lk_limitRate = 0,
     lk_compressWriter = False, lk_wire = [], lk_connCloses = 0\<rparr>"

lemmas ex_link_defs = ex_link_def ex_user_def ch_make_def

lemma ex_link_fresh: "link_fresh ex_link"
  by (simp add: link_fresh_def ex_link_defs)

lemma ex_link_reach: "reach link_init (link_step nxt rs0) (link_start ex_link)"
  by (rule reach_init) (simp add: link_init_def link_start_def ex_link_fresh)

definition ex_written :: "nat lsys" where
  "ex_written = (link_start ex_link)\<lparr>
     ls_link := ex_link\<lparr>lk_wire := [FData [5]]\<rparr>, ls_accepted := [[5]]\<rparr>"

lemma ex_written_reach: "reach link_init (link_step countdown 3) ex_written"
proof -
  let ?s0 = "link_start ex_link :: nat lsys"
  let ?l1 = "ex_link\<lparr>lk_sendCh := (ch_make 2)\<lparr>ch_buf := [[5]]\<rparr>\<rparr>"
  let ?s1 = "?s0\<lparr>ls_link := ?l1, ls_accepted := [[5]]\<rparr>"
  let ?s2 = "?s1\<lparr>ls_spc := SSend [5] 3, ls_link := ex_link\<rparr>"
  have sd: "link_send False False (ls_link ?s0) [5] = SReturn None ?l1"
    by (simp add: link_start_def link_send_def ex_link_defs ch_room_def ch_try_send_def)
  have "link_step countdown 3 ?s0 ?s1"
    using step_send [OF sd] by (simp add: link_start_def ex_link_defs)
  with ex_link_reach have r1: "reach link_init (link_step countdown 3) ?s1" by (rule reach_step)
  have "sendLoop_step countdown 3 False WOk False None ?s1 = Some ?s2"
    by (simp add: sendLoop_step_def link_start_def ex_link_defs ch_try_recv_def)
  with r1 have r2: "reach link_init (link_step countdown 3) ?s2" by (blast intro: reach_step step_sendLoop)
  have "sendLoop_step countdown 3 False WOk False None ?s2 = Some ex_written"
    by (simp add: sendLoop_step_def link_start_def ex_link_defs send_attempt_def ex_written_def)
  with r2 show ?thesis by (blast intro: reach_step step_sendLoop)
qed

text \<open>C3. Whatever the interleaving of callers of \<open>Send\<close>, the send loop with its retries,
  closers and the network: the payloads written to the client are a prefix of the payloads
  the send channel accepted. Nothing is written twice, out of order, or without having been
  accepted.\<close>

theorem link_writes_in_order:
  assumes "reach link_init (link_step nxt rs0) s"
  shows "prefix (data_of (lk_wire (ls_link s))) (ls_accepted s)"
proof -
  from lk.reach_inv [OF assms] have "send_side s" by (simp add: link_inv_def)
  then show ?thesis by (auto simp: send_side_def intro: prefix_of_eq split: if_splits)
qed

theorem link_writes_in_order_witness:
  "data_of (lk_wire (ls_link ex_written)) = [[5]] \<and> prefix [[5]] (ls_accepted ex_written)"
  using link_writes_in_order [OF ex_written_reach] by (simp add: ex_written_def)

text \<open>C4. What readers of \<open>Receive()\<close> got, followed by what is buffered for them, is a
  prefix of what was read from the client; the receive channel is closed exactly when the
  receive loop, its only writer, is gone, so no payload is ever sent on the closed channel.\<close>

theorem link_delivers_in_order:
  assumes "reach link_init (link_step nxt rs0) s"
  shows "prefix (ls_delivered s @ ch_buf (lk_receiveCh (ls_link s))) (ls_read s) \<and>
    (ch_closed (lk_receiveCh (ls_link s)) \<longleftrightarrow> ls_rpc s = RExit) \<and>
    (ch_closed (lk_receiveCh (ls_link s)) \<longrightarrow> receiveLoop_step pick r fw ce s = None)"
proof -
  from lk.reach_inv [OF assms] have i: "recv_side s" by (simp add: link_inv_def)
  then have "ch_closed (lk_receiveCh (ls_link s)) \<longleftrightarrow> ls_rpc s = RExit"
    by (simp add: recv_side_def)
  then show ?thesis using i
    by (auto simp: recv_side_def receiveLoop_step_def Let_def intro: prefix_of_eq split: if_splits)
qed

theorem link_delivers_in_order_witness:
  "ls_rpc (receiveLoop_exit True None (link_start ex_link :: nat lsys)) = RExit \<and>
   receiveLoop_step False (ROk [1]) True None
     (receiveLoop_exit True None (link_start ex_link :: nat lsys)) = None"
proof -
  let ?s = "link_start ex_link :: nat lsys"
  let ?r = "?s\<lparr>ls_rpc := RRead\<rparr>"
  let ?e = "?r\<lparr>ls_rpc := RExit, ls_link := ls_link (receiveLoop_exit True None ?s)\<rparr>"
  have "receiveLoop_step False RFail True None ?s = Some ?r"
    by (simp add: receiveLoop_step_def link_start_def ex_link_defs)
  then have "link_step countdown 3 ?s ?r" by (rule step_receiveLoop) simp
  with ex_link_reach have "reach link_init (link_step countdown 3) ?r" by (rule reach_step)
  moreover have "receiveLoop_step False RFail True None ?r = Some ?e"
    by (simp add: receiveLoop_step_def link_start_def receive_attempt_def receiveLoop_exit_def)
  then have "link_step countdown 3 ?r ?e" by (rule step_receiveLoop) simp
  ultimately have re: "reach link_init (link_step countdown 3) ?e" by (rule reach_step)
  have "?e = receiveLoop_exit True None ?s" by (simp add: receiveLoop_exit_def Let_def)
  with link_delivers_in_order [OF re, of False "ROk [1]" True None] show ?thesis
    by (simp add: receiveLoop_exit_def Let_def)
qed

text \<open>C5. However often and from wherever \<open>Close\<close> is called, it acts once. The socket of a link
  has been closed once for \<open>Close\<close> and once more if the deferred \<open>conn.Close\<close> of \<open>handleConn\<close>
  has run, which it does only after \<open>Close\<close>; \<open>Close\<close> has written at most one close frame,
  none before it ran. Besides that frame the client gets at most one other close frame, the
  control handler's answer to its own, and after it the receive loop reads no further message:
  it is still in that \<open>Read\<close> or gone. A link that was closed, or that one of its two
  goroutines has left, has its context cancelled and its socket closed.\<close>

theorem link_closed_once:
  assumes "reach link_init (link_step nxt rs0) s"
  shows "lk_connCloses (ls_link s) = (if lk_once (ls_link s) then 1 else 0) + (if ls_deferred s then 1 else 0) \<and>
    (ls_deferred s \<longrightarrow> lk_once (ls_link s)) \<and>
    close_frames (lk_wire (ls_link s)) \<le> (if lk_once (ls_link s) then 1 else 0) \<and>
    close_replies (lk_wire (ls_link s)) = (if ls_answered s then 1 else 0) \<and>
    (ls_answered s \<longrightarrow> ls_rpc s = RRead \<or> ls_rpc s = RExit) \<and>
    (lk_once (ls_link s) \<or> ls_spc s = SExit \<or> ls_rpc s = RExit \<longrightarrow>
       lk_done (ls_link s) \<and> lk_connCloses (ls_link s) \<ge> 1)"
proof -
  from lk.reach_inv [OF assms] have "close_side s" by (simp add: link_inv_def)
  then show ?thesis by (auto simp: close_side_def)
qed

text \<open>The client closes: the control handler answers, the receive loop closes the link, and
  \<open>handleConn\<close> closes the socket again. Two close frames are on the wire.\<close>

definition ex_client_closed :: "nat lsys" where
  "ex_client_closed = (let s = link_start ex_link; r = control_reply FCloseReply (s\<lparr>ls_rpc := RRead\<rparr>);
      e = receiveLoop_exit True None r
    in e\<lparr>ls_link := conn_close (ls_link e), ls_deferred := True\<rparr>)"

lemma ex_client_closed_reach: "reach link_init (link_step countdown 3) ex_client_closed"
proof -
  let ?s = "link_start ex_link :: nat lsys"
  let ?r = "?s\<lparr>ls_rpc := RRead\<rparr>"
  let ?c = "control_reply FCloseReply ?r"
  let ?e = "receiveLoop_exit True None ?c"
  have "receiveLoop_step False RFail True None ?s = Some ?r"
    by (simp add: receiveLoop_step_def link_start_def ex_link_defs)
  then have "link_step countdown 3 ?s ?r" by (rule step_receiveLoop) simp
  with ex_link_reach have "reach link_init (link_step countdown 3) ?r" by (rule reach_step)
  moreover have "link_step countdown 3 ?r ?c"
    by (rule step_control) (simp_all add: link_start_def control_frame_def)
  ultimately have c: "reach link_init (link_step countdown 3) ?c" by (rule reach_step)
  have "receiveLoop_step False (RClosed StatusGoingAway) True None ?c = Some ?e"
    by (simp add: receiveLoop_step_def receive_attempt_def control_reply_def)
  then have "link_step countdown 3 ?c ?e"
    by (rule step_receiveLoop) (simp add: control_reply_def)
  with c have "reach link_init (link_step countdown 3) ?e" by (rule reach_step)
  moreover have "link_step countdown 3 ?e (?e\<lparr>ls_link := conn_close (ls_link ?e), ls_deferred := True\<rparr>)"
    by (rule step_deferred) (simp_all add: receiveLoop_exit_def control_reply_def link_start_def Let_def)
  ultimately show ?thesis unfolding ex_client_closed_def Let_def by (rule reach_step)
qed

theorem link_closed_once_witness:
  "lk_connCloses (ls_link ex_client_closed) = 2 \<and> lk_done (ls_link ex_client_closed) \<and>
   close_replies (lk_wire (ls_link ex_client_closed)) = 1 \<and>
   lk_wire (ls_link ex_client_closed) = [FCloseReply, FClose]"
proof -
  have "ls_answered ex_client_closed" "ls_deferred ex_client_closed" "ls_rpc ex_client_closed = RExit"
    "lk_wire (ls_link ex_client_closed) = [FCloseReply, FClose]"
    by (simp_all add: ex_client_closed_def receiveLoop_exit_def control_reply_def link_start_def
        link_close_def ex_link_defs Let_def conn_close_def)
  with link_closed_once [OF ex_client_closed_reach] show ?thesis by simp
qed

text \<open>\<open>Send\<close> reports success exactly when the link was open and the payload became the
  last one in the send buffer; on a closed link it reports \<open>ErrLinkClosed\<close>; it waits
  only while the link is open and the buffer full.\<close>

theorem link_send_outcome:
  "(link_send pick late l p = SReturn None l' \<longleftrightarrow>
      \<not> lk_done l \<and> \<not> late \<and> ch_room (lk_sendCh l) \<and>
      l' = l\<lparr>lk_sendCh := (lk_sendCh l)\<lparr>ch_buf := ch_buf (lk_sendCh l) @ [p]\<rparr>\<rparr>) \<and>
   (lk_done l \<longrightarrow> (\<exists>l''. link_send pick late l p = SReturn (Some (WrapE [Sen ErrLinkClosed])) l'')) \<and>
   (link_send pick late l p = SBlocked \<longleftrightarrow> \<not> lk_done l \<and> \<not> ch_room (lk_sendCh l))"
  by (auto simp: link_send_def Let_def ch_try_send_def)

theorem link_send_outcome_witness:
  "link_send False False ex_link [9] = SReturn None
     (ex_link\<lparr>lk_sendCh := (ch_make 2)\<lparr>ch_buf := [[9]]\<rparr>\<rparr>)"
  using link_send_outcome [of False False ex_link "[9]"
      "ex_link\<lparr>lk_sendCh := (ch_make 2)\<lparr>ch_buf := [[9]]\<rparr>\<rparr>"]
  by (simp add: ex_link_defs ch_room_def)

text \<open>C39. \<open>sendWithRetry\<close> always returns: with a strategy that allows at most \<open>n\<close>
  retries it needs at most \<open>n + 1\<close> rounds, whatever the network does; it returns true
  exactly when it put this one payload on the wire, and otherwise wrote nothing.\<close>

theorem link_sendWithRetry_returns:
  assumes "gives_up nxt rs n" and "n < length script"
  shows "\<exists>b l'. link_sendWithRetry nxt rs script p l = Some (b, l') \<and>
    lk_wire l' = lk_wire l @ (if b then [FData p] else []) \<and>
    (b \<longrightarrow> \<not> lk_done l) \<and>
    (\<not> b \<longrightarrow> lk_done l' \<or> (\<exists>r \<in> set script. rd_write r \<noteq> WOk))"
  using assms
proof (induction n arbitrary: rs script l)
  case 0
  then obtain r rds where s: "script = r # rds" by (cases script) auto
  with "0.prems" show ?case
    by (cases "rd_write r") (auto simp: send_attempt_def)
next
  case (Suc n)
  then obtain r rds where s: "script = r # rds" and len: "n < length rds" by (cases script) auto
  let ?l = "l\<lparr>lk_done := lk_done l \<or> rd_closedBefore r\<rparr>"
  show ?case
  proof (cases "send_attempt nxt rs (rd_write r) p ?l")
    case (AtSent l')
    with send_attempt_frame(3) [OF AtSent] show ?thesis by (auto simp: s)
  next
    case (AtGaveUp l')
    then have "l' = ?l" by (rule send_attempt_frame)
    moreover from AtGaveUp have "lk_done ?l \<or> rd_write r \<noteq> WOk"
      by (auto simp: send_attempt_def)
    ultimately show ?thesis using AtGaveUp by (auto simp: s)
  next
    case (AtRetry rs' l')
    then have l': "l' = ?l" by (rule send_attempt_frame)
    from AtRetry have op: "\<not> lk_done ?l" and w: "rd_write r = WTimeout"
      by (auto simp: send_attempt_def split: if_splits write_res.splits option.splits)
    from AtRetry Suc.prems(1) have g: "gives_up nxt rs' n"
      by (auto simp: send_attempt_def split: if_splits write_res.splits option.splits)
    let ?m = "?l\<lparr>lk_done := lk_done ?l \<or> rd_closedWait r\<rparr>"
    have eq: "link_sendWithRetry nxt rs script p l =
        (if lk_done ?m then Some (False, ?m) else link_sendWithRetry nxt rs' rds p ?m)"
      by (simp add: s AtRetry l' Let_def)
    show ?thesis
    proof (cases "lk_done ?m")
      case True
      then show ?thesis by (auto simp: eq)
    next
      case False
      from Suc.IH [OF g len, of ?m] obtain b m where
        i: "link_sendWithRetry nxt rs' rds p ?m = Some (b, m)"
        "lk_wire m = lk_wire ?m @ (if b then [FData p] else [])"
        "\<not> b \<longrightarrow> lk_done m \<or> (\<exists>r \<in> set rds. rd_write r \<noteq> WOk)" by blast
      from eq False i(1) have "link_sendWithRetry nxt rs script p l = Some (b, m)"
        by (simp only: if_False)
      moreover have "set rds \<subseteq> set script" by (auto simp: s)
      ultimately show ?thesis using i(2,3) op
        by (intro exI [of _ b] exI [of _ m]) auto
    qed
  qed
qed

theorem link_sendWithRetry_returns_witness:
  "gives_up countdown 1 1 \<and>
   (\<exists>b l'. link_sendWithRetry countdown 1
      [\<lparr>rd_closedBefore = False, rd_write = WTimeout, rd_closedWait = False\<rparr>,
       \<lparr>rd_closedBefore = False, rd_write = WOk, rd_closedWait = False\<rparr>] [5] ex_link = Some (b, l'))"
  using link_sendWithRetry_returns [OF countdown_gives_up, of 1
      "[\<lparr>rd_closedBefore = False, rd_write = WTimeout, rd_closedWait = False\<rparr>,
        \<lparr>rd_closedBefore = False, rd_write = WOk, rd_closedWait = False\<rparr>]" "[5]" ex_link]
    countdown_gives_up [of 1]
  by force

end
