(* ===== verification/GW_Float.thy ===== *)
theory GW_Float
  imports Complex_Main GW_Prelude
begin

text \<open>
  The part of Go's \<open>float64\<close> the code computes with: conversion from \<open>int64\<close>, the
  product, comparison, and conversion back, which truncates. Values are IEEE 754 binary64:
  a rational, an infinity (\<open>True\<close> is the negative one) or NaN; results are rounded to 53 bits,
  ties to even, with the smallest exponent of subnormal numbers. The sign of zero is not
  observable in what the code does with these values.
\<close>

datatype f64 = Fin rat | Inf bool | NaN

fun ilog2 :: "nat \<Rightarrow> nat" where
  "ilog2 n = (if n \<le> 1 then 0 else Suc (ilog2 (n div 2)))"

declare ilog2.simps [simp del]

lemma ilog2_bounds: "0 < n \<Longrightarrow> 2 ^ ilog2 n \<le> n \<and> n < 2 ^ Suc (ilog2 n)"
proof (induction n rule: ilog2.induct)
  case (1 n)
  show ?case
  proof (cases "n \<le> 1")
    case True
    with "1.prems" have "n = 1" by simp
    then show ?thesis by (simp add: ilog2.simps [of "Suc 0"])
  next
    case False
    then have "0 < n div 2" by simp
    from "1.IH" [OF False this] have "2 ^ ilog2 (n div 2) \<le> n div 2" "n div 2 < 2 ^ Suc (ilog2 (n div 2))"
      by auto
    moreover have "n = 2 * (n div 2) + n mod 2" "n mod 2 < 2" by simp_all
    moreover have "ilog2 n = Suc (ilog2 (n div 2))" using False by (simp add: ilog2.simps [of n])
    ultimately show ?thesis by (simp del: mult_div_mod_eq) linarith
  qed
qed

text \<open>The binary exponent of a positive rational: \<open>2 ^ e \<le> q < 2 ^ (e + 1)\<close>.\<close>

definition f64_exponent :: "rat \<Rightarrow> int" where
  "f64_exponent q =
     (if 1 \<le> q then int (ilog2 (nat \<lfloor>q\<rfloor>))
      else let c = nat \<lceil>1 / q\<rceil> in - int (if c \<le> 1 then 0 else Suc (ilog2 (c - 1))))"

definition pow2 :: "int \<Rightarrow> rat" where
  "pow2 e = (if 0 \<le> e then 2 ^ nat e else 1 / 2 ^ nat (- e))"

text \<open>Rounding to the nearest integer, ties to even.\<close>

definition round_even :: "rat \<Rightarrow> int" where
  "round_even q =
     (let f = \<lfloor>q\<rfloor>; d = q - of_int f
      in if d < 1 / 2 then f else if d > 1 / 2 then f + 1 else if even f then f else f + 1)"

definition f64_round_pos :: "rat \<Rightarrow> rat" where
  "f64_round_pos q =
     (let u = pow2 (max (f64_exponent q - 52) (- 1074)) in of_int (round_even (q / u)) * u)"

definition f64_round :: "rat \<Rightarrow> f64" where
  "f64_round q =
     (let r = (if q = 0 then 0 else if 0 < q then f64_round_pos q else - f64_round_pos (- q))
      in if 2 ^ 1024 \<le> \<bar>r\<bar> then Inf (q < 0) else Fin r)"

definition f64_of_int :: "int \<Rightarrow> f64" where
  "f64_of_int n = f64_round (of_int n)"

fun f64_neg :: "f64 \<Rightarrow> bool" where
  "f64_neg (Fin q) = (q < 0)"
| "f64_neg (Inf s) = s"
| "f64_neg NaN = False"

fun f64_mul :: "f64 \<Rightarrow> f64 \<Rightarrow> f64" where
  "f64_mul NaN _ = NaN"
| "f64_mul _ NaN = NaN"
| "f64_mul (Fin p) (Fin q) = f64_round (p * q)"
| "f64_mul (Inf s) (Fin q) = (if q = 0 then NaN else Inf (s \<noteq> (q < 0)))"
| "f64_mul (Fin p) (Inf s) = (if p = 0 then NaN else Inf (s \<noteq> (p < 0)))"
| "f64_mul (Inf s) (Inf t) = Inf (s \<noteq> t)"

fun f64_less :: "f64 \<Rightarrow> f64 \<Rightarrow> bool" where
  "f64_less NaN _ = False"
| "f64_less _ NaN = False"
| "f64_less (Fin p) (Fin q) = (p < q)"
| "f64_less (Inf s) (Fin q) = s"
| "f64_less (Fin p) (Inf s) = (\<not> s)"
| "f64_less (Inf s) (Inf t) = (s \<and> \<not> t)"

text \<open>
  \<open>int64(x)\<close> truncates towards zero. When the value does not fit, the Go specification
  leaves the result to the implementation: \<open>unspec\<close> is that choice.
\<close>

definition rat_trunc :: "rat \<Rightarrow> int" where
  "rat_trunc q = (if 0 \<le> q then \<lfloor>q\<rfloor> else \<lceil>q\<rceil>)"

definition f64_to_int64 :: "(f64 \<Rightarrow> int) \<Rightarrow> f64 \<Rightarrow> int" where
  "f64_to_int64 unspec x =
     (case x of Fin q \<Rightarrow> if in64 (rat_trunc q) then rat_trunc q else i64 (unspec x)
              | _ \<Rightarrow> i64 (unspec x))"

subsection \<open>Rounding never passes an integer of at most 53 bits\<close>

lemma pow2_pos [simp]: "0 < pow2 e"
  by (simp add: pow2_def)

lemma pow2_nonzero [simp]: "pow2 e \<noteq> 0"
  using pow2_pos [of e] by linarith

lemma pow2_nonneg [simp]: "0 \<le> pow2 e"
  by (simp add: less_imp_le)

lemma f64_exponent_le: "0 < q \<Longrightarrow> q < 2 ^ k \<Longrightarrow> f64_exponent q < int k \<or> f64_exponent q \<le> 0"
proof (cases "1 \<le> q")
  case True
  assume q: "0 < q" "q < 2 ^ k"
  let ?n = "nat \<lfloor>q\<rfloor>"
  have n: "0 < ?n" using True by linarith
  have "2 ^ ilog2 ?n \<le> ?n" using ilog2_bounds [OF n] by blast
  moreover have "?n < 2 ^ k"
  proof -
    have "of_int \<lfloor>q\<rfloor> < (2::rat) ^ k" using q of_int_floor_le [of q] by linarith
    then have "\<lfloor>q\<rfloor> < 2 ^ k" by (metis of_int_less_numeral_power_cancel_iff)
    then show ?thesis using True by (simp add: nat_less_iff)
  qed
  ultimately have "(2::nat) ^ ilog2 ?n < 2 ^ k" by linarith
  then have "ilog2 ?n < k" by (rule power_less_imp_less_exp [rotated]) simp
  then show ?thesis using True by (simp add: f64_exponent_def)
next
  case False
  then show ?thesis by (simp add: f64_exponent_def Let_def)
qed

lemma round_even_le: "q \<le> of_int n \<Longrightarrow> round_even q \<le> n"
proof -
  assume q: "q \<le> of_int n"
  then have f: "\<lfloor>q\<rfloor> \<le> n" by (simp add: floor_le_iff)
  show ?thesis
  proof (cases "\<lfloor>q\<rfloor> = n")
    case True
    with q have "q - of_int \<lfloor>q\<rfloor> = 0" using of_int_floor_le [of q] by simp
    then show ?thesis using f by (simp add: round_even_def Let_def)
  next
    case False
    with f show ?thesis by (auto simp: round_even_def Let_def)
  qed
qed

lemma round_even_ge: "of_int n \<le> q \<Longrightarrow> n \<le> round_even q"
proof -
  assume "of_int n \<le> q"
  then have "n \<le> \<lfloor>q\<rfloor>" by (simp add: le_floor_iff)
  moreover have "round_even q = \<lfloor>q\<rfloor> \<or> round_even q = \<lfloor>q\<rfloor> + 1" by (simp add: round_even_def Let_def)
  ultimately show ?thesis by linarith
qed

lemma f64_round_pos_nonneg: "0 < q \<Longrightarrow> 0 \<le> f64_round_pos q"
  using round_even_ge [of 0] by (simp add: f64_round_pos_def Let_def)

lemma pow2_divides:
  assumes "e \<le> 0"
  shows "\<exists>N. of_int n / pow2 e = of_int N"
proof -
  have "of_int n / pow2 e = (of_int n * 2 ^ nat (- e) :: rat)"
    using assms by (auto simp: pow2_def divide_simps)
  then show ?thesis by (metis of_int_mult of_int_numeral of_int_power)
qed

lemma f64_round_pos_le_int:
  assumes q: "0 < q" "q \<le> of_int n" and n: "n < 2 ^ 53"
  shows "f64_round_pos q \<le> of_int n"
proof -
  let ?e = "max (f64_exponent q - 52) (- 1074)"
  have "of_int n < (2::rat) ^ 53" using n by (metis of_int_less_numeral_power_cancel_iff)
  with q have "q < 2 ^ 53" by linarith
  with q(1) have "?e \<le> 0" using f64_exponent_le [of q 53] by auto
  then obtain N where N: "of_int n / pow2 ?e = (of_int N :: rat)" using pow2_divides by blast
  have "q / pow2 ?e \<le> of_int N" using q(2) by (simp add: divide_right_mono flip: N)
  then have "round_even (q / pow2 ?e) \<le> N" by (rule round_even_le)
  then have "of_int (round_even (q / pow2 ?e)) * pow2 ?e \<le> of_int N * pow2 ?e"
    by (simp add: mult_right_mono)
  also have "\<dots> = of_int n" by (simp flip: N)
  finally show ?thesis by (simp add: f64_round_pos_def Let_def)
qed

lemma f64_round_pos_int:
  assumes "0 < n" "n < 2 ^ 53"
  shows "f64_round_pos (of_int n) = of_int n"
proof -
  let ?e = "max (f64_exponent (of_int n) - 52) (- 1074)"
  have "of_int n < (2::rat) ^ 53" using assms by (metis of_int_less_numeral_power_cancel_iff)
  with assms have "?e \<le> 0" using f64_exponent_le [of "of_int n" 53] by auto
  then obtain N where N: "of_int n / pow2 ?e = (of_int N :: rat)" using pow2_divides by blast
  have "round_even (of_int N) = N" by (simp add: round_even_def)
  then show ?thesis
    using pow2_pos [of ?e] by (simp add: f64_round_pos_def Let_def N) (simp flip: N)
qed

lemma f64_of_int_exact: "0 \<le> n \<Longrightarrow> n < 2 ^ 53 \<Longrightarrow> f64_of_int n = Fin (of_int n)"
proof -
  assume n: "0 \<le> n" "n < 2 ^ 53"
  have "of_int n < (2::rat) ^ 1024"
  proof -
    have "n < 2 ^ 1024" using n(2) power_strict_increasing [of 53 1024 "2::int"] by linarith
    then show ?thesis by (metis of_int_less_numeral_power_cancel_iff)
  qed
  with n show ?thesis
    by (cases "n = 0") (auto simp: f64_of_int_def f64_round_def f64_round_pos_int)
qed

text \<open>A non-negative factor of at most 1 does not take an integer of at most 53 bits out of
  \<open>0..n\<close>.\<close>

lemma f64_scale_bounds:
  assumes n: "0 \<le> n" "n < 2 ^ 53" and p: "0 \<le> p" "p \<le> 1"
  shows "\<exists>r. f64_mul (f64_of_int n) (Fin p) = Fin r \<and> 0 \<le> r \<and> r \<le> of_int n"
proof (cases "of_int n * p = 0")
  case True
  with n show ?thesis by (simp add: f64_of_int_exact f64_round_def)
next
  case False
  with n p have pos: "0 < of_int n * p" by (metis less_eq_rat_def mult_nonneg_nonneg of_int_0_le_iff)
  have le: "of_int n * p \<le> of_int n" using n p by (simp add: mult_left_le)
  from f64_round_pos_le_int [OF pos le n(2)] f64_round_pos_nonneg [OF pos]
  have b: "0 \<le> f64_round_pos (of_int n * p)" "f64_round_pos (of_int n * p) \<le> of_int n" by simp_all
  have "n < 2 ^ 1024" using n(2) power_strict_increasing [of 53 1024 "2::int"] by linarith
  then have "of_int n < (2::rat) ^ 1024" by (metis of_int_less_numeral_power_cancel_iff)
  with b pos n show ?thesis by (simp add: f64_of_int_exact f64_round_def)
qed

lemma f64_to_int64_bounds:
  assumes "0 \<le> r" "r \<le> of_int n" "n < 2 ^ 63"
  shows "0 \<le> f64_to_int64 unspec (Fin r) \<and> f64_to_int64 unspec (Fin r) \<le> n"
proof -
  have "0 \<le> \<lfloor>r\<rfloor>" and "\<lfloor>r\<rfloor> \<le> n" using assms by (simp_all add: floor_le_iff)
  moreover from this have "in64 \<lfloor>r\<rfloor>" using assms(3) unfolding in64_def by linarith
  ultimately show ?thesis using assms(1) by (simp add: f64_to_int64_def rat_trunc_def)
qed

end
