(* ===== verification/GW_Selector.thy ===== *)
theory GW_Selector
  imports GW_Float "HOL-Library.Multiset"
begin

text \<open>
  The link selectors of \<open>internal/link\<close> (\<open>all_selector.go\<close>, \<open>random_selector.go\<close>,
  \<open>percent_selector.go\<close>): which of the managed links a broadcast reaches. A selector
  works on a slice of links of any type; \<open>None\<close> is a panic (a slice expression out
  of range). The contract its caller, the link manager, relies on is the locale
  \<open>link_selector\<close>.
\<close>

subsection \<open>The selectors\<close>

definition AllLinks_Select :: "'l list \<Rightarrow> 'l list option" where
  "AllLinks_Select links = Some links"

text \<open>
  \<open>rand.Shuffle(n, swap)\<close> of \<open>math/rand/v2\<close> calls \<open>swap(i, j)\<close> for \<open>i\<close> from \<open>n - 1\<close>
  down to 1 with a random \<open>j\<close> in \<open>0..i\<close>; \<open>rnd i\<close> is the random number drawn for \<open>i\<close>.
\<close>

definition swap_at :: "nat \<Rightarrow> nat \<Rightarrow> 'l list \<Rightarrow> 'l list" where
  "swap_at i j xs = xs[i := xs ! j, j := xs ! i]"

fun rand_Shuffle :: "(nat \<Rightarrow> nat) \<Rightarrow> nat \<Rightarrow> 'l list \<Rightarrow> 'l list" where
  "rand_Shuffle rnd 0 xs = xs"
| "rand_Shuffle rnd (Suc i) xs =
     (if i = 0 then xs else rand_Shuffle rnd i (swap_at i (rnd i mod Suc i) xs))"

definition go_take :: "int \<Rightarrow> 'l list \<Rightarrow> 'l list option" where
  "go_take n xs = (if 0 \<le> n \<and> n \<le> int (length xs) then Some (take (nat n) xs) else None)"

definition RandomLinks_Select :: "int \<Rightarrow> (nat \<Rightarrow> nat) \<Rightarrow> 'l list \<Rightarrow> 'l list option" where
  "RandomLinks_Select n rnd links =
     (let cloned = links
      in if n \<ge> int (length cloned) then Some cloned
         else go_take n (rand_Shuffle rnd (length cloned) cloned))"

definition NewPercentLinksSelector :: "f64 \<Rightarrow> f64" where
  "NewPercentLinksSelector percent =
     (let p = (if f64_less percent (Fin 0) then Fin 0 else percent)
      in if f64_less (Fin 1) p then Fin 1 else p)"

definition PercentLinks_Select ::
  "(f64 \<Rightarrow> int) \<Rightarrow> f64 \<Rightarrow> (nat \<Rightarrow> nat) \<Rightarrow> 'l list \<Rightarrow> 'l list option" where
  "PercentLinks_Select unspec percent rnd links =
     RandomLinks_Select (f64_to_int64 unspec (f64_mul (f64_of_int (int (length links))) percent)) rnd links"

subsection \<open>Facts about shuffling and clamping\<close>

lemma length_rand_Shuffle [simp]: "length (rand_Shuffle rnd n xs) = length xs"
  by (induction rnd n xs rule: rand_Shuffle.induct) (auto simp: swap_at_def)

lemma mset_rand_Shuffle: "n \<le> length xs \<Longrightarrow> mset (rand_Shuffle rnd n xs) = mset xs"
proof (induction rnd n xs rule: rand_Shuffle.induct)
  case (2 rnd i xs)
  let ?j = "rnd i mod Suc i"
  have j: "?j < Suc i" by simp
  then have "?j < length xs" and "i < length xs" using 2(2) by linarith+
  then have "mset (swap_at i ?j xs) = mset xs"
    using mset_swap [of ?j xs i] by (simp add: swap_at_def)
  moreover have "length (swap_at i ?j xs) = length xs" by (simp add: swap_at_def)
  ultimately show ?case using 2 by auto
qed simp

lemma mset_take_subset: "mset (take n xs) \<subseteq># mset xs"
  by (metis append_take_drop_id mset_append mset_subset_eq_add_left)

lemma NewPercent_cases:
  "percent \<noteq> NaN \<Longrightarrow> \<exists>p. NewPercentLinksSelector percent = Fin p \<and> 0 \<le> p \<and> p \<le> 1"
  by (cases percent) (auto simp: NewPercentLinksSelector_def)

subsection \<open>The selector contract\<close>

text \<open>What a caller of \<open>Select\<close> relies on: only given links are selected, none more
  often than it was given.\<close>

locale link_selector =
  fixes select :: "(nat \<Rightarrow> nat) \<Rightarrow> 'l list \<Rightarrow> 'l list option"
  assumes select_sub: "select rnd ls = Some r \<Longrightarrow> mset r \<subseteq># mset ls"
begin

lemma select_set: "select rnd ls = Some r \<Longrightarrow> set r \<subseteq> set ls"
  using set_mset_mono [OF select_sub, of rnd ls r] by simp

lemma select_distinct: "select rnd ls = Some r \<Longrightarrow> distinct ls \<Longrightarrow> distinct r"
proof -
  assume r: "select rnd ls = Some r" and d: "distinct ls"
  have "count (mset r) x \<le> 1" for x
    using mset_subset_eq_count [OF select_sub [OF r], of x] d
    by (metis distinct_count_atmost_1 le_trans order_refl zero_le)
  then have "count (mset r) x = (if x \<in> set r then 1 else 0)" for x
    by (metis count_mset_0_iff le_eq_less_or_eq less_one set_mset_mset not_in_iff)
  then show ?thesis by (simp add: distinct_count_atmost_1)
qed

lemma select_length: "select rnd ls = Some r \<Longrightarrow> length r \<le> length ls"
  using size_mset_mono [OF select_sub, of rnd ls r] by simp

end

lemma random_select_sub: "RandomLinks_Select c rnd ls = Some r \<Longrightarrow> mset r \<subseteq># mset ls"
  using mset_take_subset [of "nat c" "rand_Shuffle rnd (length ls) ls"]
  by (auto simp: RandomLinks_Select_def go_take_def Let_def mset_rand_Shuffle split: if_splits)

interpretation all_sel: link_selector "\<lambda>_. AllLinks_Select"
  by unfold_locales (simp add: AllLinks_Select_def)

interpretation random_sel: link_selector "RandomLinks_Select c" for c
  by unfold_locales (rule random_select_sub)

interpretation percent_sel: link_selector "PercentLinks_Select unspec p" for unspec p
  by unfold_locales (simp add: PercentLinks_Select_def random_select_sub)

subsection \<open>Properties\<close>

text \<open>A random selector with a non-negative count selects exactly
  \<open>min count (length links)\<close> of the given links, none of them twice; with a negative
  count it panics.\<close>

theorem random_selector_result:
  "(case RandomLinks_Select c rnd ls of
      None \<Rightarrow> c < 0
    | Some r \<Rightarrow> 0 \<le> c \<and> int (length r) = min c (int (length ls)) \<and> mset r \<subseteq># mset ls)"
  using random_select_sub [of c rnd ls]
  by (auto simp: RandomLinks_Select_def go_take_def Let_def split: option.splits)

text \<open>A percent selector made from any number (infinities and values outside
  \<open>[0, 1]\<close> included, NaN excluded) never panics on up to \<open>2^53 - 1\<close> links, and selects
  distinct positions of the slice; at 100 percent or more it selects all links, at 0 or
  less none.\<close>

theorem percent_selector_result:
  assumes "percent \<noteq> NaN" and "length ls < 2 ^ 53"
  shows "\<exists>r. PercentLinks_Select unspec (NewPercentLinksSelector percent) rnd ls = Some r
           \<and> mset r \<subseteq># mset ls
           \<and> (\<not> f64_less percent (Fin 1) \<longrightarrow> r = ls)
           \<and> (\<not> f64_less (Fin 0) percent \<longrightarrow> r = [])"
proof -
  let ?n = "int (length ls)"
  obtain p where p: "NewPercentLinksSelector percent = Fin p" "0 \<le> p" "p \<le> 1"
    using NewPercent_cases [OF assms(1)] by blast
  have n: "0 \<le> ?n" "?n < 2 ^ 53" using assms(2) by simp_all
  obtain q where q: "f64_mul (f64_of_int ?n) (Fin p) = Fin q" "0 \<le> q" "q \<le> of_int ?n"
    using f64_scale_bounds [OF n p(2,3)] by blast
  have "?n < 2 ^ 63" using n by simp
  let ?c = "f64_to_int64 unspec (Fin q)"
  have c: "0 \<le> ?c" "?c \<le> ?n" using f64_to_int64_bounds [OF q(2,3) \<open>?n < 2 ^ 63\<close>] by auto
  have sel: "PercentLinks_Select unspec (NewPercentLinksSelector percent) rnd ls
      = RandomLinks_Select ?c rnd ls" using p q by (simp add: PercentLinks_Select_def)
  have "\<exists>r. RandomLinks_Select ?c rnd ls = Some r"
    using c by (simp add: RandomLinks_Select_def go_take_def)
  then obtain r where r: "RandomLinks_Select ?c rnd ls = Some r" ..
  have one: "r = ls" if "\<not> f64_less percent (Fin 1)"
  proof -
    have "p = 1" using that p assms(1) by (cases percent) (auto simp: NewPercentLinksSelector_def split: if_splits)
    then have "Fin q = f64_of_int ?n" using q f64_of_int_exact [OF n] by (simp add: f64_of_int_def)
    then have "q = of_int ?n" using f64_of_int_exact [OF n] by simp
    then have "?c = ?n" using n by (simp add: f64_to_int64_def rat_trunc_def in64_def)
    then show ?thesis using r by (simp add: RandomLinks_Select_def)
  qed
  have zero: "r = []" if "\<not> f64_less (Fin 0) percent"
  proof -
    have "p = 0" using that p assms(1) by (cases percent) (auto simp: NewPercentLinksSelector_def split: if_splits)
    then have "q = 0" using q f64_of_int_exact [OF n] by (simp add: f64_round_def)
    then have "?c = 0" by (simp add: f64_to_int64_def rat_trunc_def in64_def)
    then show ?thesis using r by (auto simp: RandomLinks_Select_def go_take_def split: if_splits)
  qed
  show ?thesis using sel r random_select_sub [OF r] one zero by auto
qed

theorem percent_selector_result_witness:
  "(\<exists>r. PercentLinks_Select (\<lambda>_. 0) (NewPercentLinksSelector (Fin (1 / 2))) (\<lambda>_. 0)
          [''a'', ''b'', ''c''] = Some r \<and> mset r \<subseteq># mset [''a'', ''b'', ''c''])
   \<and> PercentLinks_Select (\<lambda>_. 0) (NewPercentLinksSelector (Inf False)) (\<lambda>_. 0) [''a''] = Some [''a'']"
  using percent_selector_result [of "Fin (1 / 2)" "[''a'', ''b'', ''c'']" "\<lambda>_. 0" "\<lambda>_. 0"]
    percent_selector_result [of "Inf False" "[''a'']" "\<lambda>_. 0" "\<lambda>_. 0"]
  by auto

end
