(* ===== verification/GW_Manager.thy ===== *)
theory GW_Manager
  imports GW_Link GW_Selector
begin

text \<open>
  \<open>internal/link/manager.go\<close>: the registry of the node's links. Links are shared
  objects (the map, the connection's goroutine and the broadcast all hold the same
  pointer), so the manager's state has a heap of links, and a reference is an index
  into it. \<open>mg_len\<close> is the atomic counter the code keeps beside the map.
\<close>

record manager_config =
  mc_ReadTimeout :: int
  mc_WriteTimeout :: int
  mc_InitRetryInterval :: int
  mc_MaxRetryInterval :: int
  mc_MaxRetries :: int
  mc_SendBufferSize :: int
  mc_ReceiveBufferSize :: int
  mc_UserRateLimit :: int

record manager =
  mg_heap :: "link list"
  mg_links :: "(string, nat) smap"
  mg_config :: manager_config
  mg_len :: int

definition NewManager :: "manager_config option \<Rightarrow> manager" where
  "NewManager config =
     \<lparr>mg_heap = [], mg_links = [],
      mg_config = (case config of
         Some c \<Rightarrow> c
       | None \<Rightarrow> \<lparr>mc_ReadTimeout = DefaultReadTimeout, mc_WriteTimeout = DefaultWriteTimeout,
                 mc_InitRetryInterval = DefaultInitRetryInterval,
                 mc_MaxRetryInterval = DefaultMaxRetryInterval,
                 mc_MaxRetries = DefaultMaxRetries,
                 mc_SendBufferSize = int DefaultWriteBufferSize,
                 mc_ReceiveBufferSize = int DefaultReadBufferSize,
                 mc_UserRateLimit = DefaultUserRateLimit\<rparr>),
      mg_len = 0\<rparr>"

definition generateLinkID :: "user_info \<Rightarrow> string" where
  "generateLinkID u = fmt_d (BizID u) @ ''-'' @ fmt_d (UserID u)"

text \<open>\<open>compression\<close>: the negotiated state, if any, and whether it is enabled.\<close>

definition convertToLinkOptions :: "manager_config \<Rightarrow> user_info \<Rightarrow> bool option \<Rightarrow> link_option list" where
  "convertToLinkOptions c u compression =
     (if compression \<noteq> None then [WithCompression compression] else [])
     @ (if mc_ReadTimeout c > 0 \<or> mc_WriteTimeout c > 0
        then [WithTimeouts (mc_ReadTimeout c) (mc_WriteTimeout c)] else [])
     @ (if mc_MaxRetries c > 0
        then [WithRetry (mc_InitRetryInterval c) (mc_MaxRetryInterval c) (mc_MaxRetries c)] else [])
     @ (if mc_SendBufferSize c > 0 \<or> mc_ReceiveBufferSize c > 0
        then [WithBuffer (mc_SendBufferSize c) (mc_ReceiveBufferSize c)] else [])
     @ [WithAutoClose (AutoClose u), WithRateLimit (mc_UserRateLimit c)]"

definition NewLink :: "int \<Rightarrow> user_info \<Rightarrow> bool option \<Rightarrow> manager \<Rightarrow> (nat \<times> manager) exec" where
  "NewLink now u compression m =
     (let linkID = generateLinkID u in
      case link_new now linkID u (convertToLinkOptions (mg_config m) u compression) of
        None \<Rightarrow> Panic
      | Some lk \<Rightarrow>
          let ref = length (mg_heap m)
          in Ret (ref, m\<lparr>mg_heap := mg_heap m @ [lk],
                         mg_links := sm_store linkID ref (mg_links m),
                         mg_len := i64 (mg_len m + 1)\<rparr>))"

definition FindLinkByUserInfo :: "user_info \<Rightarrow> manager \<Rightarrow> nat option" where
  "FindLinkByUserInfo u m = sm_load (mg_links m) (generateLinkID u)"

definition RemoveLink :: "string \<Rightarrow> manager \<Rightarrow> bool \<times> manager" where
  "RemoveLink linkID m =
     (let (old, links') = sm_load_and_delete linkID (mg_links m);
          deleted = (old \<noteq> None);
          m' = m\<lparr>mg_links := links'\<rparr>
      in (deleted, if deleted then m'\<lparr>mg_len := i64 (mg_len m' - 1)\<rparr> else m'))"

definition Links :: "manager \<Rightarrow> nat list" where
  "Links m = map snd (mg_links m)"

definition Len :: "manager \<Rightarrow> int" where
  "Len m = mg_len m"

subsection \<open>Broadcasting\<close>

text \<open>
  \<open>push\<close> sends one payload to the selected links, one after the other; an error of one
  link is logged and the next one is tried. \<open>sc\<close> resolves the races of each \<open>Send\<close>
  (see \<open>link_send\<close>). A link whose buffer is full makes the whole call wait.
\<close>

fun push_sends :: "(nat \<Rightarrow> bool \<times> bool) \<Rightarrow> bytes \<Rightarrow> nat list \<Rightarrow> link list \<Rightarrow> link list exec" where
  "push_sends sc payload [] h = Ret h"
| "push_sends sc payload (r # rs) h =
     (case link_send (fst (sc r)) (snd (sc r)) (h ! r) payload of
        SBlocked \<Rightarrow> Block
      | SReturn err1 l' \<Rightarrow> push_sends sc payload rs (h[r := l']))"

definition manager_push ::
  "(message \<Rightarrow> gerr + bytes) \<Rightarrow> (nat \<Rightarrow> bool \<times> bool) \<Rightarrow> nat list \<Rightarrow> message \<Rightarrow> manager
     \<Rightarrow> (gerr option \<times> manager) exec" where
  "manager_push marshal sc selected msg m =
     (case marshal msg of
        Inl err \<Rightarrow> Ret (Some err, m)
      | Inr payload \<Rightarrow>
          exec_bind (push_sends sc payload selected (mg_heap m))
            (\<lambda>h. Ret (None, m\<lparr>mg_heap := h\<rparr>)))"

text \<open>\<open>select\<close> is the \<open>Select\<close> method of the selector, \<open>None\<close> its panic.\<close>

definition PushMessage ::
  "(message \<Rightarrow> gerr + bytes) \<Rightarrow> (nat \<Rightarrow> bool \<times> bool) \<Rightarrow> (nat list \<Rightarrow> nat list option) \<Rightarrow> message
     \<Rightarrow> manager \<Rightarrow> (gerr option \<times> manager) exec" where
  "PushMessage marshal sc select msg m =
     (let allLinks = Links m in
      if allLinks = [] then Ret (None, m)
      else (case select allLinks of
              None \<Rightarrow> Panic
            | Some selected \<Rightarrow>
                if selected = [] then Ret (None, m) else manager_push marshal sc selected msg m))"

definition RedirectLinks ::
  "(node list \<Rightarrow> gerr + bytes) \<Rightarrow> (message \<Rightarrow> gerr + bytes) \<Rightarrow> int \<Rightarrow> (nat \<Rightarrow> bool \<times> bool)
     \<Rightarrow> (nat list \<Rightarrow> nat list option) \<Rightarrow> node list \<Rightarrow> manager \<Rightarrow> (gerr option \<times> manager) exec" where
  "RedirectLinks marshalNodes marshal nowMilli sc select availableNodes m =
     (if availableNodes = [] then Ret (Some (Txt ''no available nodes''), m)
      else (case marshalNodes availableNodes of
              Inl err \<Rightarrow> Ret (Some (WrapE [err]), m)
            | Inr body \<Rightarrow>
                PushMessage marshal sc select
                  \<lparr>msg_cmd = REDIRECT, msg_key = fmt_d nowMilli, msg_body = body\<rparr> m))"

subsection \<open>Closing links\<close>

text \<open>What the sockets answer when links are closed: whether the close frame was
  written, and the error of closing the socket.\<close>

record close_env =
  ce_frame :: "nat \<Rightarrow> bool"
  ce_err :: "nat \<Rightarrow> gerr option"

text \<open>\<open>Range\<close> visits each entry once while the callback deletes the visited key.\<close>

fun clean_range :: "close_env \<Rightarrow> int \<Rightarrow> int \<Rightarrow> (string \<times> nat) list \<Rightarrow> manager \<Rightarrow> int \<times> manager" where
  "clean_range ce now idleTimeout [] m = (0, m)"
| "clean_range ce now idleTimeout ((key, r) # es) m =
     (let (idle, l') = link_tryCloseIfIdle now idleTimeout (ce_frame ce r) (ce_err ce r) (mg_heap m ! r);
          m1 = m\<lparr>mg_heap := (mg_heap m)[r := l']\<rparr>
      in if idle then
           let (deleted, m2) = RemoveLink key m1;
               (n, m3) = clean_range ce now idleTimeout es m2
           in (if deleted then n + 1 else n, m3)
         else clean_range ce now idleTimeout es m1)"

definition CleanIdleLinks :: "close_env \<Rightarrow> int \<Rightarrow> int \<Rightarrow> manager \<Rightarrow> int \<times> manager" where
  "CleanIdleLinks ce now idleTimeout m = clean_range ce now idleTimeout (mg_links m) m"

fun close_range :: "close_env \<Rightarrow> (string \<times> nat) list \<Rightarrow> manager \<Rightarrow> manager" where
  "close_range ce [] m = m"
| "close_range ce ((key, r) # es) m =
     (let (err, l') = link_close (ce_frame ce r) (ce_err ce r) (mg_heap m ! r);
          m1 = m\<lparr>mg_heap := (mg_heap m)[r := l']\<rparr>
      in close_range ce es (snd (RemoveLink key m1)))"

definition manager_Close :: "close_env \<Rightarrow> manager \<Rightarrow> gerr option \<times> manager" where
  "manager_Close ce m =
     (if mg_len m = 0 then (None, m) else (None, close_range ce (mg_links m) m))"

text \<open>
  The wait of \<open>GracefulClose\<close>, against a script of what happens before each of its
  events: the connections whose goroutines removed their links meanwhile, then a tick
  of the ticker or the end of the context. \<open>None\<close>: the script ended while waiting.
\<close>

datatype close_event = Tick "string list" | CtxDone "string list"

definition remove_all :: "string list \<Rightarrow> manager \<Rightarrow> manager" where
  "remove_all ks m = fold (\<lambda>k m. snd (RemoveLink k m)) ks m"

fun graceful_wait :: "close_env \<Rightarrow> close_event list \<Rightarrow> manager \<Rightarrow> (gerr option \<times> manager) option" where
  "graceful_wait ce [] m = None"
| "graceful_wait ce (CtxDone ks # evs) m = Some (manager_Close ce (remove_all ks m))"
| "graceful_wait ce (Tick ks # evs) m =
     (let m' = remove_all ks m
      in if Len m' = 0 then Some (None, m') else graceful_wait ce evs m')"

definition GracefulCloseV2 ::
  "close_env \<Rightarrow> (message \<Rightarrow> gerr + bytes) \<Rightarrow> (nat \<Rightarrow> bool \<times> bool) \<Rightarrow> close_event list \<Rightarrow> message
     \<Rightarrow> manager \<Rightarrow> (gerr option \<times> manager) option exec" where
  "GracefulCloseV2 ce marshal sc evs msg m =
     (if mg_len m = 0 then Ret (Some (None, m))
      else exec_bind (manager_push marshal sc (Links m) msg m)
             (\<lambda>(err, m'). Ret (graceful_wait ce evs m')))"

definition GracefulClose ::
  "close_env \<Rightarrow> (node list \<Rightarrow> gerr + bytes) \<Rightarrow> (message \<Rightarrow> gerr + bytes) \<Rightarrow> int
     \<Rightarrow> (nat \<Rightarrow> bool \<times> bool) \<Rightarrow> close_event list \<Rightarrow> node list
     \<Rightarrow> manager \<Rightarrow> (gerr option \<times> manager) option exec" where
  "GracefulClose ce marshalNodes marshal nowMilli sc evs availableNodes m =
     (if mg_len m = 0 then Ret (Some (None, m))
      else (case marshalNodes availableNodes of
              Inl err \<Rightarrow> Ret (Some (Some (WrapE [err]), m))
            | Inr body \<Rightarrow>
                let msg = \<lparr>msg_cmd = REDIRECT, msg_key = fmt_d nowMilli, msg_body = body\<rparr>
                in exec_bind (manager_push marshal sc (Links m) msg m)
                     (\<lambda>(err, m'). Ret (graceful_wait ce evs m'))))"

subsection \<open>Link identifiers\<close>

lemma generateLinkID_inject:
  "generateLinkID u = generateLinkID u' \<longleftrightarrow> BizID u = BizID u' \<and> UserID u = UserID u'"
proof
  assume "generateLinkID u = generateLinkID u'"
  then have "fmt_d (BizID u) @ CHR ''-'' # fmt_d (UserID u) = fmt_d (BizID u') @ CHR ''-'' # fmt_d (UserID u')"
    by (simp add: generateLinkID_def)
  from fmt_d_dash_inject [OF this] show "BizID u = BizID u' \<and> UserID u = UserID u'"
    by (auto dest: fmt_d_inject)
qed (simp add: generateLinkID_def)

lemma push_sends_ids: "push_sends sc p rs h = Ret h' \<Longrightarrow> heap_ids h' = heap_ids h"
  by (induction sc p rs h rule: push_sends.induct)
    (auto split: send_result.splits dest: link_send_ids simp: heap_ids_update)

definition keeps_ids :: "link_option \<Rightarrow> bool" where
  "keeps_ids opt \<longleftrightarrow> (\<forall>l l'. opt l = Some l' \<longrightarrow> lk_id l' = lk_id l \<and> lk_user l' = lk_user l)"

lemma convert_option_ids: "list_all keeps_ids (convertToLinkOptions c u cst)"
  by (auto simp: keeps_ids_def convertToLinkOptions_def WithCompression_def WithTimeouts_def
      WithRetry_def WithBuffer_def WithAutoClose_def WithRateLimit_def split: if_splits)

lemma apply_options_ids: "list_all keeps_ids opts \<Longrightarrow> keeps_ids (apply_options opts)"
proof (induction opts)
  case (Cons opt opts)
  then have o: "keeps_ids opt" and os: "keeps_ids (apply_options opts)" by simp_all
  show ?case unfolding keeps_ids_def
  proof (intro allI impI)
    fix l l' assume "apply_options (opt # opts) l = Some l'"
    then obtain l1 where "opt l = Some l1" "apply_options opts l1 = Some l'"
      by (auto split: option.splits)
    with o os show "lk_id l' = lk_id l \<and> lk_user l' = lk_user l" by (metis keeps_ids_def)
  qed
qed (simp add: keeps_ids_def)

lemma link_new_ids:
  "link_new now i u (convertToLinkOptions c u' cst) = Some l \<Longrightarrow> lk_id l = i \<and> lk_user l = u"
  using apply_options_ids [OF convert_option_ids, of c u' cst]
  by (auto simp: link_new_def Let_def keeps_ids_def split: option.splits)

subsection \<open>The map and its counter\<close>

definition mg_ok :: "manager \<Rightarrow> bool" where
  "mg_ok m \<longleftrightarrow> sm_ok (mg_links m) \<and>
     (\<forall>(k, r) \<in> set (mg_links m). r < length (mg_heap m) \<and>
        fst (heap_ids (mg_heap m) ! r) = k \<and> k = generateLinkID (snd (heap_ids (mg_heap m) ! r)))"

lemma RemoveLink_simps [simp]:
  "mg_heap (snd (RemoveLink k m)) = mg_heap m"
  "mg_links (snd (RemoveLink k m)) = sm_delete k (mg_links m)"
  "mg_config (snd (RemoveLink k m)) = mg_config m"
  "fst (RemoveLink k m) = (sm_load (mg_links m) k \<noteq> None)"
  by (simp_all add: RemoveLink_def sm_load_and_delete_def Let_def)

lemma RemoveLink_len:
  "mg_len (snd (RemoveLink k m))
     = (if sm_load (mg_links m) k = None then mg_len m else i64 (mg_len m - 1))"
  by (simp add: RemoveLink_def sm_load_and_delete_def Let_def)

interpretation mgr: counted_map mg_links mg_len "\<lambda>k m. snd (RemoveLink k m)"
  by unfold_locales (simp_all add: RemoveLink_len)

lemma mg_ok_heap: "mg_ok m \<Longrightarrow> heap_ids h = heap_ids (mg_heap m) \<Longrightarrow> mg_ok (m\<lparr>mg_heap := h\<rparr>)"
  using length_heap_ids [of h] by (simp add: mg_ok_def)

lemma mg_ok_remove: "mg_ok m \<Longrightarrow> mg_ok (snd (RemoveLink k m))"
  by (auto simp: mg_ok_def)

text \<open>\<open>mg_inv m d\<close>: the map is well formed and the counter is ahead of it by \<open>d\<close>.\<close>

definition mg_inv :: "manager \<Rightarrow> int \<Rightarrow> bool" where
  "mg_inv m d \<longleftrightarrow> mg_ok m \<and> mg_len m = i64 (int (length (mg_links m)) + d)"

lemma mg_inv_remove: "mg_inv m d \<Longrightarrow> mg_inv (snd (RemoveLink k m)) d"
  using mgr.rem_counts [of m d k] mg_ok_remove [of m k] by (simp add: mg_inv_def mg_ok_def)

lemma mg_inv_heap: "mg_inv m d \<Longrightarrow> heap_ids h = heap_ids (mg_heap m) \<Longrightarrow> mg_inv (m\<lparr>mg_heap := h\<rparr>) d"
  using mg_ok_heap by (simp add: mg_inv_def)

lemma NewLink_cases:
  assumes "NewLink now u cst m = Ret (r, m')"
  obtains lk where "lk_id lk = generateLinkID u" and "lk_user lk = u" and "r = length (mg_heap m)"
    and "m' = m\<lparr>mg_heap := mg_heap m @ [lk], mg_links := sm_store (generateLinkID u) r (mg_links m),
               mg_len := i64 (mg_len m + 1)\<rparr>"
  using assms by (auto simp: NewLink_def Let_def dest: link_new_ids split: option.splits)

lemma mg_inv_new:
  assumes inv: "mg_inv m d" and new: "NewLink now u cst m = Ret (r, m')"
  shows "mg_inv m' (d + (if FindLinkByUserInfo u m = None then 0 else 1))"
proof -
  obtain lk where lk: "lk_id lk = generateLinkID u" "lk_user lk = u" "r = length (mg_heap m)"
    and m': "m' = m\<lparr>mg_heap := mg_heap m @ [lk], mg_links := sm_store (generateLinkID u) r (mg_links m),
               mg_len := i64 (mg_len m + 1)\<rparr>"
    by (rule NewLink_cases [OF new])
  have entry: "q < length (mg_heap m') \<and> fst (heap_ids (mg_heap m') ! q) = k \<and>
      k = generateLinkID (snd (heap_ids (mg_heap m') ! q))" if "(k, q) \<in> set (mg_links m')" for k q
  proof -
    from that have "(k, q) = (generateLinkID u, r) \<or> (k, q) \<in> set (mg_links m)"
      using sm_in_store [of k q "generateLinkID u" r "mg_links m"] by (simp add: m')
    then show ?thesis
    proof
      assume "(k, q) \<in> set (mg_links m)"
      with inv have "q < length (mg_heap m)" "fst (heap_ids (mg_heap m) ! q) = k"
        "k = generateLinkID (snd (heap_ids (mg_heap m) ! q))"
        by (auto simp: mg_inv_def mg_ok_def)
      then show ?thesis by (simp add: m' nth_append)
    qed (use lk in \<open>simp add: m' nth_append\<close>)
  qed
  have "sm_ok (mg_links m')" using inv by (simp add: m' mg_inv_def mg_ok_def)
  with entry have "mg_ok m'" by (auto simp: mg_ok_def)
  moreover have "mg_len m' = i64 (int (length (mg_links m')) + (d + (if FindLinkByUserInfo u m = None then 0 else 1)))"
    using inv by (auto simp: m' mg_inv_def FindLinkByUserInfo_def length_sm_store algebra_simps)
  ultimately show ?thesis by (simp add: mg_inv_def)
qed

subsection \<open>Sweeping the map\<close>

text \<open>
  \<open>CleanIdleLinks\<close> and \<open>Close\<close> both visit every entry, replace its link, and drop some
  entries. \<open>sweep f drop es m\<close> is their common shape.
\<close>

definition sweep1 :: "(nat \<Rightarrow> link \<Rightarrow> bool \<times> link) \<Rightarrow> string \<Rightarrow> nat \<Rightarrow> manager \<Rightarrow> manager" where
  "sweep1 f k r m =
     (let m1 = m\<lparr>mg_heap := (mg_heap m)[r := snd (f r (mg_heap m ! r))]\<rparr>
      in if fst (f r (mg_heap m ! r)) then snd (RemoveLink k m1) else m1)"

fun sweep :: "(nat \<Rightarrow> link \<Rightarrow> bool \<times> link) \<Rightarrow> (string \<times> nat) list \<Rightarrow> manager \<Rightarrow> manager" where
  "sweep f [] m = m"
| "sweep f ((k, r) # es) m = sweep f es (sweep1 f k r m)"

lemma sweep1_simps [simp]:
  "mg_heap (sweep1 f k r m) = (mg_heap m)[r := snd (f r (mg_heap m ! r))]"
  "mg_links (sweep1 f k r m) =
     (if fst (f r (mg_heap m ! r)) then sm_delete k (mg_links m) else mg_links m)"
  by (simp_all add: sweep1_def Let_def)

lemma close_range_sweep:
  "close_range ce es m = sweep (\<lambda>r l. (True, snd (link_close (ce_frame ce r) (ce_err ce r) l))) es m"
  by (induction ce es m rule: close_range.induct)
    (simp_all add: Let_def sweep1_def split: prod.splits)

lemma clean_range_sweep:
  "snd (clean_range ce now t es m)
     = sweep (\<lambda>r l. link_tryCloseIfIdle now t (ce_frame ce r) (ce_err ce r) l) es m"
proof (induction es arbitrary: m)
  case (Cons e es)
  show ?case
    by (cases e) (simp add: Cons [symmetric] Let_def sweep1_def split_beta)
qed simp

text \<open>What a sweep over distinct entries leaves: each visited link is replaced once, and
  exactly the entries its result marks as dropped are gone.\<close>

lemma sweep_heap:
  assumes "distinct (map snd es)" and "\<forall>(k, r) \<in> set es. r < length (mg_heap m)"
  shows "length (mg_heap (sweep f es m)) = length (mg_heap m) \<and>
    mg_heap (sweep f es m) ! q =
      (if q \<in> snd ` set es then snd (f q (mg_heap m ! q)) else mg_heap m ! q)"
  using assms
proof (induction es arbitrary: m)
  case (Cons e es)
  obtain k r where e: "e = (k, r)" by (cases e)
  have "r \<notin> snd ` set es" "r < length (mg_heap m)" using Cons.prems by (auto simp: e)
  moreover have "length (mg_heap (sweep f es (sweep1 f k r m))) = length (mg_heap (sweep1 f k r m)) \<and>
    mg_heap (sweep f es (sweep1 f k r m)) ! q =
      (if q \<in> snd ` set es then snd (f q (mg_heap (sweep1 f k r m) ! q)) else mg_heap (sweep1 f k r m) ! q)"
    by (rule Cons.IH) (use Cons.prems in \<open>auto simp: e\<close>)
  ultimately show ?case by (cases "q = r") (simp_all add: e)
qed simp

lemma sweep_links:
  assumes "distinct (map snd es)"
  shows "mg_links (sweep f es m) =
    filter (\<lambda>e. fst e \<notin> fst ` set (filter (\<lambda>(k, r). fst (f r (mg_heap m ! r))) es)) (mg_links m)"
  using assms
proof (induction es arbitrary: m)
  case (Cons e es)
  obtain k r where e: "e = (k, r)" by (cases e)
  let ?m = "sweep1 f k r m"
  have r: "r \<notin> snd ` set es" using Cons.prems by (auto simp: e)
  have same: "filter (\<lambda>(k, r). fst (f r (mg_heap ?m ! r))) es = filter (\<lambda>(k, r). fst (f r (mg_heap m ! r))) es"
  proof (rule filter_cong [OF refl])
    fix x assume "x \<in> set es"
    with r have "snd x \<noteq> r" by auto
    then show "(case x of (k, r) \<Rightarrow> fst (f r (mg_heap ?m ! r))) = (case x of (k, r) \<Rightarrow> fst (f r (mg_heap m ! r)))"
      by (simp add: split_beta)
  qed
  have "mg_links (sweep f es ?m) =
    filter (\<lambda>e. fst e \<notin> fst ` set (filter (\<lambda>(k, r). fst (f r (mg_heap ?m ! r))) es)) (mg_links ?m)"
    by (rule Cons.IH) (use Cons.prems in simp)
  also have "mg_links ?m =
      (if fst (f r (mg_heap m ! r)) then filter (\<lambda>e. fst e \<noteq> k) (mg_links m) else mg_links m)"
    by (auto simp: AList.delete_eq intro: filter_cong)
  finally show ?case unfolding same by (auto simp: e intro!: filter_cong)
qed simp

lemma sweep_inv:
  assumes f: "\<And>r l. lk_id (snd (f r l)) = lk_id l \<and> lk_user (snd (f r l)) = lk_user l"
  shows "mg_inv m d \<Longrightarrow> mg_inv (sweep f es m) d"
proof (induction es arbitrary: m)
  case (Cons e es)
  obtain k r where e: "e = (k, r)" by (cases e)
  have "mg_inv (sweep1 f k r m) d"
    using mg_inv_heap [OF Cons.prems heap_ids_update, of "snd (f r (mg_heap m ! r))" r] f
    by (simp add: sweep1_def mg_inv_remove Let_def)
  then show ?case using Cons.IH by (simp add: e)
qed simp

text \<open>The entries of a well-formed map point to distinct links.\<close>

lemma mg_ok_distinct: "mg_ok m \<Longrightarrow> distinct (map snd (mg_links m))"
proof -
  assume ok: "mg_ok m"
  have "inj_on snd (set (mg_links m))"
  proof (rule inj_onI)
    fix x y assume "x \<in> set (mg_links m)" "y \<in> set (mg_links m)" "snd x = snd y"
    moreover have "fst (heap_ids (mg_heap m) ! snd e) = fst e" if "e \<in> set (mg_links m)" for e
      using ok that by (auto simp: mg_ok_def)
    ultimately have "fst x = fst y" by metis
    with \<open>snd x = snd y\<close> show "x = y" by (simp add: prod_eq_iff)
  qed
  moreover have "distinct (mg_links m)" using ok by (simp add: mg_ok_def sm_ok_def distinct_map)
  ultimately show ?thesis by (simp add: distinct_map)
qed

lemma mg_ok_range: "mg_ok m \<Longrightarrow> \<forall>(k, r) \<in> set (mg_links m). r < length (mg_heap m)"
  by (auto simp: mg_ok_def)

definition idle_at :: "int \<Rightarrow> int \<Rightarrow> link \<Rightarrow> bool" where
  "idle_at now t l \<longleftrightarrow> fst (link_tryCloseIfIdle now t True None l)"

lemma idle_at_iff [simp]: "fst (link_tryCloseIfIdle now t fw c l) = idle_at now t l"
  by (simp add: link_tryCloseIfIdle_def idle_at_def)

lemma clean_range_Cons:
  "sm_load (mg_links m) k \<noteq> None \<Longrightarrow>
   fst (clean_range ce now t ((k, r) # es) m)
     = (if idle_at now t (mg_heap m ! r) then 1 else 0)
       + fst (clean_range ce now t es
               (sweep1 (\<lambda>r. link_tryCloseIfIdle now t (ce_frame ce r) (ce_err ce r)) k r m))"
  by (auto simp: Let_def sweep1_def split_beta)

lemma clean_range_count:
  assumes "distinct (map snd es)" and "distinct (map fst es)"
    and "\<forall>e \<in> set es. sm_load (mg_links m) (fst e) \<noteq> None"
  shows "fst (clean_range ce now t es m)
    = int (length (filter (\<lambda>e. idle_at now t (mg_heap m ! snd e)) es))"
  using assms
proof (induction es arbitrary: m)
  case (Cons e es)
  obtain k r where e: "e = (k, r)" by (cases e)
  let ?m = "sweep1 (\<lambda>r. link_tryCloseIfIdle now t (ce_frame ce r) (ce_err ce r)) k r m"
  have IH: "fst (clean_range ce now t es ?m)
    = int (length (filter (\<lambda>e. idle_at now t (mg_heap ?m ! snd e)) es))"
    by (rule Cons.IH) (use Cons.prems in \<open>auto simp: e\<close>)
  have same: "filter (\<lambda>e. idle_at now t (mg_heap ?m ! snd e)) es
     = filter (\<lambda>e. idle_at now t (mg_heap m ! snd e)) es"
  proof (rule filter_cong [OF refl])
    fix x assume "x \<in> set es"
    with Cons.prems have "r \<noteq> snd x" by (auto simp: e)
    then show "idle_at now t (mg_heap ?m ! snd x) = idle_at now t (mg_heap m ! snd x)" by simp
  qed
  have "sm_load (mg_links m) k \<noteq> None" using Cons.prems by (simp add: e)
  from clean_range_Cons [OF this] show ?case by (simp only: IH same e) simp
qed simp

subsection \<open>The manager and its environment\<close>

text \<open>
  The reachable states of a manager: its operations in any order, with any answers of
  the network, and between them the links' own goroutines, which change links but not
  whose they are. The second component counts the \<open>NewLink\<close> calls for a user who
  already had a link (a reconnect, or a second login).
\<close>

inductive mg_step :: "manager \<times> nat \<Rightarrow> manager \<times> nat \<Rightarrow> bool" where
  ms_new: "NewLink now u cst m = Ret (r, m') \<Longrightarrow>
     mg_step (m, d) (m', d + (if FindLinkByUserInfo u m = None then 0 else 1))"
| ms_remove: "mg_step (m, d) (snd (RemoveLink k m), d)"
| ms_push: "PushMessage marshal sc select msg m = Ret (err, m') \<Longrightarrow> mg_step (m, d) (m', d)"
| ms_redirect: "RedirectLinks mn marshal now sc select ns m = Ret (err, m') \<Longrightarrow> mg_step (m, d) (m', d)"
| ms_clean: "mg_step (m, d) (snd (CleanIdleLinks ce now t m), d)"
| ms_close: "mg_step (m, d) (snd (manager_Close ce m), d)"
| ms_graceful: "GracefulClose ce mn marshal now sc evs ns m = Ret (Some (err, m')) \<Longrightarrow> mg_step (m, d) (m', d)"
| ms_gracefulV2: "GracefulCloseV2 ce marshal sc evs msg m = Ret (Some (err, m')) \<Longrightarrow> mg_step (m, d) (m', d)"
| ms_links: "heap_ids h = heap_ids (mg_heap m) \<Longrightarrow> mg_step (m, d) (m\<lparr>mg_heap := h\<rparr>, d)"

definition mg_init :: "manager \<times> nat \<Rightarrow> bool" where
  "mg_init s \<longleftrightarrow> (\<exists>config. s = (NewManager config, 0))"

definition mg_sys_inv :: "manager \<times> nat \<Rightarrow> bool" where
  "mg_sys_inv s \<longleftrightarrow> mg_inv (fst s) (int (snd s))"

lemma manager_push_inv:
  "manager_push marshal sc sel msg m = Ret (err, m') \<Longrightarrow> mg_inv m d \<Longrightarrow> mg_inv m' d"
  by (auto simp: manager_push_def exec_bind_Ret split: sum.splits
      intro: mg_inv_heap push_sends_ids)

lemma PushMessage_inv:
  "PushMessage marshal sc select msg m = Ret (err, m') \<Longrightarrow> mg_inv m d \<Longrightarrow> mg_inv m' d"
  by (auto simp: PushMessage_def Let_def split: if_splits option.splits intro: manager_push_inv)

lemma RedirectLinks_inv:
  "RedirectLinks mn marshal now sc select ns m = Ret (err, m') \<Longrightarrow> mg_inv m d \<Longrightarrow> mg_inv m' d"
  by (auto simp: RedirectLinks_def split: if_splits sum.splits intro: PushMessage_inv)

lemma CleanIdleLinks_inv: "mg_inv m d \<Longrightarrow> mg_inv (snd (CleanIdleLinks ce now t m)) d"
  by (simp add: CleanIdleLinks_def clean_range_sweep sweep_inv)

lemma manager_Close_inv: "mg_inv m d \<Longrightarrow> mg_inv (snd (manager_Close ce m)) d"
  by (simp add: manager_Close_def close_range_sweep sweep_inv)

lemma remove_all_inv: "mg_inv m d \<Longrightarrow> mg_inv (remove_all ks m) d"
  unfolding remove_all_def by (induction ks arbitrary: m) (simp_all add: mg_inv_remove)

lemma graceful_wait_inv:
  "graceful_wait ce evs m = Some (err, m') \<Longrightarrow> mg_inv m d \<Longrightarrow> mg_inv m' d"
proof (induction ce evs m rule: graceful_wait.induct)
  case (2 ce ks evs m)
  then show ?case using manager_Close_inv [OF remove_all_inv, of m d ce ks] by simp
next
  case (3 ce ks evs m)
  then show ?case using remove_all_inv [of m d ks] by (auto simp: Let_def split: if_splits)
qed simp

lemma GracefulCloseV2_inv:
  "GracefulCloseV2 ce marshal sc evs msg m = Ret (Some (err, m')) \<Longrightarrow> mg_inv m d \<Longrightarrow> mg_inv m' d"
  by (auto simp: GracefulCloseV2_def exec_bind_Ret split: if_splits
      intro: graceful_wait_inv manager_push_inv)

lemma GracefulClose_inv:
  "GracefulClose ce mn marshal now sc evs ns m = Ret (Some (err, m')) \<Longrightarrow> mg_inv m d \<Longrightarrow> mg_inv m' d"
  by (auto simp: GracefulClose_def Let_def exec_bind_Ret split: if_splits sum.splits
      intro: graceful_wait_inv manager_push_inv)

lemmas mg_op_inv = PushMessage_inv RedirectLinks_inv CleanIdleLinks_inv manager_Close_inv
  GracefulClose_inv GracefulCloseV2_inv mg_inv_remove mg_inv_heap

lemma mg_step_inv: "mg_step s s' \<Longrightarrow> mg_sys_inv s \<Longrightarrow> mg_sys_inv s'"
proof (induction rule: mg_step.induct)
  case (ms_new now u cst m r m' d)
  then show ?case using mg_inv_new [OF _ ms_new(1)] by (force simp: mg_sys_inv_def)
qed (auto simp: mg_sys_inv_def intro: mg_op_inv)

lemma mg_init_inv: "mg_init s \<Longrightarrow> mg_sys_inv s"
  by (auto simp: mg_init_def mg_sys_inv_def mg_inv_def mg_ok_def NewManager_def in64_def)

interpretation mgs: inv_system mg_init mg_step mg_sys_inv
  by unfold_locales (auto intro: mg_init_inv mg_step_inv)

subsection \<open>The directory contract\<close>

text \<open>
  What the server relies on when it looks for the link of a receiver: \<open>find\<close> answers
  with what was last added for that user and not dropped since, whatever happened to
  other users. Users are the same when their business and user ids agree.
\<close>

definition same_user :: "user_info \<Rightarrow> user_info \<Rightarrow> bool" where
  "same_user u u' \<longleftrightarrow> BizID u = BizID u' \<and> UserID u = UserID u'"

datatype dir_op = DAdd user_info | DDrop user_info

fun dir_run ::
  "(user_info \<Rightarrow> 's \<Rightarrow> (nat \<times> 's) exec) \<Rightarrow> (user_info \<Rightarrow> 's \<Rightarrow> 's) \<Rightarrow> dir_op list \<Rightarrow> 's \<Rightarrow> 's exec" where
  "dir_run add del [] s = Ret s"
| "dir_run add del (DAdd u # ops) s = exec_bind (add u s) (\<lambda>(_, s'). dir_run add del ops s')"
| "dir_run add del (DDrop u # ops) s = dir_run add del ops (del u s)"

text \<open>The abstract directory: who is present.\<close>

fun dir_spec :: "dir_op list \<Rightarrow> user_info \<Rightarrow> bool \<Rightarrow> bool" where
  "dir_spec [] u b = b"
| "dir_spec (DAdd v # ops) u b = dir_spec ops u (same_user u v \<or> b)"
| "dir_spec (DDrop v # ops) u b = dir_spec ops u (\<not> same_user u v \<and> b)"

locale link_directory =
  fixes find :: "user_info \<Rightarrow> 's \<Rightarrow> nat option"
    and add :: "user_info \<Rightarrow> 's \<Rightarrow> (nat \<times> 's) exec"
    and del :: "user_info \<Rightarrow> 's \<Rightarrow> 's"
  assumes find_add: "add v s = Ret (r, s') \<Longrightarrow> find u s' = (if same_user u v then Some r else find u s)"
    and find_drop: "find u (del v s) = (if same_user u v then None else find u s)"
begin

lemma find_run:
  "dir_run add del ops s = Ret s' \<Longrightarrow> (find u s' \<noteq> None) = dir_spec ops u (find u s \<noteq> None)"
proof (induction ops arbitrary: s)
  case (Cons op ops)
  show ?case
  proof (cases op)
    case (DAdd v)
    with Cons.prems obtain r s1 where "add v s = Ret (r, s1)" "dir_run add del ops s1 = Ret s'"
      by (auto simp: exec_bind_Ret)
    with Cons.IH [of s1] find_add show ?thesis by (simp add: DAdd)
  next
    case (DDrop v)
    with Cons.prems Cons.IH [of "del v s"] find_drop show ?thesis by (simp add: DDrop)
  qed
qed simp

lemma find_other:
  "dir_run add del ops s = Ret s' \<Longrightarrow> \<forall>v. DAdd v \<in> set ops \<or> DDrop v \<in> set ops \<longrightarrow> \<not> same_user u v
   \<Longrightarrow> find u s' = find u s"
proof (induction ops arbitrary: s)
  case (Cons op ops)
  show ?case
  proof (cases op)
    case (DAdd v)
    with Cons.prems obtain r s1 where "add v s = Ret (r, s1)" "dir_run add del ops s1 = Ret s'"
      by (auto simp: exec_bind_Ret)
    with Cons.IH [of s1] Cons.prems(2) find_add [of v s r s1 u] show ?thesis by (auto simp: DAdd)
  next
    case (DDrop v)
    with Cons.prems Cons.IH [of "del v s"] find_drop [of u v s] show ?thesis by auto
  qed
qed simp

end

lemma NewLink_find:
  "NewLink now v cst m = Ret (r, m') \<Longrightarrow>
   FindLinkByUserInfo u m' = (if same_user u v then Some r else FindLinkByUserInfo u m)"
  by (erule NewLink_cases) (auto simp: FindLinkByUserInfo_def same_user_def generateLinkID_inject)

lemma RemoveLink_find:
  "FindLinkByUserInfo u (snd (RemoveLink (generateLinkID v) m))
     = (if same_user u v then None else FindLinkByUserInfo u m)"
  by (auto simp: FindLinkByUserInfo_def same_user_def generateLinkID_inject)

interpretation mgd: link_directory FindLinkByUserInfo "\<lambda>u m. NewLink now u cst m"
    "\<lambda>u m. snd (RemoveLink (generateLinkID u) m)" for now cst
  by unfold_locales (simp_all add: NewLink_find RemoveLink_find)

subsection \<open>Sending to a selection\<close>

definition send_stuck :: "link \<Rightarrow> bool" where
  "send_stuck l \<longleftrightarrow> \<not> lk_done l \<and> \<not> ch_room (lk_sendCh l)"

text \<open>The effect of one uncontended \<open>Send\<close> that does not wait.\<close>

definition queued :: "bool \<Rightarrow> bytes \<Rightarrow> link \<Rightarrow> link" where
  "queued pick p l =
     (if lk_done l \<and> (pick \<or> \<not> ch_room (lk_sendCh l)) then l
      else l\<lparr>lk_sendCh := (lk_sendCh l)\<lparr>ch_buf := ch_buf (lk_sendCh l) @ [p]\<rparr>\<rparr>)"

lemma link_send_queued:
  "link_send pick False l p = SBlocked \<longleftrightarrow> send_stuck l"
  "\<not> send_stuck l \<Longrightarrow> \<exists>e. link_send pick False l p = SReturn e (queued pick p l)"
  by (auto simp: link_send_def send_stuck_def queued_def ch_try_send_def Let_def)

lemma push_sends_result:
  assumes "distinct sel"
  shows "push_sends (\<lambda>_. (pick, False)) p sel h =
    (if \<exists>r \<in> set sel. send_stuck (h ! r) then Block
     else Ret (fold (\<lambda>r h. h[r := queued pick p (h ! r)]) sel h))"
  using assms
proof (induction sel arbitrary: h)
  case (Cons r sel)
  show ?case
  proof (cases "send_stuck (h ! r)")
    case True
    then have "link_send pick False (h ! r) p = SBlocked" by (simp add: link_send_queued(1))
    with True show ?thesis by simp
  next
    case False
    then obtain e where e: "link_send pick False (h ! r) p = SReturn e (queued pick p (h ! r))"
      using link_send_queued(2) by blast
    have "(\<exists>q \<in> set sel. send_stuck (h[r := l'] ! q)) = (\<exists>q \<in> set sel. send_stuck (h ! q))" for l'
    proof -
      have "h[r := l'] ! q = h ! q" if "q \<in> set sel" for q
        using Cons.prems that by (cases "q = r") auto
      then show ?thesis by simp
    qed
    with False e Cons show ?thesis by simp
  qed
qed simp

lemma fold_update_nth:
  assumes "distinct sel" and "set sel \<subseteq> {..<length h}"
  shows "length (fold (\<lambda>r h. h[r := f (h ! r)]) sel h) = length h \<and>
    fold (\<lambda>r h. h[r := f (h ! r)]) sel h ! q = (if q \<in> set sel then f (h ! q) else h ! q)"
  using assms
proof (induction sel arbitrary: h)
  case (Cons r sel)
  have "length (fold (\<lambda>r h. h[r := f (h ! r)]) sel (h[r := f (h ! r)])) = length (h[r := f (h ! r)]) \<and>
    fold (\<lambda>r h. h[r := f (h ! r)]) sel (h[r := f (h ! r)]) ! q
      = (if q \<in> set sel then f (h[r := f (h ! r)] ! q) else h[r := f (h ! r)] ! q)"
    by (rule Cons.IH) (use Cons.prems in auto)
  then show ?case using Cons.prems by (cases "q = r") auto
qed simp

lemma push_sends_other: "push_sends sc p sel h = Ret h' \<Longrightarrow> q \<notin> set sel \<Longrightarrow> h' ! q = h ! q"
  by (induction sc p sel h rule: push_sends.induct) (auto split: send_result.splits)

lemma PushMessage_other:
  assumes "PushMessage marshal sc select msg m = Ret (err, m')"
    and "\<And>sel. select (Links m) = Some sel \<Longrightarrow> q \<notin> set sel"
  shows "mg_heap m' ! q = mg_heap m ! q \<and> mg_links m' = mg_links m \<and> mg_len m' = mg_len m"
  using assms
  by (auto simp: PushMessage_def manager_push_def Let_def exec_bind_Ret push_sends_other
      split: if_splits option.splits sum.splits)

subsection \<open>Waiting for an orderly close\<close>

lemma i64_zero: "0 \<le> x \<Longrightarrow> x < 2 ^ 63 \<Longrightarrow> i64 x = 0 \<longleftrightarrow> x = 0"
  by (simp add: i64_nonneg)

lemma mg_len_zero:
  "mg_inv m d \<Longrightarrow> 0 \<le> d \<Longrightarrow> int (length (mg_links m)) + d < 2 ^ 63 \<Longrightarrow>
   mg_len m = 0 \<longleftrightarrow> mg_links m = [] \<and> d = 0"
proof -
  assume inv: "mg_inv m d" "0 \<le> d" "int (length (mg_links m)) + d < 2 ^ 63"
  then have "mg_len m = 0 \<longleftrightarrow> int (length (mg_links m)) + d = 0"
    using i64_zero [of "int (length (mg_links m)) + d"] by (simp add: mg_inv_def)
  also have "\<dots> \<longleftrightarrow> length (mg_links m) = 0 \<and> d = 0" using inv(2) by linarith
  finally show ?thesis by simp
qed

lemma manager_Close_links:
  assumes inv: "mg_inv m d" "0 \<le> d" "int (length (mg_links m)) + d < 2 ^ 63"
  shows "mg_links (snd (manager_Close ce m)) = []"
proof (cases "mg_len m = 0")
  case True
  then show ?thesis using mg_len_zero [OF inv] by (simp add: manager_Close_def)
next
  case False
  have "distinct (map snd (mg_links m))" using inv(1) mg_ok_distinct by (simp add: mg_inv_def)
  then show ?thesis using False
    by (simp add: manager_Close_def close_range_sweep sweep_links filter_empty_conv)
qed

lemma remove_all_shrinks: "length (mg_links (remove_all ks m)) \<le> length (mg_links m)"
  unfolding remove_all_def
proof (induction ks arbitrary: m)
  case (Cons k ks)
  have "length (mg_links (snd (RemoveLink k m))) \<le> length (mg_links m)"
    using length_delete_le by simp
  then show ?case using Cons.IH [of "snd (RemoveLink k m)"] by simp
qed simp

lemma graceful_wait_links:
  assumes "graceful_wait ce evs m = Some (err, m')"
    and "mg_inv m d" "0 \<le> d" "int (length (mg_links m)) + d < 2 ^ 63"
  shows "mg_links m' = [] \<and> err = None \<and> (d \<noteq> 0 \<longrightarrow> (\<exists>ks. CtxDone ks \<in> set evs))"
  using assms
proof (induction evs arbitrary: m)
  case (Cons ev evs)
  have small: "int (length (mg_links (remove_all ks m))) + d < 2 ^ 63" for ks
    using remove_all_shrinks [of ks m] Cons.prems(4) by linarith
  show ?case
  proof (cases ev)
    case (Tick ks)
    show ?thesis
    proof (cases "Len (remove_all ks m) = 0")
      case True
      with Cons.prems(1) have "m' = remove_all ks m" "err = None" by (simp_all add: Tick)
      then show ?thesis
        using mg_len_zero [OF remove_all_inv [OF Cons.prems(2), of ks] Cons.prems(3) small] True
        by (simp add: Len_def)
    next
      case False
      then show ?thesis
        using Cons.IH [of "remove_all ks m"] Cons.prems remove_all_inv small by (auto simp: Tick)
    qed
  next
    case (CtxDone ks)
    then show ?thesis
      using Cons.prems manager_Close_links [OF remove_all_inv [OF Cons.prems(2), of ks] Cons.prems(3) small, of ce]
      by (auto simp: manager_Close_def split: if_splits)
  qed
qed simp

subsection \<open>A small manager\<close>

definition ex_mgr :: "manager \<times> nat" where
  "ex_mgr =
     (let m0 = NewManager None; u = \<lparr>BizID = 1, UserID = 7, AutoClose = True\<rparr> in
      case NewLink 0 u None m0 of
        Ret (_, m1) \<Rightarrow> (case NewLink 5 u None m1 of Ret (_, m2) \<Rightarrow> (m2, 1) | _ \<Rightarrow> (m1, 0))
      | _ \<Rightarrow> (m0, 0))"

lemma NewLink_default:
  "mg_config m = mg_config (NewManager None) \<Longrightarrow> \<exists>r m'. NewLink now u None m = Ret (r, m') \<and> mg_config m' = mg_config m"
  by (simp add: NewManager_def NewLink_def convertToLinkOptions_def link_new_def Let_def
      WithTimeouts_def WithRetry_def WithBuffer_def WithAutoClose_def WithRateLimit_def
      DefaultReadTimeout_def DefaultWriteTimeout_def DefaultMaxRetries_def
      DefaultWriteBufferSize_def DefaultReadBufferSize_def)

lemma ex_mgr_reach: "reach mg_init mg_step (fst ex_mgr, 1)"
proof -
  let ?m0 = "NewManager None" and ?u = "\<lparr>BizID = 1, UserID = 7, AutoClose = True\<rparr>"
  obtain r1 m1 where 1: "NewLink 0 ?u None ?m0 = Ret (r1, m1)" "mg_config m1 = mg_config ?m0"
    using NewLink_default by blast
  obtain r2 m2 where 2: "NewLink 5 ?u None m1 = Ret (r2, m2)"
    using NewLink_default [OF 1(2)] by blast
  have "FindLinkByUserInfo ?u ?m0 = None" by (simp add: FindLinkByUserInfo_def NewManager_def)
  moreover have "FindLinkByUserInfo ?u m1 = Some r1"
    using NewLink_find [OF 1(1)] by (simp add: same_user_def)
  ultimately have "mg_step (?m0, 0) (m1, 0)" "mg_step (m1, 0) (m2, 1)"
    using mg_step.ms_new [OF 1(1), of 0] mg_step.ms_new [OF 2, of 0] by simp_all
  moreover have "reach mg_init mg_step (?m0, 0)" by (rule reach_init) (auto simp: mg_init_def)
  ultimately have "reach mg_init mg_step (m2, 1)" by (blast intro: reach_step)
  moreover have "fst ex_mgr = m2" using 1(1) 2 by (simp add: ex_mgr_def)
  ultimately show ?thesis by simp
qed

lemma ex_mgr_links: "length (mg_links (fst ex_mgr)) = 1"
  by code_simp

subsection \<open>Properties\<close>

text \<open>C6. In every reachable state of the manager the map has one entry per user, the entry
  points to a link of exactly that user, different entries point to different links, and
  the counter \<open>Len()\<close> is the number of entries plus the number of \<open>NewLink\<close> calls that
  replaced a link of the same user.\<close>

theorem manager_consistent:
  assumes "reach mg_init mg_step (m, d)"
  shows "sm_ok (mg_links m) \<and> distinct (map snd (mg_links m))
    \<and> (\<forall>(k, r) \<in> set (mg_links m). r < length (mg_heap m) \<and> lk_id (mg_heap m ! r) = k
         \<and> k = generateLinkID (lk_user (mg_heap m ! r)))
    \<and> Len m = i64 (int (length (mg_links m)) + int d)"
  using mgs.reach_inv [OF assms] mg_ok_distinct [of m]
  by (auto simp: mg_sys_inv_def mg_inv_def mg_ok_def heap_ids_nth Len_def)

theorem manager_consistent_witness: "Len (fst ex_mgr) = i64 (int (length (mg_links (fst ex_mgr))) + 1)"
  using manager_consistent [OF ex_mgr_reach] by simp

text \<open>C7. \<open>FindLinkByUserInfo\<close> refines the abstract directory: after any sequence of
  \<open>NewLink\<close> and \<open>RemoveLink\<close> calls a user has a link exactly when the last call about
  this user was \<open>NewLink\<close>; calls about other users (another business or user id, however
  their decimal texts concatenate) change nothing for this one.\<close>

theorem manager_directory:
  "dir_run (\<lambda>u m. NewLink now u cst m) (\<lambda>u m. snd (RemoveLink (generateLinkID u) m)) ops m = Ret m' \<longrightarrow>
   (FindLinkByUserInfo u m' \<noteq> None) = dir_spec ops u (FindLinkByUserInfo u m \<noteq> None)
   \<and> ((\<forall>v. DAdd v \<in> set ops \<or> DDrop v \<in> set ops \<longrightarrow> \<not> same_user u v) \<longrightarrow>
        FindLinkByUserInfo u m' = FindLinkByUserInfo u m)"
  using mgd.find_run [of now cst ops m m' u] mgd.find_other [of now cst ops m m' u] by blast

theorem manager_directory_witness:
  "FindLinkByUserInfo \<lparr>BizID = 1, UserID = 23, AutoClose = False\<rparr>
     (case dir_run (\<lambda>u m. NewLink 0 u None m) (\<lambda>u m. snd (RemoveLink (generateLinkID u) m))
        [DAdd \<lparr>BizID = 1, UserID = 23, AutoClose = True\<rparr>, DDrop \<lparr>BizID = 12, UserID = 3, AutoClose = True\<rparr>]
        (NewManager None) of Ret m' \<Rightarrow> m' | _ \<Rightarrow> NewManager None) \<noteq> None"
proof -
  let ?ops = "[DAdd \<lparr>BizID = 1, UserID = 23, AutoClose = True\<rparr>, DDrop \<lparr>BizID = 12, UserID = 3, AutoClose = True\<rparr>]"
  obtain r m1 where "NewLink 0 \<lparr>BizID = 1, UserID = 23, AutoClose = True\<rparr> None (NewManager None) = Ret (r, m1)"
    using NewLink_default [of "NewManager None"] by blast
  then obtain m' where m': "dir_run (\<lambda>u m. NewLink 0 u None m)
      (\<lambda>u m. snd (RemoveLink (generateLinkID u) m)) ?ops (NewManager None) = Ret m'" by simp
  with manager_directory [of 0 None ?ops "NewManager None" m' "\<lparr>BizID = 1, UserID = 23, AutoClose = False\<rparr>"]
  show ?thesis by (simp add: same_user_def)
qed

text \<open>\<open>NewLink\<close> fails only when a buffer size of the configuration is negative while
  the other one is positive (\<open>make\<close> panics); otherwise the new link carries the configured
  timeouts, retry limits, buffers and rate limit, each replaced by its default exactly when
  the configuration does not set its group.\<close>

theorem manager_NewLink_configures:
  "(case NewLink now u cst m of
      Block \<Rightarrow> False
    | Panic \<Rightarrow> (let c = mg_config m in (mc_SendBufferSize c > 0 \<and> mc_ReceiveBufferSize c < 0)
                                     \<or> (mc_SendBufferSize c < 0 \<and> mc_ReceiveBufferSize c > 0))
    | Ret (r, m') \<Rightarrow>
        let l = mg_heap m' ! r; c = mg_config m;
            timeouts = mc_ReadTimeout c > 0 \<or> mc_WriteTimeout c > 0;
            buffers = mc_SendBufferSize c > 0 \<or> mc_ReceiveBufferSize c > 0
        in sm_load (mg_links m') (lk_id l) = Some r \<and> lk_user l = u \<and> lk_autoClose l = AutoClose u
           \<and> lk_compression l = cst \<and> lk_compressWriter l = (cst = Some True)
           \<and> lk_readTimeout l = (if timeouts then mc_ReadTimeout c else DefaultReadTimeout)
           \<and> lk_writeTimeout l = (if timeouts then mc_WriteTimeout c else DefaultWriteTimeout)
           \<and> lk_maxRetries l = (if mc_MaxRetries c > 0 then mc_MaxRetries c else DefaultMaxRetries)
           \<and> ch_cap (lk_sendCh l) = (if buffers then nat (mc_SendBufferSize c) else DefaultWriteBufferSize)
           \<and> ch_cap (lk_receiveCh l) = (if buffers then nat (mc_ReceiveBufferSize c) else DefaultReadBufferSize)
           \<and> lk_limitRate l = (if mc_UserRateLimit c > 0 then mc_UserRateLimit c else 0)
           \<and> \<not> lk_done l \<and> lk_lastActive l = now)"
  by (cases cst)
    (simp_all add: NewLink_def convertToLinkOptions_def link_new_def Let_def WithTimeouts_def WithRetry_def
      WithBuffer_def WithAutoClose_def WithRateLimit_def WithCompression_def ch_make_def)

text \<open>\<open>CleanIdleLinks\<close> removes exactly the links that are closed already or may be closed
  when idle and have been idle longer than the timeout, closes every link it removes,
  leaves every other link untouched, and returns how many it removed.\<close>

theorem manager_clean_idle:
  assumes "mg_inv m d"
  shows "mg_links (snd (CleanIdleLinks ce now t m))
           = filter (\<lambda>e. \<not> idle_at now t (mg_heap m ! snd e)) (mg_links m)
    \<and> fst (CleanIdleLinks ce now t m)
           = int (length (filter (\<lambda>e. idle_at now t (mg_heap m ! snd e)) (mg_links m)))
    \<and> (\<forall>(k, r) \<in> set (mg_links m).
         (if idle_at now t (mg_heap m ! r)
          then \<not> lk_once (mg_heap m ! r) \<longrightarrow> lk_done (mg_heap (snd (CleanIdleLinks ce now t m)) ! r)
          else mg_heap (snd (CleanIdleLinks ce now t m)) ! r = mg_heap m ! r))"
proof -
  let ?f = "\<lambda>r l. link_tryCloseIfIdle now t (ce_frame ce r) (ce_err ce r) l"
  have ok: "mg_ok m" "sm_ok (mg_links m)" using assms by (simp_all add: mg_inv_def mg_ok_def)
  have m': "snd (CleanIdleLinks ce now t m) = sweep ?f (mg_links m) m"
    by (simp add: CleanIdleLinks_def clean_range_sweep)
  have "mg_links (sweep ?f (mg_links m) m)
      = filter (\<lambda>e. fst e \<notin> fst ` set (filter (\<lambda>e. idle_at now t (mg_heap m ! snd e)) (mg_links m))) (mg_links m)"
    using sweep_links [OF mg_ok_distinct [OF ok(1)]] by (simp add: split_beta)
  then have links: "mg_links (sweep ?f (mg_links m) m)
      = filter (\<lambda>e. \<not> idle_at now t (mg_heap m ! snd e)) (mg_links m)"
    by (simp only: filter_keys [OF ok(2)])
  have heap: "mg_heap (sweep ?f (mg_links m) m) ! r = snd (?f r (mg_heap m ! r))" if "(k, r) \<in> set (mg_links m)" for k r
    using sweep_heap [OF mg_ok_distinct [OF ok(1)] mg_ok_range [OF ok(1)]] that by force
  have count: "fst (CleanIdleLinks ce now t m)
      = int (length (filter (\<lambda>e. idle_at now t (mg_heap m ! snd e)) (mg_links m)))"
    unfolding CleanIdleLinks_def
    by (rule clean_range_count [OF mg_ok_distinct [OF ok(1)]]) (use ok(2) in \<open>auto simp: sm_ok_def map_of_eq_None_iff\<close>)
  show ?thesis unfolding m' links count
    by (auto simp: heap idle_at_def link_tryCloseIfIdle_def split: if_splits)
qed

theorem manager_clean_idle_witness:
  "fst (CleanIdleLinks \<lparr>ce_frame = \<lambda>_. True, ce_err = \<lambda>_. None\<rparr> 100 10 (fst ex_mgr))
     = int (length (filter (\<lambda>e. idle_at 100 10 (mg_heap (fst ex_mgr) ! snd e)) (mg_links (fst ex_mgr))))"
  using manager_clean_idle [of "fst ex_mgr" 1 "\<lparr>ce_frame = \<lambda>_. True, ce_err = \<lambda>_. None\<rparr>" 100 10]
    mgs.reach_inv [OF ex_mgr_reach]
  by (simp add: mg_sys_inv_def)

text \<open>A broadcast waits exactly when some selected link is open with a full buffer;
  otherwise it reports no error, puts the payload at the end of the queue of each selected
  link that is open or (when the race is decided so) of a closed link with room, and
  changes nothing else.\<close>

theorem manager_push_result:
  assumes "marshal msg = Inr p" and "distinct sel" and "set sel \<subseteq> {..<length (mg_heap m)}"
  shows "(case manager_push marshal (\<lambda>_. (pick, False)) sel msg m of
      Panic \<Rightarrow> False
    | Block \<Rightarrow> \<exists>r \<in> set sel. send_stuck (mg_heap m ! r)
    | Ret (err, m') \<Rightarrow> err = None \<and> (\<forall>r \<in> set sel. \<not> send_stuck (mg_heap m ! r))
        \<and> mg_links m' = mg_links m \<and> mg_len m' = mg_len m \<and> length (mg_heap m') = length (mg_heap m)
        \<and> (\<forall>r. mg_heap m' ! r = (if r \<in> set sel then queued pick p (mg_heap m ! r) else mg_heap m ! r)))"
  using fold_update_nth [OF assms(2,3), of "queued pick p"]
  by (simp add: manager_push_def assms(1) push_sends_result [OF assms(2)])

theorem manager_push_result_witness:
  "(case manager_push (\<lambda>m. Inr (msg_body m)) (\<lambda>_. (False, False)) [0]
      \<lparr>msg_cmd = REDIRECT, msg_key = ''k'', msg_body = [1, 2]\<rparr>
      \<lparr>mg_heap = [ex_link], mg_links = [(''1-7'', 0)], mg_config = mg_config (NewManager None), mg_len = 1\<rparr> of
      Panic \<Rightarrow> False
    | Block \<Rightarrow> \<exists>r \<in> set [0]. send_stuck ([ex_link] ! r)
    | Ret (err, m') \<Rightarrow> mg_heap m' ! 0 = queued False [1, 2] ex_link)"
  using manager_push_result [of "\<lambda>m. Inr (msg_body m)" "\<lparr>msg_cmd = REDIRECT, msg_key = ''k'', msg_body = [1, 2]\<rparr>"
      "[1, 2]" "[0]" "\<lparr>mg_heap = [ex_link], mg_links = [(''1-7'', 0)], mg_config = mg_config (NewManager None), mg_len = 1\<rparr>" False]
  by (auto split: exec.splits)

text \<open>The wait of a graceful close ends only with no link managed and never reports an
  error; and once a link was replaced by a newer one of the same user (\<open>d \<noteq> 0\<close>) it never
  ends early, even when all clients have gone: only the end of the context ends it.\<close>

theorem manager_graceful_wait:
  assumes "reach mg_init mg_step (m, d)" and "int (length (mg_links m)) + int d < 2 ^ 63"
    and "graceful_wait ce evs m = Some (err, m')"
  shows "mg_links m' = [] \<and> err = None \<and> (d \<noteq> 0 \<longrightarrow> (\<exists>ks. CtxDone ks \<in> set evs))"
  using graceful_wait_links [OF assms(3), of "int d"] mgs.reach_inv [OF assms(1)] assms(2)
  by (simp add: mg_sys_inv_def)

theorem manager_graceful_wait_witness:
  "mg_links (snd (manager_Close \<lparr>ce_frame = \<lambda>_. True, ce_err = \<lambda>_. None\<rparr> (remove_all [''1-7''] (fst ex_mgr)))) = []"
  using manager_graceful_wait [OF ex_mgr_reach, of "\<lparr>ce_frame = \<lambda>_. True, ce_err = \<lambda>_. None\<rparr>"
      "[CtxDone [''1-7'']]" "fst (manager_Close \<lparr>ce_frame = \<lambda>_. True, ce_err = \<lambda>_. None\<rparr> (remove_all [''1-7''] (fst ex_mgr)))"
      "snd (manager_Close \<lparr>ce_frame = \<lambda>_. True, ce_err = \<lambda>_. None\<rparr> (remove_all [''1-7''] (fst ex_mgr)))"]
    ex_mgr_links by simp

text \<open>\<open>Close\<close> leaves no link managed and every link that was managed closed (its context
  ended, unless it had been closed before).\<close>

theorem manager_close_all:
  assumes "reach mg_init mg_step (m, d)" and "int (length (mg_links m)) + int d < 2 ^ 63"
  shows "mg_links (snd (manager_Close ce m)) = []
    \<and> (\<forall>(k, r) \<in> set (mg_links m). lk_once (mg_heap (snd (manager_Close ce m)) ! r)
         \<and> (\<not> lk_once (mg_heap m ! r) \<longrightarrow> lk_done (mg_heap (snd (manager_Close ce m)) ! r)))"
proof -
  have inv: "mg_inv m (int d)" using mgs.reach_inv [OF assms(1)] by (simp add: mg_sys_inv_def)
  then have ok: "mg_ok m" by (simp add: mg_inv_def)
  have "mg_heap (snd (manager_Close ce m)) ! r = snd (link_close (ce_frame ce r) (ce_err ce r) (mg_heap m ! r))"
    if "(k, r) \<in> set (mg_links m)" for k r
  proof -
    have "mg_len m \<noteq> 0" using mg_len_zero [OF inv] assms(2) that by auto
    moreover have "r \<in> snd ` set (mg_links m)" using that by force
    ultimately show ?thesis
      using sweep_heap [OF mg_ok_distinct [OF ok] mg_ok_range [OF ok]]
      by (simp add: manager_Close_def close_range_sweep)
  qed
  then show ?thesis using manager_Close_links [OF inv] assms(2) by auto
qed

theorem manager_close_all_witness:
  "mg_links (snd (manager_Close \<lparr>ce_frame = \<lambda>_. True, ce_err = \<lambda>_. None\<rparr> (fst ex_mgr))) = []"
  using manager_close_all [OF ex_mgr_reach] ex_mgr_links by simp

text \<open>A broadcast through any of the code's selectors touches only links the manager
  holds: every other link on the heap, the map and the counter stay as they were.\<close>

theorem manager_push_only_managed:
  assumes "select \<in> {AllLinks_Select, RandomLinks_Select c rnd, PercentLinks_Select unspec p rnd}"
    and "PushMessage marshal sc select msg m = Ret (err, m')" and "q \<notin> set (Links m)"
  shows "mg_heap m' ! q = mg_heap m ! q \<and> mg_links m' = mg_links m \<and> mg_len m' = mg_len m"
proof (rule PushMessage_other [OF assms(2)])
  fix sel assume "select (Links m) = Some sel"
  then have "set sel \<subseteq> set (Links m)"
    using assms(1) all_sel.select_set random_sel.select_set percent_sel.select_set by fastforce
  with assms(3) show "q \<notin> set sel" by blast
qed

theorem manager_push_only_managed_witness:
  "(case PushMessage (\<lambda>m. Inr (msg_body m)) (\<lambda>_. (False, False)) AllLinks_Select
      \<lparr>msg_cmd = REDIRECT, msg_key = ''k'', msg_body = [1, 2]\<rparr>
      \<lparr>mg_heap = [ex_link, ex_link], mg_links = [(''1-7'', 0)], mg_config = mg_config (NewManager None), mg_len = 1\<rparr> of
      Ret (err, m') \<Rightarrow> mg_heap m' ! 1 = ex_link | _ \<Rightarrow> True)"
proof -
  let ?m = "\<lparr>mg_heap = [ex_link, ex_link], mg_links = [(''1-7'', 0)], mg_config = mg_config (NewManager None), mg_len = 1\<rparr>"
  have "mg_heap m' ! 1 = ex_link"
    if "PushMessage (\<lambda>m. Inr (msg_body m)) (\<lambda>_. (False, False)) AllLinks_Select
      \<lparr>msg_cmd = REDIRECT, msg_key = ''k'', msg_body = [1, 2]\<rparr> ?m = Ret (err, m')" for err m'
    using manager_push_only_managed [OF _ that, of 0 "\<lambda>_. 0" "\<lambda>_. 0" NaN 1] by (simp add: Links_def)
  then show ?thesis by (simp split: exec.splits)
qed

end
