(* ===== verification/GW_Limiter.thy ===== *)
theory GW_Limiter
  imports GW_Types
begin

text \<open>
  \<open>internal/limiter/connection_limiter.go\<close>: the limiter of concurrent connections, a
  channel used as a bag of tokens whose size grows step by step after a start. Its
  operations, the ramp-up goroutine as steps that interleave with them, and the contract
  \<open>token_pool\<close> its users rely on.
\<close>

record token_limiter_config =
  tc_InitialCapacity :: int
  tc_MaxCapacity :: int
  tc_IncreaseStep :: int
  tc_IncreaseInterval :: int

record token_limiter =
  tl_config :: token_limiter_config
  tl_currentCapacity :: int
  tl_tokens :: "unit chan"
  tl_closed :: bool

text \<open>\<open>n\<close> blocking sends, one after the other, with nobody receiving.\<close>

fun fill_tokens :: "nat \<Rightarrow> unit chan \<Rightarrow> unit chan exec" where
  "fill_tokens 0 c = Ret c"
| "fill_tokens (Suc n) c = (case ch_try_send c () of None \<Rightarrow> Block | Some c' \<Rightarrow> fill_tokens n c')"

definition NewTokenLimiter :: "token_limiter_config \<Rightarrow> (gerr + token_limiter) exec" where
  "NewTokenLimiter cfg =
     (if tc_MaxCapacity cfg \<le> 0 then Ret (Inl (Txt ''MaxCapacity''))
      else if tc_InitialCapacity cfg < 0 then Ret (Inl (Txt ''InitialCapacity''))
      else if tc_InitialCapacity cfg > tc_MaxCapacity cfg then Ret (Inl (Txt ''InitialCapacity > MaxCapacity''))
      else if tc_IncreaseStep cfg \<le> 0 then Ret (Inl (Txt ''IncreaseStep''))
      else if tc_IncreaseInterval cfg \<le> 0 then Ret (Inl (Txt ''IncreaseInterval''))
      else exec_bind (fill_tokens (nat (tc_InitialCapacity cfg)) (ch_make (nat (tc_MaxCapacity cfg))))
             (\<lambda>c. Ret (Inr \<lparr>tl_config = cfg, tl_currentCapacity = tc_InitialCapacity cfg,
                            tl_tokens = c, tl_closed = False\<rparr>)))"

definition limiter_Acquire :: "token_limiter \<Rightarrow> bool \<times> token_limiter" where
  "limiter_Acquire t =
     (case ch_try_recv (tl_tokens t) of
        Some (_, c) \<Rightarrow> (True, t\<lparr>tl_tokens := c\<rparr>)
      | None \<Rightarrow> (False, t))"

definition limiter_Release :: "token_limiter \<Rightarrow> bool \<times> token_limiter" where
  "limiter_Release t =
     (case ch_try_send (tl_tokens t) () of
        Some c \<Rightarrow> (True, t\<lparr>tl_tokens := c\<rparr>)
      | None \<Rightarrow> (False, t))"

definition limiter_Close :: "token_limiter \<Rightarrow> gerr option \<times> token_limiter" where
  "limiter_Close t = (None, t\<lparr>tl_closed := True\<rparr>)"

definition CurrentCapacity :: "token_limiter \<Rightarrow> int" where
  "CurrentCapacity t = tl_currentCapacity t"

subsection \<open>Ramping up\<close>

text \<open>
  Where the goroutine of \<open>StartRampUp\<close> stands: waiting in its select, adding tokens
  (so many are left, then the capacity becomes the new one), or gone.
\<close>

datatype ramp_pc = RampWait | RampFill nat int | RampDone

definition rampup_tick :: "token_limiter \<Rightarrow> ramp_pc" where
  "rampup_tick t =
     (let current = tl_currentCapacity t in
      if current \<ge> tc_MaxCapacity (tl_config t) then RampDone
      else let sum = i64 (current + tc_IncreaseStep (tl_config t));
               newCapacity = (if sum > tc_MaxCapacity (tl_config t) then tc_MaxCapacity (tl_config t) else sum)
           in RampFill (nat (i64 (newCapacity - current))) newCapacity)"

definition rampup_fill :: "nat \<Rightarrow> int \<Rightarrow> token_limiter \<Rightarrow> (ramp_pc \<times> token_limiter) option" where
  "rampup_fill n newCapacity t =
     (case n of
        0 \<Rightarrow> Some (RampWait, t\<lparr>tl_currentCapacity := newCapacity\<rparr>)
      | Suc k \<Rightarrow> (case ch_try_send (tl_tokens t) () of
                    None \<Rightarrow> None
                  | Some c \<Rightarrow> Some (RampFill k newCapacity, t\<lparr>tl_tokens := c\<rparr>)))"

text \<open>The whole goroutine when nothing else runs, against the events its select sees.\<close>

datatype ramp_event = RampTick | RampOuterDone

fun run_fill :: "nat \<Rightarrow> int \<Rightarrow> token_limiter \<Rightarrow> token_limiter exec" where
  "run_fill 0 newCapacity t = Ret (t\<lparr>tl_currentCapacity := newCapacity\<rparr>)"
| "run_fill (Suc k) newCapacity t =
     (case rampup_fill (Suc k) newCapacity t of None \<Rightarrow> Block | Some (_, t') \<Rightarrow> run_fill k newCapacity t')"

fun StartRampUp :: "ramp_event list \<Rightarrow> token_limiter \<Rightarrow> (bool \<times> token_limiter) exec" where
  "StartRampUp [] t = Ret (tl_closed t, t)"
| "StartRampUp (RampOuterDone # evs) t = Ret (True, t)"
| "StartRampUp (RampTick # evs) t =
     (if tl_closed t then Ret (True, t)
      else (case rampup_tick t of
              RampFill n newCapacity \<Rightarrow> exec_bind (run_fill n newCapacity t) (StartRampUp evs)
            | _ \<Rightarrow> Ret (True, t)))"

subsection \<open>The limiter with its users\<close>

text \<open>\<open>tls_held\<close>: the tokens acquired and not given back. A user gives back only a token
  it holds.\<close>

record tl_sys =
  tls_lim :: token_limiter
  tls_held :: nat
  tls_pc :: ramp_pc

inductive tl_step :: "tl_sys \<Rightarrow> tl_sys \<Rightarrow> bool" where
  tl_acquire: "limiter_Acquire (tls_lim s) = (ok, t) \<Longrightarrow>
     tl_step s (s\<lparr>tls_lim := t, tls_held := (if ok then Suc (tls_held s) else tls_held s)\<rparr>)"
| tl_release: "tls_held s = Suc h \<Longrightarrow> limiter_Release (tls_lim s) = (ok, t) \<Longrightarrow>
     tl_step s (s\<lparr>tls_lim := t, tls_held := h\<rparr>)"
| tl_tick: "tls_pc s = RampWait \<Longrightarrow> tl_step s (s\<lparr>tls_pc := rampup_tick (tls_lim s)\<rparr>)"
| tl_fill: "tls_pc s = RampFill n c \<Longrightarrow> rampup_fill n c (tls_lim s) = Some (pc, t) \<Longrightarrow>
     tl_step s (s\<lparr>tls_pc := pc, tls_lim := t\<rparr>)"
| tl_stop: "tls_pc s = RampWait \<Longrightarrow> tl_step s (s\<lparr>tls_pc := RampDone\<rparr>)"
| tl_close: "tl_step s (s\<lparr>tls_lim := snd (limiter_Close (tls_lim s))\<rparr>)"

text \<open>The configurations under which the growing capacity does not overflow \<open>int64\<close>.\<close>

definition tl_config_small :: "token_limiter_config \<Rightarrow> bool" where
  "tl_config_small cfg \<longleftrightarrow> tc_MaxCapacity cfg + tc_IncreaseStep cfg < 2 ^ 63"

definition tl_init :: "tl_sys \<Rightarrow> bool" where
  "tl_init s \<longleftrightarrow> (\<exists>cfg t. tl_config_small cfg \<and> NewTokenLimiter cfg = Ret (Inr t) \<and>
     s = \<lparr>tls_lim = t, tls_held = 0, tls_pc = RampWait\<rparr>)"

fun ramp_added :: "ramp_pc \<Rightarrow> int \<Rightarrow> int" where
  "ramp_added (RampFill n c) cur = c - cur - int n"
| "ramp_added RampWait cur = 0"
| "ramp_added RampDone cur = 0"

fun ramp_ok :: "ramp_pc \<Rightarrow> int \<Rightarrow> int \<Rightarrow> bool" where
  "ramp_ok (RampFill n c) cur mx = (c \<le> mx \<and> cur + int n \<le> c)"
| "ramp_ok RampWait cur mx = True"
| "ramp_ok RampDone cur mx = True"

definition tl_inv :: "tl_sys \<Rightarrow> bool" where
  "tl_inv s \<longleftrightarrow>
     (let t = tls_lim s; cfg = tl_config t; cur = tl_currentCapacity t in
      0 \<le> cur \<and> cur \<le> tc_MaxCapacity cfg \<and> 0 < tc_IncreaseStep cfg \<and> tl_config_small cfg
      \<and> int (ch_cap (tl_tokens t)) = tc_MaxCapacity cfg
      \<and> int (length (ch_buf (tl_tokens t))) + int (tls_held s) = cur + ramp_added (tls_pc s) cur
      \<and> ramp_ok (tls_pc s) cur (tc_MaxCapacity cfg))"

lemma fill_tokens_Ret:
  "length (ch_buf c) + n \<le> ch_cap c \<Longrightarrow>
   fill_tokens n c = Ret (c\<lparr>ch_buf := ch_buf c @ replicate n ()\<rparr>)"
proof (induction n arbitrary: c)
  case (Suc n)
  then have "ch_try_send c () = Some (c\<lparr>ch_buf := ch_buf c @ [()]\<rparr>)"
    by (simp add: ch_try_send_def ch_room_def)
  with Suc show ?case by (simp add: replicate_append_same [symmetric])
qed simp

lemma NewTokenLimiter_result:
  "NewTokenLimiter cfg =
     (if tc_MaxCapacity cfg \<le> 0 then Ret (Inl (Txt ''MaxCapacity''))
      else if tc_InitialCapacity cfg < 0 then Ret (Inl (Txt ''InitialCapacity''))
      else if tc_InitialCapacity cfg > tc_MaxCapacity cfg then Ret (Inl (Txt ''InitialCapacity > MaxCapacity''))
      else if tc_IncreaseStep cfg \<le> 0 then Ret (Inl (Txt ''IncreaseStep''))
      else if tc_IncreaseInterval cfg \<le> 0 then Ret (Inl (Txt ''IncreaseInterval''))
      else Ret (Inr \<lparr>tl_config = cfg, tl_currentCapacity = tc_InitialCapacity cfg,
             tl_tokens = \<lparr>ch_buf = replicate (nat (tc_InitialCapacity cfg)) (),
                          ch_cap = nat (tc_MaxCapacity cfg), ch_closed = False\<rparr>, tl_closed = False\<rparr>))"
  by (simp add: NewTokenLimiter_def fill_tokens_Ret ch_make_def nat_le_iff)

lemma tl_init_inv: "tl_init s \<Longrightarrow> tl_inv s"
  by (auto simp: tl_init_def tl_inv_def NewTokenLimiter_result Let_def split: if_splits)

lemma tl_acquire_inv:
  "tl_inv s \<Longrightarrow> limiter_Acquire (tls_lim s) = (ok, t) \<Longrightarrow>
   tl_inv (s\<lparr>tls_lim := t, tls_held := (if ok then Suc (tls_held s) else tls_held s)\<rparr>)"
  by (auto simp: limiter_Acquire_def tl_inv_def Let_def ch_try_recv_Some ch_try_recv_None split: option.splits)

text \<open>A token that is held can always be put back, and the ramp-up never has to wait.\<close>

lemma ramp_added_bound:
  "tl_inv s \<Longrightarrow> int (length (ch_buf (tl_tokens (tls_lim s)))) + int (tls_held s)
     + (case tls_pc s of RampFill n c \<Rightarrow> int n | _ \<Rightarrow> 0) \<le> int (ch_cap (tl_tokens (tls_lim s)))"
  by (cases "tls_pc s") (auto simp: tl_inv_def Let_def)

lemma held_room: "tl_inv s \<Longrightarrow> 0 < tls_held s \<Longrightarrow> ch_room (tl_tokens (tls_lim s))"
  using ramp_added_bound [of s] by (cases "tls_pc s") (auto simp: ch_room_def)

lemma fill_room: "tl_inv s \<Longrightarrow> tls_pc s = RampFill (Suc n) c \<Longrightarrow> ch_room (tl_tokens (tls_lim s))"
  using ramp_added_bound [of s] by (auto simp: ch_room_def)

lemma tl_release_inv:
  assumes "tl_inv s" and "tls_held s = Suc h" and "limiter_Release (tls_lim s) = (ok, t)"
  shows "tl_inv (s\<lparr>tls_lim := t, tls_held := h\<rparr>) \<and> ok"
  using assms held_room [OF assms(1)]
  by (auto simp: limiter_Release_def tl_inv_def Let_def ch_try_send_def split: option.splits)

lemma tl_tick_inv:
  assumes "tl_inv s" and "tls_pc s = RampWait"
  shows "tl_inv (s\<lparr>tls_pc := rampup_tick (tls_lim s)\<rparr>)"
proof -
  let ?t = "tls_lim s"
  have b: "0 \<le> tl_currentCapacity ?t" "tl_currentCapacity ?t \<le> tc_MaxCapacity (tl_config ?t)"
    "0 < tc_IncreaseStep (tl_config ?t)" "tc_MaxCapacity (tl_config ?t) + tc_IncreaseStep (tl_config ?t) < 2 ^ 63"
    using assms(1) by (simp_all add: tl_inv_def Let_def tl_config_small_def)
  then have "i64 (tl_currentCapacity ?t + tc_IncreaseStep (tl_config ?t))
      = tl_currentCapacity ?t + tc_IncreaseStep (tl_config ?t)"
    by (intro i64_nonneg) linarith+
  moreover have "i64 (tc_MaxCapacity (tl_config ?t) - tl_currentCapacity ?t)
      = tc_MaxCapacity (tl_config ?t) - tl_currentCapacity ?t"
    using b by (intro i64_nonneg) linarith+
  moreover have "i64 (tc_IncreaseStep (tl_config ?t)) = tc_IncreaseStep (tl_config ?t)"
    using b by (intro i64_nonneg) linarith+
  ultimately show ?thesis using assms b by (auto simp: tl_inv_def rampup_tick_def Let_def)
qed

lemma tl_fill_inv:
  assumes "tl_inv s" and "tls_pc s = RampFill n c" and "rampup_fill n c (tls_lim s) = Some (pc, t)"
  shows "tl_inv (s\<lparr>tls_pc := pc, tls_lim := t\<rparr>)"
  using assms
  by (auto simp: tl_inv_def rampup_fill_def Let_def ch_try_send_Some split: nat.splits option.splits)

lemma tl_step_inv: "tl_step s s' \<Longrightarrow> tl_inv s \<Longrightarrow> tl_inv s'"
proof (induction rule: tl_step.induct)
  case (tl_stop s)
  then show ?case by (simp add: tl_inv_def Let_def)
next
  case (tl_close s)
  then show ?case by (simp add: tl_inv_def Let_def limiter_Close_def)
qed (blast intro: tl_acquire_inv tl_release_inv [THEN conjunct1] tl_tick_inv tl_fill_inv)+

interpretation tls: inv_system tl_init tl_step tl_inv
  by unfold_locales (auto intro: tl_init_inv tl_step_inv)

subsection \<open>The pool contract\<close>

text \<open>
  What the server's accept loop relies on: \<open>Acquire\<close> takes one of the available tokens
  or reports that there is none, \<open>Release\<close> puts one back or reports that it could not.
\<close>

locale token_pool =
  fixes acquire :: "'s \<Rightarrow> bool \<times> 's"
    and release :: "'s \<Rightarrow> bool \<times> 's"
    and avail :: "'s \<Rightarrow> nat"
    and bound :: "'s \<Rightarrow> nat"
  assumes acquire_avail: "acquire s = (ok, s') \<Longrightarrow> avail s = avail s' + (if ok then 1 else 0)"
    and acquire_ok: "acquire s = (ok, s') \<Longrightarrow> ok \<longleftrightarrow> 0 < avail s"
    and release_avail: "release s = (ok, s') \<Longrightarrow> avail s' = avail s + (if ok then 1 else 0)"
    and release_ok: "release s = (ok, s') \<Longrightarrow> ok \<longleftrightarrow> avail s < bound s"
    and acquire_bound: "acquire s = (ok, s') \<Longrightarrow> bound s' = bound s"
    and release_bound: "release s = (ok, s') \<Longrightarrow> bound s' = bound s"
begin

text \<open>Any sequence of calls: \<open>True\<close> is an \<open>Acquire\<close>. The result counts the successful
  acquires minus the successful releases.\<close>

fun pool_run :: "bool list \<Rightarrow> 's \<Rightarrow> int \<times> 's" where
  "pool_run [] s = (0, s)"
| "pool_run (True # ops) s =
     (let (ok, s1) = acquire s; (n, s2) = pool_run ops s1 in ((if ok then n + 1 else n), s2))"
| "pool_run (False # ops) s =
     (let (ok, s1) = release s; (n, s2) = pool_run ops s1 in ((if ok then n - 1 else n), s2))"

lemma pool_conserves: "pool_run ops s = (n, s') \<Longrightarrow> int (avail s') + n = int (avail s) \<and> bound s' = bound s"
proof (induction ops arbitrary: n s)
  case (Cons op ops)
  show ?case
  proof (cases op)
    case True
    obtain ok s1 where 1: "acquire s = (ok, s1)" by fastforce
    obtain k where 2: "pool_run ops s1 = (k, s')" and n: "n = (if ok then k + 1 else k)"
      using Cons.prems 1 True by (auto split: prod.splits)
    from Cons.IH [OF 2] acquire_avail [OF 1] acquire_bound [OF 1] n show ?thesis by auto
  next
    case False
    obtain ok s1 where 1: "release s = (ok, s1)" by fastforce
    obtain k where 2: "pool_run ops s1 = (k, s')" and n: "n = (if ok then k - 1 else k)"
      using Cons.prems 1 False by (auto split: prod.splits)
    from Cons.IH [OF 2] release_avail [OF 1] release_bound [OF 1] n show ?thesis by auto
  qed
qed simp

lemma pool_no_excess: "pool_run ops s = (n, s') \<Longrightarrow> n \<le> int (avail s)"
  using pool_conserves by fastforce

end

definition tl_avail :: "token_limiter \<Rightarrow> nat" where
  "tl_avail t = length (ch_buf (tl_tokens t))"

definition tl_bound :: "token_limiter \<Rightarrow> nat" where
  "tl_bound t = ch_cap (tl_tokens t)"

interpretation pool: token_pool limiter_Acquire limiter_Release tl_avail tl_bound
  by unfold_locales
    (auto simp: limiter_Acquire_def limiter_Release_def tl_avail_def tl_bound_def ch_try_recv_Some
      ch_try_recv_None ch_try_send_def ch_room_def split: option.splits if_splits)

subsection \<open>Ramping up alone\<close>

lemma run_fill_Ret:
  "length (ch_buf (tl_tokens t)) + n \<le> ch_cap (tl_tokens t) \<Longrightarrow>
   run_fill n c t = Ret (t\<lparr>tl_tokens := (tl_tokens t)\<lparr>ch_buf := ch_buf (tl_tokens t) @ replicate n ()\<rparr>,
                         tl_currentCapacity := c\<rparr>)"
proof (induction n arbitrary: t)
  case (Suc n)
  then have "ch_try_send (tl_tokens t) () = Some ((tl_tokens t)\<lparr>ch_buf := ch_buf (tl_tokens t) @ [()]\<rparr>)"
    by (simp add: ch_try_send_def ch_room_def)
  with Suc show ?case by (simp add: rampup_fill_def replicate_append_same [symmetric])
qed simp

lemma run_fill_Block:
  "length (ch_buf (tl_tokens t)) \<le> ch_cap (tl_tokens t) \<Longrightarrow> ch_cap (tl_tokens t) < length (ch_buf (tl_tokens t)) + n
   \<Longrightarrow> run_fill n c t = Block"
proof (induction n arbitrary: t)
  case (Suc n)
  show ?case
  proof (cases "ch_room (tl_tokens t)")
    case True
    then have "ch_try_send (tl_tokens t) () = Some ((tl_tokens t)\<lparr>ch_buf := ch_buf (tl_tokens t) @ [()]\<rparr>)"
      by (simp add: ch_try_send_def)
    with Suc True show ?thesis by (simp add: rampup_fill_def ch_room_def)
  qed (simp add: rampup_fill_def ch_try_send_def)
qed simp

text \<open>A limiter nobody took a token from, in a configuration that does not overflow.\<close>

definition tl_idle :: "token_limiter \<Rightarrow> bool" where
  "tl_idle t \<longleftrightarrow> tl_inv \<lparr>tls_lim = t, tls_held = 0, tls_pc = RampWait\<rparr> \<and> \<not> tl_closed t"

lemma ramp_one_tick:
  assumes idle: "tl_idle t" and small: "tl_currentCapacity t < tc_MaxCapacity (tl_config t)"
  defines "c \<equiv> min (tc_MaxCapacity (tl_config t)) (tl_currentCapacity t + tc_IncreaseStep (tl_config t))"
  shows "\<exists>t'. StartRampUp (RampTick # evs) t = StartRampUp evs t' \<and> tl_idle t'
            \<and> tl_currentCapacity t' = c \<and> tl_config t' = tl_config t"
proof -
  let ?s = "\<lparr>tls_lim = t, tls_held = 0, tls_pc = RampWait\<rparr>"
  have inv: "tl_inv (?s\<lparr>tls_pc := rampup_tick t\<rparr>)"
    using tl_tick_inv [of ?s] idle by (simp add: tl_idle_def)
  have b: "0 \<le> tl_currentCapacity t" "tc_MaxCapacity (tl_config t) + tc_IncreaseStep (tl_config t) < 2 ^ 63"
    using idle by (simp_all add: tl_idle_def tl_inv_def Let_def tl_config_small_def)
  have "0 < tc_IncreaseStep (tl_config t)" using idle by (simp add: tl_idle_def tl_inv_def Let_def)
  have i: "i64 (tl_currentCapacity t + tc_IncreaseStep (tl_config t)) = tl_currentCapacity t + tc_IncreaseStep (tl_config t)"
    "i64 (c - tl_currentCapacity t) = c - tl_currentCapacity t"
    using b small \<open>0 < tc_IncreaseStep (tl_config t)\<close> by (auto simp: c_def intro!: i64_nonneg)
  have cap: "(if tl_currentCapacity t + tc_IncreaseStep (tl_config t) > tc_MaxCapacity (tl_config t)
      then tc_MaxCapacity (tl_config t) else tl_currentCapacity t + tc_IncreaseStep (tl_config t)) = c"
    by (simp add: c_def)
  have tick: "rampup_tick t = RampFill (nat (c - tl_currentCapacity t)) c"
  proof -
    have "\<not> tc_MaxCapacity (tl_config t) \<le> tl_currentCapacity t" using small by simp
    then show ?thesis by (simp only: rampup_tick_def Let_def i cap if_False)
  qed
  from inv have room: "length (ch_buf (tl_tokens t)) + nat (c - tl_currentCapacity t) \<le> ch_cap (tl_tokens t)"
  proof -
    have "tl_currentCapacity t \<le> c" using small \<open>0 < tc_IncreaseStep (tl_config t)\<close> by (simp add: c_def)
    moreover have "c \<le> tc_MaxCapacity (tl_config t)" by (simp add: c_def)
    moreover have "int (ch_cap (tl_tokens t)) = tc_MaxCapacity (tl_config t)"
      "int (length (ch_buf (tl_tokens t))) = tl_currentCapacity t"
      using idle by (simp_all add: tl_idle_def tl_inv_def Let_def)
    ultimately show ?thesis by linarith
  qed
  show ?thesis
    using run_fill_Ret [OF room, of c] idle inv small
    by (auto simp: tick tl_idle_def tl_inv_def Let_def c_def)
qed

lemma ramp_ticks:
  "tl_idle t \<Longrightarrow> \<exists>stopped t'. StartRampUp (replicate n RampTick) t = Ret (stopped, t') \<and> tl_config t' = tl_config t
     \<and> tl_currentCapacity t' = min (tc_MaxCapacity (tl_config t))
                                 (tl_currentCapacity t + int n * tc_IncreaseStep (tl_config t))
     \<and> int (length (ch_buf (tl_tokens t'))) = tl_currentCapacity t'"
proof (induction n arbitrary: t)
  case 0
  then show ?case by (auto simp: tl_idle_def tl_inv_def Let_def)
next
  case (Suc n)
  have step: "0 < tc_IncreaseStep (tl_config t)" "tl_currentCapacity t \<le> tc_MaxCapacity (tl_config t)"
    using Suc.prems by (simp_all add: tl_idle_def tl_inv_def Let_def)
  show ?case
  proof (cases "tl_currentCapacity t < tc_MaxCapacity (tl_config t)")
    case True
    obtain t1 where t1: "StartRampUp (RampTick # replicate n RampTick) t = StartRampUp (replicate n RampTick) t1"
      "tl_idle t1" "tl_config t1 = tl_config t"
      "tl_currentCapacity t1 = min (tc_MaxCapacity (tl_config t)) (tl_currentCapacity t + tc_IncreaseStep (tl_config t))"
      using ramp_one_tick [OF Suc.prems True] by blast
    have "min (tc_MaxCapacity (tl_config t)) (tl_currentCapacity t1 + int n * tc_IncreaseStep (tl_config t))
        = min (tc_MaxCapacity (tl_config t)) (tl_currentCapacity t + int (Suc n) * tc_IncreaseStep (tl_config t))"
    proof -
      have "0 \<le> int n * tc_IncreaseStep (tl_config t)" using step by simp
      moreover have "int (Suc n) * tc_IncreaseStep (tl_config t)
          = tc_IncreaseStep (tl_config t) + int n * tc_IncreaseStep (tl_config t)" by (simp add: algebra_simps)
      ultimately show ?thesis unfolding t1(4) by linarith
    qed
    then show ?thesis using Suc.IH [OF t1(2)] t1 by auto
  next
    case False
    then have "tl_currentCapacity t = tc_MaxCapacity (tl_config t)" using step by simp
    moreover have "0 \<le> int (Suc n) * tc_IncreaseStep (tl_config t)" using step by simp
    ultimately show ?thesis
      using Suc.prems by (auto simp: rampup_tick_def Let_def tl_idle_def tl_inv_def)
  qed
qed

lemma NewTokenLimiter_idle:
  "NewTokenLimiter cfg = Ret (Inr t) \<Longrightarrow> tl_config_small cfg \<Longrightarrow> tl_idle t \<and> tl_config t = cfg
     \<and> tl_currentCapacity t = tc_InitialCapacity cfg"
  by (auto simp: tl_idle_def tl_inv_def NewTokenLimiter_result Let_def split: if_splits)

definition ex_cfg :: token_limiter_config where
  "ex_cfg = \<lparr>tc_InitialCapacity = 1, tc_MaxCapacity = 3, tc_IncreaseStep = 2, tc_IncreaseInterval = 5\<rparr>"

definition ex_lim :: token_limiter where
  "ex_lim = \<lparr>tl_config = ex_cfg, tl_currentCapacity = 1,
             tl_tokens = \<lparr>ch_buf = [()], ch_cap = 3, ch_closed = False\<rparr>, tl_closed = False\<rparr>"

lemma ex_lim_new: "NewTokenLimiter ex_cfg = Ret (Inr ex_lim)" "tl_config_small ex_cfg"
  by (simp_all add: NewTokenLimiter_result ex_cfg_def ex_lim_def tl_config_small_def)

lemma ex_lim_reach:
  "reach tl_init tl_step \<lparr>tls_lim = ex_lim, tls_held = 0, tls_pc = RampWait\<rparr>"
  "reach tl_init tl_step \<lparr>tls_lim = ex_lim, tls_held = 0, tls_pc = RampFill 2 3\<rparr>"
proof -
  let ?s = "\<lparr>tls_lim = ex_lim, tls_held = 0, tls_pc = RampWait\<rparr>"
  show 1: "reach tl_init tl_step ?s"
    using ex_lim_new by (intro reach_init) (auto simp: tl_init_def)
  have "rampup_tick ex_lim = RampFill 2 3"
    by (simp add: rampup_tick_def ex_lim_def ex_cfg_def in64_def)
  with reach_step [OF 1 tl_tick] show "reach tl_init tl_step \<lparr>tls_lim = ex_lim, tls_held = 0, tls_pc = RampFill 2 3\<rparr>"
    by simp
qed

subsection \<open>Properties\<close>

text \<open>The constructor accepts exactly the configurations
  \<open>0 \<le> initial \<le> max\<close>, \<open>0 < max\<close>, \<open>0 < step\<close>, \<open>0 < interval\<close>; it never waits, and the limiter
  it returns has as many tokens as its current capacity, in a channel with room for \<open>max\<close>.\<close>

theorem limiter_new:
  "(case NewTokenLimiter cfg of
      Ret (Inr t) \<Rightarrow> 0 \<le> tc_InitialCapacity cfg \<and> tc_InitialCapacity cfg \<le> tc_MaxCapacity cfg
        \<and> 0 < tc_MaxCapacity cfg \<and> 0 < tc_IncreaseStep cfg \<and> 0 < tc_IncreaseInterval cfg
        \<and> CurrentCapacity t = tc_InitialCapacity cfg
        \<and> int (tl_avail t) = tc_InitialCapacity cfg \<and> int (tl_bound t) = tc_MaxCapacity cfg
    | Ret (Inl _) \<Rightarrow> tc_MaxCapacity cfg \<le> 0 \<or> tc_InitialCapacity cfg < 0
        \<or> tc_InitialCapacity cfg > tc_MaxCapacity cfg \<or> tc_IncreaseStep cfg \<le> 0 \<or> tc_IncreaseInterval cfg \<le> 0
    | _ \<Rightarrow> False)"
  by (simp add: NewTokenLimiter_result CurrentCapacity_def tl_avail_def tl_bound_def)

lemma tl_step_config: "tl_step s s' \<Longrightarrow> tl_config (tls_lim s') = tl_config (tls_lim s)"
  by (induction rule: tl_step.induct)
    (auto simp: limiter_Acquire_def limiter_Release_def limiter_Close_def rampup_fill_def split: option.splits nat.splits)

lemma tl_steps_config: "tl_step\<^sup>*\<^sup>* s s' \<Longrightarrow> tl_config (tls_lim s') = tl_config (tls_lim s)"
  by (induction rule: rtranclp_induct) (simp_all add: tl_step_config)

text \<open>C13. Tokens are conserved. Take a limiter built from a configuration whose maximum and step together stay below
  \<open>2 ^ 63\<close> (for a greater step the sum wraps around, see \<open>limiter_ramp_up_overflow\<close> below), users that give back only
  what they hold, its ramp-up goroutine and \<open>Close\<close>, in any interleaving. The available tokens and the held ones
  together are the current capacity and the tokens the ramp-up step in progress has added so far: when no step is in
  progress they are exactly the current capacity, while one is they lie between the old capacity and the new one it is
  about to store; and they never exceed the configured maximum.\<close>

theorem limiter_conserves_tokens:
  assumes "NewTokenLimiter cfg = Ret (Inr t0)" and "tc_MaxCapacity cfg + tc_IncreaseStep cfg < 2 ^ 63"
    and "tl_step\<^sup>*\<^sup>* \<lparr>tls_lim = t0, tls_held = 0, tls_pc = RampWait\<rparr> s"
  shows "let t = tls_lim s; total = int (tl_avail t) + int (tls_held s) in
    (case tls_pc s of
       RampFill n c \<Rightarrow> total = c - int n \<and> CurrentCapacity t \<le> total \<and> c \<le> tc_MaxCapacity cfg
     | _ \<Rightarrow> total = CurrentCapacity t)
    \<and> 0 \<le> CurrentCapacity t \<and> CurrentCapacity t \<le> tc_MaxCapacity cfg \<and> total \<le> tc_MaxCapacity cfg"
proof -
  let ?s0 = "\<lparr>tls_lim = t0, tls_held = 0, tls_pc = RampWait\<rparr>"
  have "tl_init ?s0" using assms(1,2) by (auto simp: tl_init_def tl_config_small_def)
  then have "tl_inv ?s0" by (intro tls.reach_inv reach_init)
  then have inv: "tl_inv s" by (rule tls.steps_inv [OF assms(3)])
  have "tl_config (tls_lim s) = cfg"
    using tl_steps_config [OF assms(3)] NewTokenLimiter_idle [OF assms(1)] assms(2) by (simp add: tl_config_small_def)
  then show ?thesis using inv ramp_added_bound [OF inv]
    by (cases "tls_pc s") (auto simp: tl_inv_def Let_def tl_avail_def CurrentCapacity_def)
qed

theorem limiter_conserves_tokens_witness:
  "int (tl_avail (snd (limiter_Acquire ex_lim))) + 1 = 3 - int 2 \<and> CurrentCapacity ex_lim \<le> 3"
proof -
  let ?s0 = "\<lparr>tls_lim = ex_lim, tls_held = 0, tls_pc = RampWait\<rparr>"
  let ?s1 = "?s0\<lparr>tls_lim := snd (limiter_Acquire ex_lim), tls_held := 1\<rparr>"
  let ?s2 = "?s1\<lparr>tls_pc := RampFill 2 3\<rparr>"
  have a: "limiter_Acquire ex_lim = (True, snd (limiter_Acquire ex_lim))"
    by (simp add: limiter_Acquire_def ex_lim_def ch_try_recv_def)
  have "tl_step ?s0 ?s1" using tl_acquire [of ?s0 True "snd (limiter_Acquire ex_lim)"] a by simp
  moreover have "rampup_tick (tls_lim ?s1) = RampFill 2 3"
    by (simp add: rampup_tick_def limiter_Acquire_def ex_lim_def ex_cfg_def in64_def ch_try_recv_def)
  then have "tl_step ?s1 ?s2" using tl_tick [of ?s1] by simp
  ultimately have r: "tl_step\<^sup>*\<^sup>* ?s0 ?s2" by (blast intro: rtranclp.rtrancl_into_rtrancl)
  from limiter_conserves_tokens [OF ex_lim_new(1) _ r] show ?thesis
    by (simp add: ex_cfg_def Let_def limiter_Acquire_def ex_lim_def ch_try_recv_def CurrentCapacity_def)
qed

text \<open>A token that is held can always be given back, and the ramp-up goroutine never has to
  wait for room: neither the failure branch of \<open>Release\<close> nor a blocked ramp-up is reachable.\<close>

theorem limiter_never_full:
  assumes "reach tl_init tl_step s"
  shows "(0 < tls_held s \<longrightarrow> fst (limiter_Release (tls_lim s)))
       \<and> (\<forall>n c. tls_pc s = RampFill n c \<longrightarrow> rampup_fill n c (tls_lim s) \<noteq> None)"
  using held_room [OF tls.reach_inv [OF assms]] fill_room [OF tls.reach_inv [OF assms]]
  by (auto simp: limiter_Release_def rampup_fill_def ch_try_send_def split: nat.splits)

theorem limiter_never_full_witness: "rampup_fill 2 3 ex_lim \<noteq> None"
  using limiter_never_full [OF ex_lim_reach(2)] by simp

text \<open>Left alone, the ramp-up adds one step per tick up to the maximum, without overflow and
  without waiting, and then stops: after \<open>n\<close> ticks the capacity, and the number of tokens, are
  \<open>min max (initial + n * step)\<close>.\<close>

theorem limiter_ramp_up:
  assumes "NewTokenLimiter cfg = Ret (Inr t)" and "tc_MaxCapacity cfg + tc_IncreaseStep cfg < 2 ^ 63"
  shows "\<exists>stopped t'. StartRampUp (replicate n RampTick) t = Ret (stopped, t')
    \<and> CurrentCapacity t' = min (tc_MaxCapacity cfg) (tc_InitialCapacity cfg + int n * tc_IncreaseStep cfg)
    \<and> int (tl_avail t') = CurrentCapacity t'"
  using ramp_ticks [of t n] NewTokenLimiter_idle [OF assms(1)] assms(2)
  by (auto simp: tl_config_small_def CurrentCapacity_def tl_avail_def)

theorem limiter_ramp_up_witness:
  "\<exists>stopped t'. StartRampUp (replicate 3 RampTick) ex_lim = Ret (stopped, t') \<and> CurrentCapacity t' = 3"
  using limiter_ramp_up [OF ex_lim_new(1), of 3] by (auto simp: ex_cfg_def)

text \<open>The hypothesis is needed: the constructor also accepts an increase step near the end of
  \<open>int64\<close>. Then the sum wraps around, the goroutine starts to add far more tokens than the
  channel can hold, and waits forever once it is full.\<close>

theorem limiter_ramp_up_overflow:
  "\<exists>cfg t. NewTokenLimiter cfg = Ret (Inr t) \<and> CurrentCapacity t = 1 \<and> tc_MaxCapacity cfg = 3
     \<and> StartRampUp (RampTick # evs) t = Block"
proof -
  let ?cfg = "\<lparr>tc_InitialCapacity = 1, tc_MaxCapacity = 3, tc_IncreaseStep = 2 ^ 63 - 1, tc_IncreaseInterval = 5\<rparr>"
  let ?t = "\<lparr>tl_config = ?cfg, tl_currentCapacity = 1,
             tl_tokens = \<lparr>ch_buf = [()], ch_cap = 3, ch_closed = False\<rparr>, tl_closed = False\<rparr>"
  have new: "NewTokenLimiter ?cfg = Ret (Inr ?t)" by (simp add: NewTokenLimiter_result)
  have tick: "rampup_tick ?t = RampFill (nat (2 ^ 63 - 1)) (- (2 ^ 63))"
    by (simp add: rampup_tick_def Let_def i64_def)
  have "run_fill (nat (2 ^ 63 - 1)) (- (2 ^ 63)) ?t = Block" by (rule run_fill_Block) simp_all
  then have "StartRampUp (RampTick # evs) ?t = Block" by (simp only: StartRampUp.simps tick) simp
  with new show ?thesis by (intro exI [of _ ?cfg] exI [of _ ?t]) (simp add: CurrentCapacity_def)
qed

end
