(* ===== verification/GW_PushRetry.thy ===== *)
theory GW_PushRetry
  imports GW_Types "HOL-Library.Multiset"
begin

text \<open>
  \<open>pkg/pushretry/manager.go\<close>: retransmission of downstream messages until the client
  acknowledges them. Tasks are shared objects (the map and the timers' goroutines hold the
  same pointer): the state has a heap of tasks and a list of the timers created so far, with
  the task each belongs to and whether it is still armed. The operations come twice: as
  functions of a caller that runs alone, and as sequences of atomic instructions that any
  number of goroutines interleave; the two agree for a single goroutine.
\<close>

subsection \<open>State\<close>

record task =
  tk_key :: string
  tk_link :: nat
  tk_linkID :: string
  tk_message :: nat
  tk_timerPtr :: "nat option"
  tk_retryCount :: int

text \<open>What the tasks did to the outside: a push of the task's message on its link, and the
  update of the link's active time.\<close>

datatype pr_event = EvPush nat | EvTouch nat

record pr_manager =
  pr_heap :: "task list"
  pr_tasks :: "(string, nat) smap"
  pr_totalTasks :: int
  pr_retryInterval :: int
  pr_maxRetries :: int
  pr_closed :: bool
  pr_timers :: "(nat \<times> bool) list"
  pr_log :: "pr_event list"

definition NewPushRetryManager :: "int \<Rightarrow> int \<Rightarrow> pr_manager" where
  "NewPushRetryManager retryInterval maxRetries =
     \<lparr>pr_heap = [], pr_tasks = [], pr_totalTasks = 0, pr_retryInterval = retryInterval,
      pr_maxRetries = maxRetries, pr_closed = False, pr_timers = [], pr_log = []\<rparr>"

subsection \<open>Operations of a caller that runs alone\<close>

text \<open>\<open>time.AfterFunc\<close> creates an armed timer.\<close>

definition after_func :: "nat \<Rightarrow> pr_manager \<Rightarrow> nat \<times> pr_manager" where
  "after_func ref m = (length (pr_timers m), m\<lparr>pr_timers := pr_timers m @ [(ref, True)]\<rparr>)"

definition set_timerPtr :: "nat \<Rightarrow> nat \<Rightarrow> pr_manager \<Rightarrow> pr_manager" where
  "set_timerPtr ref tid m = m\<lparr>pr_heap := (pr_heap m)[ref := (pr_heap m ! ref)\<lparr>tk_timerPtr := Some tid\<rparr>]\<rparr>"

definition task_stop :: "nat \<Rightarrow> pr_manager \<Rightarrow> pr_manager" where
  "task_stop ref m =
     (case tk_timerPtr (pr_heap m ! ref) of
        None \<Rightarrow> m
      | Some tid \<Rightarrow> m\<lparr>pr_timers := (pr_timers m)[tid := (fst (pr_timers m ! tid), False)]\<rparr>)"

definition new_task :: "string \<Rightarrow> nat \<Rightarrow> string \<Rightarrow> nat \<Rightarrow> task" where
  "new_task key lk linkID msg =
     \<lparr>tk_key = key, tk_link = lk, tk_linkID = linkID, tk_message = msg, tk_timerPtr = None, tk_retryCount = 0\<rparr>"

definition pr_Start :: "string \<Rightarrow> nat \<Rightarrow> string \<Rightarrow> nat \<Rightarrow> pr_manager \<Rightarrow> pr_manager" where
  "pr_Start key lk linkID msg m =
     (if pr_closed m then m
      else let ref = length (pr_heap m);
               (_, loaded, tasks') = sm_load_or_store key ref (pr_tasks m)
           in if loaded then m
              else let m1 = m\<lparr>pr_heap := pr_heap m @ [new_task key lk linkID msg], pr_tasks := tasks'\<rparr>;
                       (tid, m2) = after_func ref m1;
                       m3 = set_timerPtr ref tid m2
                   in m3\<lparr>pr_totalTasks := i64 (pr_totalTasks m3 + 1)\<rparr>)"

definition stopAndDeleteTask :: "string \<Rightarrow> pr_manager \<Rightarrow> bool \<times> pr_manager" where
  "stopAndDeleteTask key m =
     (case sm_load_and_delete key (pr_tasks m) of
        (Some ref, tasks') \<Rightarrow>
          let m1 = task_stop ref (m\<lparr>pr_tasks := tasks'\<rparr>)
          in (True, m1\<lparr>pr_totalTasks := i64 (pr_totalTasks m1 - 1)\<rparr>)
      | (None, _) \<Rightarrow> (False, m))"

definition pr_Stop :: "string \<Rightarrow> pr_manager \<Rightarrow> pr_manager" where
  "pr_Stop key m = (if sm_load (pr_tasks m) key = None then m else snd (stopAndDeleteTask key m))"

fun stop_range :: "string option \<Rightarrow> (string \<times> nat) list \<Rightarrow> pr_manager \<Rightarrow> pr_manager" where
  "stop_range sel [] m = m"
| "stop_range sel ((key, ref) # es) m =
     stop_range sel es
       (if sel = None \<or> sel = Some (tk_linkID (pr_heap m ! ref)) then snd (stopAndDeleteTask key m) else m)"

definition StopByLinkID :: "string \<Rightarrow> pr_manager \<Rightarrow> pr_manager" where
  "StopByLinkID linkID m = stop_range (Some linkID) (pr_tasks m) m"

definition GetStats :: "pr_manager \<Rightarrow> int" where
  "GetStats m = pr_totalTasks m"

definition pr_Close :: "pr_manager \<Rightarrow> pr_manager" where
  "pr_Close m = (let m1 = m\<lparr>pr_closed := True\<rparr> in stop_range None (pr_tasks m1) m1)"

text \<open>\<open>retry\<close>, the timer's callback; \<open>pushed\<close> tells whether \<open>pushFunc\<close> succeeded.\<close>

definition task_retry :: "bool \<Rightarrow> nat \<Rightarrow> pr_manager \<Rightarrow> pr_manager" where
  "task_retry pushed ref m =
     (let key = tk_key (pr_heap m ! ref) in
      if sm_load (pr_tasks m) key = None then m
      else let m1 = m\<lparr>pr_heap := (pr_heap m)[ref := (pr_heap m ! ref)
                        \<lparr>tk_retryCount := i64 (tk_retryCount (pr_heap m ! ref) + 1)\<rparr>]\<rparr>
           in if tk_retryCount (pr_heap m1 ! ref) \<ge> pr_maxRetries m1 then snd (stopAndDeleteTask key m1)
              else let m2 = m1\<lparr>pr_log := pr_log m1 @ [EvPush ref]\<rparr>
                   in if \<not> pushed then snd (stopAndDeleteTask key m2)
                      else let m3 = m2\<lparr>pr_log := pr_log m2 @ [EvTouch ref]\<rparr>;
                               (tid, m4) = after_func ref m3
                           in set_timerPtr ref tid m4)"

subsection \<open>Atomic instructions\<close>

text \<open>
  The same code cut at every access to shared state. A goroutine is the list of the
  instructions it still has to execute; an instruction is replaced by those it continues
  with. \<open>IRange\<close> iterates over the entries present when the iteration began.
\<close>

datatype instr =
    IStart string nat string nat | IStartStore string nat string nat
  | IStartArm nat | IStartPtr nat nat | IStartCount
  | IStop string | IDelete string | IDelTimer nat | IDelCount
  | IRangeStart "string option" | IRange "(string \<times> nat) list" "string option" | IClose
  | IRetry nat | IRetryInc nat | IRetryMax nat | IRetryPush nat | IRetryArm nat | IRetryPtr nat nat

fun instr_step :: "bool \<Rightarrow> instr \<Rightarrow> pr_manager \<Rightarrow> pr_manager \<times> instr list" where
  "instr_step pushed (IStart key lk lid msg) m = (m, if pr_closed m then [] else [IStartStore key lk lid msg])"
| "instr_step pushed (IStartStore key lk lid msg) m =
     (let ref = length (pr_heap m); (_, loaded, tasks') = sm_load_or_store key ref (pr_tasks m)
      in if loaded then (m, [])
         else (m\<lparr>pr_heap := pr_heap m @ [new_task key lk lid msg], pr_tasks := tasks'\<rparr>, [IStartArm ref]))"
| "instr_step pushed (IStartArm ref) m = (let (tid, m') = after_func ref m in (m', [IStartPtr ref tid]))"
| "instr_step pushed (IStartPtr ref tid) m = (set_timerPtr ref tid m, [IStartCount])"
| "instr_step pushed IStartCount m = (m\<lparr>pr_totalTasks := i64 (pr_totalTasks m + 1)\<rparr>, [])"
| "instr_step pushed (IStop key) m = (m, if sm_load (pr_tasks m) key = None then [] else [IDelete key])"
| "instr_step pushed (IDelete key) m =
     (case sm_load_and_delete key (pr_tasks m) of
        (Some ref, tasks') \<Rightarrow> (m\<lparr>pr_tasks := tasks'\<rparr>, [IDelTimer ref])
      | (None, _) \<Rightarrow> (m, []))"
| "instr_step pushed (IDelTimer ref) m = (task_stop ref m, [IDelCount])"
| "instr_step pushed IDelCount m = (m\<lparr>pr_totalTasks := i64 (pr_totalTasks m - 1)\<rparr>, [])"
| "instr_step pushed (IRangeStart sel) m = (m, [IRange (pr_tasks m) sel])"
| "instr_step pushed (IRange [] sel) m = (m, [])"
| "instr_step pushed (IRange ((key, ref) # es) sel) m =
     (m, (if sel = None \<or> sel = Some (tk_linkID (pr_heap m ! ref)) then [IDelete key] else []) @ [IRange es sel])"
| "instr_step pushed IClose m = (m\<lparr>pr_closed := True\<rparr>, [IRangeStart None])"
| "instr_step pushed (IRetry ref) m =
     (m, if sm_load (pr_tasks m) (tk_key (pr_heap m ! ref)) = None then [] else [IRetryInc ref])"
| "instr_step pushed (IRetryInc ref) m =
     (m\<lparr>pr_heap := (pr_heap m)[ref := (pr_heap m ! ref)
          \<lparr>tk_retryCount := i64 (tk_retryCount (pr_heap m ! ref) + 1)\<rparr>]\<rparr>, [IRetryMax ref])"
| "instr_step pushed (IRetryMax ref) m =
     (m, if tk_retryCount (pr_heap m ! ref) \<ge> pr_maxRetries m
         then [IDelete (tk_key (pr_heap m ! ref))] else [IRetryPush ref])"
| "instr_step pushed (IRetryPush ref) m =
     (m\<lparr>pr_log := pr_log m @ (if pushed then [EvPush ref, EvTouch ref] else [EvPush ref])\<rparr>,
      if pushed then [IRetryArm ref] else [IDelete (tk_key (pr_heap m ! ref))])"
| "instr_step pushed (IRetryArm ref) m = (let (tid, m') = after_func ref m in (m', [IRetryPtr ref tid]))"
| "instr_step pushed (IRetryPtr ref tid) m = (set_timerPtr ref tid m, [])"

text \<open>A goroutine running alone; \<open>n\<close> bounds the number of instructions.\<close>

fun run_instrs :: "nat \<Rightarrow> bool \<Rightarrow> instr list \<Rightarrow> pr_manager \<Rightarrow> pr_manager option" where
  "run_instrs n pushed [] m = Some m"
| "run_instrs 0 pushed (i # is) m = None"
| "run_instrs (Suc n) pushed (i # is) m =
     (let (m', is') = instr_step pushed i m in run_instrs n pushed (is' @ is) m')"

record pr_sys =
  prs_mgr :: pr_manager
  prs_threads :: "instr list list"

definition thread_step :: "nat \<Rightarrow> bool \<Rightarrow> pr_sys \<Rightarrow> pr_sys option" where
  "thread_step t pushed s =
     (if t < length (prs_threads s) then
        (case prs_threads s ! t of
           [] \<Rightarrow> None
         | i # is \<Rightarrow>
             let (m', is') = instr_step pushed i (prs_mgr s)
             in Some (s\<lparr>prs_mgr := m', prs_threads := (prs_threads s)[t := is' @ is]\<rparr>))
      else None)"

definition timer_fire :: "nat \<Rightarrow> pr_sys \<Rightarrow> pr_sys option" where
  "timer_fire tid s =
     (let m = prs_mgr s in
      if tid < length (pr_timers m) \<and> snd (pr_timers m ! tid) then
        Some (s\<lparr>prs_mgr := m\<lparr>pr_timers := (pr_timers m)[tid := (fst (pr_timers m ! tid), False)]\<rparr>,
                prs_threads := prs_threads s @ [[IRetry (fst (pr_timers m ! tid))]]\<rparr>)
      else None)"

text \<open>The instructions a call starts with.\<close>

fun is_call :: "instr \<Rightarrow> bool" where
  "is_call (IStart _ _ _ _) = True"
| "is_call (IStop _) = True"
| "is_call (IRangeStart (Some _)) = True"
| "is_call IClose = True"
| "is_call _ = False"

inductive pr_step :: "pr_sys \<Rightarrow> pr_sys \<Rightarrow> bool" where
  pr_call: "is_call i \<Longrightarrow> pr_step s (s\<lparr>prs_threads := prs_threads s @ [[i]]\<rparr>)"
| pr_thread: "thread_step t pushed s = Some s' \<Longrightarrow> pr_step s s'"
| pr_timer: "timer_fire tid s = Some s' \<Longrightarrow> pr_step s s'"

definition pr_init :: "pr_sys \<Rightarrow> bool" where
  "pr_init s \<longleftrightarrow> (\<exists>ri mr. in64 mr \<and> s = \<lparr>prs_mgr = NewPushRetryManager ri mr, prs_threads = []\<rparr>)"

subsection \<open>Counting what is pending\<close>

text \<open>The instructions of some kind that all goroutines together still have to execute.\<close>

definition weight :: "(instr \<Rightarrow> nat) \<Rightarrow> instr list list \<Rightarrow> nat" where
  "weight w ts = sum_list (map (\<lambda>is. sum_list (map w is)) ts)"

lemma weight_append [simp]: "weight w (ts @ [is]) = weight w ts + sum_list (map w is)"
  by (simp add: weight_def)

lemma weight_update:
  assumes "t < length ts" and "ts ! t = i # is"
  shows "weight w (ts[t := is' @ is]) + w i = weight w ts + sum_list (map w is')"
proof -
  let ?f = "\<lambda>is. sum_list (map w is)"
  have "map ?f (ts[t := is' @ is]) = (map ?f ts)[t := ?f (is' @ is)]" by (simp add: map_update)
  moreover have "?f (ts ! t) \<le> sum_list (map ?f ts)" using assms(1) by (simp add: member_le_sum_list)
  ultimately show ?thesis using assms by (simp add: weight_def sum_list_update)
qed

lemma weight_rest:
  assumes "t < length ts" and "ts ! t = i # is"
  shows "\<exists>k. weight w ts = w i + k \<and> (\<forall>is'. weight w (ts[t := is' @ is]) = sum_list (map w is') + k)"
proof (intro exI conjI allI)
  show "weight w ts = w i + weight w (ts[t := is])"
    using weight_update [OF assms, of w "[]"] by simp
  show "weight w (ts[t := is' @ is]) = sum_list (map w is') + weight w (ts[t := is])" for is'
    using weight_update [OF assms, of w is'] weight_update [OF assms, of w "[]"] by simp
qed

subsection \<open>The counter\<close>

definition w_start :: "instr \<Rightarrow> nat" where
  "w_start i = (case i of IStartArm _ \<Rightarrow> 1 | IStartPtr _ _ \<Rightarrow> 1 | IStartCount \<Rightarrow> 1 | _ \<Rightarrow> 0)"

definition w_delete :: "instr \<Rightarrow> nat" where
  "w_delete i = (case i of IDelTimer _ \<Rightarrow> 1 | IDelCount \<Rightarrow> 1 | _ \<Rightarrow> 0)"

definition count_ok :: "pr_manager \<Rightarrow> int \<Rightarrow> int \<Rightarrow> bool" where
  "count_ok m del start \<longleftrightarrow> sm_ok (pr_tasks m) \<and>
     pr_totalTasks m = i64 (int (length (pr_tasks m)) + del - start)"

lemma task_stop_frame [simp]:
  "pr_heap (task_stop ref m) = pr_heap m" "pr_tasks (task_stop ref m) = pr_tasks m"
  "pr_totalTasks (task_stop ref m) = pr_totalTasks m" "pr_log (task_stop ref m) = pr_log m"
  "pr_maxRetries (task_stop ref m) = pr_maxRetries m" "pr_closed (task_stop ref m) = pr_closed m"
  "length (pr_timers (task_stop ref m)) = length (pr_timers m)"
  by (simp_all add: task_stop_def split: option.splits)

lemma set_timerPtr_frame [simp]:
  "length (pr_heap (set_timerPtr ref tid m)) = length (pr_heap m)"
  "pr_tasks (set_timerPtr ref tid m) = pr_tasks m"
  "pr_totalTasks (set_timerPtr ref tid m) = pr_totalTasks m" "pr_log (set_timerPtr ref tid m) = pr_log m"
  "pr_maxRetries (set_timerPtr ref tid m) = pr_maxRetries m" "pr_closed (set_timerPtr ref tid m) = pr_closed m"
  "pr_timers (set_timerPtr ref tid m) = pr_timers m"
  by (simp_all add: set_timerPtr_def)

lemma set_timerPtr_task [simp]:
  "tk_retryCount (pr_heap (set_timerPtr ref tid m) ! r) = tk_retryCount (pr_heap m ! r)"
  "tk_key (pr_heap (set_timerPtr ref tid m) ! r) = tk_key (pr_heap m ! r)"
  "tk_linkID (pr_heap (set_timerPtr ref tid m) ! r) = tk_linkID (pr_heap m ! r)"
  by (cases "ref < length (pr_heap m)"; cases "r = ref"; simp add: set_timerPtr_def list_update_beyond)+

lemma instr_count:
  assumes "instr_step pushed i m = (m', is')"
    and "count_ok m (int (w_delete i) + d) (int (w_start i) + s)"
  shows "count_ok m' (int (sum_list (map w_delete is')) + d) (int (sum_list (map w_start is')) + s)"
proof (cases i)
  case (IStartStore key lk lid msg)
  show ?thesis
  proof (cases "sm_load (pr_tasks m) key")
    case None
    then show ?thesis using assms IStartStore
      by (auto simp: sm_load_or_store_def count_ok_def length_sm_store w_delete_def w_start_def Let_def add_diff_eq)
  next
    case (Some r)
    then show ?thesis using assms IStartStore
      by (auto simp: sm_load_or_store_def count_ok_def w_delete_def w_start_def Let_def)
  qed
next
  case (IDelete key)
  show ?thesis
  proof (cases "sm_load (pr_tasks m) key")
    case None
    then show ?thesis using assms IDelete
      by (auto simp: sm_load_and_delete_def count_ok_def w_delete_def w_start_def)
  next
    case (Some r)
    then have "int (length (sm_delete key (pr_tasks m))) = int (length (pr_tasks m)) - 1"
      using assms(2) length_sm_delete [of "pr_tasks m" key] length_pos_if_load [OF Some]
      by (simp add: count_ok_def del: length_greater_0_conv)
    with Some show ?thesis using assms IDelete
      by (auto simp: sm_load_and_delete_def count_ok_def w_delete_def w_start_def)
  qed
next
  case (IRange es sel)
  then show ?thesis using assms
    by (cases es) (auto simp: count_ok_def w_delete_def w_start_def split: if_splits)
qed (use assms in \<open>auto simp: count_ok_def w_delete_def w_start_def after_func_def Let_def algebra_simps split: if_splits\<close>)

subsection \<open>The chain of retries of one task\<close>

text \<open>
  A task has at most one armed timer or running callback at a time. \<open>w_wait\<close>, \<open>w_max\<close> and
  \<open>w_push\<close> tell where in its cycle a goroutine of task \<open>r\<close> stands: before the count is
  increased or after a push, at the comparison with the maximum, at the push.
\<close>

definition w_wait :: "nat \<Rightarrow> instr \<Rightarrow> nat" where
  "w_wait r i = (case i of IStartArm q \<Rightarrow> of_bool (q = r) | IRetry q \<Rightarrow> of_bool (q = r)
     | IRetryInc q \<Rightarrow> of_bool (q = r) | IRetryArm q \<Rightarrow> of_bool (q = r) | _ \<Rightarrow> 0)"

definition w_max :: "nat \<Rightarrow> instr \<Rightarrow> nat" where
  "w_max r i = (case i of IRetryMax q \<Rightarrow> of_bool (q = r) | _ \<Rightarrow> 0)"

definition w_push :: "nat \<Rightarrow> instr \<Rightarrow> nat" where
  "w_push r i = (case i of IRetryPush q \<Rightarrow> of_bool (q = r) | _ \<Rightarrow> 0)"

lemmas w_chain_defs = w_wait_def w_max_def w_push_def

definition armed :: "nat \<Rightarrow> pr_manager \<Rightarrow> nat" where
  "armed r m = sum_list (map (\<lambda>(q, b). of_bool (b \<and> q = r)) (pr_timers m))"

definition pushes :: "nat \<Rightarrow> pr_manager \<Rightarrow> nat" where
  "pushes r m = count_list (pr_log m) (EvPush r)"

lemma armed_frame [simp]:
  "armed r (m\<lparr>pr_heap := h\<rparr>) = armed r m" "armed r (m\<lparr>pr_log := l\<rparr>) = armed r m"
  "armed r (m\<lparr>pr_tasks := ts\<rparr>) = armed r m"
  by (simp_all add: armed_def)

abbreviation retries :: "nat \<Rightarrow> pr_manager \<Rightarrow> int" where
  "retries r m \<equiv> tk_retryCount (pr_heap m ! r)"

text \<open>\<open>A\<close>: armed timers and waiting callbacks of the task, \<open>B\<close> and \<open>C\<close>: callbacks at the
  comparison and at the push.\<close>

definition chain_ok :: "pr_manager \<Rightarrow> nat \<Rightarrow> nat \<Rightarrow> nat \<Rightarrow> nat \<Rightarrow> bool" where
  "chain_ok m r A B C \<longleftrightarrow>
     (if r < length (pr_heap m) then
        A + B + C \<le> 1 \<and> 0 \<le> retries r m
        \<and> (0 < A \<longrightarrow> retries r m < max 1 (pr_maxRetries m))
        \<and> (0 < B \<longrightarrow> retries r m \<le> max 1 (pr_maxRetries m))
        \<and> (0 < C \<longrightarrow> retries r m < pr_maxRetries m)
        \<and> int (pushes r m) + int B + int C \<le> retries r m
        \<and> int (pushes r m) \<le> max 0 (pr_maxRetries m - 1)
      else A + B + C = 0 \<and> pushes r m = 0)"

lemma armed_disarm:
  "tid < length (pr_timers m) \<Longrightarrow>
   armed r (m\<lparr>pr_timers := (pr_timers m)[tid := (fst (pr_timers m ! tid), False)]\<rparr>)
     + of_bool (snd (pr_timers m ! tid) \<and> fst (pr_timers m ! tid) = r) = armed r m"
proof -
  assume t: "tid < length (pr_timers m)"
  let ?f = "\<lambda>(q, b). of_bool (b \<and> q = r) :: nat"
  have "?f (pr_timers m ! tid) \<le> sum_list (map ?f (pr_timers m))" using t by (simp add: member_le_sum_list)
  then show ?thesis using t by (simp add: armed_def map_update sum_list_update split_beta)
qed

lemma armed_task_stop: "armed r (task_stop ref m) \<le> armed r m"
proof (cases "tk_timerPtr (pr_heap m ! ref)")
  case (Some tid)
  show ?thesis
  proof (cases "tid < length (pr_timers m)")
    case True
    with armed_disarm [OF this, of r] Some show ?thesis by (simp add: task_stop_def)
  qed (simp add: Some task_stop_def list_update_beyond)
qed (simp add: task_stop_def)

lemma armed_after_func: "armed r (snd (after_func ref m)) = armed r m + of_bool (ref = r)"
  by (simp add: armed_def after_func_def)

lemma after_func_frame [simp]:
  "pr_heap (snd (after_func ref m)) = pr_heap m" "pr_log (snd (after_func ref m)) = pr_log m"
  "pr_maxRetries (snd (after_func ref m)) = pr_maxRetries m" "pr_tasks (snd (after_func ref m)) = pr_tasks m"
  by (simp_all add: after_func_def)

text \<open>Fewer timers do no harm, and only the heap, the log and the limit matter.\<close>

lemma chain_ok_mono:
  assumes "chain_ok m r A B C" and "A' \<le> A" and "B' = B" and "C' = C" and "pr_maxRetries m' = pr_maxRetries m"
    and "length (pr_heap m') = length (pr_heap m)" and "retries r m' = retries r m"
    and "pushes r m' = pushes r m"
  shows "chain_ok m' r A' B' C'"
  using assms by (auto simp: chain_ok_def split: if_splits)

lemma instr_chain:
  assumes "instr_step pushed i m = (m', is')" and mr: "in64 (pr_maxRetries m)"
    and ok: "chain_ok m r (armed r m + (w_wait r i + a)) (w_max r i + b) (w_push r i + c)"
  shows "chain_ok m' r (armed r m' + (sum_list (map (w_wait r) is') + a))
           (sum_list (map (w_max r) is') + b) (sum_list (map (w_push r) is') + c)"
proof (cases i)
  case (IStartStore key lk lid msg)
  show ?thesis
  proof (cases "sm_load (pr_tasks m) key")
    case None
    then have m': "m' = m\<lparr>pr_heap := pr_heap m @ [new_task key lk lid msg],
        pr_tasks := sm_store key (length (pr_heap m)) (pr_tasks m)\<rparr>" and is': "is' = [IStartArm (length (pr_heap m))]"
      using assms(1) IStartStore by (auto simp: sm_load_or_store_def Let_def)
    consider "r < length (pr_heap m)" | "r = length (pr_heap m)" | "length (pr_heap m) < r" by linarith
    then show ?thesis using ok IStartStore
      by cases (auto simp: m' is' chain_ok_def w_chain_defs armed_def pushes_def new_task_def nth_append)
  next
    case (Some q)
    then show ?thesis using assms IStartStore
      by (auto simp: sm_load_or_store_def w_chain_defs Let_def)
  qed
next
  case (IDelete key)
  show ?thesis
    by (rule chain_ok_mono [OF ok])
      (use assms(1) IDelete in \<open>auto simp: sm_load_and_delete_def w_chain_defs armed_def pushes_def split: option.splits\<close>)
next
  case (IDelTimer q)
  then show ?thesis using ok assms(1) armed_task_stop [of r q m]
    by (auto simp: w_chain_defs pushes_def intro!: chain_ok_mono [OF ok])
next
  case (IRange es sel)
  then show ?thesis using assms by (cases es) (auto simp: w_chain_defs)
next
  case (IRetryInc q)
  show ?thesis
  proof (cases "q = r")
    case True
    have ok1: "chain_ok m r (Suc (armed r m + a)) b c" using ok by (simp add: IRetryInc True w_chain_defs)
    then have len: "r < length (pr_heap m)" by (auto simp: chain_ok_def split: if_splits)
    from ok1 len have z: "armed r m + a = 0" "b = 0" "c = 0" "retries r m < max 1 (pr_maxRetries m)"
      "0 \<le> retries r m" "int (pushes r m) \<le> retries r m" "int (pushes r m) \<le> max 0 (pr_maxRetries m - 1)"
      by (simp_all add: chain_ok_def)
    then have i: "i64 (retries r m + 1) = retries r m + 1"
      using mr by (intro i64_nonneg) (auto simp: in64_def)
    have m': "m' = m\<lparr>pr_heap := (pr_heap m)[r := (pr_heap m ! r)\<lparr>tk_retryCount := retries r m + 1\<rparr>]\<rparr>"
      "is' = [IRetryMax r]" using assms(1) i by (simp_all add: IRetryInc True)
    have p: "pushes r m' = pushes r m" "armed r m' = armed r m" by (simp_all add: m' pushes_def)
    show ?thesis using z len by (simp add: p w_chain_defs m'(2)) (simp add: m' chain_ok_def pushes_def)
  next
    case False
    then show ?thesis using ok assms(1)
      by (auto simp: IRetryInc w_chain_defs armed_def pushes_def intro!: chain_ok_mono [OF ok])
  qed
next
  case (IRetryMax q)
  show ?thesis
  proof (cases "q = r")
    case True
    have ok1: "chain_ok m r (armed r m + a) (Suc b) c" using ok by (simp add: IRetryMax True w_chain_defs)
    then have len: "r < length (pr_heap m)" by (auto simp: chain_ok_def split: if_splits)
    from ok1 len have z: "armed r m + a = 0" "b = 0" "c = 0" "0 \<le> retries r m"
      "int (pushes r m) + 1 \<le> retries r m" "int (pushes r m) \<le> max 0 (pr_maxRetries m - 1)"
      by (simp_all add: chain_ok_def)
    show ?thesis using z len assms(1)
      by (cases "retries r m \<ge> pr_maxRetries m") (auto simp: IRetryMax True w_chain_defs chain_ok_def)
  next
    case False
    then show ?thesis using assms(1)
      by (auto simp: IRetryMax w_chain_defs split: if_splits intro!: chain_ok_mono [OF ok])
  qed
next
  case (IRetryPush q)
  show ?thesis
  proof (cases "q = r")
    case True
    have ok1: "chain_ok m r (armed r m + a) b (Suc c)" using ok by (simp add: IRetryPush True w_chain_defs)
    then have len: "r < length (pr_heap m)" by (auto simp: chain_ok_def split: if_splits)
    from ok1 len have z: "armed r m + a = 0" "b = 0" "c = 0" "0 \<le> retries r m" "retries r m < pr_maxRetries m"
      "int (pushes r m) + 1 \<le> retries r m"
      by (simp_all add: chain_ok_def)
    have p: "pushes r m' = Suc (pushes r m)" "armed r m' = armed r m" "retries r m' = retries r m"
      "pr_maxRetries m' = pr_maxRetries m" "length (pr_heap m') = length (pr_heap m)"
      using assms(1) by (auto simp: IRetryPush True pushes_def)
    have q: "sum_list (map (w_wait r) is') \<le> 1" "sum_list (map (w_max r) is') = 0" "sum_list (map (w_push r) is') = 0"
      using assms(1) by (cases pushed; auto simp: IRetryPush True w_chain_defs)+
    show ?thesis unfolding q(2,3) chain_ok_def p using q(1) z len by auto
  next
    case False
    then show ?thesis using assms(1)
      by (auto simp: IRetryPush w_chain_defs pushes_def split: if_splits intro!: chain_ok_mono [OF ok])
  qed
next
  case (IStartArm q)
  then have "m' = snd (after_func q m)" "is' = [IStartPtr q (length (pr_timers m))]"
    using assms(1) by (auto simp: after_func_def)
  then show ?thesis using ok
    by (auto simp: IStartArm w_chain_defs armed_after_func pushes_def intro!: chain_ok_mono [OF ok])
next
  case (IRetryArm q)
  then have "m' = snd (after_func q m)" "is' = [IRetryPtr q (length (pr_timers m))]"
    using assms(1) by (auto simp: after_func_def)
  then show ?thesis using ok
    by (auto simp: IRetryArm w_chain_defs armed_after_func pushes_def intro!: chain_ok_mono [OF ok])
qed (use assms(1) in \<open>auto simp: w_chain_defs armed_def pushes_def split: if_splits intro!: chain_ok_mono [OF ok]\<close>)

subsection \<open>The invariant of the running system\<close>

definition tasks_wf :: "pr_manager \<Rightarrow> bool" where
  "tasks_wf m \<longleftrightarrow> (\<forall>(k, r) \<in> set (pr_tasks m). r < length (pr_heap m) \<and> tk_key (pr_heap m ! r) = k)"

definition prs_inv :: "pr_sys \<Rightarrow> bool" where
  "prs_inv s \<longleftrightarrow>
     in64 (pr_maxRetries (prs_mgr s)) \<and> tasks_wf (prs_mgr s)
     \<and> count_ok (prs_mgr s) (int (weight w_delete (prs_threads s))) (int (weight w_start (prs_threads s)))
     \<and> (\<forall>r. chain_ok (prs_mgr s) r (armed r (prs_mgr s) + weight (w_wait r) (prs_threads s))
              (weight (w_max r) (prs_threads s)) (weight (w_push r) (prs_threads s)))"

lemma retryCount_key [simp]:
  "tk_key ((h[ref := (h ! ref)\<lparr>tk_retryCount := c\<rparr>]) ! r) = tk_key (h ! r)"
  by (cases "ref < length h"; cases "r = ref"; simp add: list_update_beyond)

lemma instr_wf:
  assumes "instr_step pushed i m = (m', is')" and "tasks_wf m"
  shows "tasks_wf m' \<and> pr_maxRetries m' = pr_maxRetries m"
proof (cases i)
  case (IStartStore key lk lid msg)
  show ?thesis
  proof (cases "sm_load (pr_tasks m) key")
    case None
    then have "m' = m\<lparr>pr_heap := pr_heap m @ [new_task key lk lid msg],
        pr_tasks := sm_store key (length (pr_heap m)) (pr_tasks m)\<rparr>"
      using assms(1) IStartStore by (auto simp: sm_load_or_store_def Let_def)
    with assms(2) show ?thesis
      by (fastforce simp: tasks_wf_def nth_append new_task_def dest!: sm_in_store)
  next
    case (Some q)
    then show ?thesis using assms IStartStore by (auto simp: sm_load_or_store_def Let_def)
  qed
next
  case (IDelete key)
  then show ?thesis using assms by (auto simp: sm_load_and_delete_def tasks_wf_def split: option.splits)
next
  case (IRange es sel)
  then show ?thesis using assms by (cases es) auto
qed (use assms in \<open>auto simp: tasks_wf_def after_func_def split: if_splits\<close>)

lemma thread_step_inv: "thread_step t pushed s = Some s' \<Longrightarrow> prs_inv s \<Longrightarrow> prs_inv s'"
proof -
  assume st: "thread_step t pushed s = Some s'" and inv: "prs_inv s"
  obtain i "is" m' is' where t: "t < length (prs_threads s)" "prs_threads s ! t = i # is"
    and i: "instr_step pushed i (prs_mgr s) = (m', is')"
    and s': "s' = s\<lparr>prs_mgr := m', prs_threads := (prs_threads s)[t := is' @ is]\<rparr>"
    using st by (auto simp: thread_step_def split: if_splits list.splits prod.splits)
  from inv have mr: "in64 (pr_maxRetries (prs_mgr s))" and wf: "tasks_wf (prs_mgr s)"
    and ct: "count_ok (prs_mgr s) (int (weight w_delete (prs_threads s))) (int (weight w_start (prs_threads s)))"
    and ch: "\<And>r. chain_ok (prs_mgr s) r (armed r (prs_mgr s) + weight (w_wait r) (prs_threads s))
              (weight (w_max r) (prs_threads s)) (weight (w_push r) (prs_threads s))"
    by (simp_all add: prs_inv_def)
  have "count_ok m' (int (weight w_delete (prs_threads s'))) (int (weight w_start (prs_threads s')))"
  proof -
    obtain d st where d: "weight w_delete (prs_threads s) = w_delete i + d"
      "\<And>is'. weight w_delete ((prs_threads s)[t := is' @ is]) = sum_list (map w_delete is') + d"
      and st: "weight w_start (prs_threads s) = w_start i + st"
      "\<And>is'. weight w_start ((prs_threads s)[t := is' @ is]) = sum_list (map w_start is') + st"
      using weight_rest [OF t, of w_delete] weight_rest [OF t, of w_start] by blast
    show ?thesis using instr_count [OF i, of "int d" "int st"] ct by (simp add: d st s')
  qed
  moreover have "chain_ok m' r (armed r m' + weight (w_wait r) (prs_threads s'))
      (weight (w_max r) (prs_threads s')) (weight (w_push r) (prs_threads s'))" for r
  proof -
    obtain a b c where a: "weight (w_wait r) (prs_threads s) = w_wait r i + a"
      "\<And>is'. weight (w_wait r) ((prs_threads s)[t := is' @ is]) = sum_list (map (w_wait r) is') + a"
      and b: "weight (w_max r) (prs_threads s) = w_max r i + b"
      "\<And>is'. weight (w_max r) ((prs_threads s)[t := is' @ is]) = sum_list (map (w_max r) is') + b"
      and c: "weight (w_push r) (prs_threads s) = w_push r i + c"
      "\<And>is'. weight (w_push r) ((prs_threads s)[t := is' @ is]) = sum_list (map (w_push r) is') + c"
      using weight_rest [OF t, of "w_wait r"] weight_rest [OF t, of "w_max r"] weight_rest [OF t, of "w_push r"]
      by blast
    show ?thesis using instr_chain [OF i mr, of r a b c] ch [of r] by (simp add: a b c s')
  qed
  moreover have "tasks_wf m'" "in64 (pr_maxRetries m')" using instr_wf [OF i wf] mr by simp_all
  ultimately show ?thesis by (simp add: prs_inv_def s')
qed

lemma timer_fire_inv: "timer_fire tid s = Some s' \<Longrightarrow> prs_inv s \<Longrightarrow> prs_inv s'"
proof -
  assume st: "timer_fire tid s = Some s'" and inv: "prs_inv s"
  let ?m = "prs_mgr s"
  let ?m' = "?m\<lparr>pr_timers := (pr_timers ?m)[tid := (fst (pr_timers ?m ! tid), False)]\<rparr>"
  have tid: "tid < length (pr_timers ?m)" "snd (pr_timers ?m ! tid)"
    and s': "s' = s\<lparr>prs_mgr := ?m', prs_threads := prs_threads s @ [[IRetry (fst (pr_timers ?m ! tid))]]\<rparr>"
    using st by (auto simp: timer_fire_def Let_def split: if_splits)
  have "chain_ok ?m' r (armed r ?m' + weight (w_wait r) (prs_threads s'))
      (weight (w_max r) (prs_threads s')) (weight (w_push r) (prs_threads s'))" for r
  proof (rule chain_ok_mono)
    show "chain_ok ?m r (armed r ?m + weight (w_wait r) (prs_threads s))
        (weight (w_max r) (prs_threads s)) (weight (w_push r) (prs_threads s))"
      using inv by (simp add: prs_inv_def)
    show "armed r ?m' + weight (w_wait r) (prs_threads s') \<le> armed r ?m + weight (w_wait r) (prs_threads s)"
      using armed_disarm [OF tid(1), of r] tid(2) by (simp add: s' w_wait_def)
  qed (simp_all add: s' w_chain_defs pushes_def)
  moreover have "count_ok ?m' (int (weight w_delete (prs_threads s'))) (int (weight w_start (prs_threads s')))"
    using inv by (simp add: prs_inv_def s' count_ok_def w_delete_def w_start_def)
  ultimately show ?thesis using inv by (simp add: prs_inv_def s' tasks_wf_def)
qed

lemma call_inv: "is_call i \<Longrightarrow> prs_inv s \<Longrightarrow> prs_inv (s\<lparr>prs_threads := prs_threads s @ [[i]]\<rparr>)"
  by (cases i) (simp_all add: prs_inv_def w_chain_defs w_delete_def w_start_def)

lemma pr_init_inv: "pr_init s \<Longrightarrow> prs_inv s"
  by (auto simp: pr_init_def prs_inv_def NewPushRetryManager_def tasks_wf_def count_ok_def weight_def
      chain_ok_def armed_def pushes_def in64_def)

lemma pr_step_inv: "pr_step s s' \<Longrightarrow> prs_inv s \<Longrightarrow> prs_inv s'"
  by (induction rule: pr_step.induct) (blast intro: call_inv thread_step_inv timer_fire_inv)+

interpretation prs: inv_system pr_init pr_step prs_inv
  by unfold_locales (auto intro: pr_init_inv pr_step_inv)

subsection \<open>One goroutine alone\<close>

lemma run_compose:
  "run_instrs n1 pushed is1 m = Some m1 \<Longrightarrow> run_instrs n2 pushed is2 m1 = Some m2 \<Longrightarrow>
   run_instrs (n1 + n2) pushed (is1 @ is2) m = Some m2"
proof (induction n1 pushed is1 m rule: run_instrs.induct)
  case (1 n pushed m)
  have "run_instrs n2 pushed xs a = Some b \<Longrightarrow> run_instrs (n + n2) pushed xs a = Some b" for xs a b n2
  proof (induction n2 pushed xs a rule: run_instrs.induct)
    case (3 k pushed i "is" m)
    then show ?case by (auto split: prod.splits)
  qed auto
  with 1 show ?case by simp
qed (auto split: prod.splits)

lemma run_delete: "run_instrs 3 pushed [IDelete key] m = Some (snd (stopAndDeleteTask key m))"
  by (cases "sm_load (pr_tasks m) key")
    (simp_all add: stopAndDeleteTask_def sm_load_and_delete_def numeral_3_eq_3 Let_def)

lemma run_range: "\<exists>n. run_instrs n pushed [IRange es sel] m = Some (stop_range sel es m)"
proof (induction es arbitrary: m)
  case Nil
  have "run_instrs 1 pushed [IRange [] sel] m = Some (stop_range sel [] m)" by simp
  then show ?case by blast
next
  case (Cons e es)
  obtain key ref where e: "e = (key, ref)" by (cases e)
  show ?case
  proof (cases "sel = None \<or> sel = Some (tk_linkID (pr_heap m ! ref))")
    case True
    obtain n where "run_instrs n pushed [IRange es sel] (snd (stopAndDeleteTask key m))
        = Some (stop_range sel es (snd (stopAndDeleteTask key m)))" using Cons by blast
    from run_compose [OF run_delete this] obtain k where "run_instrs k pushed ([IDelete key] @ [IRange es sel]) m
        = Some (stop_range sel es (snd (stopAndDeleteTask key m)))" by blast
    then have "run_instrs (Suc k) pushed [IRange (e # es) sel] m = Some (stop_range sel (e # es) m)"
      using True by (simp add: e)
    then show ?thesis by blast
  next
    case False
    obtain n where "run_instrs n pushed [IRange es sel] m = Some (stop_range sel es m)" using Cons by blast
    then have "run_instrs (Suc n) pushed [IRange (e # es) sel] m = Some (stop_range sel (e # es) m)"
      using False by (auto simp: e)
    then show ?thesis by blast
  qed
qed

lemma run_start: "run_instrs 5 pushed [IStart key lk lid msg] m = Some (pr_Start key lk lid msg m)"
  by (auto simp: pr_Start_def sm_load_or_store_def eval_nat_numeral Let_def split: option.splits prod.splits)

lemma run_stop: "run_instrs 4 pushed [IStop key] m = Some (pr_Stop key m)"
  using run_delete [of pushed key m] by (simp add: pr_Stop_def eval_nat_numeral)

lemma run_retry: "run_instrs 7 pushed [IRetry ref] m = Some (task_retry pushed ref m)"
proof -
  let ?m1 = "m\<lparr>pr_heap := (pr_heap m)[ref := (pr_heap m ! ref)\<lparr>tk_retryCount := i64 (retries ref m + 1)\<rparr>]\<rparr>"
  let ?key = "tk_key (pr_heap m ! ref)"
  have d: "run_instrs (Suc (Suc (Suc n))) pushed [IDelete key] m = Some (snd (stopAndDeleteTask key m))" for n key m
    using run_compose [OF run_delete, of n pushed "[]" key m "snd (stopAndDeleteTask key m)"]
    by (simp add: add.commute numeral_3_eq_3 del: run_instrs.simps(3))
  consider "sm_load (pr_tasks m) ?key = None"
    | "sm_load (pr_tasks m) ?key \<noteq> None" "retries ref ?m1 \<ge> pr_maxRetries m"
    | "sm_load (pr_tasks m) ?key \<noteq> None" "\<not> retries ref ?m1 \<ge> pr_maxRetries m" by blast
  then show ?thesis
  proof cases
    case 1
    then show ?thesis by (simp add: task_retry_def eval_nat_numeral)
  next
    case 2
    then have "run_instrs 7 pushed [IRetry ref] m = run_instrs 4 pushed [IDelete ?key] ?m1"
      by (auto simp: eval_nat_numeral simp del: instr_step.simps(7))
    also have "\<dots> = Some (snd (stopAndDeleteTask ?key ?m1))" 
    proof -
      have "(4::nat) = Suc (Suc (Suc 1))" by simp
      then show ?thesis using d [of 1 ?key ?m1] by (simp only:)
    qed
    also have "\<dots> = Some (task_retry pushed ref m)" using 2 by (auto simp: task_retry_def Let_def)
    finally show ?thesis .
  next
    case 3
    let ?m2 = "?m1\<lparr>pr_log := pr_log m @ [EvPush ref]\<rparr>"
    show ?thesis
    proof (cases pushed)
      case True
      then show ?thesis using 3 by (auto simp: task_retry_def eval_nat_numeral Let_def split: prod.splits)
    next
      case False
      then have "run_instrs 7 pushed [IRetry ref] m = run_instrs 3 pushed [IDelete ?key] ?m2"
        using 3 by (auto simp: eval_nat_numeral simp del: instr_step.simps(7))
      also have "\<dots> = Some (snd (stopAndDeleteTask ?key ?m2))" by (rule run_delete)
      also have "\<dots> = Some (task_retry pushed ref m)" using 3 False by (auto simp: task_retry_def Let_def)
      finally show ?thesis .
    qed
  qed
qed

subsection \<open>The counter as an interface\<close>

lemma stopAndDelete_simps [simp]:
  "pr_tasks (snd (stopAndDeleteTask key m)) = sm_delete key (pr_tasks m)"
  "pr_heap (snd (stopAndDeleteTask key m)) = pr_heap m"
  "pr_closed (snd (stopAndDeleteTask key m)) = pr_closed m"
  "pr_log (snd (stopAndDeleteTask key m)) = pr_log m"
  "fst (stopAndDeleteTask key m) = (sm_load (pr_tasks m) key \<noteq> None)"
  by (simp_all add: stopAndDeleteTask_def sm_load_and_delete_def sm_delete_absent Let_def split: option.splits)

interpretation prc: counted_map pr_tasks pr_totalTasks "\<lambda>k m. snd (stopAndDeleteTask k m)"
  by unfold_locales
    (simp_all add: stopAndDeleteTask_def sm_load_and_delete_def sm_delete_absent Let_def split: option.splits)

lemma pr_Start_task: "\<not> pr_closed m \<Longrightarrow> sm_load (pr_tasks (pr_Start key lk lid msg m)) key \<noteq> None"
  by (cases "sm_load (pr_tasks m) key") (simp_all add: pr_Start_def sm_load_or_store_def after_func_def Let_def)

definition range_selects :: "string option \<Rightarrow> pr_manager \<Rightarrow> string \<times> nat \<Rightarrow> bool" where
  "range_selects sel m e \<longleftrightarrow> sel = None \<or> sel = Some (tk_linkID (pr_heap m ! snd e))"

lemma stop_range_fold:
  "stop_range sel es m = fold (\<lambda>k m. snd (stopAndDeleteTask k m)) (map fst (filter (range_selects sel m) es)) m"
proof (induction es arbitrary: m)
  case (Cons e es)
  obtain k r where e: "e = (k, r)" by (cases e)
  have "range_selects sel (snd (stopAndDeleteTask k m)) = range_selects sel m"
    by (rule ext) (simp add: range_selects_def)
  then show ?case using Cons by (simp add: e range_selects_def)
qed simp

lemma fold_delete_tasks:
  "pr_tasks (fold (\<lambda>k m. snd (stopAndDeleteTask k m)) ks m) = filter (\<lambda>e. fst e \<notin> set ks) (pr_tasks m)
   \<and> pr_heap (fold (\<lambda>k m. snd (stopAndDeleteTask k m)) ks m) = pr_heap m
   \<and> pr_closed (fold (\<lambda>k m. snd (stopAndDeleteTask k m)) ks m) = pr_closed m
   \<and> pr_log (fold (\<lambda>k m. snd (stopAndDeleteTask k m)) ks m) = pr_log m"
proof (induction ks arbitrary: m)
  case (Cons k ks)
  show ?case by (simp add: Cons AList.delete_eq conj_commute split_beta) (auto intro!: filter_cong)
qed simp

lemma stop_range_result:
  assumes "sm_ok (pr_tasks m)" and "pr_totalTasks m = i64 (int (length (pr_tasks m)) + d)"
  shows "pr_tasks (stop_range sel (pr_tasks m) m) = filter (\<lambda>e. \<not> range_selects sel m e) (pr_tasks m)
    \<and> pr_totalTasks (stop_range sel (pr_tasks m) m)
        = i64 (int (length (filter (\<lambda>e. \<not> range_selects sel m e) (pr_tasks m))) + d)
    \<and> pr_closed (stop_range sel (pr_tasks m) m) = pr_closed m
    \<and> pr_log (stop_range sel (pr_tasks m) m) = pr_log m"
proof -
  let ?ks = "map fst (filter (range_selects sel m) (pr_tasks m))"
  have ts: "pr_tasks (stop_range sel (pr_tasks m) m) = filter (\<lambda>e. \<not> range_selects sel m e) (pr_tasks m)"
    using fold_delete_tasks [of ?ks m] filter_keys [OF assms(1), of "range_selects sel m"]
    by (simp add: stop_range_fold)
  then show ?thesis
    using prc.fold_rem_counts [OF assms, of ?ks] fold_delete_tasks [of ?ks m]
    by (simp add: stop_range_fold)
qed

subsection \<open>Schedules\<close>

text \<open>A schedule of the system, and the fact that what it leads to is reachable.\<close>

datatype sched = SCall instr | SThread nat bool nat | STimer nat

fun thread_steps :: "nat \<Rightarrow> bool \<Rightarrow> nat \<Rightarrow> pr_sys \<Rightarrow> pr_sys option" where
  "thread_steps t pushed 0 s = Some s"
| "thread_steps t pushed (Suc n) s =
     (case thread_step t pushed s of None \<Rightarrow> None | Some s' \<Rightarrow> thread_steps t pushed n s')"

fun run_sched :: "sched list \<Rightarrow> pr_sys \<Rightarrow> pr_sys option" where
  "run_sched [] s = Some s"
| "run_sched (SCall i # xs) s =
     (if is_call i then run_sched xs (s\<lparr>prs_threads := prs_threads s @ [[i]]\<rparr>) else None)"
| "run_sched (SThread t pushed n # xs) s =
     (case thread_steps t pushed n s of None \<Rightarrow> None | Some s' \<Rightarrow> run_sched xs s')"
| "run_sched (STimer tid # xs) s =
     (case timer_fire tid s of None \<Rightarrow> None | Some s' \<Rightarrow> run_sched xs s')"

lemma pr_reach_step: "reach pr_init pr_step s \<Longrightarrow> pr_step s t \<Longrightarrow> reach pr_init pr_step t"
  by (rule reach_step)

lemma thread_steps_reach:
  "thread_steps t pushed n s = Some s' \<Longrightarrow> reach pr_init pr_step s \<Longrightarrow> reach pr_init pr_step s'"
  by (induction n arbitrary: s) (auto split: option.splits intro: pr_reach_step [OF _ pr_thread])

lemma run_sched_reach:
  "run_sched xs s = Some s' \<Longrightarrow> reach pr_init pr_step s \<Longrightarrow> reach pr_init pr_step s'"
  by (induction xs s rule: run_sched.induct)
    (auto split: option.splits if_splits intro: pr_reach_step [OF _ pr_call] pr_reach_step [OF _ pr_timer] thread_steps_reach)

definition prs_start :: "int \<Rightarrow> pr_sys" where
  "prs_start mr = \<lparr>prs_mgr = NewPushRetryManager 1 mr, prs_threads = []\<rparr>"

lemma prs_start_reach: "in64 mr \<Longrightarrow> reach pr_init pr_step (prs_start mr)"
  by (rule reach_init) (auto simp: pr_init_def prs_start_def)

text \<open>A task is started, its timer fires twice, and each time the push succeeds.\<close>

definition ex_retry :: "pr_sys option" where
  "ex_retry = run_sched [SCall (IStart ''k'' 0 ''l'' 0), SThread 0 True 5, STimer 0, SThread 1 True 6,
     STimer 1, SThread 2 True 6] (prs_start 3)"

lemma ex_retry_value:
  "(case ex_retry of None \<Rightarrow> False | Some s \<Rightarrow>
     length (pr_heap (prs_mgr s)) = 1 \<and> pushes 0 (prs_mgr s) = 2 \<and> concat (prs_threads s) = []
     \<and> pr_maxRetries (prs_mgr s) = 3)"
  by code_simp

text \<open>The goroutine of a fired timer is between its check and its push when the task is stopped
  and the same key is started again.\<close>

definition ex_stale :: "pr_sys option" where
  "ex_stale = run_sched [SCall (IStart ''k'' 0 ''l'' 0), SThread 0 True 5, STimer 0, SThread 1 True 1,
     SCall (IStop ''k''), SThread 2 True 4, SCall (IStart ''k'' 0 ''l'' 1), SThread 3 True 5,
     SThread 1 True 5, STimer 2, SThread 4 True 6, STimer 3, SThread 5 True 6] (prs_start 3)"

lemma ex_stale_value:
  "(case ex_stale of None \<Rightarrow> False | Some s \<Rightarrow>
     (let m = prs_mgr s in
        length (pr_heap m) = 2 \<and> tk_retryCount (pr_heap m ! 1) = 0 \<and> pr_tasks m = []
        \<and> pr_timers m ! 1 = (1, False) \<and> concat (prs_threads s) = []
        \<and> pr_log m = [EvPush 0, EvTouch 0, EvPush 0, EvTouch 0]))"
  by code_simp

subsection \<open>Properties\<close>

text \<open>C12. Retransmission is bounded under every interleaving of callers and timers: a task pushes
  its message at most \<open>maxRetries - 1\<close> times, it never has more than one armed timer or
  running callback, and its retry count never passes \<open>max 1 maxRetries\<close>.\<close>

theorem pushretry_bounded:
  assumes "reach pr_init pr_step s" and "r < length (pr_heap (prs_mgr s))"
  shows "int (pushes r (prs_mgr s)) \<le> max 0 (pr_maxRetries (prs_mgr s) - 1)
    \<and> armed r (prs_mgr s) + weight (w_wait r) (prs_threads s) + weight (w_max r) (prs_threads s)
        + weight (w_push r) (prs_threads s) \<le> 1
    \<and> 0 \<le> retries r (prs_mgr s) \<and> int (pushes r (prs_mgr s)) \<le> retries r (prs_mgr s)"
proof -
  have "chain_ok (prs_mgr s) r (armed r (prs_mgr s) + weight (w_wait r) (prs_threads s))
      (weight (w_max r) (prs_threads s)) (weight (w_push r) (prs_threads s))"
    using prs.reach_inv [OF assms(1)] by (simp add: prs_inv_def)
  then show ?thesis using assms(2) by (simp add: chain_ok_def)
qed

theorem pushretry_bounded_witness:
  "\<exists>s. reach pr_init pr_step s \<and> int (pushes 0 (prs_mgr s)) \<le> max 0 (3 - 1) \<and> pushes 0 (prs_mgr s) = 2"
proof -
  obtain s where s: "ex_retry = Some s" "length (pr_heap (prs_mgr s)) = 1" "pushes 0 (prs_mgr s) = 2"
    "pr_maxRetries (prs_mgr s) = 3"
    using ex_retry_value by (auto split: option.splits)
  have rch: "reach pr_init pr_step s"
    using run_sched_reach [OF s(1) [unfolded ex_retry_def]] prs_start_reach [of 3] by (simp add: in64_def)
  show ?thesis using pushretry_bounded [OF rch, of 0] rch s by auto
qed

text \<open>C11. The number of tasks reported by \<open>GetStats\<close> is the number of entries of the map, up to
  the calls that are between changing the map and changing the counter; when no call is
  running the two agree. Every entry points to a task with its own key.\<close>

theorem pushretry_counter:
  assumes "reach pr_init pr_step s"
  shows "(let m = prs_mgr s in sm_ok (pr_tasks m)
     \<and> GetStats m = i64 (int (length (pr_tasks m)) + int (weight w_delete (prs_threads s))
                           - int (weight w_start (prs_threads s)))
     \<and> (\<forall>(k, r) \<in> set (pr_tasks m). r < length (pr_heap m) \<and> tk_key (pr_heap m ! r) = k)
     \<and> (concat (prs_threads s) = [] \<longrightarrow> GetStats m = i64 (int (length (pr_tasks m)))))"
proof -
  have "weight w (prs_threads s) = 0" if "concat (prs_threads s) = []" for w
    using that by (force simp: weight_def)
  then show ?thesis
    using prs.reach_inv [OF assms] by (auto simp: prs_inv_def count_ok_def tasks_wf_def Let_def GetStats_def)
qed

theorem pushretry_counter_witness:
  "\<exists>s. reach pr_init pr_step s \<and> pr_heap (prs_mgr s) \<noteq> [] \<and> GetStats (prs_mgr s) = i64 (int (length (pr_tasks (prs_mgr s))))"
proof -
  obtain s where s: "ex_retry = Some s" "length (pr_heap (prs_mgr s)) = 1" "concat (prs_threads s) = []"
    using ex_retry_value by (auto split: option.splits)
  have rch: "reach pr_init pr_step s"
    using run_sched_reach [OF s(1) [unfolded ex_retry_def]] prs_start_reach [of 3] by (simp add: in64_def)
  show ?thesis using pushretry_counter [OF rch] rch s by (auto simp: Let_def)
qed

text \<open>Executed by a goroutine that runs alone, the atomic instructions of each operation end
  and have exactly the effect of the operation.\<close>

theorem pushretry_atomic_refines:
  "\<exists>n. run_instrs n pushed [IStart key lk lid msg] m = Some (pr_Start key lk lid msg m)
     \<and> run_instrs n pushed [IStop key] m = Some (pr_Stop key m)
     \<and> run_instrs n pushed [IRetry ref] m = Some (task_retry pushed ref m)
     \<and> (\<exists>k. run_instrs k pushed [IRangeStart (Some lid)] m = Some (StopByLinkID lid m))
     \<and> (\<exists>k. run_instrs k pushed [IClose] m = Some (pr_Close m))"
proof -
  have pad: "run_instrs 7 pushed is m = Some m'" if "run_instrs n pushed is m = Some m'" "n \<le> 7" for n "is" m'
    using run_compose [OF that(1), of "7 - n" "[]" m'] that(2) by simp
  obtain k where k: "run_instrs k pushed [IRange (pr_tasks m) (Some lid)] m = Some (StopByLinkID lid m)"
    using run_range by (fastforce simp: StopByLinkID_def)
  obtain j where j: "run_instrs j pushed [IRange (pr_tasks m) None] (m\<lparr>pr_closed := True\<rparr>) = Some (pr_Close m)"
    using run_range [of pushed "pr_tasks m" None "m\<lparr>pr_closed := True\<rparr>"] by (auto simp: pr_Close_def Let_def)
  have "run_instrs (Suc k) pushed [IRangeStart (Some lid)] m = Some (StopByLinkID lid m)" using k by simp
  then have "\<exists>k. run_instrs k pushed [IRangeStart (Some lid)] m = Some (StopByLinkID lid m)" by blast
  moreover have "run_instrs (Suc (Suc j)) pushed [IClose] m = Some (pr_Close m)" using j by simp
  then have "\<exists>k. run_instrs k pushed [IClose] m = Some (pr_Close m)" by blast
  ultimately show ?thesis
    using pad [OF run_start] pad [OF run_stop] run_retry by (intro exI [of _ 7]) auto
qed

text \<open>\<open>StopByLinkID\<close> removes exactly the tasks of that link and \<open>Close\<close> all tasks; the counter
  follows, nothing is pushed, and after \<open>Close\<close> no task can be started.\<close>

theorem pushretry_stop_link_and_close:
  assumes "sm_ok (pr_tasks m)" and "GetStats m = i64 (int (length (pr_tasks m)))"
  shows "pr_tasks (StopByLinkID lid m) = filter (\<lambda>e. tk_linkID (pr_heap m ! snd e) \<noteq> lid) (pr_tasks m)
    \<and> GetStats (StopByLinkID lid m) = i64 (int (length (pr_tasks (StopByLinkID lid m))))
    \<and> pr_tasks (pr_Close m) = [] \<and> GetStats (pr_Close m) = 0
    \<and> pr_log (StopByLinkID lid m) = pr_log m \<and> pr_log (pr_Close m) = pr_log m
    \<and> pr_Start key lk lid' msg (pr_Close m) = pr_Close m"
proof -
  let ?c = "m\<lparr>pr_closed := True\<rparr>"
  have "pr_totalTasks m = i64 (int (length (pr_tasks m)) + 0)"
    "pr_totalTasks ?c = i64 (int (length (pr_tasks ?c)) + 0)" using assms(2) by (simp_all add: GetStats_def)
  moreover have "filter (\<lambda>e. \<not> range_selects (Some lid) m e) (pr_tasks m)
      = filter (\<lambda>e. tk_linkID (pr_heap m ! snd e) \<noteq> lid) (pr_tasks m)"
    by (rule filter_cong) (auto simp: range_selects_def)
  moreover have "filter (\<lambda>e. \<not> range_selects None ?c e) (pr_tasks ?c) = []" by (simp add: range_selects_def)
  ultimately show ?thesis
    using stop_range_result [of m 0 "Some lid"] stop_range_result [of ?c 0 None] assms(1)
    by (simp add: StopByLinkID_def pr_Close_def GetStats_def pr_Start_def Let_def in64_def)
qed

theorem pushretry_stop_link_and_close_witness:
  "pr_tasks (StopByLinkID ''a'' (pr_Start ''k2'' 1 ''b'' 0 (pr_Start ''k1'' 0 ''a'' 0 (NewPushRetryManager 1 3))))
     = [(''k2'', 1)]"
  using pushretry_stop_link_and_close
    [of "pr_Start ''k2'' 1 ''b'' 0 (pr_Start ''k1'' 0 ''a'' 0 (NewPushRetryManager 1 3))" "''a''"]
  by (simp add: pr_Start_def NewPushRetryManager_def sm_load_or_store_def after_func_def set_timerPtr_def
      new_task_def sm_ok_def GetStats_def in64_def)

text \<open>An acknowledged or stopped key is not retransmitted: once \<open>Stop\<close> returned, a callback
  of the key that starts afterwards does nothing; and starting a key that already has a
  task changes nothing.\<close>

theorem pushretry_stop_silences:
  "tk_key (pr_heap m ! ref) = key \<longrightarrow>
     task_retry pushed ref (pr_Stop key m) = pr_Stop key m
     \<and> (sm_load (pr_tasks m) key \<noteq> None \<longrightarrow> pr_Start key lk lid msg m = m)"
  by (auto simp: task_retry_def pr_Stop_def pr_Start_def sm_load_or_store_def)

theorem pushretry_stop_silences_witness:
  "task_retry True 0 (pr_Stop ''k'' (pr_Start ''k'' 0 ''a'' 0 (NewPushRetryManager 1 3)))
     = pr_Stop ''k'' (pr_Start ''k'' 0 ''a'' 0 (NewPushRetryManager 1 3))"
  using pushretry_stop_silences [of "pr_Start ''k'' 0 ''a'' 0 (NewPushRetryManager 1 3)" 0 "''k''"]
  by (simp add: pr_Start_def NewPushRetryManager_def sm_load_or_store_def after_func_def set_timerPtr_def new_task_def)

text \<open>The check of the callback looks the task up by key only. If a task is stopped and its key
  started again while a callback of the old task is past its check, the old chain goes on,
  pushes the old message, and in the end deletes the new task, which was never pushed.\<close>

theorem pushretry_stale_chain:
  "\<exists>s. reach pr_init pr_step s \<and> concat (prs_threads s) = [] \<and> pr_tasks (prs_mgr s) = []
     \<and> length (pr_heap (prs_mgr s)) = 2 \<and> retries 1 (prs_mgr s) = 0 \<and> pushes 1 (prs_mgr s) = 0
     \<and> pushes 0 (prs_mgr s) = 2 \<and> pr_timers (prs_mgr s) ! 1 = (1, False)"
proof -
  obtain s where s: "ex_stale = Some s" "length (pr_heap (prs_mgr s)) = 2" "retries 1 (prs_mgr s) = 0"
    "pr_tasks (prs_mgr s) = []" "pr_timers (prs_mgr s) ! 1 = (1, False)" "concat (prs_threads s) = []"
    "pr_log (prs_mgr s) = [EvPush 0, EvTouch 0, EvPush 0, EvTouch 0]"
    using ex_stale_value by (auto simp: Let_def split: option.splits)
  have "reach pr_init pr_step s"
    using run_sched_reach [OF s(1) [unfolded ex_stale_def]] prs_start_reach [of 3] by (simp add: in64_def)
  then show ?thesis using s by (intro exI [of _ s]) (simp add: pushes_def)
qed

end
