(* ===== verification/GW_Encrypt.thy ===== *)
theory GW_Encrypt
  imports GW_Types
begin

text \<open>
  \<open>pkg/encrypt\<close>: encryption of message bodies. The three encryptors, the factory that chooses
  one by configuration, and the contract \<open>encryptor\<close> the link event handlers rely on. The
  ciphers themselves (AES-GCM, ChaCha20-Poly1305) are not part of the repository: the record
  \<open>crypto\<close> holds their \<open>Seal\<close> and \<open>Open\<close>, and \<open>aead_ok\<close> what their documentation promises.
\<close>

text \<open>\<open>[]byte(s)\<close>.\<close>

definition go_bytes :: "string \<Rightarrow> bytes" where
  "go_bytes s = map (\<lambda>c. word_of_nat (of_char c)) s"

lemma length_go_bytes [simp]: "length (go_bytes s) = length s"
  by (simp add: go_bytes_def)

text \<open>\<open>Seal key nonce plaintext\<close> returns ciphertext and tag, \<open>Open key nonce ciphertext\<close> the
  plaintext or an error. Both ciphers use nonces of 12 bytes.\<close>

record crypto =
  cr_gcm_seal :: "bytes \<Rightarrow> bytes \<Rightarrow> bytes \<Rightarrow> bytes"
  cr_gcm_open :: "bytes \<Rightarrow> bytes \<Rightarrow> bytes \<Rightarrow> bytes option"
  cr_cc_new :: "bytes \<Rightarrow> gerr option"
  cr_cc_seal :: "bytes \<Rightarrow> bytes \<Rightarrow> bytes \<Rightarrow> bytes"
  cr_cc_open :: "bytes \<Rightarrow> bytes \<Rightarrow> bytes \<Rightarrow> bytes option"

definition NonceSize :: nat where "NonceSize = 12"
definition ChaChaKeySize :: nat where "ChaChaKeySize = 32"

definition aead_ok ::
  "(bytes \<Rightarrow> bytes \<Rightarrow> bytes \<Rightarrow> bytes) \<Rightarrow> (bytes \<Rightarrow> bytes \<Rightarrow> bytes \<Rightarrow> bytes option) \<Rightarrow> bool" where
  "aead_ok seal open \<longleftrightarrow>
     (\<forall>key nonce data. length nonce = NonceSize \<longrightarrow> open key nonce (seal key nonce data) = Some data)"

definition crypto_ok :: "crypto \<Rightarrow> bool" where
  "crypto_ok cr \<longleftrightarrow> aead_ok (cr_gcm_seal cr) (cr_gcm_open cr) \<and> aead_ok (cr_cc_seal cr) (cr_cc_open cr)"

text \<open>A read of \<open>NonceSize\<close> random bytes from \<open>rand.Reader\<close>, which may fail.\<close>

type_synonym nonce_read = "gerr + bytes"

definition nonce_ok :: "nonce_read \<Rightarrow> bool" where
  "nonce_ok rnd = (case rnd of Inl _ \<Rightarrow> True | Inr nonce \<Rightarrow> length nonce = NonceSize)"

subsection \<open>The encryptors\<close>

datatype encryptor_impl = NoneEncryptor | AESEncryptor bytes | ChaCha20Encryptor bytes

definition NewNoneEncryptor :: encryptor_impl where
  "NewNoneEncryptor = NoneEncryptor"

definition NewAESEncryptor :: "string \<Rightarrow> gerr + encryptor_impl" where
  "NewAESEncryptor key =
     (let keyBytes = go_bytes key in
      if length keyBytes \<noteq> 16 \<and> length keyBytes \<noteq> 24 \<and> length keyBytes \<noteq> 32
      then Inl (Txt ''AES key size'') else Inr (AESEncryptor keyBytes))"

definition NewChaCha20Encryptor :: "crypto \<Rightarrow> string \<Rightarrow> gerr + encryptor_impl" where
  "NewChaCha20Encryptor cr key =
     (let keyBytes = go_bytes key in
      if length keyBytes \<noteq> ChaChaKeySize then Inl (Txt ''ChaCha20-Poly1305 key size'')
      else (case cr_cc_new cr keyBytes of
              Some err \<Rightarrow> Inl (WrapE [err])
            | None \<Rightarrow> Inr (ChaCha20Encryptor keyBytes)))"

text \<open>\<open>aes.NewCipher\<close> fails exactly for other key sizes than 16, 24 and 32.\<close>

definition aes_NewCipher :: "bytes \<Rightarrow> gerr option" where
  "aes_NewCipher key = (if length key \<in> {16, 24, 32} then None else Some (Ext ''KeySizeError''))"

definition aes_Encrypt :: "crypto \<Rightarrow> nonce_read \<Rightarrow> bytes \<Rightarrow> bytes \<Rightarrow> gerr + bytes" where
  "aes_Encrypt cr rnd key data =
     (if data = [] then Inr data
      else (case aes_NewCipher key of
              Some err \<Rightarrow> Inl (WrapE [err])
            | None \<Rightarrow> (case rnd of
                         Inl err \<Rightarrow> Inl (WrapE [err])
                       | Inr nonce \<Rightarrow> Inr (nonce @ cr_gcm_seal cr key nonce data))))"

definition aes_Decrypt :: "crypto \<Rightarrow> bytes \<Rightarrow> bytes \<Rightarrow> gerr + bytes" where
  "aes_Decrypt cr key data =
     (if data = [] then Inr data
      else (case aes_NewCipher key of
              Some err \<Rightarrow> Inl (WrapE [err])
            | None \<Rightarrow>
                if length data < NonceSize then Inl (Txt ''ciphertext too short'')
                else let nonce = take NonceSize data; ciphertext = drop NonceSize data
                     in (case cr_gcm_open cr key nonce ciphertext of
                           None \<Rightarrow> Inl (WrapE [Ext ''authentication failed''])
                         | Some plaintext \<Rightarrow> Inr plaintext)))"

definition chacha20_Encrypt :: "crypto \<Rightarrow> nonce_read \<Rightarrow> bytes \<Rightarrow> bytes \<Rightarrow> gerr + bytes" where
  "chacha20_Encrypt cr rnd key data =
     (if data = [] then Inr data
      else (case rnd of
              Inl err \<Rightarrow> Inl (WrapE [err])
            | Inr nonce \<Rightarrow> Inr (nonce @ cr_cc_seal cr key nonce data)))"

definition chacha20_Decrypt :: "crypto \<Rightarrow> bytes \<Rightarrow> bytes \<Rightarrow> gerr + bytes" where
  "chacha20_Decrypt cr key data =
     (if data = [] then Inr data
      else if length data < NonceSize then Inl (Txt ''ciphertext too short'')
      else let nonce = take NonceSize data; ciphertext = drop NonceSize data
           in (case cr_cc_open cr key nonce ciphertext of
                 None \<Rightarrow> Inl (WrapE [Ext ''authentication failed''])
               | Some plaintext \<Rightarrow> Inr plaintext))"

definition none_Encrypt :: "bytes \<Rightarrow> gerr + bytes" where
  "none_Encrypt data = Inr data"

definition none_Decrypt :: "bytes \<Rightarrow> gerr + bytes" where
  "none_Decrypt data = Inr data"

text \<open>The methods of the interface value.\<close>

definition Encrypt :: "crypto \<Rightarrow> encryptor_impl \<Rightarrow> nonce_read \<Rightarrow> bytes \<Rightarrow> gerr + bytes" where
  "Encrypt cr e rnd data =
     (case e of NoneEncryptor \<Rightarrow> none_Encrypt data
      | AESEncryptor key \<Rightarrow> aes_Encrypt cr rnd key data
      | ChaCha20Encryptor key \<Rightarrow> chacha20_Encrypt cr rnd key data)"

definition Decrypt :: "crypto \<Rightarrow> encryptor_impl \<Rightarrow> bytes \<Rightarrow> gerr + bytes" where
  "Decrypt cr e data =
     (case e of NoneEncryptor \<Rightarrow> none_Decrypt data
      | AESEncryptor key \<Rightarrow> aes_Decrypt cr key data
      | ChaCha20Encryptor key \<Rightarrow> chacha20_Decrypt cr key data)"

definition encryptor_Name :: "encryptor_impl \<Rightarrow> string" where
  "encryptor_Name e =
     (case e of NoneEncryptor \<Rightarrow> ''none'' | AESEncryptor _ \<Rightarrow> ''aes''
      | ChaCha20Encryptor _ \<Rightarrow> ''chacha20poly1305'')"

subsection \<open>The factory\<close>

record encrypt_config =
  ec_Enabled :: bool
  ec_Algorithm :: string
  ec_Key :: string

definition NewEncryptor :: "crypto \<Rightarrow> encrypt_config \<Rightarrow> gerr + encryptor_impl" where
  "NewEncryptor cr config =
     (if \<not> ec_Enabled config then Inr NewNoneEncryptor
      else if ec_Algorithm config = ''aes'' then
        if ec_Key config = '''' then Inl (Txt ''AES key'') else NewAESEncryptor (ec_Key config)
      else if ec_Algorithm config = ''chacha20poly1305'' \<or> ec_Algorithm config = ''chacha20'' then
        if ec_Key config = '''' then Inl (Txt ''ChaCha20 key'') else NewChaCha20Encryptor cr (ec_Key config)
      else Inl (WrapE [Sen ErrUnsupportedAlgorithm]))"

subsection \<open>The contract\<close>

text \<open>
  What the handlers rely on: a body that was encrypted decrypts to itself. From it follows
  what a receiver sees of a body that was encrypted once, and of one that was encrypted
  twice before it is decrypted once.
\<close>

locale encryptor =
  fixes enc :: "nonce_read \<Rightarrow> bytes \<Rightarrow> gerr + bytes"
    and dec :: "bytes \<Rightarrow> gerr + bytes"
  assumes dec_enc: "nonce_ok rnd \<Longrightarrow> enc rnd d = Inr c \<Longrightarrow> dec c = Inr d"
begin

lemma enc_inject: "nonce_ok r1 \<Longrightarrow> nonce_ok r2 \<Longrightarrow> enc r1 d1 = Inr c \<Longrightarrow> enc r2 d2 = Inr c \<Longrightarrow> d1 = d2"
  using dec_enc by (metis sum.inject(2))

lemma enc_twice: "nonce_ok r1 \<Longrightarrow> nonce_ok r2 \<Longrightarrow> enc r1 d = Inr c1 \<Longrightarrow> enc r2 c1 = Inr c2 \<Longrightarrow>
   dec c2 = Inr c1 \<and> (dec c2 = Inr d \<longleftrightarrow> c1 = d)"
  using dec_enc by simp

end

interpretation none_enc: encryptor "\<lambda>_. none_Encrypt" none_Decrypt
  by unfold_locales (simp add: none_Encrypt_def none_Decrypt_def)

lemma Encrypt_Decrypt:
  assumes "crypto_ok cr" and "nonce_ok rnd" and "Encrypt cr e rnd d = Inr c"
  shows "Decrypt cr e c = Inr d"
proof (cases e)
  case NoneEncryptor
  then show ?thesis using assms(3) none_enc.dec_enc [OF assms(2)] by (simp add: Encrypt_def Decrypt_def)
next
  case (AESEncryptor key)
  show ?thesis
  proof (cases "d = []")
    case True
    then show ?thesis using assms(3) AESEncryptor by (simp add: Encrypt_def Decrypt_def aes_Encrypt_def aes_Decrypt_def)
  next
    case False
    then obtain nonce where n: "rnd = Inr nonce" "c = nonce @ cr_gcm_seal cr key nonce d" "aes_NewCipher key = None"
      using assms(3) AESEncryptor by (auto simp: Encrypt_def aes_Encrypt_def split: option.splits sum.splits)
    then have "length nonce = NonceSize" using assms(2) by (simp add: nonce_ok_def)
    then show ?thesis using n assms(1) AESEncryptor
      by (auto simp: Decrypt_def aes_Decrypt_def crypto_ok_def aead_ok_def Let_def NonceSize_def)
  qed
next
  case (ChaCha20Encryptor key)
  show ?thesis
  proof (cases "d = []")
    case True
    then show ?thesis using assms(3) ChaCha20Encryptor
      by (simp add: Encrypt_def Decrypt_def chacha20_Encrypt_def chacha20_Decrypt_def)
  next
    case False
    then obtain nonce where n: "rnd = Inr nonce" "c = nonce @ cr_cc_seal cr key nonce d"
      using assms(3) ChaCha20Encryptor by (auto simp: Encrypt_def chacha20_Encrypt_def split: sum.splits)
    then have "length nonce = NonceSize" using assms(2) by (simp add: nonce_ok_def)
    then show ?thesis using n assms(1) ChaCha20Encryptor
      by (auto simp: Decrypt_def chacha20_Decrypt_def crypto_ok_def aead_ok_def Let_def NonceSize_def)
  qed
qed

text \<open>A cipher that only appends a tag byte: it satisfies \<open>aead_ok\<close>, which is all the
  properties need. Used where a closed instance is wanted.\<close>

definition ex_crypto :: crypto where
  "ex_crypto = \<lparr>cr_gcm_seal = \<lambda>k n d. d @ [7],
                cr_gcm_open = \<lambda>k n c. if c \<noteq> [] \<and> last c = 7 then Some (butlast c) else None,
                cr_cc_new = \<lambda>k. None,
                cr_cc_seal = \<lambda>k n d. d @ [9],
                cr_cc_open = \<lambda>k n c. if c \<noteq> [] \<and> last c = 9 then Some (butlast c) else None\<rparr>"

lemma ex_crypto_ok: "crypto_ok ex_crypto"
  by (simp add: ex_crypto_def crypto_ok_def aead_ok_def)

definition ex_nonce :: nonce_read where
  "ex_nonce = Inr (replicate 12 5)"

lemma ex_nonce_ok: "nonce_ok ex_nonce"
  by (simp add: ex_nonce_def nonce_ok_def NonceSize_def)

subsection \<open>Properties\<close>

text \<open>C19. Every encryptor the factory builds decrypts what it encrypted, whatever the body and the
  nonce, and never fails on a body when the random source works; encryption grows a non-empty
  body by the nonce at least when it is enabled.\<close>

theorem encryptor_roundtrip:
  assumes "crypto_ok cr" and "NewEncryptor cr config = Inr e" and "length nonce = NonceSize"
  shows "\<exists>c. Encrypt cr e (Inr nonce) d = Inr c \<and> Decrypt cr e c = Inr d
           \<and> (d = [] \<longrightarrow> c = []) \<and> (ec_Enabled config \<and> d \<noteq> [] \<longrightarrow> take NonceSize c = nonce)"
proof -
  have n: "nonce_ok (Inr nonce)" using assms(3) by (simp add: nonce_ok_def)
  have "\<exists>c. Encrypt cr e (Inr nonce) d = Inr c \<and> (d = [] \<longrightarrow> c = [])
      \<and> (ec_Enabled config \<and> d \<noteq> [] \<longrightarrow> take NonceSize c = nonce)"
    using assms(2,3)
    by (auto simp: NewEncryptor_def NewNoneEncryptor_def NewAESEncryptor_def NewChaCha20Encryptor_def Let_def
        Encrypt_def none_Encrypt_def aes_Encrypt_def chacha20_Encrypt_def aes_NewCipher_def
        split: if_splits option.splits)
  then show ?thesis using Encrypt_Decrypt [OF assms(1) n] by blast
qed

theorem encryptor_roundtrip_witness:
  "\<exists>c. Encrypt ex_crypto (AESEncryptor (go_bytes ''0123456789abcdef'')) (Inr (replicate 12 5)) [1, 2, 3] = Inr c
     \<and> Decrypt ex_crypto (AESEncryptor (go_bytes ''0123456789abcdef'')) c = Inr [1, 2, 3]"
  using encryptor_roundtrip [of ex_crypto "\<lparr>ec_Enabled = True, ec_Algorithm = ''aes'', ec_Key = ''0123456789abcdef''\<rparr>"
      "AESEncryptor (go_bytes ''0123456789abcdef'')" "replicate 12 5" "[1, 2, 3]"] ex_crypto_ok
  by (auto simp: NewEncryptor_def NewAESEncryptor_def NonceSize_def)

end
