(* ===== verification/GW_Handler.thy ===== *)
theory GW_Handler
  imports GW_Link GW_PushRetry GW_Encrypt
begin

text \<open>
  \<open>internal/linkevent/handler.go\<close> and \<open>handlerv2.go\<close>: what the gateway does with a message of
  a client (heartbeat, upstream message, acknowledgement of a downstream message) and with a
  message the business backend pushes to a client. Links and messages are shared by
  reference (the retransmission task keeps the message it was given), so the state has a
  heap for each. The codec, the cache, the cipher and the backend clients are code outside
  the repository: they are the fields of \<open>henv\<close>.
\<close>

subsection \<open>Environment and state\<close>

record ('c, 'rs) henv =
  he_marshal :: "message \<Rightarrow> gerr + bytes"
  he_unmarshal :: "bytes \<Rightarrow> gerr + message"
  he_marshalResp :: "on_receive_response \<Rightarrow> gerr + bytes"
  he_encrypt :: "nonce_read \<Rightarrow> bytes \<Rightarrow> gerr + bytes"
  he_decrypt :: "bytes \<Rightarrow> gerr + bytes"
  he_setnx :: "string \<Rightarrow> string \<Rightarrow> int \<Rightarrow> 'c \<Rightarrow> (gerr + bool) \<times> 'c"
  he_delete :: "string \<Rightarrow> 'c \<Rightarrow> (gerr + int) \<times> 'c"
  he_expiration :: int
  he_loader :: "(int, nat) smap"
  he_next :: "'rs strategy"
  he_retry0 :: "'rs option"

text \<open>What one call meets: the time, the random bytes, how the race between \<open>Send\<close> and the
  closing of the link is decided, and what the backend answers to each attempt.\<close>

record hcall =
  hc_now :: int
  hc_nonce :: nonce_read
  hc_pick :: "bool \<times> bool"
  hc_answers :: "(gerr + on_receive_response) list"

record 'c hstate =
  hs_cache :: 'c
  hs_bizToClient :: "(int, nat) smap"
  hs_links :: "link list"
  hs_msgs :: "message list"
  hs_retry :: pr_manager
  hs_calls :: "(nat \<times> on_receive_request) list"

definition NewHandler :: "'c \<Rightarrow> int \<Rightarrow> int \<Rightarrow> 'c hstate" where
  "NewHandler cache pushRetryInterval pushMaxRetries =
     \<lparr>hs_cache = cache, hs_bizToClient = [], hs_links = [], hs_msgs = [],
      hs_retry = NewPushRetryManager pushRetryInterval pushMaxRetries, hs_calls = []\<rparr>"

definition userInfo :: "nat \<Rightarrow> 'c hstate \<Rightarrow> user_info" where
  "userInfo lk s = lk_user (hs_links s ! lk)"

definition alloc_msg :: "message \<Rightarrow> 'c hstate \<Rightarrow> nat \<times> 'c hstate" where
  "alloc_msg msg s = (length (hs_msgs s), s\<lparr>hs_msgs := hs_msgs s @ [msg]\<rparr>)"

definition touch_link :: "int \<Rightarrow> nat \<Rightarrow> 'c hstate \<Rightarrow> 'c hstate" where
  "touch_link now lk s = s\<lparr>hs_links := (hs_links s)[lk := link_updateActiveTime now (hs_links s ! lk)]\<rparr>"

subsection \<open>Messages of the client\<close>

definition getMessage :: "('c, 'rs) henv \<Rightarrow> bytes \<Rightarrow> gerr + message" where
  "getMessage E payload =
     (case he_unmarshal E payload of
        Inl err \<Rightarrow> Inl (WrapE [Sen ErrUnKnownFrontendMessageFormat])
      | Inr msg \<Rightarrow>
          if msg_key msg = '''' \<and> msg_cmd msg \<noteq> HEARTBEAT
          then Inl (WrapE [Sen ErrUnKnownFrontendMessageFormat])
          else (case he_decrypt E (msg_body msg) of
                  Inl err \<Rightarrow> Inl (WrapE [Sen ErrDecryptMessageBodyFailed, err])
                | Inr decryptedBody \<Rightarrow> Inr (msg\<lparr>msg_body := decryptedBody\<rparr>)))"

definition cacheKey :: "int \<Rightarrow> message \<Rightarrow> string" where
  "cacheKey bizID msg = fmt_d bizID @ ''-'' @ msg_key msg"

definition cacheMessage :: "('c, 'rs) henv \<Rightarrow> int \<Rightarrow> message \<Rightarrow> 'c hstate \<Rightarrow> (gerr + bool) \<times> 'c hstate" where
  "cacheMessage E bizID msg s =
     (if msg_cmd msg = HEARTBEAT then (Inr True, s)
      else let (r, c) = he_setnx E (cacheKey bizID msg) (msg_key msg) (he_expiration E) (hs_cache s)
           in (r, s\<lparr>hs_cache := c\<rparr>))"

definition shouldDeleteCacheOnError :: "gerr \<Rightarrow> bool" where
  "shouldDeleteCacheOnError err \<longleftrightarrow>
     errors_is err ErrUnknownBizID \<or> errors_is err ErrEncryptMessageBodyFailed
     \<or> errors_is err ErrMarshalMessageFailed \<or> errors_is err ErrMaxRetriesExceeded"

definition deleteCacheMessage :: "('c, 'rs) henv \<Rightarrow> int \<Rightarrow> message \<Rightarrow> 'c hstate \<Rightarrow> gerr option \<times> 'c hstate" where
  "deleteCacheMessage E bizID msg s =
     (if msg_cmd msg = HEARTBEAT then (None, s)
      else let (r, c) = he_delete E (cacheKey bizID msg) (hs_cache s)
           in (case r of Inl err \<Rightarrow> Some (WrapE [Sen ErrDeleteCachedFrontendMessageFailed, err]) | Inr _ \<Rightarrow> None,
               s\<lparr>hs_cache := c\<rparr>))"

text \<open>
  \<open>push\<close> stores the encrypted body in the message it was given, then serialises and sends it.
\<close>

definition push :: "('c, 'rs) henv \<Rightarrow> hcall \<Rightarrow> nat \<Rightarrow> nat \<Rightarrow> 'c hstate \<Rightarrow> (gerr option \<times> 'c hstate) exec" where
  "push E nd lk mref s =
     (case he_encrypt E (hc_nonce nd) (msg_body (hs_msgs s ! mref)) of
        Inl err \<Rightarrow> Ret (Some (WrapE [Sen ErrEncryptMessageBodyFailed, err]), s)
      | Inr encryptedBody \<Rightarrow>
          let msg = (hs_msgs s ! mref)\<lparr>msg_body := encryptedBody\<rparr>;
              s1 = s\<lparr>hs_msgs := (hs_msgs s)[mref := msg]\<rparr>
          in (case he_marshal E msg of
                Inl err \<Rightarrow> Ret (Some (WrapE [Sen ErrMarshalMessageFailed, err]), s1)
              | Inr payload \<Rightarrow>
                  (case link_send (fst (hc_pick nd)) (snd (hc_pick nd)) (hs_links s1 ! lk) payload of
                     SBlocked \<Rightarrow> Block
                   | SReturn err l' \<Rightarrow> Ret (err, s1\<lparr>hs_links := (hs_links s1)[lk := l']\<rparr>))))"

definition handleOnHeartbeatCmd ::
  "('c, 'rs) henv \<Rightarrow> hcall \<Rightarrow> nat \<Rightarrow> nat \<Rightarrow> 'c hstate \<Rightarrow> (gerr option \<times> 'c hstate) exec" where
  "handleOnHeartbeatCmd E nd lk mref s = push E nd lk mref s"

text \<open>The loop of \<open>getBackendServiceClient\<close>: on a miss the clients are loaded anew, once.\<close>

definition getBackendServiceClient :: "('c, 'rs) henv \<Rightarrow> int \<Rightarrow> 'c hstate \<Rightarrow> (gerr + nat) \<times> 'c hstate" where
  "getBackendServiceClient E bizID s =
     (case sm_load (hs_bizToClient s) bizID of
        Some client \<Rightarrow> (Inr client, s)
      | None \<Rightarrow>
          let s1 = s\<lparr>hs_bizToClient := he_loader E\<rparr>
          in (case sm_load (hs_bizToClient s1) bizID of
                Some client \<Rightarrow> (Inr client, s1)
              | None \<Rightarrow> (Inl (WrapE [Sen ErrUnknownBizID]), s1)))"

text \<open>
  The retry loop against what the backend answers to each attempt; \<open>Block\<close>: the answers end
  before the loop does. A strategy that could not be built (\<open>rs = None\<close>) is a nil pointer.
\<close>

fun forward_loop ::
  "'rs strategy \<Rightarrow> 'rs option \<Rightarrow> (gerr + on_receive_response) list \<Rightarrow> nat \<Rightarrow> on_receive_request
     \<Rightarrow> 'c hstate \<Rightarrow> ((gerr + on_receive_response) \<times> 'c hstate) exec" where
  "forward_loop nxt rs [] client req s = Block"
| "forward_loop nxt rs (answer # answers) client req s =
     (let s1 = s\<lparr>hs_calls := hs_calls s @ [(client, req)]\<rparr> in
      case answer of
        Inr resp \<Rightarrow> Ret (Inr resp, s1)
      | Inl err1 \<Rightarrow>
          (case rs of
             None \<Rightarrow> Panic
           | Some r \<Rightarrow>
               (case nxt r of
                  None \<Rightarrow> Ret (Inl (WrapE [err1, Sen ErrMaxRetriesExceeded]), s1)
                | Some (duration, r') \<Rightarrow> forward_loop nxt (Some r') answers client req s1)))"

definition forwardToBusinessBackend ::
  "('c, 'rs) henv \<Rightarrow> hcall \<Rightarrow> int \<Rightarrow> message \<Rightarrow> 'c hstate
     \<Rightarrow> ((gerr + on_receive_response) \<times> 'c hstate) exec" where
  "forwardToBusinessBackend E nd bizID msg s =
     (case getBackendServiceClient E bizID s of
        (Inl err, s1) \<Rightarrow> Ret (Inl err, s1)
      | (Inr client, s1) \<Rightarrow>
          forward_loop (he_next E) (he_retry0 E) (hc_answers nd) client
            \<lparr>req_key = msg_key msg, req_body = msg_body msg\<rparr> s1)"

definition sendUpstreamMessageAck ::
  "('c, 'rs) henv \<Rightarrow> hcall \<Rightarrow> nat \<Rightarrow> string \<Rightarrow> on_receive_response \<Rightarrow> 'c hstate \<Rightarrow> (gerr option \<times> 'c hstate) exec" where
  "sendUpstreamMessageAck E nd lk key resp s =
     (case he_marshalResp E resp of
        Inl err \<Rightarrow> Ret (Some (WrapE [Sen ErrMarshalMessageFailed, err]), s)
      | Inr respBody \<Rightarrow>
          let (mref, s1) = alloc_msg \<lparr>msg_cmd = UPSTREAM_ACK, msg_key = key, msg_body = respBody\<rparr> s
          in push E nd lk mref s1)"

definition handleOnUpstreamMessageCmd ::
  "('c, 'rs) henv \<Rightarrow> hcall \<Rightarrow> nat \<Rightarrow> nat \<Rightarrow> 'c hstate \<Rightarrow> (gerr option \<times> 'c hstate) exec" where
  "handleOnUpstreamMessageCmd E nd lk mref s =
     (let s1 = touch_link (hc_now nd) lk s; bizID = BizID (userInfo lk s1) in
      exec_bind (forwardToBusinessBackend E nd bizID (hs_msgs s1 ! mref) s1)
        (\<lambda>(r, s2). case r of
             Inl err \<Rightarrow> Ret (Some err, s2)
           | Inr resp \<Rightarrow> sendUpstreamMessageAck E nd lk (msg_key (hs_msgs s2 ! mref)) resp s2))"

definition retryKey :: "int \<Rightarrow> string \<Rightarrow> string" where
  "retryKey bizID key = fmt_d bizID @ ''-'' @ key"

definition handleDownstreamAckCmd ::
  "('c, 'rs) henv \<Rightarrow> hcall \<Rightarrow> nat \<Rightarrow> nat \<Rightarrow> 'c hstate \<Rightarrow> (gerr option \<times> 'c hstate) exec" where
  "handleDownstreamAckCmd E nd lk mref s =
     Ret (None, s\<lparr>hs_retry := pr_Stop (retryKey (BizID (userInfo lk s)) (msg_key (hs_msgs s ! mref))) (hs_retry s)\<rparr>)"

text \<open>The table \<open>onFrontendSendMessageHandleFunc\<close> that the constructor fills.\<close>

type_synonym 'c handle_func = "hcall \<Rightarrow> nat \<Rightarrow> nat \<Rightarrow> 'c hstate \<Rightarrow> (gerr option \<times> 'c hstate) exec"

definition handler_funcs :: "('c, 'rs) henv \<Rightarrow> command_type \<Rightarrow> 'c handle_func option" where
  "handler_funcs E cmd =
     (case cmd of
        HEARTBEAT \<Rightarrow> Some (handleOnHeartbeatCmd E)
      | UPSTREAM_MESSAGE \<Rightarrow> Some (handleOnUpstreamMessageCmd E)
      | DOWNSTREAM_ACK \<Rightarrow> Some (handleDownstreamAckCmd E)
      | _ \<Rightarrow> None)"

definition OnFrontendSendMessage ::
  "('c, 'rs) henv \<Rightarrow> hcall \<Rightarrow> nat \<Rightarrow> bytes \<Rightarrow> 'c hstate \<Rightarrow> (gerr option \<times> 'c hstate) exec" where
  "OnFrontendSendMessage E nd lk payload s =
     (case getMessage E payload of
        Inl err \<Rightarrow> Ret (Some err, s)
      | Inr msg \<Rightarrow>
          let bizID = BizID (userInfo lk s); (ok, s1) = cacheMessage E bizID msg s in
          (case ok of
             Inl err \<Rightarrow> Ret (Some (WrapE [Sen ErrCacheFrontendMessageFailed, err]), s1)
           | Inr False \<Rightarrow> Ret (Some (WrapE [Sen ErrDuplicatedFrontendMessage]), s1)
           | Inr True \<Rightarrow>
               (case handler_funcs E (msg_cmd msg) of
                  None \<Rightarrow> Ret (Some (WrapE [Sen ErrUnKnownFrontendMessageCommandType]), s1)
                | Some handleFunc \<Rightarrow>
                    let (mref, s2) = alloc_msg msg s1 in
                    exec_bind (handleFunc nd lk mref s2)
                      (\<lambda>(err, s3). case err of
                           None \<Rightarrow> Ret (None, s3)
                         | Some e \<Rightarrow>
                             Ret (Some e, if shouldDeleteCacheOnError e
                                          then snd (deleteCacheMessage E bizID msg s3) else s3)))))"

definition OnConnect :: "nat \<Rightarrow> 'c hstate \<Rightarrow> (gerr option \<times> 'c hstate) exec" where
  "OnConnect lk s = Ret (None, s)"

subsection \<open>Messages of the backend\<close>

text \<open>The deferred \<open>Start\<close> runs when the function returns, whether or not the push succeeded.\<close>

definition OnBackendPushMessage ::
  "('c, 'rs) henv \<Rightarrow> hcall \<Rightarrow> nat \<Rightarrow> push_message \<Rightarrow> 'c hstate \<Rightarrow> (gerr option \<times> 'c hstate) exec" where
  "OnBackendPushMessage E nd lk msg s =
     (if pm_bizId msg = 0 \<or> pm_key msg = '''' then Ret (Some (WrapE [Sen ErrUnKnownBackendMessageFormat]), s)
      else let (mref, s1) = alloc_msg \<lparr>msg_cmd = DOWNSTREAM_MESSAGE, msg_key = pm_key msg, msg_body = pm_body msg\<rparr> s;
               start = (\<lambda>s. s\<lparr>hs_retry := pr_Start (retryKey (pm_bizId msg) (pm_key msg)) lk
                                             (lk_id (hs_links s ! lk)) mref (hs_retry s)\<rparr>)
           in exec_bind (push E nd lk mref s1)
                (\<lambda>(err, s2). case err of
                     Some e \<Rightarrow> Ret (Some (WrapE [e]), start s2)
                   | None \<Rightarrow> Ret (None, start (touch_link (hc_now nd) lk s2))))"

definition OnDisconnect ::
  "bool \<Rightarrow> gerr option \<Rightarrow> nat \<Rightarrow> 'c hstate \<Rightarrow> (gerr option \<times> 'c hstate) exec" where
  "OnDisconnect fw ce lk s =
     (let s1 = s\<lparr>hs_retry := StopByLinkID (lk_id (hs_links s ! lk)) (hs_retry s)\<rparr>;
          (err, l') = link_close fw ce (hs_links s1 ! lk)
      in Ret (err, s1\<lparr>hs_links := (hs_links s1)[lk := l']\<rparr>))"

text \<open>A retransmission timer fires: \<open>retry\<close> with \<open>Handler.push\<close> as its \<open>pushFunc\<close>.\<close>

definition handler_retry ::
  "('c, 'rs) henv \<Rightarrow> hcall \<Rightarrow> nat \<Rightarrow> 'c hstate \<Rightarrow> 'c hstate exec" where
  "handler_retry E nd ref s =
     (let m = hs_retry s; t = pr_heap m ! ref in
      if sm_load (pr_tasks m) (tk_key t) = None \<or> i64 (tk_retryCount t + 1) \<ge> pr_maxRetries m
      then Ret (s\<lparr>hs_retry := task_retry False ref m\<rparr>)
      else exec_bind (push E nd (tk_link t) (tk_message t) s)
             (\<lambda>(err, s1). let s2 = s1\<lparr>hs_retry := task_retry (err = None) ref (hs_retry s1)\<rparr>
                          in Ret (if err = None then touch_link (hc_now nd) (tk_link t) s2 else s2)))"

subsection \<open>The demonstration variant that forwards through a message queue\<close>

text \<open>\<open>bizToProducer\<close> is a pointer that the constructor leaves nil (\<open>None\<close>); \<open>produce\<close> is the
  producer's answer.\<close>

definition sendUpstreamMessageAckV2 ::
  "('c, 'rs) henv \<Rightarrow> hcall \<Rightarrow> nat \<Rightarrow> string \<Rightarrow> 'c hstate \<Rightarrow> (gerr option \<times> 'c hstate) exec" where
  "sendUpstreamMessageAckV2 E nd lk key s =
     (let (mref, s1) = alloc_msg \<lparr>msg_cmd = UPSTREAM_ACK, msg_key = key, msg_body = []\<rparr> s
      in push E nd lk mref s1)"

definition handleOnUpstreamMessageCmdV2 ::
  "('c, 'rs) henv \<Rightarrow> (int, nat) smap option \<Rightarrow> (nat \<Rightarrow> message \<Rightarrow> gerr option) \<Rightarrow> hcall \<Rightarrow> nat \<Rightarrow> nat
     \<Rightarrow> 'c hstate \<Rightarrow> (gerr option \<times> 'c hstate) exec" where
  "handleOnUpstreamMessageCmdV2 E bizToProducer produce nd lk mref s =
     (let s1 = touch_link (hc_now nd) lk s; bizID = BizID (userInfo lk s1) in
      case bizToProducer of
        None \<Rightarrow> Panic
      | Some producers \<Rightarrow>
          (case sm_load producers bizID of
             None \<Rightarrow> Ret (Some (Sen ErrUnknownBizID), s1)
           | Some producer \<Rightarrow>
               (case produce producer (hs_msgs s1 ! mref) of
                  Some err \<Rightarrow> Ret (Some (WrapE [err]), s1)
                | None \<Rightarrow> sendUpstreamMessageAckV2 E nd lk (msg_key (hs_msgs s1 ! mref)) s1)))"

subsection \<open>What the environment promises\<close>

text \<open>\<open>SetNX\<close> answers true exactly when the key was absent, and then it is present; \<open>Delete\<close>
  removes it. The codec parses what it serialised.\<close>

definition cache_ok :: "('c, 'rs) henv \<Rightarrow> (string \<Rightarrow> 'c \<Rightarrow> bool) \<Rightarrow> bool" where
  "cache_ok E present \<longleftrightarrow>
     (\<forall>k v e c b c'. he_setnx E k v e c = (Inr b, c') \<longrightarrow>
        (b \<longleftrightarrow> \<not> present k c) \<and> (\<forall>k'. present k' c' \<longleftrightarrow> present k' c \<or> k' = k))
   \<and> (\<forall>k c n c'. he_delete E k c = (Inr n, c') \<longrightarrow> (\<forall>k'. present k' c' \<longleftrightarrow> present k' c \<and> k' \<noteq> k))"

definition codec_ok :: "('c, 'rs) henv \<Rightarrow> bool" where
  "codec_ok E \<longleftrightarrow> (\<forall>m p. he_marshal E m = Inr p \<longrightarrow> he_unmarshal E p = Inr m)"

subsection \<open>Facts about the steps\<close>

lemma link_send_queued_one:
  "link_send pick late l p = SReturn None l' \<Longrightarrow>
   ch_buf (lk_sendCh l') = ch_buf (lk_sendCh l) @ [p] \<and> \<not> lk_done l'"
  by (auto simp: link_send_def Let_def ch_try_send_Some split: if_splits option.splits)

lemma push_frame:
  assumes "push E nd lk mref s = Ret (err, s')"
  shows "hs_cache s' = hs_cache s \<and> hs_bizToClient s' = hs_bizToClient s \<and> hs_retry s' = hs_retry s
    \<and> hs_calls s' = hs_calls s \<and> heap_ids (hs_links s') = heap_ids (hs_links s)
    \<and> length (hs_msgs s') = length (hs_msgs s)
    \<and> (\<forall>r. r \<noteq> mref \<longrightarrow> hs_msgs s' ! r = hs_msgs s ! r)
    \<and> (\<forall>r. r \<noteq> lk \<longrightarrow> hs_links s' ! r = hs_links s ! r)"
  using assms
  by (auto simp: push_def Let_def heap_ids_update dest: link_send_ids split: sum.splits send_result.splits)

lemma push_key: "push E nd lk mref s = Ret (err, s') \<Longrightarrow> msg_key (hs_msgs s' ! r) = msg_key (hs_msgs s ! r)"
proof -
  assume p: "push E nd lk mref s = Ret (err, s')"
  have "msg_key (xs[mref := (xs ! mref)\<lparr>msg_body := b\<rparr>] ! r) = msg_key (xs ! r)" for xs :: "message list" and b
    by (cases "mref < length xs"; cases "r = mref"; simp add: list_update_beyond)
  with p show ?thesis by (auto simp: push_def Let_def split: sum.splits send_result.splits)
qed

lemma push_sent:
  assumes "push E nd lk mref s = Ret (None, s')" and "mref < length (hs_msgs s)" and "lk < length (hs_links s)"
  shows "\<exists>c p. he_encrypt E (hc_nonce nd) (msg_body (hs_msgs s ! mref)) = Inr c
    \<and> he_marshal E ((hs_msgs s ! mref)\<lparr>msg_body := c\<rparr>) = Inr p
    \<and> hs_msgs s' ! mref = (hs_msgs s ! mref)\<lparr>msg_body := c\<rparr>
    \<and> ch_buf (lk_sendCh (hs_links s' ! lk)) = ch_buf (lk_sendCh (hs_links s ! lk)) @ [p]"
  using assms
  by (auto simp: push_def Let_def dest: link_send_queued_one split: sum.splits send_result.splits)

text \<open>What an error of \<open>push\<close> is: encryption, serialisation, or the link.\<close>

lemma push_error:
  "push E nd lk mref s = Ret (Some e, s') \<Longrightarrow>
   errors_is e ErrEncryptMessageBodyFailed \<or> errors_is e ErrMarshalMessageFailed \<or> e = WrapE [Sen ErrLinkClosed]"
  by (auto simp: push_def Let_def dest!: link_send_return split: sum.splits send_result.splits if_splits)

lemma touch_link_frame [simp]:
  "hs_cache (touch_link now lk s) = hs_cache s" "hs_bizToClient (touch_link now lk s) = hs_bizToClient s"
  "hs_msgs (touch_link now lk s) = hs_msgs s" "hs_retry (touch_link now lk s) = hs_retry s"
  "hs_calls (touch_link now lk s) = hs_calls s" "length (hs_links (touch_link now lk s)) = length (hs_links s)"
  by (simp_all add: touch_link_def)

lemma touch_link_ids [simp]: "heap_ids (hs_links (touch_link now lk s)) = heap_ids (hs_links s)"
  by (simp add: touch_link_def heap_ids_update)

lemma touch_link_nth [simp]:
  "lk_sendCh (hs_links (touch_link now lk s) ! r) = lk_sendCh (hs_links s ! r)"
  "lk_user (hs_links (touch_link now lk s) ! r) = lk_user (hs_links s ! r)"
  "lk_id (hs_links (touch_link now lk s) ! r) = lk_id (hs_links s ! r)"
  "lk_done (hs_links (touch_link now lk s) ! r) = lk_done (hs_links s ! r)"
  by (cases "lk < length (hs_links s)"; cases "r = lk"; simp add: touch_link_def list_update_beyond)+

lemma alloc_msg_simps [simp]:
  "fst (alloc_msg m s) = length (hs_msgs s)" "snd (alloc_msg m s) = s\<lparr>hs_msgs := hs_msgs s @ [m]\<rparr>"
  by (simp_all add: alloc_msg_def)

lemma getClient_frame:
  "getBackendServiceClient E bizID s = (r, s') \<Longrightarrow> hs_cache s' = hs_cache s \<and> hs_links s' = hs_links s
   \<and> hs_msgs s' = hs_msgs s \<and> hs_retry s' = hs_retry s \<and> hs_calls s' = hs_calls s"
  by (auto simp: getBackendServiceClient_def Let_def split: option.splits)

lemma forward_loop_frame:
  "forward_loop nxt rs answers client req s = Ret (r, s') \<Longrightarrow> hs_cache s' = hs_cache s \<and> hs_links s' = hs_links s
   \<and> hs_msgs s' = hs_msgs s \<and> hs_retry s' = hs_retry s"
proof (induction answers arbitrary: rs s)
  case (Cons a as)
  then show ?case by (cases a; cases rs) (fastforce simp: Let_def split: option.splits prod.splits)+
qed simp

lemma forward_frame:
  "forwardToBusinessBackend E nd bizID msg s = Ret (r, s') \<Longrightarrow> hs_cache s' = hs_cache s \<and> hs_links s' = hs_links s
   \<and> hs_msgs s' = hs_msgs s \<and> hs_retry s' = hs_retry s"
  by (auto simp: forwardToBusinessBackend_def dest!: forward_loop_frame getClient_frame split: prod.splits sum.splits)

lemma forward_loop_bound:
  assumes "gives_up nxt r n" and "n < length answers"
  shows "\<exists>k res. k \<le> n \<and> forward_loop nxt (Some r) answers client req s
            = Ret (res, s\<lparr>hs_calls := hs_calls s @ replicate (Suc k) (client, req)\<rparr>)
          \<and> (\<forall>i < k. \<exists>e. answers ! i = Inl e)
          \<and> (case res of Inr resp \<Rightarrow> answers ! k = Inr resp
             | Inl e \<Rightarrow> errors_is e ErrMaxRetriesExceeded \<and> (\<exists>e'. answers ! k = Inl e'))"
  using assms
proof (induction n arbitrary: r answers s)
  case 0
  then obtain a as where as: "answers = a # as" by (cases answers) auto
  from 0 show ?case by (intro exI [of _ 0]) (cases a; simp add: as)
next
  case (Suc n)
  then obtain a as where as: "answers = a # as" by (cases answers) auto
  show ?case
  proof (cases a)
    case (Inr resp)
    then show ?thesis by (intro exI [of _ 0]) (simp add: as)
  next
    case (Inl e)
    show ?thesis
    proof (cases "nxt r")
      case None
      then show ?thesis using Inl by (intro exI [of _ 0]) (simp add: as)
    next
      case (Some dr)
      obtain d r' where dr: "dr = (d, r')" by (cases dr)
      let ?s = "s\<lparr>hs_calls := hs_calls s @ [(client, req)]\<rparr>"
      from Suc.prems Some have "gives_up nxt r' n" "n < length as" by (simp_all add: dr as)
      from Suc.IH [OF this, of ?s] obtain k res where k: "k \<le> n"
        "forward_loop nxt (Some r') as client req ?s
           = Ret (res, ?s\<lparr>hs_calls := hs_calls ?s @ replicate (Suc k) (client, req)\<rparr>)"
        "\<forall>i < k. \<exists>e. as ! i = Inl e"
        "case res of Inr resp \<Rightarrow> as ! k = Inr resp | Inl e \<Rightarrow> errors_is e ErrMaxRetriesExceeded \<and> (\<exists>e'. as ! k = Inl e')"
        by blast
      have "\<exists>e. answers ! i = Inl e" if "i < Suc k" for i
        using that k(3) Inl by (cases i) (auto simp: as)
      moreover have "case res of Inr resp \<Rightarrow> answers ! Suc k = Inr resp
          | Inl e \<Rightarrow> errors_is e ErrMaxRetriesExceeded \<and> (\<exists>e'. answers ! Suc k = Inl e')"
        using k(4) by (cases res) (simp_all add: as)
      ultimately show ?thesis using k(1,2) Some Inl
        by (intro exI [of _ "Suc k"] exI [of _ res]) (simp add: as dr)
    qed
  qed
qed

subsection \<open>The handler functions\<close>

lemma sendAck_frame:
  "sendUpstreamMessageAck E nd lk key resp s = Ret (err, s') \<Longrightarrow>
   hs_cache s' = hs_cache s \<and> heap_ids (hs_links s') = heap_ids (hs_links s)"
  by (auto simp: sendUpstreamMessageAck_def alloc_msg_def dest!: push_frame split: sum.splits)

lemma upstream_frame:
  assumes "handleOnUpstreamMessageCmd E nd lk mref s = Ret (err, s')"
  shows "hs_cache s' = hs_cache s \<and> heap_ids (hs_links s') = heap_ids (hs_links s)"
proof -
  obtain r s2 where f: "forwardToBusinessBackend E nd (BizID (userInfo lk (touch_link (hc_now nd) lk s)))
      (hs_msgs s ! mref) (touch_link (hc_now nd) lk s) = Ret (r, s2)"
    and k: "(case r of Inl err \<Rightarrow> Ret (Some err, s2)
      | Inr resp \<Rightarrow> sendUpstreamMessageAck E nd lk (msg_key (hs_msgs s2 ! mref)) resp s2) = Ret (err, s')"
    using assms by (auto simp: handleOnUpstreamMessageCmd_def Let_def exec_bind_Ret)
  from forward_frame [OF f] have "hs_cache s2 = hs_cache s" "heap_ids (hs_links s2) = heap_ids (hs_links s)"
    by simp_all
  with k show ?thesis by (auto dest: sendAck_frame split: sum.splits)
qed

lemma funcs_frame:
  assumes "handler_funcs E cmd = Some f" and "f nd lk mref s = Ret (err, s')"
  shows "hs_cache s' = hs_cache s \<and> heap_ids (hs_links s') = heap_ids (hs_links s)"
proof (cases cmd)
  case HEARTBEAT
  then show ?thesis using assms push_frame by (fastforce simp: handler_funcs_def handleOnHeartbeatCmd_def)
next
  case UPSTREAM_MESSAGE
  then have "handleOnUpstreamMessageCmd E nd lk mref s = Ret (err, s')"
    using assms by (simp add: handler_funcs_def)
  then show ?thesis by (rule upstream_frame)
next
  case DOWNSTREAM_ACK
  then show ?thesis using assms by (auto simp: handler_funcs_def handleDownstreamAckCmd_def)
qed (use assms in \<open>simp_all add: handler_funcs_def\<close>)

text \<open>A call whose message was new: what is left in the cache.\<close>

lemma OnFrontend_new:
  assumes "getMessage E payload = Inr msg"
    and "cacheMessage E (BizID (userInfo lk s)) msg s = (Inr True, s1)"
    and "OnFrontendSendMessage E nd lk payload s = Ret (err, s')"
  shows "(\<exists>s3. hs_cache s3 = hs_cache s1 \<and>
     (case err of None \<Rightarrow> s' = s3
      | Some e \<Rightarrow> s' = (if shouldDeleteCacheOnError e
                       then snd (deleteCacheMessage E (BizID (userInfo lk s)) msg s3) else s3)))"
proof (cases "handler_funcs E (msg_cmd msg)")
  case None
  then show ?thesis using assms
    by (intro exI [of _ s1]) (auto simp: OnFrontendSendMessage_def shouldDeleteCacheOnError_def)
next
  case (Some f)
  let ?s2 = "s1\<lparr>hs_msgs := hs_msgs s1 @ [msg]\<rparr>"
  obtain e3 s3 where f: "f nd lk (length (hs_msgs s1)) ?s2 = Ret (e3, s3)"
    and r: "(case e3 of None \<Rightarrow> Ret (None, s3) | Some e \<Rightarrow> Ret (Some e, if shouldDeleteCacheOnError e
        then snd (deleteCacheMessage E (BizID (userInfo lk s)) msg s3) else s3)) = Ret (err, s')"
    using assms Some by (auto simp: OnFrontendSendMessage_def alloc_msg_def exec_bind_Ret)
  from funcs_frame [OF Some f] have "hs_cache s3 = hs_cache s1" by simp
  then show ?thesis using r by (intro exI [of _ s3]) (auto split: option.splits)
qed

lemma cacheKey_inject: "cacheKey b m = cacheKey b' m' \<longleftrightarrow> b = b' \<and> msg_key m = msg_key m'"
  using fmt_d_dash_inject [of b "msg_key m" b' "msg_key m'"] by (auto simp: cacheKey_def)

lemma retryKey_inject: "retryKey b k = retryKey b' k' \<longleftrightarrow> b = b' \<and> k = k'"
  using fmt_d_dash_inject [of b k b' k'] by (auto simp: retryKey_def)

subsection \<open>A small environment\<close>

text \<open>A codec of tagged bytes, a cache in memory, and a backend with one business. The cipher
  is the AES encryptor over \<open>ex_crypto\<close>.\<close>

fun bytes_string :: "bytes \<Rightarrow> string" where
  "bytes_string [] = ''''"
| "bytes_string (b # bs) = char_of (unat b) # bytes_string bs"

definition cmd_code :: "command_type \<Rightarrow> byte" where
  "cmd_code c = (case c of HEARTBEAT \<Rightarrow> 1 | UPSTREAM_MESSAGE \<Rightarrow> 2 | UPSTREAM_ACK \<Rightarrow> 3
     | DOWNSTREAM_MESSAGE \<Rightarrow> 4 | DOWNSTREAM_ACK \<Rightarrow> 5 | REDIRECT \<Rightarrow> 6 | RATE_LIMIT_EXCEEDED \<Rightarrow> 7 | _ \<Rightarrow> 0)"

definition code_cmd :: "byte \<Rightarrow> command_type" where
  "code_cmd b = (if b = 1 then HEARTBEAT else if b = 2 then UPSTREAM_MESSAGE else if b = 3 then UPSTREAM_ACK
     else if b = 4 then DOWNSTREAM_MESSAGE else if b = 5 then DOWNSTREAM_ACK
     else if b = 6 then REDIRECT else if b = 7 then RATE_LIMIT_EXCEEDED else INVALID_UNSPECIFIED)"

definition ex_marshal :: "message \<Rightarrow> gerr + bytes" where
  "ex_marshal m =
     (if length (msg_key m) < 256 \<and> code_cmd (cmd_code (msg_cmd m)) = msg_cmd m
         \<and> bytes_string (go_bytes (msg_key m)) = msg_key m
      then Inr (cmd_code (msg_cmd m) # word_of_nat (length (msg_key m)) # go_bytes (msg_key m) @ msg_body m)
      else Inl (Ext ''marshal''))"

definition ex_unmarshal :: "bytes \<Rightarrow> gerr + message" where
  "ex_unmarshal p =
     (case p of c # n # rest \<Rightarrow>
        Inr \<lparr>msg_cmd = code_cmd c, msg_key = bytes_string (take (unat n) rest), msg_body = drop (unat n) rest\<rparr>
      | _ \<Rightarrow> Inl (Ext ''unmarshal''))"

lemma ex_codec: "ex_marshal m = Inr p \<Longrightarrow> ex_unmarshal p = Inr m"
proof -
  assume p: "ex_marshal m = Inr p"
  then have "length (msg_key m) < 256" by (simp add: ex_marshal_def split: if_splits)
  then have "unat (word_of_nat (length (msg_key m)) :: byte) = length (msg_key m)"
    by (simp add: unat_of_nat take_bit_eq_mod)
  with p show ?thesis by (auto simp: ex_marshal_def ex_unmarshal_def split: if_splits)
qed

definition ex_env :: "(string list, nat) henv" where
  "ex_env = \<lparr>he_marshal = ex_marshal, he_unmarshal = ex_unmarshal,
     he_marshalResp = \<lambda>r. Inr [word_of_int (resp_msgId r)],
     he_encrypt = Encrypt ex_crypto (AESEncryptor (go_bytes ''0123456789abcdef'')),
     he_decrypt = Decrypt ex_crypto (AESEncryptor (go_bytes ''0123456789abcdef'')),
     he_setnx = \<lambda>k v e c. if k \<in> set c then (Inr False, c) else (Inr True, k # c),
     he_delete = \<lambda>k c. (Inr 1, filter (\<lambda>x. x \<noteq> k) c),
     he_expiration = 60, he_loader = [(1, 0)], he_next = countdown, he_retry0 = Some 2\<rparr>"

lemma ex_env_ok:
  "cache_ok ex_env (\<lambda>k c. k \<in> set c)" "codec_ok ex_env" "encryptor (he_encrypt ex_env) (he_decrypt ex_env)"
proof -
  show "cache_ok ex_env (\<lambda>k c. k \<in> set c)" by (auto simp: cache_ok_def ex_env_def split: if_splits)
  show "codec_ok ex_env" by (simp add: codec_ok_def ex_env_def ex_codec)
  show "encryptor (he_encrypt ex_env) (he_decrypt ex_env)"
    by unfold_locales (simp add: ex_env_def Encrypt_Decrypt [OF ex_crypto_ok])
qed

definition ex_state :: "string list hstate" where
  "ex_state = (NewHandler [] 1 3)\<lparr>hs_links := [ex_link]\<rparr>"

definition ex_call :: hcall where
  "ex_call = \<lparr>hc_now = 9, hc_nonce = ex_nonce, hc_pick = (False, False),
     hc_answers = [Inl (Ext ''unavailable''), Inr \<lparr>resp_msgId = 42, resp_bizId = 1\<rparr>, Inr \<lparr>resp_msgId = 43, resp_bizId = 1\<rparr>]\<rparr>"

text \<open>An upstream message with the key \<open>k1\<close> and the encrypted body \<open>[8]\<close>.\<close>

definition ex_payload :: bytes where
  "ex_payload = 2 # 2 # go_bytes ''k1'' @ replicate 12 5 @ [8, 7]"

lemma forward_loop_calls:
  "forward_loop nxt rs answers client req s = Ret (res, s') \<Longrightarrow>
   (\<exists>k. hs_calls s' = hs_calls s @ replicate (Suc k) (client, req))
   \<and> (\<forall>resp. res = Inr resp \<longrightarrow> Inr resp \<in> set answers)"
proof (induction answers arbitrary: rs s)
  case (Cons a as)
  show ?case
  proof (cases a)
    case (Inr resp)
    then show ?thesis using Cons.prems by (intro conjI exI [of _ 0]) (auto simp: Let_def)
  next
    case (Inl e)
    then obtain r where rs: "rs = Some r" using Cons.prems by (cases rs) (auto simp: Let_def)
    show ?thesis
    proof (cases "nxt r")
      case None
      then show ?thesis using Cons.prems Inl rs by (intro conjI exI [of _ 0]) (auto simp: Let_def)
    next
      case (Some dr)
      obtain d r' where dr: "dr = (d, r')" by (cases dr)
      have "forward_loop nxt (Some r') as client req (s\<lparr>hs_calls := hs_calls s @ [(client, req)]\<rparr>) = Ret (res, s')"
        using Cons.prems Inl rs Some by (simp add: dr Let_def)
      from Cons.IH [OF this] obtain k where
        "hs_calls s' = hs_calls s @ replicate (Suc (Suc k)) (client, req)"
        "\<forall>resp. res = Inr resp \<longrightarrow> Inr resp \<in> set as" by auto
      then show ?thesis by (intro conjI exI [of _ "Suc k"]) auto
    qed
  qed
qed simp

lemma forward_calls:
  assumes "forwardToBusinessBackend E nd bizID msg s = Ret (Inr resp, s')"
  shows "\<exists>client k. hs_calls s' = hs_calls s @ replicate (Suc k) (client, \<lparr>req_key = msg_key msg, req_body = msg_body msg\<rparr>)
    \<and> Inr resp \<in> set (hc_answers nd)"
proof -
  obtain client s1 where c: "getBackendServiceClient E bizID s = (Inr client, s1)"
    and l: "forward_loop (he_next E) (he_retry0 E) (hc_answers nd) client
      \<lparr>req_key = msg_key msg, req_body = msg_body msg\<rparr> s1 = Ret (Inr resp, s')"
    using assms by (auto simp: forwardToBusinessBackend_def split: prod.splits sum.splits)
  from forward_loop_calls [OF l] getClient_frame [OF c] show ?thesis by auto
qed

subsection \<open>Properties\<close>

text \<open>A client message whose key is in the cache is answered with the duplicate error and has
  no other effect: nothing is sent, no backend is called, no task changes, whatever the
  message says. Keys of different businesses or with different message keys never collide.\<close>

theorem handler_rejects_duplicate:
  assumes "cache_ok E present" and "getMessage E payload = Inr msg" and "msg_cmd msg \<noteq> HEARTBEAT"
    and "present (cacheKey (BizID (userInfo lk s)) msg) (hs_cache s)"
    and "he_setnx E (cacheKey (BizID (userInfo lk s)) msg) (msg_key msg) (he_expiration E) (hs_cache s) = (Inr b, c)"
  shows "OnFrontendSendMessage E nd lk payload s = Ret (Some (WrapE [Sen ErrDuplicatedFrontendMessage]), s\<lparr>hs_cache := c\<rparr>)
    \<and> (\<forall>k. present k c = present k (hs_cache s))
    \<and> (cacheKey (BizID (userInfo lk s)) msg = cacheKey biz' msg' \<longleftrightarrow>
         BizID (userInfo lk s) = biz' \<and> msg_key msg = msg_key msg')"
proof -
  have "(b \<longleftrightarrow> \<not> present (cacheKey (BizID (userInfo lk s)) msg) (hs_cache s))
      \<and> (\<forall>k. present k c \<longleftrightarrow> present k (hs_cache s) \<or> k = cacheKey (BizID (userInfo lk s)) msg)"
    using assms(1) [unfolded cache_ok_def, THEN conjunct1] assms(5) by blast
  then have "\<not> b" and p: "\<forall>k. present k c \<longleftrightarrow> present k (hs_cache s) \<or> k = cacheKey (BizID (userInfo lk s)) msg"
    using assms(4) by simp_all
  then have "cacheMessage E (BizID (userInfo lk s)) msg s = (Inr False, s\<lparr>hs_cache := c\<rparr>)"
    using assms(3,5) by (simp add: cacheMessage_def)
  then show ?thesis using assms(2,4) p by (auto simp: OnFrontendSendMessage_def cacheKey_inject)
qed

lemma ex_getMessage: "getMessage ex_env ex_payload = Inr \<lparr>msg_cmd = UPSTREAM_MESSAGE, msg_key = ''k1'', msg_body = [8]\<rparr>"
  by code_simp

theorem handler_rejects_duplicate_witness:
  "OnFrontendSendMessage ex_env ex_call 0 ex_payload (ex_state\<lparr>hs_cache := [''1-k1'']\<rparr>)
     = Ret (Some (WrapE [Sen ErrDuplicatedFrontendMessage]), ex_state\<lparr>hs_cache := [''1-k1'']\<rparr>)"
proof -
  let ?s = "ex_state\<lparr>hs_cache := [''1-k1'']\<rparr>"
  let ?m = "\<lparr>msg_cmd = UPSTREAM_MESSAGE, msg_key = ''k1'', msg_body = [8]\<rparr>"
  have u: "BizID (userInfo 0 ?s) = 1" by (simp add: userInfo_def ex_state_def ex_link_def ex_user_def)
  have k: "cacheKey 1 ?m = ''1-k1''" by code_simp
  show ?thesis
    using handler_rejects_duplicate [OF ex_env_ok(1) ex_getMessage, of 0 ?s False "[''1-k1'']" ex_call 1 ?m]
    by (simp add: u k) (simp add: ex_env_def)
qed

text \<open>C14. What a new client message leaves in the cache. If the handler succeeds the key stays; if it
  fails with an unknown business, an encryption or serialisation failure or exhausted retries
  the key is deleted, so that the client may try again; after every other error, in
  particular when the link is closed, the coordinator stopped, the batch mismatched or the
  command is unknown, the key stays and a repetition is rejected. No other key changes.\<close>

theorem handler_cache_after:
  assumes "cache_ok E present" and "getMessage E payload = Inr msg" and "msg_cmd msg \<noteq> HEARTBEAT"
    and "he_setnx E (cacheKey (BizID (userInfo lk s)) msg) (msg_key msg) (he_expiration E) (hs_cache s) = (Inr True, c)"
    and "OnFrontendSendMessage E nd lk payload s = Ret (err, s')"
    and "\<forall>e. fst (he_delete E (cacheKey (BizID (userInfo lk s)) msg) c) \<noteq> Inl e"
  shows "(present (cacheKey (BizID (userInfo lk s)) msg) (hs_cache s') \<longleftrightarrow>
           (case err of None \<Rightarrow> True | Some e \<Rightarrow>
              \<not> (errors_is e ErrUnknownBizID \<or> errors_is e ErrEncryptMessageBodyFailed
                 \<or> errors_is e ErrMarshalMessageFailed \<or> errors_is e ErrMaxRetriesExceeded)))
    \<and> (\<forall>k. k \<noteq> cacheKey (BizID (userInfo lk s)) msg \<longrightarrow> present k (hs_cache s') = present k (hs_cache s))"
proof -
  let ?k = "cacheKey (BizID (userInfo lk s)) msg"
  have cm: "cacheMessage E (BizID (userInfo lk s)) msg s = (Inr True, s\<lparr>hs_cache := c\<rparr>)"
    using assms(3,4) by (simp add: cacheMessage_def)
  obtain s3 where s3: "hs_cache s3 = c"
    and s': "case err of None \<Rightarrow> s' = s3 | Some e \<Rightarrow> s' = (if shouldDeleteCacheOnError e
        then snd (deleteCacheMessage E (BizID (userInfo lk s)) msg s3) else s3)"
    using OnFrontend_new [OF assms(2) cm assms(5)] by auto
  have pc: "\<forall>k. present k c \<longleftrightarrow> present k (hs_cache s) \<or> k = ?k"
    using assms(1,4) by (auto simp: cache_ok_def)
  obtain n c2 where d: "he_delete E ?k c = (Inr n, c2)"
    using assms(6) by (metis prod.collapse sum.exhaust)
  then have pd: "\<forall>k. present k c2 \<longleftrightarrow> present k c \<and> k \<noteq> ?k" using assms(1) by (auto simp: cache_ok_def)
  have "snd (deleteCacheMessage E (BizID (userInfo lk s)) msg s3) = s3\<lparr>hs_cache := c2\<rparr>"
    using d s3 assms(3) by (simp add: deleteCacheMessage_def)
  then show ?thesis using s' s3 pc pd
    by (cases err) (auto simp: shouldDeleteCacheOnError_def split: if_splits)
qed

text \<open>The example call, whose link is closed meanwhile: the answer cannot be sent.\<close>

definition ex_closed :: "string list hstate" where
  "ex_closed = ex_state\<lparr>hs_links := [ex_link\<lparr>lk_done := True, lk_sendCh := ch_make 0\<rparr>]\<rparr>"

lemma ex_closed_run:
  "(case OnFrontendSendMessage ex_env ex_call 0 ex_payload ex_closed of
      Ret (err, s') \<Rightarrow> err = Some (WrapE [Sen ErrLinkClosed]) \<and> length (hs_calls s') = 2 | _ \<Rightarrow> False)"
  by code_simp

theorem handler_cache_after_witness:
  "\<exists>s'. OnFrontendSendMessage ex_env ex_call 0 ex_payload ex_closed = Ret (Some (WrapE [Sen ErrLinkClosed]), s')
     \<and> cacheKey 1 \<lparr>msg_cmd = UPSTREAM_MESSAGE, msg_key = ''k1'', msg_body = [8]\<rparr> \<in> set (hs_cache s')"
proof -
  let ?m = "\<lparr>msg_cmd = UPSTREAM_MESSAGE, msg_key = ''k1'', msg_body = [8]\<rparr>"
  obtain s' where s': "OnFrontendSendMessage ex_env ex_call 0 ex_payload ex_closed = Ret (Some (WrapE [Sen ErrLinkClosed]), s')"
    using ex_closed_run by (auto split: exec.splits prod.splits)
  have u: "BizID (userInfo 0 ex_closed) = 1" "hs_cache ex_closed = []"
    by (simp_all add: userInfo_def ex_closed_def ex_state_def NewHandler_def ex_link_def ex_user_def)
  show ?thesis
    using handler_cache_after [OF ex_env_ok(1) ex_getMessage _ _ s', of "[cacheKey 1 ?m]"] s' u
    by (auto simp: ex_env_def)
qed

text \<open>Forwarding to the backend always ends when the retry strategy does: with at most \<open>n\<close>
  retries the backend is called at most \<open>n + 1\<close> times, always with the same request, the first
  success is returned, and if every attempt failed the error is the exhausted-retries error.\<close>

theorem handler_forward_bounded:
  assumes "sm_load (hs_bizToClient s) bizID = Some client \<or>
           (sm_load (hs_bizToClient s) bizID = None \<and> sm_load (he_loader E) bizID = Some client)"
    and "he_retry0 E = Some r" and "gives_up (he_next E) r n" and "n < length (hc_answers nd)"
  shows "\<exists>k res s'. k \<le> n \<and> forwardToBusinessBackend E nd bizID msg s = Ret (res, s')
    \<and> hs_calls s' = hs_calls s @ replicate (Suc k) (client, \<lparr>req_key = msg_key msg, req_body = msg_body msg\<rparr>)
    \<and> (\<forall>i < k. \<exists>e. hc_answers nd ! i = Inl e)
    \<and> (case res of Inr resp \<Rightarrow> hc_answers nd ! k = Inr resp
       | Inl e \<Rightarrow> errors_is e ErrMaxRetriesExceeded \<and> (\<exists>e'. hc_answers nd ! k = Inl e'))"
proof -
  obtain s1 where c: "getBackendServiceClient E bizID s = (Inr client, s1)"
    using assms(1) by (auto simp: getBackendServiceClient_def Let_def)
  let ?req = "\<lparr>req_key = msg_key msg, req_body = msg_body msg\<rparr>"
  obtain k res where k: "k \<le> n" "forward_loop (he_next E) (Some r) (hc_answers nd) client ?req s1
      = Ret (res, s1\<lparr>hs_calls := hs_calls s1 @ replicate (Suc k) (client, ?req)\<rparr>)"
    "\<forall>i < k. \<exists>e. hc_answers nd ! i = Inl e"
    "case res of Inr resp \<Rightarrow> hc_answers nd ! k = Inr resp
       | Inl e \<Rightarrow> errors_is e ErrMaxRetriesExceeded \<and> (\<exists>e'. hc_answers nd ! k = Inl e')"
    using forward_loop_bound [OF assms(3,4), of client ?req s1] by blast
  have "hs_calls s1 = hs_calls s" using getClient_frame [OF c] by simp
  then show ?thesis using k c assms(2)
    by (intro exI [of _ k] exI [of _ res]) (simp add: forwardToBusinessBackend_def)
qed

theorem handler_forward_bounded_witness:
  "\<exists>k res s'. k \<le> 2 \<and> forwardToBusinessBackend ex_env ex_call 1
      \<lparr>msg_cmd = UPSTREAM_MESSAGE, msg_key = ''k1'', msg_body = [8]\<rparr> ex_state = Ret (res, s')
    \<and> hs_calls s' = replicate (Suc k) (0, \<lparr>req_key = ''k1'', req_body = [8]\<rparr>)"
  using handler_forward_bounded [of ex_state 1 0 ex_env 2 2 ex_call
      "\<lparr>msg_cmd = UPSTREAM_MESSAGE, msg_key = ''k1'', msg_body = [8]\<rparr>"]
  by (fastforce simp: ex_env_def ex_state_def NewHandler_def ex_call_def countdown_gives_up eval_nat_numeral)

lemma upstream_success:
  assumes up: "handleOnUpstreamMessageCmd E nd lk mref s = Ret (None, s')"
    and "mref < length (hs_msgs s)" and lk: "lk < length (hs_links s)"
  shows "\<exists>resp body c p client k. Inr resp \<in> set (hc_answers nd) \<and> he_marshalResp E resp = Inr body
    \<and> hs_calls s' = hs_calls s @ replicate (Suc k) (client, \<lparr>req_key = msg_key (hs_msgs s ! mref), req_body = msg_body (hs_msgs s ! mref)\<rparr>)
    \<and> he_encrypt E (hc_nonce nd) body = Inr c
    \<and> he_marshal E \<lparr>msg_cmd = UPSTREAM_ACK, msg_key = msg_key (hs_msgs s ! mref), msg_body = c\<rparr> = Inr p
    \<and> ch_buf (lk_sendCh (hs_links s' ! lk)) = ch_buf (lk_sendCh (hs_links s ! lk)) @ [p]
    \<and> (\<forall>r. r \<noteq> lk \<longrightarrow> lk_sendCh (hs_links s' ! r) = lk_sendCh (hs_links s ! r))"
proof -
  let ?s1 = "touch_link (hc_now nd) lk s" and ?msg = "hs_msgs s ! mref"
  obtain res s2 where f: "forwardToBusinessBackend E nd (BizID (userInfo lk ?s1)) ?msg ?s1 = Ret (res, s2)"
    and k: "(case res of Inl err \<Rightarrow> Ret (Some err, s2)
      | Inr resp \<Rightarrow> sendUpstreamMessageAck E nd lk (msg_key (hs_msgs s2 ! mref)) resp s2) = Ret (None, s')"
    using up by (auto simp: handleOnUpstreamMessageCmd_def Let_def exec_bind_Ret)
  then obtain resp where res: "res = Inr resp" by (cases res) auto
  from forward_frame [OF f] have fr: "hs_links s2 = hs_links ?s1" "hs_msgs s2 = hs_msgs s" by simp_all
  from forward_calls [OF f [unfolded res]] obtain client n where calls: "Inr resp \<in> set (hc_answers nd)"
    "hs_calls s2 = hs_calls s @ replicate (Suc n) (client, \<lparr>req_key = msg_key ?msg, req_body = msg_body ?msg\<rparr>)"
    by auto
  from k res fr obtain body where body: "he_marshalResp E resp = Inr body"
    and p: "push E nd lk (length (hs_msgs s2)) (s2\<lparr>hs_msgs := hs_msgs s2 @
        [\<lparr>msg_cmd = UPSTREAM_ACK, msg_key = msg_key ?msg, msg_body = body\<rparr>]\<rparr>) = Ret (None, s')"
    by (auto simp: sendUpstreamMessageAck_def alloc_msg_def split: sum.splits)
  from push_sent [OF p] lk fr obtain c pay where c: "he_encrypt E (hc_nonce nd) body = Inr c"
    "he_marshal E \<lparr>msg_cmd = UPSTREAM_ACK, msg_key = msg_key ?msg, msg_body = c\<rparr> = Inr pay"
    "ch_buf (lk_sendCh (hs_links s' ! lk)) = ch_buf (lk_sendCh (hs_links s ! lk)) @ [pay]"
    by auto
  have "lk_sendCh (hs_links s' ! r) = lk_sendCh (hs_links s ! r)" if "r \<noteq> lk" for r
    using push_frame [OF p] that fr by simp
  then show ?thesis using calls body c push_frame [OF p] by auto
qed

text \<open>C15. When the handler reports success for an upstream message, the backend was called with the
  decrypted body under the message's key, and the client gets exactly one message: an
  acknowledgement with the same key whose body decrypts to the backend's serialised answer.
  Nothing is sent to any other client.\<close>

theorem handler_upstream_ack:
  assumes "codec_ok E" and "encryptor (he_encrypt E) (he_decrypt E)" and "nonce_ok (hc_nonce nd)"
    and "getMessage E payload = Inr msg" and "msg_cmd msg = UPSTREAM_MESSAGE" and "lk < length (hs_links s)"
    and "OnFrontendSendMessage E nd lk payload s = Ret (None, s')"
  shows "\<exists>resp body p m client k. Inr resp \<in> set (hc_answers nd) \<and> he_marshalResp E resp = Inr body
    \<and> hs_calls s' = hs_calls s @ replicate (Suc k) (client, \<lparr>req_key = msg_key msg, req_body = msg_body msg\<rparr>)
    \<and> ch_buf (lk_sendCh (hs_links s' ! lk)) = ch_buf (lk_sendCh (hs_links s ! lk)) @ [p]
    \<and> he_unmarshal E p = Inr m \<and> msg_cmd m = UPSTREAM_ACK \<and> msg_key m = msg_key msg
    \<and> he_decrypt E (msg_body m) = Inr body
    \<and> (\<forall>r. r \<noteq> lk \<longrightarrow> lk_sendCh (hs_links s' ! r) = lk_sendCh (hs_links s ! r))"
proof -
  obtain r ch where nx: "he_setnx E (cacheKey (BizID (userInfo lk s)) msg) (msg_key msg) (he_expiration E) (hs_cache s) = (r, ch)"
    by fastforce
  have rt: "r = Inr True"
    using assms(4,5,7) nx
    by (cases r) (auto simp: OnFrontendSendMessage_def cacheMessage_def Let_def split: bool.splits)
  have up: "handleOnUpstreamMessageCmd E nd lk (length (hs_msgs s))
      (s\<lparr>hs_cache := ch, hs_msgs := hs_msgs s @ [msg]\<rparr>) = Ret (None, s')"
    using assms(4,5,7) nx rt
    by (auto simp: OnFrontendSendMessage_def cacheMessage_def handler_funcs_def alloc_msg_def exec_bind_Ret Let_def
        split: option.splits)
  from upstream_success [OF up] assms(6) obtain resp body c p client k where
    1: "Inr resp \<in> set (hc_answers nd)" "he_marshalResp E resp = Inr body"
      "hs_calls s' = hs_calls s @ replicate (Suc k) (client, \<lparr>req_key = msg_key msg, req_body = msg_body msg\<rparr>)"
    and 2: "he_encrypt E (hc_nonce nd) body = Inr c"
      "he_marshal E \<lparr>msg_cmd = UPSTREAM_ACK, msg_key = msg_key msg, msg_body = c\<rparr> = Inr p"
    and 3: "ch_buf (lk_sendCh (hs_links s' ! lk)) = ch_buf (lk_sendCh (hs_links s ! lk)) @ [p]"
      "\<forall>r. r \<noteq> lk \<longrightarrow> lk_sendCh (hs_links s' ! r) = lk_sendCh (hs_links s ! r)"
    by auto
  have "he_unmarshal E p = Inr \<lparr>msg_cmd = UPSTREAM_ACK, msg_key = msg_key msg, msg_body = c\<rparr>"
    using assms(1) 2(2) by (simp add: codec_ok_def)
  moreover have "he_decrypt E c = Inr body" by (rule encryptor.dec_enc [OF assms(2,3) 2(1)])
  ultimately show ?thesis using 1 3
    by (intro exI [of _ resp] exI [of _ body] exI [of _ p]
        exI [of _ "\<lparr>msg_cmd = UPSTREAM_ACK, msg_key = msg_key msg, msg_body = c\<rparr>"] exI [of _ client] exI [of _ k])
      simp
qed

lemma ex_upstream_run:
  "(case OnFrontendSendMessage ex_env ex_call 0 ex_payload ex_state of
      Ret (err, s') \<Rightarrow> err = None | _ \<Rightarrow> False)"
  by code_simp

theorem handler_upstream_ack_witness:
  "\<exists>s' p m. OnFrontendSendMessage ex_env ex_call 0 ex_payload ex_state = Ret (None, s')
     \<and> ch_buf (lk_sendCh (hs_links s' ! 0)) = [p] \<and> he_unmarshal ex_env p = Inr m
     \<and> msg_cmd m = UPSTREAM_ACK \<and> msg_key m = ''k1''"
proof -
  obtain s' where s': "OnFrontendSendMessage ex_env ex_call 0 ex_payload ex_state = Ret (None, s')"
    using ex_upstream_run by (auto split: exec.splits prod.splits)
  have "nonce_ok (hc_nonce ex_call)" "0 < length (hs_links ex_state)"
    "ch_buf (lk_sendCh (hs_links ex_state ! 0)) = []"
    using ex_nonce_ok by (simp_all add: ex_call_def ex_state_def ex_link_defs)
  from handler_upstream_ack [OF ex_env_ok(2,3) this(1) ex_getMessage _ this(2) s'] this(3) s'
  show ?thesis by auto
qed

text \<open>A valid message of the backend is given a retransmission task, whether or not it could be
  sent (unless the manager is closed); when it was sent, the client gets one message that
  decrypts to the backend's body; and the acknowledgement of that key by a user of the same
  business removes the task again.\<close>

theorem handler_backend_push:
  assumes "codec_ok E" and "encryptor (he_encrypt E) (he_decrypt E)" and "nonce_ok (hc_nonce nd)"
    and "lk < length (hs_links s)" and "pm_bizId msg \<noteq> 0" and "pm_key msg \<noteq> ''''"
    and "OnBackendPushMessage E nd lk msg s = Ret (err, s')"
  shows "(pr_closed (hs_retry s) \<or> sm_load (pr_tasks (hs_retry s')) (retryKey (pm_bizId msg) (pm_key msg)) \<noteq> None)
    \<and> (err = None \<longrightarrow> (\<exists>p m. ch_buf (lk_sendCh (hs_links s' ! lk)) = ch_buf (lk_sendCh (hs_links s ! lk)) @ [p]
         \<and> he_unmarshal E p = Inr m \<and> msg_cmd m = DOWNSTREAM_MESSAGE \<and> msg_key m = pm_key msg
         \<and> he_decrypt E (msg_body m) = Inr (pm_body msg)))
    \<and> (\<forall>E' nd' lk' mref s2. handleDownstreamAckCmd E' nd' lk' mref s' = Ret (None, s2)
         \<and> BizID (userInfo lk' s') = pm_bizId msg \<and> msg_key (hs_msgs s' ! mref) = pm_key msg
         \<longrightarrow> sm_load (pr_tasks (hs_retry s2)) (retryKey (pm_bizId msg) (pm_key msg)) = None)"
proof -
  let ?m0 = "\<lparr>msg_cmd = DOWNSTREAM_MESSAGE, msg_key = pm_key msg, msg_body = pm_body msg\<rparr>"
  let ?key = "retryKey (pm_bizId msg) (pm_key msg)"
  obtain e s1 where p: "push E nd lk (length (hs_msgs s)) (s\<lparr>hs_msgs := hs_msgs s @ [?m0]\<rparr>) = Ret (e, s1)"
    using assms(5,6,7) by (auto simp: OnBackendPushMessage_def alloc_msg_def exec_bind_Ret Let_def)
  define s2 where "s2 = (if e = None then touch_link (hc_now nd) lk s1 else s1)"
  have s': "\<exists>s2. hs_retry s2 = hs_retry s1 \<and> lk_sendCh (hs_links s2 ! lk) = lk_sendCh (hs_links s1 ! lk)
       \<and> hs_msgs s2 = hs_msgs s1 \<and> s' = s2\<lparr>hs_retry := pr_Start ?key lk (lk_id (hs_links s2 ! lk)) (length (hs_msgs s)) (hs_retry s2)\<rparr>"
    and err: "err = map_option (\<lambda>e. WrapE [e]) e"
    using assms(5,6,7) p
    by (cases e; auto simp: OnBackendPushMessage_def alloc_msg_def Let_def s2_def intro!: exI [of _ s2])+
  have retry: "hs_retry s1 = hs_retry s" using push_frame [OF p] by simp
  have started: "pr_closed (hs_retry s) \<or> sm_load (pr_tasks (hs_retry s')) ?key \<noteq> None"
    using s' retry pr_Start_task [of "hs_retry s" ?key] by fastforce
  have sent: "\<exists>p m. ch_buf (lk_sendCh (hs_links s' ! lk)) = ch_buf (lk_sendCh (hs_links s ! lk)) @ [p]
         \<and> he_unmarshal E p = Inr m \<and> msg_cmd m = DOWNSTREAM_MESSAGE \<and> msg_key m = pm_key msg
         \<and> he_decrypt E (msg_body m) = Inr (pm_body msg)" if "err = None"
  proof -
    have "e = None" using that err by simp
    from push_sent [OF p [unfolded this]] assms(4) obtain c pay where c: "he_encrypt E (hc_nonce nd) (pm_body msg) = Inr c"
      "he_marshal E (?m0\<lparr>msg_body := c\<rparr>) = Inr pay"
      "ch_buf (lk_sendCh (hs_links s1 ! lk)) = ch_buf (lk_sendCh (hs_links s ! lk)) @ [pay]" by auto
    have "he_unmarshal E pay = Inr (?m0\<lparr>msg_body := c\<rparr>)" using assms(1) c(2) by (simp add: codec_ok_def)
    moreover have "he_decrypt E c = Inr (pm_body msg)" by (rule encryptor.dec_enc [OF assms(2,3) c(1)])
    ultimately show ?thesis using c(3) s' by auto
  qed
  show ?thesis using started sent
    by (auto simp: handleDownstreamAckCmd_def pr_Stop_def)
qed

definition ex_push :: push_message where
  "ex_push = \<lparr>pm_key = ''d1'', pm_bizId = 1, pm_receiverId = 7, pm_body = [3, 4]\<rparr>"

lemma ex_push_run:
  "(case OnBackendPushMessage ex_env ex_call 0 ex_push ex_state of Ret (err, s') \<Rightarrow> err = None | _ \<Rightarrow> False)"
  by code_simp

theorem handler_backend_push_witness:
  "\<exists>s' p m. OnBackendPushMessage ex_env ex_call 0 ex_push ex_state = Ret (None, s')
     \<and> ch_buf (lk_sendCh (hs_links s' ! 0)) = [p] \<and> he_unmarshal ex_env p = Inr m
     \<and> he_decrypt ex_env (msg_body m) = Inr [3, 4]"
proof -
  obtain s' where s': "OnBackendPushMessage ex_env ex_call 0 ex_push ex_state = Ret (None, s')"
    using ex_push_run by (auto split: exec.splits prod.splits)
  have "nonce_ok (hc_nonce ex_call)" "0 < length (hs_links ex_state)"
    "ch_buf (lk_sendCh (hs_links ex_state ! 0)) = []"
    using ex_nonce_ok by (simp_all add: ex_call_def ex_state_def ex_link_defs)
  from handler_backend_push [OF ex_env_ok(2,3) this(1,2) _ _ s'] this(3) s'
  show ?thesis by (auto simp: ex_push_def)
qed

text \<open>A retransmission does not repeat the message. \<open>push\<close> overwrites the body of the message the
  task holds with its ciphertext, so when the timer fires the ciphertext is encrypted again:
  the client's payload decrypts to the ciphertext of the first payload, and to the backend's
  body only if encryption left that body unchanged.\<close>

theorem handler_retransmission_reencrypts:
  assumes "codec_ok E" and "encryptor (he_encrypt E) (he_decrypt E)"
    and "nonce_ok (hc_nonce nd)" and "nonce_ok (hc_nonce nd2)"
    and "mref < length (hs_msgs s)" and "lk < length (hs_links s)"
    and "push E nd lk mref s = Ret (None, s1)" and "push E nd2 lk mref s1 = Ret (None, s2)"
  shows "\<exists>p1 p2 m1 m2. ch_buf (lk_sendCh (hs_links s2 ! lk)) = ch_buf (lk_sendCh (hs_links s ! lk)) @ [p1, p2]
    \<and> he_unmarshal E p1 = Inr m1 \<and> he_decrypt E (msg_body m1) = Inr (msg_body (hs_msgs s ! mref))
    \<and> he_unmarshal E p2 = Inr m2 \<and> he_decrypt E (msg_body m2) = Inr (msg_body m1)
    \<and> (he_decrypt E (msg_body m2) = Inr (msg_body (hs_msgs s ! mref)) \<longleftrightarrow> msg_body m1 = msg_body (hs_msgs s ! mref))"
proof -
  let ?m = "hs_msgs s ! mref"
  obtain c1 p1 where 1: "he_encrypt E (hc_nonce nd) (msg_body ?m) = Inr c1"
    "he_marshal E (?m\<lparr>msg_body := c1\<rparr>) = Inr p1" "hs_msgs s1 ! mref = ?m\<lparr>msg_body := c1\<rparr>"
    "ch_buf (lk_sendCh (hs_links s1 ! lk)) = ch_buf (lk_sendCh (hs_links s ! lk)) @ [p1]"
    using push_sent [OF assms(7,5,6)] by blast
  have len: "length (hs_msgs s1) = length (hs_msgs s)" "length (hs_links s1) = length (hs_links s)"
    using push_frame [OF assms(7)] length_heap_ids by metis+
  obtain c2 p2 where 2: "he_encrypt E (hc_nonce nd2) c1 = Inr c2"
    "he_marshal E (?m\<lparr>msg_body := c2\<rparr>) = Inr p2"
    "ch_buf (lk_sendCh (hs_links s2 ! lk)) = ch_buf (lk_sendCh (hs_links s1 ! lk)) @ [p2]"
    using push_sent [OF assms(8)] assms(5,6) len 1(3) by auto
  have "he_unmarshal E p1 = Inr (?m\<lparr>msg_body := c1\<rparr>)" "he_unmarshal E p2 = Inr (?m\<lparr>msg_body := c2\<rparr>)"
    using assms(1) 1(2) 2(2) by (simp_all add: codec_ok_def)
  moreover have "he_decrypt E c1 = Inr (msg_body ?m)" by (rule encryptor.dec_enc [OF assms(2,3) 1(1)])
  moreover have "he_decrypt E c2 = Inr c1" by (rule encryptor.dec_enc [OF assms(2,4) 2(1)])
  ultimately show ?thesis using 1(4) 2(3)
    by (intro exI [of _ p1] exI [of _ p2] exI [of _ "?m\<lparr>msg_body := c1\<rparr>"] exI [of _ "?m\<lparr>msg_body := c2\<rparr>"]) simp
qed

text \<open>The backend's message is pushed, then the timer of its task fires once.\<close>

lemma ex_retransmit_run:
  "(case OnBackendPushMessage ex_env ex_call 0 ex_push ex_state of
      Ret (_, s1) \<Rightarrow>
        (case handler_retry ex_env ex_call 0 s1 of
           Ret s2 \<Rightarrow> map (\<lambda>p. map_sum id msg_body (he_unmarshal ex_env p)) (ch_buf (lk_sendCh (hs_links s2 ! 0)))
                       = [Inr (replicate 12 5 @ [3, 4, 7]), Inr (replicate 12 5 @ replicate 12 5 @ [3, 4, 7, 7])]
         | _ \<Rightarrow> False)
    | _ \<Rightarrow> False)"
  by code_simp

lemma ex_push_twice:
  "(case push ex_env ex_call 0 0 (ex_state\<lparr>hs_msgs := [\<lparr>msg_cmd = DOWNSTREAM_MESSAGE, msg_key = ''d1'', msg_body = [3, 4]\<rparr>]\<rparr>) of
      Ret (e1, s1) \<Rightarrow> e1 = None \<and>
        (case push ex_env ex_call 0 0 s1 of Ret (e2, s2) \<Rightarrow> e2 = None | _ \<Rightarrow> False)
    | _ \<Rightarrow> False)"
  by code_simp

theorem handler_retransmission_reencrypts_witness:
  "\<exists>s1 s2 p1 p2 m1 m2. push ex_env ex_call 0 0 s1 = Ret (None, s2)
     \<and> ch_buf (lk_sendCh (hs_links s2 ! 0)) = [p1, p2] \<and> he_unmarshal ex_env p1 = Inr m1 \<and> he_decrypt ex_env (msg_body m1) = Inr [3, 4]
     \<and> he_unmarshal ex_env p2 = Inr m2 \<and> he_decrypt ex_env (msg_body m2) = Inr (msg_body m1)"
proof -
  let ?s = "ex_state\<lparr>hs_msgs := [\<lparr>msg_cmd = DOWNSTREAM_MESSAGE, msg_key = ''d1'', msg_body = [3, 4]\<rparr>]\<rparr>"
  obtain e1 s1 where 1: "push ex_env ex_call 0 0 ?s = Ret (e1, s1)"
    using ex_push_twice by (cases "push ex_env ex_call 0 0 ?s") auto
  then have e1: "e1 = None" using ex_push_twice by simp
  obtain e2 s2 where 2: "push ex_env ex_call 0 0 s1 = Ret (e2, s2)" and e2: "e2 = None"
    using ex_push_twice 1 by (cases "push ex_env ex_call 0 0 s1") auto
  have pre: "nonce_ok (hc_nonce ex_call)" "0 < length (hs_msgs ?s)" "0 < length (hs_links ?s)"
    "ch_buf (lk_sendCh (hs_links ?s ! 0)) = []"
    using ex_nonce_ok by (simp_all add: ex_call_def ex_state_def ex_link_defs)
  from handler_retransmission_reencrypts [OF ex_env_ok(2,3) pre(1,1,2,3) 1 [unfolded e1] 2 [unfolded e2]] pre(4)
  obtain p1 p2 m1 m2 where "ch_buf (lk_sendCh (hs_links s2 ! 0)) = [p1, p2]"
    "he_unmarshal ex_env p1 = Inr m1" "he_decrypt ex_env (msg_body m1) = Inr [3, 4]"
    "he_unmarshal ex_env p2 = Inr m2" "he_decrypt ex_env (msg_body m2) = Inr (msg_body m1)" by auto
  then show ?thesis using 2 e2
    by (intro exI [of _ s1] exI [of _ s2] exI [of _ p1] exI [of _ p2] exI [of _ m1] exI [of _ m2]) simp
qed

end
