(* ===== verification/GW_Coordinator.thy ===== *)
theory GW_Coordinator
  imports GW_Types "HOL-Library.Multiset"
begin

text \<open>
  \<open>internal/linkevent/coordinator.go\<close>: upstream messages of many connections are collected into
  batches per business and sent to the backend together; every caller waits for its own
  answer. The state and the operations under the coordinator's lock are functions; callers,
  triggering goroutines, timers and \<open>Stop\<close> interleave in \<open>co_step\<close>.
\<close>

subsection \<open>State\<close>

type_synonym result = "gerr + on_receive_response"

record request =
  rq_message :: on_receive_request
  rq_linkID :: string
  rq_resultChan :: "result chan"

record batch =
  bt_bizID :: int
  bt_requests :: "nat list"
  bt_timer :: nat
  bt_closed :: bool

text \<open>
  Requests are shared by reference. A batch is reachable only from the map, and after
  its removal only by the goroutine that removed it, so it is a value. \<open>co_timers\<close>: the
  business each timer was created for and whether it is still armed. The batch size is not negative: the constructor does
  not check it, and with a negative one \<open>make\<close> panics at the first request.
\<close>

record coordinator =
  co_batches :: "(int, batch) smap"
  co_batchSize :: nat
  co_batchTimeout :: int
  co_stopped :: bool
  co_stopCh :: bool
  co_timers :: "(int \<times> bool) list"
  co_requests :: "request list"

definition NewCoordinator :: "nat \<Rightarrow> int \<Rightarrow> coordinator" where
  "NewCoordinator batchSize batchTimeout =
     \<lparr>co_batches = [], co_batchSize = batchSize, co_batchTimeout = batchTimeout, co_stopped = False,
      co_stopCh = False, co_timers = [], co_requests = []\<rparr>"

text \<open>A non-blocking send to the result channel of a request.\<close>

definition co_send :: "nat \<Rightarrow> result \<Rightarrow> coordinator \<Rightarrow> coordinator" where
  "co_send r res c =
     (case ch_try_send (rq_resultChan (co_requests c ! r)) res of
        None \<Rightarrow> c
      | Some ch \<Rightarrow> c\<lparr>co_requests := (co_requests c)[r := (co_requests c ! r)\<lparr>rq_resultChan := ch\<rparr>]\<rparr>)"

subsection \<open>Operations\<close>

text \<open>The request object \<open>OnReceive\<close> creates; \<open>None\<close>: the coordinator is stopped.\<close>

definition OnReceive_begin :: "string \<Rightarrow> on_receive_request \<Rightarrow> coordinator \<Rightarrow> (nat \<times> coordinator) option" where
  "OnReceive_begin linkID req c =
     (if co_stopped c then None
      else Some (length (co_requests c),
                 c\<lparr>co_requests := co_requests c @
                     [\<lparr>rq_message = req, rq_linkID = linkID, rq_resultChan = ch_make 1\<rparr>]\<rparr>))"

text \<open>\<open>addToBatch\<close>; the flag says that it started a goroutine \<open>triggerBatch(bizID)\<close>.\<close>

definition addToBatch :: "int \<Rightarrow> nat \<Rightarrow> coordinator \<Rightarrow> coordinator \<times> bool" where
  "addToBatch bizID request c =
     (if co_stopped c then (co_send request (Inl (Sen ErrCoordinatorStopped)) c, False)
      else let (batch, c1) =
             (case sm_load (co_batches c) bizID of
                Some b \<Rightarrow> (b, c)
              | None \<Rightarrow> (\<lparr>bt_bizID = bizID, bt_requests = [], bt_timer = length (co_timers c), bt_closed = False\<rparr>,
                         c\<lparr>co_timers := co_timers c @ [(bizID, True)]\<rparr>));
               batch1 = batch\<lparr>bt_requests := bt_requests batch @ [request]\<rparr>
           in (c1\<lparr>co_batches := sm_store bizID batch1 (co_batches c1)\<rparr>,
               length (bt_requests batch1) \<ge> co_batchSize c1))"

text \<open>The first part of \<open>triggerBatch\<close>, under the coordinator's lock.\<close>

definition take_batch :: "int \<Rightarrow> coordinator \<Rightarrow> batch option \<times> coordinator" where
  "take_batch bizID c =
     (case sm_load (co_batches c) bizID of
        None \<Rightarrow> (None, c)
      | Some b \<Rightarrow> (Some b, c\<lparr>co_batches := sm_delete bizID (co_batches c)\<rparr>))"

text \<open>The second part, under the batch's lock, up to the call of the processor.\<close>

definition close_batch :: "batch \<Rightarrow> coordinator \<Rightarrow> (batch \<times> coordinator) option" where
  "close_batch b c =
     (if bt_closed b \<or> bt_requests b = [] then None
      else Some (b\<lparr>bt_closed := True\<rparr>,
                 c\<lparr>co_timers := (co_timers c)[bt_timer b := (fst (co_timers c ! bt_timer b), False)]\<rparr>))"

text \<open>What is to be sent to whom, given the processor's answer.\<close>

definition distributeError :: "nat list \<Rightarrow> gerr \<Rightarrow> (nat \<times> result) list" where
  "distributeError requests err = map (\<lambda>r. (r, Inl err)) requests"

definition distributeResults :: "nat list \<Rightarrow> on_receive_response list \<Rightarrow> (nat \<times> result) list" where
  "distributeResults requests responses = zip requests (map Inr responses)"

definition distribute :: "nat list \<Rightarrow> gerr + on_receive_response list \<Rightarrow> (nat \<times> result) list" where
  "distribute requests answer =
     (case answer of
        Inl err \<Rightarrow> distributeError requests err
      | Inr responses \<Rightarrow>
          if length responses \<noteq> length requests then distributeError requests (Sen ErrBatchResponseMismatch)
          else distributeResults requests responses)"

definition co_GetStats :: "coordinator \<Rightarrow> nat \<times> nat \<times> int \<times> bool \<times> (int \<times> nat) list" where
  "co_GetStats c =
     (length (co_batches c), co_batchSize c, co_batchTimeout c, co_stopped c,
      map (\<lambda>(k, b). (k, length (bt_requests b))) (co_batches c))"

subsection \<open>Goroutines\<close>

text \<open>
  A triggering goroutine: about to take the batch of a business, holding a batch, waiting
  for the processor, distributing answers, or finished. The caller of \<open>OnReceive\<close> with request
  \<open>r\<close> is at index \<open>r\<close>: about to add its request, waiting, or returned.
\<close>

datatype co_thread =
    TTake int | TClose int batch | TProcess int "nat list" | TSend "(nat \<times> result) list" | TEnd

datatype caller = CAdd int | CWait | CRet result

text \<open>\<open>cs_stop\<close>: the goroutines that \<open>Stop\<close> waits for. \<open>cs_biz\<close>, \<open>cs_sent\<close> and \<open>cs_log\<close> only
  record: the business of each request, the requests a result was sent to, and the
  processor's calls with their answers.\<close>

record co_sys =
  cs_co :: coordinator
  cs_threads :: "co_thread list"
  cs_callers :: "caller list"
  cs_stop :: "nat list option"
  cs_biz :: "int list"
  cs_sent :: "nat list"
  cs_log :: "(int \<times> nat list \<times> (gerr + on_receive_response list)) list"

definition trigger_step :: "nat \<Rightarrow> (gerr + on_receive_response list) \<Rightarrow> co_sys \<Rightarrow> co_sys option" where
  "trigger_step i answer s =
     (if \<not> i < length (cs_threads s) then None
      else let set_t = (\<lambda>t s. s\<lparr>cs_threads := (cs_threads s)[i := t]\<rparr>); c = cs_co s in
       (case cs_threads s ! i of
          TTake bizID \<Rightarrow>
            (case take_batch bizID c of
               (None, c') \<Rightarrow> Some (set_t TEnd s)
             | (Some b, c') \<Rightarrow> Some (set_t (TClose bizID b) (s\<lparr>cs_co := c'\<rparr>)))
        | TClose bizID b \<Rightarrow>
            (case close_batch b c of
               None \<Rightarrow> Some (set_t TEnd s)
             | Some (b', c') \<Rightarrow> Some (set_t (TProcess bizID (bt_requests b')) (s\<lparr>cs_co := c'\<rparr>)))
        | TProcess bizID refs \<Rightarrow>
            Some (set_t (TSend (distribute refs answer)) (s\<lparr>cs_log := cs_log s @ [(bizID, refs, answer)]\<rparr>))
        | TSend [] \<Rightarrow> Some (set_t TEnd s)
        | TSend ((r, res) # rest) \<Rightarrow>
            Some (set_t (TSend rest) (s\<lparr>cs_co := co_send r res c, cs_sent := cs_sent s @ [r]\<rparr>))
        | TEnd \<Rightarrow> None))"

definition Stop_begin :: "co_sys \<Rightarrow> co_sys" where
  "Stop_begin s =
     (if co_stopped (cs_co s) then s
      else let pendingBizIDs = map fst (co_batches (cs_co s)); n = length (cs_threads s)
           in s\<lparr>cs_co := (cs_co s)\<lparr>co_stopped := True\<rparr>,
                cs_threads := cs_threads s @ map TTake pendingBizIDs,
                cs_stop := Some [n..<n + length pendingBizIDs]\<rparr>)"

definition Stop_end :: "co_sys \<Rightarrow> co_sys option" where
  "Stop_end s =
     (case cs_stop s of
        None \<Rightarrow> None
      | Some ts \<Rightarrow>
          if list_all (\<lambda>i. cs_threads s ! i = TEnd) ts
          then Some (s\<lparr>cs_co := (cs_co s)\<lparr>co_stopCh := True, co_batches := []\<rparr>, cs_stop := None\<rparr>)
          else None)"

inductive co_step :: "co_sys \<Rightarrow> co_sys \<Rightarrow> bool" where
  co_call: "OnReceive_begin linkID req (cs_co s) = Some (r, c) \<Longrightarrow>
     co_step s (s\<lparr>cs_co := c, cs_callers := cs_callers s @ [CAdd bizID], cs_biz := cs_biz s @ [bizID]\<rparr>)"
| co_add: "r < length (cs_callers s) \<Longrightarrow> cs_callers s ! r = CAdd bizID \<Longrightarrow> addToBatch bizID r (cs_co s) = (c, go) \<Longrightarrow>
     co_step s (s\<lparr>cs_co := c, cs_callers := (cs_callers s)[r := CWait],
                  cs_threads := cs_threads s @ (if go then [TTake bizID] else []),
                  cs_sent := cs_sent s @ (if co_stopped (cs_co s) then [r] else [])\<rparr>)"
| co_timer: "t < length (co_timers (cs_co s)) \<Longrightarrow> co_timers (cs_co s) ! t = (bizID, True) \<Longrightarrow>
     co_step s (s\<lparr>cs_co := (cs_co s)\<lparr>co_timers := (co_timers (cs_co s))[t := (bizID, False)]\<rparr>,
                  cs_threads := cs_threads s @ [TTake bizID]\<rparr>)"
| co_trigger: "trigger_step i answer s = Some s' \<Longrightarrow> co_step s s'"
| co_receive: "r < length (cs_callers s) \<Longrightarrow> cs_callers s ! r = CWait \<Longrightarrow>
     ch_try_recv (rq_resultChan (co_requests (cs_co s) ! r)) = Some (res, ch) \<Longrightarrow>
     co_step s (s\<lparr>cs_co := (cs_co s)\<lparr>co_requests := (co_requests (cs_co s))[r := (co_requests (cs_co s) ! r)\<lparr>rq_resultChan := ch\<rparr>]\<rparr>,
                  cs_callers := (cs_callers s)[r := CRet res]\<rparr>)"
| co_unblock: "r < length (cs_callers s) \<Longrightarrow> cs_callers s ! r = CWait \<Longrightarrow> co_stopCh (cs_co s) \<Longrightarrow>
     co_step s (s\<lparr>cs_callers := (cs_callers s)[r := CRet (Inl (Sen ErrCoordinatorStopped))]\<rparr>)"
| co_stop: "co_step s (Stop_begin s)"
| co_stopped: "Stop_end s = Some s' \<Longrightarrow> co_step s s'"

definition co_init :: "co_sys \<Rightarrow> bool" where
  "co_init s \<longleftrightarrow> (\<exists>size timeout. s = \<lparr>cs_co = NewCoordinator size timeout, cs_threads = [], cs_callers = [],
     cs_stop = None, cs_biz = [], cs_sent = [], cs_log = []\<rparr>)"

subsection \<open>Counting references\<close>

text \<open>How often a number occurs in some field of the batches of the map, or of the batches and
  requests the goroutines hold.\<close>

definition cntB :: "(batch \<Rightarrow> nat list) \<Rightarrow> nat \<Rightarrow> (int, batch) smap \<Rightarrow> nat" where
  "cntB f r m = sum_list (map (\<lambda>e. count_list (f (snd e)) r) m)"

definition cntT :: "(co_thread \<Rightarrow> nat list) \<Rightarrow> nat \<Rightarrow> co_thread list \<Rightarrow> nat" where
  "cntT g r ts = sum_list (map (\<lambda>t. count_list (g t) r) ts)"

lemma cntB_simps [simp]: "cntB f r [] = 0" "cntB f r (e # m) = count_list (f (snd e)) r + cntB f r m"
  by (simp_all add: cntB_def)

lemma cntT_simps [simp]: "cntT g r [] = 0" "cntT g r (t # ts) = count_list (g t) r + cntT g r ts"
  "cntT g r (ts @ us) = cntT g r ts + cntT g r us"
  by (simp_all add: cntT_def)

lemma cntB_append [simp]: "cntB f r (m @ m') = cntB f r m + cntB f r m'"
  by (simp add: cntB_def)

lemma cntB_store_new: "sm_load m k = None \<Longrightarrow> cntB f r (sm_store k b m) = cntB f r m + count_list (f b) r"
  by (simp add: sm_store_new)

lemma cntB_store: "sm_load m k = Some b \<Longrightarrow>
   cntB f r (sm_store k b' m) + count_list (f b) r = cntB f r m + count_list (f b') r"
  by (induction m) (auto split: if_splits)

lemma cntB_delete: "sm_ok m \<Longrightarrow> sm_load m k = Some b \<Longrightarrow>
   cntB f r (sm_delete k m) + count_list (f b) r = cntB f r m"
proof (induction m)
  case (Cons e m)
  obtain k' b' where e: "e = (k', b')" by (cases e)
  from Cons.prems have m: "sm_ok m" "sm_load m k' = None" by (auto simp: sm_ok_def e map_of_eq_None_iff)
  then show ?case using Cons by (auto simp: e sm_delete_absent split: if_splits)
qed simp

lemma cntT_update: "i < length ts \<Longrightarrow> cntT g r (ts[i := t]) + count_list (g (ts ! i)) r = cntT g r ts + count_list (g t) r"
proof -
  assume i: "i < length ts"
  let ?f = "\<lambda>t. count_list (g t) r"
  have "?f (ts ! i) \<le> sum_list (map ?f ts)" using i by (simp add: member_le_sum_list)
  then show ?thesis using i by (simp add: cntT_def map_update sum_list_update)
qed

lemma cntB_pos: "(k, b) \<in> set m \<Longrightarrow> r \<in> set (f b) \<Longrightarrow> 0 < cntB f r m"
  by (induction m) (auto simp: count_list_0_iff intro: gr0I)

lemma cntT_pos: "t \<in> set ts \<Longrightarrow> r \<in> set (g t) \<Longrightarrow> 0 < cntT g r ts"
  by (induction ts) (auto simp: count_list_0_iff intro: gr0I)

lemma count_list_posD: "0 < count_list xs x \<Longrightarrow> x \<in> set xs"
  by (metis count_notin less_irrefl)

lemma cntB_pos_ex: "0 < cntB f r m \<Longrightarrow> \<exists>k b. (k, b) \<in> set m \<and> r \<in> set (f b)"
  by (induction m) (fastforce dest: count_list_posD)+

lemma cntT_pos_ex: "0 < cntT g r ts \<Longrightarrow> \<exists>t \<in> set ts. r \<in> set (g t)"
  by (induction ts) (auto dest: count_list_posD)

fun t_refs :: "co_thread \<Rightarrow> nat list" where
  "t_refs (TTake k) = []"
| "t_refs (TClose k b) = bt_requests b"
| "t_refs (TProcess k rs) = rs"
| "t_refs (TSend xs) = map fst xs"
| "t_refs TEnd = []"

fun t_timers :: "co_thread \<Rightarrow> nat list" where
  "t_timers (TClose k b) = [bt_timer b]"
| "t_timers _ = []"

subsection \<open>Invariants\<close>

definition is_added :: "co_sys \<Rightarrow> nat \<Rightarrow> bool" where
  "is_added s r \<longleftrightarrow> r < length (cs_callers s) \<and> (\<forall>k. cs_callers s ! r \<noteq> CAdd k)"

text \<open>Every added request is in exactly one place: a batch, a goroutine, or answered.\<close>

definition inv_places :: "co_sys \<Rightarrow> bool" where
  "inv_places s \<longleftrightarrow>
     length (co_requests (cs_co s)) = length (cs_callers s) \<and> length (cs_biz s) = length (cs_callers s)
     \<and> (\<forall>r. cntB bt_requests r (co_batches (cs_co s)) + cntT t_refs r (cs_threads s) + count_list (cs_sent s) r
             = (if is_added s r then 1 else 0))"

text \<open>The channel of a request is empty until the answer is sent, and full until it is received.\<close>

definition inv_chan :: "co_sys \<Rightarrow> bool" where
  "inv_chan s \<longleftrightarrow> (\<forall>r < length (cs_callers s).
     let ch = rq_resultChan (co_requests (cs_co s) ! r) in
     ch_cap ch = 1 \<and> length (ch_buf ch) \<le> 1 \<and> (r \<notin> set (cs_sent s) \<longrightarrow> ch_buf ch = [])
     \<and> (r \<in> set (cs_sent s) \<and> cs_callers s ! r = CWait \<longrightarrow> ch_buf ch \<noteq> []))"

text \<open>A batch of the map is open, not empty, and its timer is armed or a goroutine is about to
  take it; no two batches share a timer.\<close>

definition batch_ok :: "(int \<times> bool) list \<Rightarrow> co_thread list \<Rightarrow> int \<Rightarrow> batch \<Rightarrow> bool" where
  "batch_ok timers threads k b \<longleftrightarrow> bt_requests b \<noteq> [] \<and> \<not> bt_closed b
     \<and> bt_timer b < length timers \<and> fst (timers ! bt_timer b) = k
     \<and> (snd (timers ! bt_timer b) \<or> TTake k \<in> set threads)"

definition inv_batches :: "co_sys \<Rightarrow> bool" where
  "inv_batches s \<longleftrightarrow> sm_ok (co_batches (cs_co s))
     \<and> (\<forall>(k, b) \<in> set (co_batches (cs_co s)). batch_ok (co_timers (cs_co s)) (cs_threads s) k b)
     \<and> (\<forall>k b. TClose k b \<in> set (cs_threads s) \<longrightarrow> bt_requests b \<noteq> [] \<and> \<not> bt_closed b)
     \<and> (\<forall>t. cntB (\<lambda>b. [bt_timer b]) t (co_batches (cs_co s)) + cntT t_timers t (cs_threads s)
             \<le> (if t < length (co_timers (cs_co s)) then 1 else 0))"

text \<open>An answer in flight, in a channel or returned, is the one the processor gave for this request
  of this business, or an error that concerns the whole batch, or the stop error.\<close>

definition good_result :: "co_sys \<Rightarrow> nat \<Rightarrow> result \<Rightarrow> bool" where
  "good_result s r res \<longleftrightarrow>
     (case res of
        Inr resp \<Rightarrow> (\<exists>k refs resps j. (k, refs, Inr resps) \<in> set (cs_log s) \<and> length resps = length refs
                      \<and> j < length refs \<and> refs ! j = r \<and> resps ! j = resp \<and> cs_biz s ! r = k)
      | Inl e \<Rightarrow> e = Sen ErrCoordinatorStopped
          \<or> (\<exists>k refs ans. (k, refs, ans) \<in> set (cs_log s) \<and> r \<in> set refs \<and> cs_biz s ! r = k
               \<and> (ans = Inl e \<or> (\<exists>resps. ans = Inr resps \<and> length resps \<noteq> length refs \<and> e = Sen ErrBatchResponseMismatch))))"

definition inv_results :: "co_sys \<Rightarrow> bool" where
  "inv_results s \<longleftrightarrow>
     (\<forall>(k, b) \<in> set (co_batches (cs_co s)). \<forall>r \<in> set (bt_requests b). cs_biz s ! r = k)
     \<and> (\<forall>k b. TClose k b \<in> set (cs_threads s) \<longrightarrow> (\<forall>r \<in> set (bt_requests b). cs_biz s ! r = k))
     \<and> (\<forall>k rs. TProcess k rs \<in> set (cs_threads s) \<longrightarrow> (\<forall>r \<in> set rs. cs_biz s ! r = k))
     \<and> (\<forall>xs. TSend xs \<in> set (cs_threads s) \<longrightarrow> (\<forall>(r, res) \<in> set xs. good_result s r res))
     \<and> (\<forall>r < length (cs_callers s). (\<forall>res \<in> set (ch_buf (rq_resultChan (co_requests (cs_co s) ! r))). good_result s r res)
          \<and> (\<forall>k. cs_callers s ! r = CAdd k \<longrightarrow> cs_biz s ! r = k)
          \<and> (\<forall>res. cs_callers s ! r = CRet res \<longrightarrow> good_result s r res))"

definition inv_stop :: "co_sys \<Rightarrow> bool" where
  "inv_stop s \<longleftrightarrow>
     (case cs_stop s of
        None \<Rightarrow> co_stopCh (cs_co s) = co_stopped (cs_co s)
          \<and> (co_stopped (cs_co s) \<longrightarrow> co_batches (cs_co s) = [])
      | Some ts \<Rightarrow> co_stopped (cs_co s) \<and> \<not> co_stopCh (cs_co s) \<and> list_all (\<lambda>i. i < length (cs_threads s)) ts
          \<and> (\<forall>k \<in> set (map fst (co_batches (cs_co s))). \<exists>i \<in> set ts. cs_threads s ! i = TTake k))"

definition co_inv :: "co_sys \<Rightarrow> bool" where
  "co_inv s \<longleftrightarrow> inv_places s \<and> inv_chan s \<and> inv_batches s \<and> inv_results s \<and> inv_stop s"

lemma batch_ok_mono:
  "batch_ok timers threads k b \<Longrightarrow> (TTake k \<in> set threads \<Longrightarrow> TTake k \<in> set threads') \<Longrightarrow>
   batch_ok timers threads' k b"
  by (auto simp: batch_ok_def)

lemma batches_mono:
  assumes "\<forall>(k, b) \<in> set m. batch_ok timers threads k b" and "\<And>k. TTake k \<in> set threads \<Longrightarrow> TTake k \<in> set threads'"
  shows "\<forall>(k, b) \<in> set m. batch_ok timers threads' k b"
  using assms batch_ok_mono by fast

lemma inv_resultsD:
  assumes "inv_results s"
  shows "\<And>k b. (k, b) \<in> set (co_batches (cs_co s)) \<Longrightarrow> \<forall>r \<in> set (bt_requests b). cs_biz s ! r = k"
    and "\<And>k b. TClose k b \<in> set (cs_threads s) \<Longrightarrow> \<forall>r \<in> set (bt_requests b). cs_biz s ! r = k"
    and "\<And>k rs. TProcess k rs \<in> set (cs_threads s) \<Longrightarrow> \<forall>r \<in> set rs. cs_biz s ! r = k"
    and "\<And>xs. TSend xs \<in> set (cs_threads s) \<Longrightarrow> \<forall>(r, res) \<in> set xs. good_result s r res"
  using assms by (auto simp: inv_results_def)

lemma inv_batchesD:
  assumes "inv_batches s"
  shows "\<And>k b. (k, b) \<in> set (co_batches (cs_co s)) \<Longrightarrow> batch_ok (co_timers (cs_co s)) (cs_threads s) k b"
    and "\<And>k b. TClose k b \<in> set (cs_threads s) \<Longrightarrow> bt_requests b \<noteq> [] \<and> \<not> bt_closed b"
  using assms by (auto simp: inv_batches_def)

lemma co_init_inv: "co_init s \<Longrightarrow> co_inv s"
  by (auto simp: co_init_def co_inv_def inv_places_def inv_chan_def inv_batches_def inv_results_def
      inv_stop_def NewCoordinator_def is_added_def)

lemma co_send_frame [simp]:
  "co_batches (co_send r res c) = co_batches c" "co_timers (co_send r res c) = co_timers c"
  "co_stopped (co_send r res c) = co_stopped c" "co_stopCh (co_send r res c) = co_stopCh c"
  "co_batchSize (co_send r res c) = co_batchSize c"
  "length (co_requests (co_send r res c)) = length (co_requests c)"
  by (simp_all add: co_send_def split: option.splits)

lemma co_send_chan:
  assumes "r < length (co_requests c)" and "ch_buf (rq_resultChan (co_requests c ! r)) = []"
    and "ch_cap (rq_resultChan (co_requests c ! r)) = 1"
  shows "rq_resultChan (co_requests (co_send r res c) ! q)
    = (if q = r then (rq_resultChan (co_requests c ! r))\<lparr>ch_buf := [res]\<rparr> else rq_resultChan (co_requests c ! q))"
  using assms by (auto simp: co_send_def ch_try_send_def ch_room_def)

lemma place_added:
  "inv_places s \<Longrightarrow> (k, b) \<in> set (co_batches (cs_co s)) \<Longrightarrow> r \<in> set (bt_requests b) \<Longrightarrow> is_added s r"
  "inv_places s \<Longrightarrow> t \<in> set (cs_threads s) \<Longrightarrow> r \<in> set (t_refs t) \<Longrightarrow> is_added s r"
  "inv_places s \<Longrightarrow> r \<in> set (cs_sent s) \<Longrightarrow> is_added s r"
proof -
  assume p: "inv_places s"
  have e: "cntB bt_requests r (co_batches (cs_co s)) + cntT t_refs r (cs_threads s) + count_list (cs_sent s) r
      = (if is_added s r then 1 else 0)" using p by (simp add: inv_places_def)
  show "(k, b) \<in> set (co_batches (cs_co s)) \<Longrightarrow> r \<in> set (bt_requests b) \<Longrightarrow> is_added s r"
    using e cntB_pos [of k b _ r bt_requests] by (fastforce split: if_splits)
  show "t \<in> set (cs_threads s) \<Longrightarrow> r \<in> set (t_refs t) \<Longrightarrow> is_added s r"
    using e cntT_pos [of t _ r t_refs] by (fastforce split: if_splits)
  show "r \<in> set (cs_sent s) \<Longrightarrow> is_added s r"
    using e count_list_0_iff [of "cs_sent s" r] by (simp split: if_splits)
qed

text \<open>A request a goroutine is about to answer was not answered before.\<close>

lemma place_unsent:
  "inv_places s \<Longrightarrow> t \<in> set (cs_threads s) \<Longrightarrow> r \<in> set (t_refs t) \<Longrightarrow> r \<notin> set (cs_sent s)"
proof -
  assume p: "inv_places s" and t: "t \<in> set (cs_threads s)" "r \<in> set (t_refs t)"
  have "cntB bt_requests r (co_batches (cs_co s)) + cntT t_refs r (cs_threads s) + count_list (cs_sent s) r
      = (if is_added s r then 1 else 0)" using p by (simp add: inv_places_def)
  then have "count_list (cs_sent s) r = 0" using cntT_pos [of t _ r t_refs, OF t] by (simp split: if_splits)
  then show ?thesis by (simp add: count_list_0_iff)
qed

lemma good_result_mono:
  assumes "good_result s r res" and "set (cs_log s) \<subseteq> set (cs_log s')" and "cs_biz s' ! r = cs_biz s ! r"
  shows "good_result s' r res"
proof (cases res)
  case (Inl e)
  then show ?thesis using assms by (auto simp: good_result_def)
next
  case (Inr resp)
  then show ?thesis using assms by (auto simp: good_result_def)
qed

lemma is_added_lt: "is_added s r \<Longrightarrow> r < length (cs_callers s)"
  by (simp add: is_added_def)

subsection \<open>Every step keeps the invariant\<close>

lemma co_call_inv:
  assumes inv: "co_inv s" and c: "OnReceive_begin linkID req (cs_co s) = Some (r, c)"
  shows "co_inv (s\<lparr>cs_co := c, cs_callers := cs_callers s @ [CAdd bizID], cs_biz := cs_biz s @ [bizID]\<rparr>)" (is "co_inv ?s")
proof -
  have c': "c = (cs_co s)\<lparr>co_requests := co_requests (cs_co s) @
      [\<lparr>rq_message = req, rq_linkID = linkID, rq_resultChan = ch_make 1\<rparr>]\<rparr>"
    using c by (simp add: OnReceive_begin_def split: if_splits)
  have p: "inv_places s" and len: "length (co_requests (cs_co s)) = length (cs_callers s)"
    "length (cs_biz s) = length (cs_callers s)" using inv by (simp_all add: co_inv_def inv_places_def)
  have add: "is_added ?s q = is_added s q" for q by (auto simp: is_added_def nth_append)
  have biz: "cs_biz ?s ! q = cs_biz s ! q" if "q < length (cs_callers s)" for q using that len by (simp add: nth_append)
  have good: "good_result ?s q res" if "good_result s q res" "q < length (cs_callers s)" for q res
    using good_result_mono [OF that(1)] biz [OF that(2)] by simp
  have "inv_places ?s" using p unfolding inv_places_def add by (simp add: c')
  moreover have "inv_chan ?s"
    using inv len by (auto simp: co_inv_def inv_chan_def c' nth_append less_Suc_eq ch_make_def)
  moreover have "inv_batches ?s" using inv by (simp add: co_inv_def inv_batches_def c')
  moreover have "inv_stop ?s" using inv by (simp add: co_inv_def inv_stop_def c' split: option.splits)
  moreover have "inv_results ?s"
  proof -
    have r: "inv_results s" using inv by (simp add: co_inv_def)
    have "cs_biz ?s ! q = k" if "(k, b) \<in> set (co_batches (cs_co ?s))" "q \<in> set (bt_requests b)" for k b q
    proof -
      have "q < length (cs_callers s)" using that place_added(1) [OF p] is_added_lt by (fastforce simp: c')
      then show ?thesis using that r biz by (fastforce simp: c' inv_results_def)
    qed
    moreover have "cs_biz ?s ! q = k" if "TClose k b \<in> set (cs_threads ?s)" "q \<in> set (bt_requests b)" for k b q
    proof -
      have "q < length (cs_callers s)" using that place_added(2) [OF p, of "TClose k b"] is_added_lt by simp
      then show ?thesis using that r biz by (fastforce simp: inv_results_def)
    qed
    moreover have "cs_biz ?s ! q = k" if "TProcess k rs \<in> set (cs_threads ?s)" "q \<in> set rs" for k rs q
    proof -
      have "q < length (cs_callers s)" using that place_added(2) [OF p, of "TProcess k rs"] is_added_lt by simp
      then show ?thesis using that r biz by (fastforce simp: inv_results_def)
    qed
    moreover have "good_result ?s q res" if "TSend xs \<in> set (cs_threads ?s)" "(q, res) \<in> set xs" for xs q res
    proof -
      have "q < length (cs_callers s)"
        using that place_added(2) [OF p, of "TSend xs" q] is_added_lt by force
      then show ?thesis using that r good by (fastforce simp: inv_results_def)
    qed
    moreover have "(\<forall>res \<in> set (ch_buf (rq_resultChan (co_requests (cs_co ?s) ! q))). good_result ?s q res)
          \<and> (\<forall>k. cs_callers ?s ! q = CAdd k \<longrightarrow> cs_biz ?s ! q = k)
          \<and> (\<forall>res. cs_callers ?s ! q = CRet res \<longrightarrow> good_result ?s q res)" if "q < length (cs_callers ?s)" for q
    proof (cases "q < length (cs_callers s)")
      case True
      then have "cs_callers ?s ! q = cs_callers s ! q" "co_requests (cs_co ?s) ! q = co_requests (cs_co s) ! q"
        using len by (simp_all add: c' nth_append)
      then show ?thesis using r True good biz [OF True] by (simp add: inv_results_def)
    next
      case False
      then have "q = length (cs_callers s)" using that by simp
      then show ?thesis using len by (simp add: c' nth_append ch_make_def)
    qed
    ultimately show ?thesis unfolding inv_results_def by blast
  qed
  ultimately show ?thesis by (simp add: co_inv_def)
qed

lemma good_result_same:
  "cs_log s' = cs_log s \<Longrightarrow> cs_biz s' = cs_biz s \<Longrightarrow> good_result s' r res = good_result s r res"
  by (cases res) (simp_all add: good_result_def)

lemma co_timer_inv:
  assumes inv: "co_inv s" and t: "t < length (co_timers (cs_co s))" "co_timers (cs_co s) ! t = (bizID, True)"
  shows "co_inv (s\<lparr>cs_co := (cs_co s)\<lparr>co_timers := (co_timers (cs_co s))[t := (bizID, False)]\<rparr>,
                  cs_threads := cs_threads s @ [TTake bizID]\<rparr>)" (is "co_inv ?s")
proof -
  have add: "is_added ?s q = is_added s q" for q by (simp add: is_added_def)
  have good: "good_result ?s q res = good_result s q res" for q res by (rule good_result_same) simp_all
  have "inv_places ?s" using inv unfolding co_inv_def inv_places_def add by simp
  moreover have "inv_chan ?s" using inv by (simp add: co_inv_def inv_chan_def)
  moreover have "inv_results ?s" using inv unfolding co_inv_def inv_results_def good by simp
  moreover have "inv_stop ?s" using inv
    by (fastforce simp: co_inv_def inv_stop_def list_all_iff nth_append split: option.splits)
  moreover have "inv_batches ?s"
  proof -
    have b: "inv_batches s" using inv by (simp add: co_inv_def)
    have f: "fst ((co_timers (cs_co s))[t := (bizID, False)] ! q) = fst (co_timers (cs_co s) ! q)" for q
      using t by (cases "q = t") simp_all
    have "batch_ok (co_timers (cs_co ?s)) (cs_threads ?s) k x" if "(k, x) \<in> set (co_batches (cs_co s))" for k x
    proof -
      have o: "batch_ok (co_timers (cs_co s)) (cs_threads s) k x" using b that by (auto simp: inv_batches_def)
      show ?thesis
      proof (cases "bt_timer x = t")
        case True
        with o t show ?thesis by (simp add: batch_ok_def)
      next
        case False
        with o show ?thesis by (auto simp: batch_ok_def)
      qed
    qed
    then have "\<forall>(k, b) \<in> set (co_batches (cs_co s)). batch_ok (co_timers (cs_co ?s)) (cs_threads ?s) k b" by blast
    with b show ?thesis by (simp add: inv_batches_def)
  qed
  ultimately show ?thesis by (simp add: co_inv_def)
qed

lemma receive_inv:
  assumes inv: "co_inv s" and r: "r < length (cs_callers s)" "cs_callers s ! r = CWait"
    and ch: "ch_try_recv (rq_resultChan (co_requests (cs_co s) ! r)) = Some (res, ch)"
  shows "co_inv (s\<lparr>cs_co := (cs_co s)\<lparr>co_requests := (co_requests (cs_co s))[r := (co_requests (cs_co s) ! r)\<lparr>rq_resultChan := ch\<rparr>]\<rparr>,
                  cs_callers := (cs_callers s)[r := CRet res]\<rparr>)" (is "co_inv ?s")
proof -
  have p: "inv_places s" and len: "length (co_requests (cs_co s)) = length (cs_callers s)"
    using inv by (simp_all add: co_inv_def inv_places_def)
  have add: "is_added ?s q = is_added s q" for q using r by (cases "q = r") (simp_all add: is_added_def)
  have good: "good_result ?s q x = good_result s q x" for q x by (rule good_result_same) simp_all
  obtain xs where xs: "ch_buf (rq_resultChan (co_requests (cs_co s) ! r)) = res # xs"
    "ch = (rq_resultChan (co_requests (cs_co s) ! r))\<lparr>ch_buf := xs\<rparr>" using ch by (auto simp: ch_try_recv_Some)
  have "length (ch_buf (rq_resultChan (co_requests (cs_co s) ! r))) \<le> 1"
    using inv r by (simp add: co_inv_def inv_chan_def Let_def)
  then have "xs = []" using xs by simp
  have "inv_places ?s" using p unfolding inv_places_def add by simp
  moreover have "inv_chan ?s"
    unfolding inv_chan_def Let_def
  proof (intro allI impI)
    fix q assume "q < length (cs_callers ?s)"
    then show "ch_cap (rq_resultChan (co_requests (cs_co ?s) ! q)) = 1
        \<and> length (ch_buf (rq_resultChan (co_requests (cs_co ?s) ! q))) \<le> 1
        \<and> (q \<notin> set (cs_sent ?s) \<longrightarrow> ch_buf (rq_resultChan (co_requests (cs_co ?s) ! q)) = [])
        \<and> (q \<in> set (cs_sent ?s) \<and> cs_callers ?s ! q = CWait \<longrightarrow> ch_buf (rq_resultChan (co_requests (cs_co ?s) ! q)) \<noteq> [])"
      using inv r len xs \<open>xs = []\<close> by (cases "q = r") (auto simp: co_inv_def inv_chan_def Let_def)
  qed
  moreover have "inv_batches ?s" using inv by (simp add: co_inv_def inv_batches_def)
  moreover have "inv_stop ?s" using inv by (simp add: co_inv_def inv_stop_def split: option.splits)
  moreover have "inv_results ?s"
  proof -
    have res: "inv_results s" using inv by (simp add: co_inv_def)
    have "good_result s r res" using res r xs by (auto simp: inv_results_def)
    then have "(\<forall>x \<in> set (ch_buf (rq_resultChan (co_requests (cs_co ?s) ! q))). good_result s q x)
          \<and> (\<forall>k. cs_callers ?s ! q = CAdd k \<longrightarrow> cs_biz s ! q = k)
          \<and> (\<forall>x. cs_callers ?s ! q = CRet x \<longrightarrow> good_result s q x)" if "q < length (cs_callers s)" for q
      using res that r len xs \<open>xs = []\<close> by (cases "q = r") (auto simp: inv_results_def)
    with res show ?thesis unfolding inv_results_def good by simp
  qed
  ultimately show ?thesis by (simp add: co_inv_def)
qed

lemma unblock_inv:
  assumes inv: "co_inv s" and r: "r < length (cs_callers s)" "cs_callers s ! r = CWait"
  shows "co_inv (s\<lparr>cs_callers := (cs_callers s)[r := CRet (Inl (Sen ErrCoordinatorStopped))]\<rparr>)" (is "co_inv ?s")
proof -
  have add: "is_added ?s q = is_added s q" for q using r by (cases "q = r") (simp_all add: is_added_def)
  have good: "good_result ?s q x = good_result s q x" for q x by (rule good_result_same) simp_all
  have "good_result s r (Inl (Sen ErrCoordinatorStopped))" by (simp add: good_result_def)
  then have "(\<forall>x \<in> set (ch_buf (rq_resultChan (co_requests (cs_co s) ! q))). good_result s q x)
          \<and> (\<forall>k. cs_callers ?s ! q = CAdd k \<longrightarrow> cs_biz s ! q = k)
          \<and> (\<forall>x. cs_callers ?s ! q = CRet x \<longrightarrow> good_result s q x)" if "q < length (cs_callers s)" for q
    using inv that by (cases "q = r") (auto simp: co_inv_def inv_results_def)
  then have "inv_results ?s" using inv unfolding co_inv_def inv_results_def good by simp
  moreover have "inv_chan ?s" using inv r
    unfolding co_inv_def inv_chan_def Let_def by (auto simp: nth_list_update)
  moreover have "inv_places ?s" using inv unfolding co_inv_def inv_places_def add by simp
  ultimately show ?thesis using inv
    by (simp add: co_inv_def inv_batches_def inv_stop_def split: option.splits)
qed

lemma Stop_begin_inv:
  assumes inv: "co_inv s"
  shows "co_inv (Stop_begin s)"
proof (cases "co_stopped (cs_co s)")
  case True
  then show ?thesis using inv by (simp add: Stop_begin_def)
next
  case False
  let ?n = "length (cs_threads s)" and ?ks = "map fst (co_batches (cs_co s))"
  let ?s = "s\<lparr>cs_co := (cs_co s)\<lparr>co_stopped := True\<rparr>, cs_threads := cs_threads s @ map TTake ?ks,
                cs_stop := Some [?n..<?n + length ?ks]\<rparr>"
  have s': "Stop_begin s = ?s" using False by (simp add: Stop_begin_def Let_def)
  have add: "is_added ?s q = is_added s q" for q by (simp add: is_added_def)
  have good: "good_result ?s q x = good_result s q x" for q x by (rule good_result_same) simp_all
  have zero: "cntT t_refs r (map (TTake \<circ> f) ks) = 0" "cntT t_timers r (map (TTake \<circ> f) ks) = 0"
    for r f and ks :: "(int \<times> batch) list" by (induction ks) simp_all
  have places: "inv_places ?s" using inv unfolding co_inv_def inv_places_def add by (simp add: zero)
  have same: "TClose k b \<in> set (cs_threads ?s) \<longleftrightarrow> TClose k b \<in> set (cs_threads s)"
    "TProcess k rs \<in> set (cs_threads ?s) \<longleftrightarrow> TProcess k rs \<in> set (cs_threads s)"
    "TSend xs \<in> set (cs_threads ?s) \<longleftrightarrow> TSend xs \<in> set (cs_threads s)" for k b rs xs by auto
  have mono: "TTake k \<in> set (cs_threads s) \<Longrightarrow> TTake k \<in> set (cs_threads ?s)" for k by simp
  have "inv_chan ?s" using inv by (simp add: co_inv_def inv_chan_def)
  moreover have "inv_batches ?s"
  proof -
    have b: "inv_batches s" using inv by (simp add: co_inv_def)
    have c: "cntT t_timers t (cs_threads ?s) = cntT t_timers t (cs_threads s)" for t by (simp add: zero)
    have "\<forall>(k, b) \<in> set (co_batches (cs_co s)). batch_ok (co_timers (cs_co s)) (cs_threads ?s) k b"
      using b batches_mono [OF _ mono] unfolding inv_batches_def by blast
    then show ?thesis using b unfolding inv_batches_def same c by simp
  qed
  moreover have "inv_results ?s" using inv unfolding co_inv_def inv_results_def good same by simp
  moreover have "inv_stop ?s"
  proof -
    have "co_stopCh (cs_co s) = False" using inv False by (auto simp: co_inv_def inv_stop_def split: option.splits)
    moreover have "\<exists>i \<in> set [?n..<?n + length ?ks]. (cs_threads s @ map TTake ?ks) ! i = TTake k" if k: "k \<in> set ?ks" for k
    proof -
      obtain j where j: "j < length ?ks" "?ks ! j = k" using k unfolding in_set_conv_nth by blast
      show ?thesis by (rule bexI [of _ "?n + j"]) (use j in \<open>simp_all add: nth_append\<close>)
    qed
    ultimately show ?thesis by (simp add: inv_stop_def list_all_iff)
  qed
  ultimately show ?thesis using places unfolding co_inv_def s' by blast
qed

lemma Stop_end_inv:
  assumes inv: "co_inv s" and st: "Stop_end s = Some s'"
  shows "co_inv s' \<and> co_batches (cs_co s) = []"
proof -
  obtain ts where ts: "cs_stop s = Some ts" "list_all (\<lambda>i. cs_threads s ! i = TEnd) ts"
    and s': "s' = s\<lparr>cs_co := (cs_co s)\<lparr>co_stopCh := True, co_batches := []\<rparr>, cs_stop := None\<rparr>"
    using st by (auto simp: Stop_end_def split: option.splits if_splits)
  have "map fst (co_batches (cs_co s)) = []"
  proof (rule ccontr)
    assume "map fst (co_batches (cs_co s)) \<noteq> []"
    then obtain k where "k \<in> set (map fst (co_batches (cs_co s)))" by (cases "co_batches (cs_co s)") auto
    then obtain i where "i \<in> set ts" "cs_threads s ! i = TTake k"
      using inv ts(1) by (auto simp: co_inv_def inv_stop_def)
    with ts(2) show False by (auto simp: list_all_iff)
  qed
  then have e: "co_batches (cs_co s) = []" by simp
  have add: "is_added s' q = is_added s q" for q by (simp add: is_added_def s')
  have good: "good_result s' q x = good_result s q x" for q x by (rule good_result_same) (simp_all add: s')
  have "inv_places s'" using inv unfolding co_inv_def inv_places_def add by (simp add: s' e)
  moreover have "inv_results s'" using inv unfolding co_inv_def inv_results_def good by (simp add: s' e)
  ultimately show ?thesis using inv e ts(1)
    by (simp add: co_inv_def inv_chan_def inv_batches_def inv_stop_def s')
qed

text \<open>Sending the stop error to a caller that comes after \<open>Stop\<close>.\<close>

lemma add_stopped_inv:
  assumes inv: "co_inv s" and r: "r < length (cs_callers s)" "cs_callers s ! r = CAdd k"
  shows "co_inv (s\<lparr>cs_co := co_send r (Inl (Sen ErrCoordinatorStopped)) (cs_co s),
    cs_callers := (cs_callers s)[r := CWait], cs_sent := cs_sent s @ [r]\<rparr>)" (is "co_inv ?s")
proof -
  have p: "inv_places s" and len: "length (co_requests (cs_co s)) = length (cs_callers s)"
    using inv by (simp_all add: co_inv_def inv_places_def)
  have no: "\<not> is_added s r" using r by (simp add: is_added_def)
  have add: "is_added ?s q = (q = r \<or> is_added s q)" for q using r by (cases "q = r") (auto simp: is_added_def)
  have good: "good_result ?s q x = good_result s q x" for q x by (rule good_result_same) simp_all
  have uns: "r \<notin> set (cs_sent s)" using place_added(3) [OF p] no by blast
  have ch: "ch_buf (rq_resultChan (co_requests (cs_co s) ! r)) = []" "ch_cap (rq_resultChan (co_requests (cs_co s) ! r)) = 1"
    using inv r uns by (simp_all add: co_inv_def inv_chan_def Let_def)
  have rc: "rq_resultChan (co_requests (cs_co ?s) ! q)
    = (if q = r then (rq_resultChan (co_requests (cs_co s) ! r))\<lparr>ch_buf := [Inl (Sen ErrCoordinatorStopped)]\<rparr>
       else rq_resultChan (co_requests (cs_co s) ! q))" for q
    using co_send_chan [OF _ ch] r len by simp
  have sizes: "length (co_requests (cs_co s)) = length (cs_callers s)" "length (cs_biz s) = length (cs_callers s)"
    "\<And>q. cntB bt_requests q (co_batches (cs_co s)) + cntT t_refs q (cs_threads s) + count_list (cs_sent s) q
       = (if is_added s q then 1 else 0)" using p by (auto simp: inv_places_def)
  have "cntB bt_requests q (co_batches (cs_co s)) + cntT t_refs q (cs_threads s) + count_list (cs_sent s @ [r]) q
       = (if is_added ?s q then 1 else 0)" for q
    using sizes(3) [of q] no unfolding add by auto
  then have "inv_places ?s" using sizes by (simp add: inv_places_def)
  moreover have "inv_chan ?s" using inv r ch unfolding co_inv_def inv_chan_def Let_def rc
    by (auto simp: nth_list_update)
  moreover have "inv_batches ?s" using inv by (simp add: co_inv_def inv_batches_def)
  moreover have "inv_stop ?s" using inv by (simp add: co_inv_def inv_stop_def split: option.splits)
  moreover have "inv_results ?s"
  proof -
    have res: "inv_results s" using inv by (simp add: co_inv_def)
    have "good_result s r (Inl (Sen ErrCoordinatorStopped))" by (simp add: good_result_def)
    then have "(\<forall>x \<in> set (ch_buf (rq_resultChan (co_requests (cs_co ?s) ! q))). good_result s q x)
          \<and> (\<forall>k. cs_callers ?s ! q = CAdd k \<longrightarrow> cs_biz s ! q = k)
          \<and> (\<forall>x. cs_callers ?s ! q = CRet x \<longrightarrow> good_result s q x)" if "q < length (cs_callers s)" for q
      using res that r unfolding rc by (cases "q = r") (auto simp: inv_results_def)
    with res show ?thesis unfolding inv_results_def good by simp
  qed
  ultimately show ?thesis by (simp add: co_inv_def)
qed

lemma addToBatch_open:
  assumes "\<not> co_stopped c"
  obtains b timers' where
    "addToBatch k r c = (c\<lparr>co_timers := timers', co_batches := sm_store k (b\<lparr>bt_requests := bt_requests b @ [r]\<rparr>) (co_batches c)\<rparr>,
       co_batchSize c \<le> Suc (length (bt_requests b)))"
    and "sm_load (co_batches c) k = Some b \<and> timers' = co_timers c
      \<or> sm_load (co_batches c) k = None \<and> b = \<lparr>bt_bizID = k, bt_requests = [], bt_timer = length (co_timers c), bt_closed = False\<rparr>
        \<and> timers' = co_timers c @ [(k, True)]"
proof (cases "sm_load (co_batches c) k")
  case None
  then show ?thesis
    using assms that [of "\<lparr>bt_bizID = k, bt_requests = [], bt_timer = length (co_timers c), bt_closed = False\<rparr>" "co_timers c @ [(k, True)]"]
    by (simp add: addToBatch_def)
next
  case (Some b)
  then show ?thesis using assms that [of b "co_timers c"] by (simp add: addToBatch_def)
qed

lemma add_batch_inv:
  assumes inv: "co_inv s" and r: "r < length (cs_callers s)" "cs_callers s ! r = CAdd k"
    and run: "\<not> co_stopped (cs_co s)" and add: "addToBatch k r (cs_co s) = (c, go)"
  shows "co_inv (s\<lparr>cs_co := c, cs_callers := (cs_callers s)[r := CWait],
    cs_threads := cs_threads s @ (if go then [TTake k] else [])\<rparr>)" (is "co_inv ?s")
proof -
  obtain b timers' where e: "addToBatch k r (cs_co s) = ((cs_co s)\<lparr>co_timers := timers',
      co_batches := sm_store k (b\<lparr>bt_requests := bt_requests b @ [r]\<rparr>) (co_batches (cs_co s))\<rparr>,
      co_batchSize (cs_co s) \<le> Suc (length (bt_requests b)))"
    and b: "sm_load (co_batches (cs_co s)) k = Some b \<and> timers' = co_timers (cs_co s)
      \<or> sm_load (co_batches (cs_co s)) k = None
        \<and> b = \<lparr>bt_bizID = k, bt_requests = [], bt_timer = length (co_timers (cs_co s)), bt_closed = False\<rparr>
        \<and> timers' = co_timers (cs_co s) @ [(k, True)]"
    by (rule addToBatch_open [OF run, of k r])
  have c: "c = (cs_co s)\<lparr>co_timers := timers',
      co_batches := sm_store k (b\<lparr>bt_requests := bt_requests b @ [r]\<rparr>) (co_batches (cs_co s))\<rparr>"
    using e add by simp
  let ?b = "b\<lparr>bt_requests := bt_requests b @ [r]\<rparr>" and ?m = "co_batches (cs_co s)"
  have p: "inv_places s" and ib: "inv_batches s" and res: "inv_results s" using inv by (simp_all add: co_inv_def)
  have no: "\<not> is_added s r" using r by (simp add: is_added_def)
  have added: "is_added ?s q = (q = r \<or> is_added s q)" for q using r by (cases "q = r") (auto simp: is_added_def)
  have good: "good_result ?s q x = good_result s q x" for q x by (rule good_result_same) simp_all
  have uns: "r \<notin> set (cs_sent s)" using place_added(3) [OF p] no by blast
  have sizes: "length (co_requests (cs_co s)) = length (cs_callers s)" "length (cs_biz s) = length (cs_callers s)"
    "\<And>q. cntB bt_requests q ?m + cntT t_refs q (cs_threads s) + count_list (cs_sent s) q
       = (if is_added s q then 1 else 0)" using p by (auto simp: inv_places_def)
  have refs: "cntB bt_requests q (sm_store k ?b ?m) = cntB bt_requests q ?m + (if q = r then 1 else 0)" for q
    using b cntB_store [of ?m k b bt_requests q ?b] by (auto simp: cntB_store_new)
  have tick: "cntT g q (cs_threads ?s) = cntT g q (cs_threads s)" if "g (TTake k) = []" for g q
    using that by simp
  have "cntB bt_requests q (co_batches (cs_co ?s)) + cntT t_refs q (cs_threads ?s) + count_list (cs_sent ?s) q
       = (if is_added ?s q then 1 else 0)" for q
    using sizes(3) [of q] no refs [of q] unfolding added by (auto simp: c)
  then have "inv_places ?s" using sizes by (simp add: inv_places_def c)
  moreover have "inv_chan ?s" using inv r uns unfolding co_inv_def inv_chan_def Let_def
    by (auto simp: nth_list_update c)
  moreover have "inv_stop ?s" using inv run by (auto simp: co_inv_def inv_stop_def c split: option.splits)
  moreover have "inv_batches ?s"
  proof -
    have mono: "TTake q \<in> set (cs_threads s) \<Longrightarrow> TTake q \<in> set (cs_threads ?s)" for q by simp
    have "batch_ok timers' (cs_threads ?s) q x" if "(q, x) \<in> set (sm_store k ?b ?m)" for q x
    proof (cases "(q, x) \<in> set ?m")
      case True
      then have "batch_ok (co_timers (cs_co s)) (cs_threads s) q x" using ib by (auto simp: inv_batches_def)
      then show ?thesis using b mono by (auto simp: batch_ok_def nth_append)
    next
      case False
      then have "q = k" "x = ?b" using sm_in_store [OF that] by simp_all
      moreover have "batch_ok (co_timers (cs_co s)) (cs_threads s) k b" if "sm_load ?m k = Some b"
        using map_of_SomeD [OF that] ib by (auto simp: inv_batches_def)
      ultimately show ?thesis using b mono by (auto simp: batch_ok_def)
    qed
    then have 1: "\<forall>(q, x) \<in> set (sm_store k ?b ?m). batch_ok timers' (cs_threads ?s) q x" by blast
    have "cntB (\<lambda>b. [bt_timer b]) t (sm_store k ?b ?m) + cntT t_timers t (cs_threads s)
         \<le> (if t < length timers' then 1 else 0)" for t
    proof -
      have "cntB (\<lambda>b. [bt_timer b]) t ?m + cntT t_timers t (cs_threads s)
         \<le> (if t < length (co_timers (cs_co s)) then 1 else 0)" using ib by (simp add: inv_batches_def)
      then show ?thesis
        using b cntB_store [of ?m k b "\<lambda>b. [bt_timer b]" t ?b]
        by (auto simp: cntB_store_new split: if_splits)
    qed
    with 1 ib show ?thesis by (auto simp: inv_batches_def c)
  qed
  moreover have "inv_results ?s"
  proof -
    have "cs_biz s ! q = x" if "(x, y) \<in> set (sm_store k ?b ?m)" "q \<in> set (bt_requests y)" for x y q
    proof (cases "(x, y) \<in> set ?m")
      case True
      then show ?thesis using res that(2) by (auto simp: inv_results_def)
    next
      case False
      then have xy: "x = k" "y = ?b" using sm_in_store [OF that(1)] by simp_all
      have "cs_biz s ! r = k" using res r by (simp add: inv_results_def)
      moreover have "cs_biz s ! q = k" if "q \<in> set (bt_requests b)"
        using that b res by (auto simp: inv_results_def dest!: map_of_SomeD)
      ultimately show ?thesis using that(2) xy by auto
    qed
    then have "\<forall>(x, y) \<in> set (sm_store k ?b ?m). \<forall>q \<in> set (bt_requests y). cs_biz s ! q = x" by blast
    moreover have "(\<forall>x \<in> set (ch_buf (rq_resultChan (co_requests (cs_co s) ! q))). good_result s q x)
          \<and> (\<forall>k. cs_callers ?s ! q = CAdd k \<longrightarrow> cs_biz s ! q = k)
          \<and> (\<forall>x. cs_callers ?s ! q = CRet x \<longrightarrow> good_result s q x)" if "q < length (cs_callers s)" for q
      using res that r by (cases "q = r") (auto simp: inv_results_def)
    ultimately show ?thesis using res unfolding inv_results_def good by (simp add: c)
  qed
  ultimately show ?thesis by (simp add: co_inv_def)
qed

text \<open>A goroutine goes on to its next part.\<close>

lemma set_update_other: "x \<in> set ts \<Longrightarrow> ts ! i \<noteq> x \<Longrightarrow> x \<in> set (ts[i := t])"
proof -
  assume x: "x \<in> set ts" "ts ! i \<noteq> x"
  then obtain j where "j < length ts" "ts ! j = x" unfolding in_set_conv_nth by blast
  moreover from this x(2) have "i \<noteq> j" by auto
  ultimately have "j < length (ts[i := t])" "(ts[i := t]) ! j = x" by simp_all
  then show ?thesis unfolding in_set_conv_nth by blast
qed

lemma set_update_in: "x \<in> set (ts[i := t]) \<Longrightarrow> x = t \<or> x \<in> set ts"
  using set_update_subset_insert [of ts i t] by blast

lemma stop_update:
  assumes "\<forall>k \<in> K. \<exists>j \<in> set js. ts ! j = TTake k" and "K' \<subseteq> K" and "\<forall>k. ts ! i = TTake k \<longrightarrow> k \<notin> K'"
  shows "\<forall>k \<in> K'. \<exists>j \<in> set js. (ts[i := t]) ! j = TTake k"
proof
  fix k assume k: "k \<in> K'"
  then obtain j where "j \<in> set js" "ts ! j = TTake k" using assms by blast
  moreover then have "j \<noteq> i" using k assms(3) by blast
  ultimately show "\<exists>j \<in> set js. (ts[i := t]) ! j = TTake k" by (metis nth_list_update_neq)
qed

lemma thread_inv:
  assumes inv: "co_inv s" and i: "i < length (cs_threads s)"
    and refs: "t_refs t = t_refs (cs_threads s ! i)" and tim: "t_timers t = []"
    and take: "\<forall>k. cs_threads s ! i = TTake k \<longrightarrow> sm_load (co_batches (cs_co s)) k = None"
    and proc: "\<forall>k rs. t \<noteq> TProcess k rs"
    and snd: "\<forall>xs. t = TSend xs \<longrightarrow> (\<forall>(r, res) \<in> set xs. good_result (s\<lparr>cs_log := cs_log s @ l\<rparr>) r res)"
  shows "co_inv (s\<lparr>cs_threads := (cs_threads s)[i := t], cs_log := cs_log s @ l\<rparr>)" (is "co_inv ?s")
proof -
  let ?m = "co_batches (cs_co s)"
  have p: "inv_places s" and ib: "inv_batches s" and res: "inv_results s" and st: "inv_stop s"
    using inv by (simp_all add: co_inv_def)
  have add: "is_added ?s q = is_added s q" for q by (simp add: is_added_def)
  have good: "good_result ?s q x" if "good_result s q x" for q x using good_result_mono [OF that, of ?s] by simp
  have good2: "good_result ?s q x = good_result (s\<lparr>cs_log := cs_log s @ l\<rparr>) q x" for q x by (rule good_result_same) simp_all
  have cnt: "cntT t_refs q (cs_threads ?s) = cntT t_refs q (cs_threads s)" for q
    using cntT_update [OF i, of t_refs q t] refs by simp
  have notc: "t \<noteq> TClose k b" for k b using tim by auto
  have absent: "k \<notin> fst ` set ?m" if "cs_threads s ! i = TTake k" for k using take that by (simp add: map_of_eq_None_iff)
  have "inv_places ?s" using p unfolding inv_places_def add cnt by simp
  moreover have "inv_chan ?s" using inv by (simp add: co_inv_def inv_chan_def)
  moreover have "inv_batches ?s"
  proof -
    have "batch_ok (co_timers (cs_co s)) (cs_threads ?s) k b" if "(k, b) \<in> set ?m" for k b
    proof -
      have "cs_threads s ! i \<noteq> TTake k" using absent that by force
      then have "TTake k \<in> set (cs_threads s) \<Longrightarrow> TTake k \<in> set (cs_threads ?s)"
        using set_update_other [of "TTake k" "cs_threads s" i t] by simp
      then show ?thesis using ib that batch_ok_mono by (fastforce simp: inv_batches_def)
    qed
    then have 1: "\<forall>(k, b) \<in> set ?m. batch_ok (co_timers (cs_co s)) (cs_threads ?s) k b" by blast
    have "cntT t_timers q (cs_threads ?s) \<le> cntT t_timers q (cs_threads s)" for q
      using cntT_update [OF i, of t_timers q t] tim by simp
    then have 2: "\<forall>q. cntB (\<lambda>b. [bt_timer b]) q ?m + cntT t_timers q (cs_threads ?s)
      \<le> (if q < length (co_timers (cs_co s)) then 1 else 0)"
      using ib unfolding inv_batches_def by (meson add_left_mono le_trans)
    have "TClose k b \<in> set (cs_threads s)" if "TClose k b \<in> set (cs_threads ?s)" for k b
      using set_update_in [of "TClose k b"] that notc by fastforce
    then have 3: "\<forall>k b. TClose k b \<in> set (cs_threads ?s) \<longrightarrow> bt_requests b \<noteq> [] \<and> \<not> bt_closed b"
      using ib unfolding inv_batches_def by blast
    show ?thesis using ib 1 2 3 unfolding inv_batches_def by simp
  qed
  moreover have "inv_stop ?s"
    using st stop_update [of "fst ` set ?m" _ "cs_threads s" "fst ` set ?m" i t] absent
    by (auto simp: inv_stop_def split: option.splits)
  moreover have "inv_results ?s"
  proof -
    have "TClose k b \<in> set (cs_threads s)" if "TClose k b \<in> set (cs_threads ?s)" for k b
      using set_update_in [of "TClose k b"] that notc by fastforce
    then have 1: "\<forall>k b. TClose k b \<in> set (cs_threads ?s) \<longrightarrow> (\<forall>r \<in> set (bt_requests b). cs_biz s ! r = k)"
      using res unfolding inv_results_def by blast
    have "TProcess k b \<in> set (cs_threads s)" if "TProcess k b \<in> set (cs_threads ?s)" for k b
      using set_update_in [of "TProcess k b"] that proc by fastforce
    then have 2: "\<forall>k rs. TProcess k rs \<in> set (cs_threads ?s) \<longrightarrow> (\<forall>r \<in> set rs. cs_biz s ! r = k)"
      using res unfolding inv_results_def by blast
    have "\<forall>(r, x) \<in> set xs. good_result ?s r x" if "TSend xs \<in> set (cs_threads ?s)" for xs
      using set_update_in [of "TSend xs" "cs_threads s" i t] that snd res good unfolding good2 [symmetric]
      by (fastforce simp: inv_results_def)
    moreover have "(\<forall>x \<in> set (ch_buf (rq_resultChan (co_requests (cs_co s) ! q))). good_result ?s q x)
          \<and> (\<forall>k. cs_callers s ! q = CAdd k \<longrightarrow> cs_biz s ! q = k)
          \<and> (\<forall>x. cs_callers s ! q = CRet x \<longrightarrow> good_result ?s q x)" if "q < length (cs_callers s)" for q
      using res that good by (auto simp: inv_results_def)
    ultimately show ?thesis using res 1 2 unfolding inv_results_def by simp
  qed
  ultimately show ?thesis by (simp add: co_inv_def)
qed

lemma thread_end_inv:
  assumes "co_inv s" and "i < length (cs_threads s)" and "t_refs (cs_threads s ! i) = []"
    and "\<forall>k. cs_threads s ! i = TTake k \<longrightarrow> sm_load (co_batches (cs_co s)) k = None"
  shows "co_inv (s\<lparr>cs_threads := (cs_threads s)[i := TEnd]\<rparr>)"
proof -
  have "co_inv (s\<lparr>cs_threads := (cs_threads s)[i := TEnd], cs_log := cs_log s @ []\<rparr>)"
    by (rule thread_inv [OF assms(1,2)]) (use assms(3,4) in simp_all)
  moreover have "s\<lparr>cs_threads := (cs_threads s)[i := TEnd], cs_log := cs_log s @ []\<rparr> = s\<lparr>cs_threads := (cs_threads s)[i := TEnd]\<rparr>"
    by (cases s) simp
  ultimately show ?thesis by simp
qed

lemma take_inv:
  assumes inv: "co_inv s" and i: "i < length (cs_threads s)" "cs_threads s ! i = TTake k"
    and b: "sm_load (co_batches (cs_co s)) k = Some b"
  shows "co_inv (s\<lparr>cs_co := (cs_co s)\<lparr>co_batches := sm_delete k (co_batches (cs_co s))\<rparr>,
    cs_threads := (cs_threads s)[i := TClose k b]\<rparr>)" (is "co_inv ?s")
proof -
  let ?m = "co_batches (cs_co s)" and ?T = "TClose k b"
  have p: "inv_places s" and ib: "inv_batches s" and res: "inv_results s" and st: "inv_stop s"
    using inv by (simp_all add: co_inv_def)
  have ok: "sm_ok ?m" using ib by (simp add: inv_batches_def)
  have kb: "(k, b) \<in> set ?m" using b by (rule map_of_SomeD)
  have bok: "batch_ok (co_timers (cs_co s)) (cs_threads s) k b" using ib kb by (auto simp: inv_batches_def)
  have add: "is_added ?s q = is_added s q" for q by (simp add: is_added_def)
  have good: "good_result ?s q x = good_result s q x" for q x by (rule good_result_same) simp_all
  have refs: "cntB bt_requests q (sm_delete k ?m) + cntT t_refs q ((cs_threads s)[i := ?T])
    = cntB bt_requests q ?m + cntT t_refs q (cs_threads s)" for q
    using cntB_delete [OF ok b, of bt_requests q] cntT_update [OF i(1), of t_refs q ?T] i(2) by simp
  have tims: "cntB (\<lambda>b. [bt_timer b]) q (sm_delete k ?m) + cntT t_timers q ((cs_threads s)[i := ?T])
    = cntB (\<lambda>b. [bt_timer b]) q ?m + cntT t_timers q (cs_threads s)" for q
    using cntB_delete [OF ok b, of "\<lambda>b. [bt_timer b]" q] cntT_update [OF i(1), of t_timers q ?T] i(2) by simp
  have "inv_places ?s" using p unfolding inv_places_def add by (simp add: refs)
  moreover have "inv_chan ?s" using inv by (simp add: co_inv_def inv_chan_def)
  moreover have "inv_batches ?s"
  proof -
    have "batch_ok (co_timers (cs_co s)) (cs_threads ?s) x y" if "(x, y) \<in> set (sm_delete k ?m)" for x y
    proof -
      have xy: "x \<noteq> k" "(x, y) \<in> set ?m" using that by simp_all
      then have "TTake x \<in> set (cs_threads s) \<Longrightarrow> TTake x \<in> set (cs_threads ?s)"
        using set_update_other [of "TTake x" "cs_threads s" i ?T] i(2) by simp
      then show ?thesis using ib xy(2) batch_ok_mono by (fastforce simp: inv_batches_def)
    qed
    then have 1: "\<forall>(x, y) \<in> set (sm_delete k ?m). batch_ok (co_timers (cs_co s)) (cs_threads ?s) x y" by blast
    have 3: "\<forall>x y. TClose x y \<in> set (cs_threads ?s) \<longrightarrow> bt_requests y \<noteq> [] \<and> \<not> bt_closed y"
    proof (intro allI impI)
      fix x y assume "TClose x y \<in> set (cs_threads ?s)"
      then have "TClose x y = ?T \<or> TClose x y \<in> set (cs_threads s)" using set_update_in [of "TClose x y" "cs_threads s" i ?T] by simp
      then show "bt_requests y \<noteq> [] \<and> \<not> bt_closed y"
        using bok ib by (auto simp: batch_ok_def inv_batches_def)
    qed
    show ?thesis using ib ok 1 3 unfolding inv_batches_def by (simp add: tims)
  qed
  moreover have "inv_stop ?s"
  proof (cases "cs_stop s")
    case None
    then show ?thesis using st by (simp add: inv_stop_def)
  next
    case (Some js)
    have "set (map fst (sm_delete k ?m)) \<subseteq> set (map fst ?m)" "k \<notin> set (map fst (sm_delete k ?m))" by auto
    then show ?thesis using st Some i(2)
        stop_update [of "set (map fst ?m)" js "cs_threads s" "set (map fst (sm_delete k ?m))" i ?T]
      by (simp add: inv_stop_def)
  qed
  moreover have "inv_results ?s"
  proof -
    have 0: "\<forall>r \<in> set (bt_requests b). cs_biz s ! r = k" using res kb by (auto simp: inv_results_def)
    have 1: "\<forall>x y. TClose x y \<in> set (cs_threads ?s) \<longrightarrow> (\<forall>r \<in> set (bt_requests y). cs_biz s ! r = x)"
    proof (intro allI impI)
      fix x y assume "TClose x y \<in> set (cs_threads ?s)"
      then have "TClose x y = ?T \<or> TClose x y \<in> set (cs_threads s)" using set_update_in [of "TClose x y" "cs_threads s" i ?T] by simp
      then show "\<forall>r \<in> set (bt_requests y). cs_biz s ! r = x" using 0 res by (auto simp: inv_results_def)
    qed
    have 2: "TProcess x y \<in> set (cs_threads s)" if "TProcess x y \<in> set ((cs_threads s)[i := ?T])" for x y
      using set_update_in [OF that] by simp
    have 4: "TSend y \<in> set (cs_threads s)" if "TSend y \<in> set ((cs_threads s)[i := ?T])" for y
      using set_update_in [OF that] by simp
    have 5: "\<forall>x y. TProcess x y \<in> set ((cs_threads s)[i := ?T]) \<longrightarrow> (\<forall>r \<in> set y. cs_biz s ! r = x)"
      "\<forall>y. TSend y \<in> set ((cs_threads s)[i := ?T]) \<longrightarrow> (\<forall>(r, x) \<in> set y. good_result s r x)"
      using 2 4 inv_resultsD(3,4) [OF res] by blast+
    have 6: "\<forall>(x, y) \<in> set (sm_delete k ?m). \<forall>r \<in> set (bt_requests y). cs_biz s ! r = x"
      using inv_resultsD(1) [OF res] by auto
    show ?thesis using res 1 5 6 unfolding inv_results_def good by simp
  qed
  ultimately show ?thesis by (simp add: co_inv_def)
qed

text \<open>Disarming the timer of the own batch.\<close>

lemma close_inv:
  assumes inv: "co_inv s" and i: "i < length (cs_threads s)" "cs_threads s ! i = TClose k b"
    and c: "close_batch b (cs_co s) = Some (b', c)"
  shows "co_inv (s\<lparr>cs_co := c, cs_threads := (cs_threads s)[i := TProcess k (bt_requests b')]\<rparr>)" (is "co_inv ?s")
proof -
  let ?m = "co_batches (cs_co s)" and ?T = "TProcess k (bt_requests b)" and ?ti = "co_timers (cs_co s)"
  let ?ti' = "?ti[bt_timer b := (fst (?ti ! bt_timer b), False)]"
  have b': "bt_requests b' = bt_requests b" and c': "c = (cs_co s)\<lparr>co_timers := ?ti'\<rparr>"
    using c by (auto simp: close_batch_def split: if_splits)
  have p: "inv_places s" and ib: "inv_batches s" and res: "inv_results s" and st: "inv_stop s"
    using inv by (simp_all add: co_inv_def)
  have mem: "TClose k b \<in> set (cs_threads s)" using i by (metis nth_mem)
  have add: "is_added ?s q = is_added s q" for q by (simp add: is_added_def)
  have good: "good_result ?s q x = good_result s q x" for q x by (rule good_result_same) simp_all
  have refs: "cntT t_refs q ((cs_threads s)[i := ?T]) = cntT t_refs q (cs_threads s)" for q
    using cntT_update [OF i(1), of t_refs q ?T] i(2) by simp
  have tims: "cntT t_timers q ((cs_threads s)[i := ?T]) \<le> cntT t_timers q (cs_threads s)" for q
    using cntT_update [OF i(1), of t_timers q ?T] by simp
  have own: "bt_timer y \<noteq> bt_timer b" if "(x, y) \<in> set ?m" for x y
  proof
    assume e: "bt_timer y = bt_timer b"
    have "cntB (\<lambda>b. [bt_timer b]) (bt_timer b) ?m + cntT t_timers (bt_timer b) (cs_threads s)
        \<le> (if bt_timer b < length ?ti then 1 else 0)"
      using ib unfolding inv_batches_def by blast
    also have "\<dots> \<le> 1" by simp
    finally have "cntB (\<lambda>b. [bt_timer b]) (bt_timer b) ?m + cntT t_timers (bt_timer b) (cs_threads s) \<le> 1" .
    then show False using cntB_pos [OF that, of "bt_timer b" "\<lambda>b. [bt_timer b]"] e
        cntT_pos [OF mem, of "bt_timer b" t_timers] by simp
  qed
  have "inv_places ?s" using p unfolding inv_places_def add by (simp add: b' c' refs)
  moreover have "inv_chan ?s" using inv by (simp add: co_inv_def inv_chan_def c')
  moreover have "inv_batches ?s"
  proof -
    have "batch_ok ?ti' (cs_threads ?s) x y" if "(x, y) \<in> set ?m" for x y
    proof -
      have "batch_ok ?ti (cs_threads s) x y" using ib that by (auto simp: inv_batches_def)
      moreover have "TTake x \<in> set (cs_threads s) \<Longrightarrow> TTake x \<in> set (cs_threads ?s)"
        using set_update_other [of "TTake x" "cs_threads s" i ?T] i(2) by (simp add: b')
      ultimately show ?thesis using own [OF that] by (auto simp: batch_ok_def)
    qed
    then have 1: "\<forall>(x, y) \<in> set ?m. batch_ok ?ti' (cs_threads ?s) x y" by blast
    have 2: "cntB (\<lambda>b. [bt_timer b]) q ?m + cntT t_timers q ((cs_threads s)[i := ?T])
      \<le> (if q < length ?ti then 1 else 0)" for q
      using ib tims [of q] unfolding inv_batches_def by (meson add_left_mono le_trans)
    have 3: "TClose x y \<in> set (cs_threads s)" if "TClose x y \<in> set ((cs_threads s)[i := ?T])" for x y
      using set_update_in [OF that] by simp
    have 4: "\<forall>x y. TClose x y \<in> set ((cs_threads s)[i := ?T]) \<longrightarrow> bt_requests y \<noteq> [] \<and> \<not> bt_closed y"
      by (blast dest: 3 inv_batchesD(2) [OF ib])
    show ?thesis using ib 1 2 4 unfolding inv_batches_def by (simp add: b' c')
  qed
  moreover have "inv_stop ?s"
    using st stop_update [of "fst ` set ?m" _ "cs_threads s" "fst ` set ?m" i ?T] i(2)
    by (auto simp: inv_stop_def c' b' split: option.splits)
  moreover have "inv_results ?s"
  proof -
    have 1: "TClose x y \<in> set (cs_threads s)" if "TClose x y \<in> set ((cs_threads s)[i := ?T])" for x y
      using set_update_in [OF that] by simp
    have 2: "TProcess x y \<in> set (cs_threads s) \<or> x = k \<and> y = bt_requests b" if "TProcess x y \<in> set ((cs_threads s)[i := ?T])" for x y
      using set_update_in [OF that] by auto
    have 4: "TSend y \<in> set (cs_threads s)" if "TSend y \<in> set ((cs_threads s)[i := ?T])" for y
      using set_update_in [OF that] by simp
    have 0: "\<forall>r \<in> set (bt_requests b). cs_biz s ! r = k" using inv_resultsD(2) [OF res mem] .
    have 5: "\<forall>x y. TClose x y \<in> set ((cs_threads s)[i := ?T]) \<longrightarrow> (\<forall>r \<in> set (bt_requests y). cs_biz s ! r = x)"
      "\<forall>x y. TProcess x y \<in> set ((cs_threads s)[i := ?T]) \<longrightarrow> (\<forall>r \<in> set y. cs_biz s ! r = x)"
      "\<forall>y. TSend y \<in> set ((cs_threads s)[i := ?T]) \<longrightarrow> (\<forall>(r, x) \<in> set y. good_result s r x)"
      using 0 1 2 4 inv_resultsD(2,3,4) [OF res] by blast+
    show ?thesis using res 5 unfolding inv_results_def good by (simp add: c' b')
  qed
  ultimately show ?thesis by (simp add: co_inv_def)
qed

lemma send_inv:
  assumes inv: "co_inv s" and i: "i < length (cs_threads s)" "cs_threads s ! i = TSend ((r, x) # rest)"
  shows "co_inv (s\<lparr>cs_co := co_send r x (cs_co s), cs_sent := cs_sent s @ [r],
    cs_threads := (cs_threads s)[i := TSend rest]\<rparr>)" (is "co_inv ?s")
proof -
  let ?m = "co_batches (cs_co s)" and ?T = "TSend rest"
  have p: "inv_places s" and ib: "inv_batches s" and res: "inv_results s" and st: "inv_stop s"
    using inv by (simp_all add: co_inv_def)
  have mem: "TSend ((r, x) # rest) \<in> set (cs_threads s)" using i by (metis nth_mem)
  have len: "length (co_requests (cs_co s)) = length (cs_callers s)" using p by (simp add: inv_places_def)
  have "is_added s r" and uns: "r \<notin> set (cs_sent s)"
    using place_added(2) [OF p mem] place_unsent [OF p mem] by simp_all
  then have r: "r < length (cs_callers s)" and nadd: "\<And>k. cs_callers s ! r \<noteq> CAdd k" by (simp_all add: is_added_def)
  have add: "is_added ?s q = is_added s q" for q by (simp add: is_added_def)
  have good: "good_result ?s q y = good_result s q y" for q y by (rule good_result_same) simp_all
  have gx: "good_result s r x" using inv_resultsD(4) [OF res mem] by simp
  have ch: "ch_buf (rq_resultChan (co_requests (cs_co s) ! r)) = []" "ch_cap (rq_resultChan (co_requests (cs_co s) ! r)) = 1"
    using inv r uns by (simp_all add: co_inv_def inv_chan_def Let_def)
  have rc: "rq_resultChan (co_requests (cs_co ?s) ! q)
    = (if q = r then (rq_resultChan (co_requests (cs_co s) ! r))\<lparr>ch_buf := [x]\<rparr>
       else rq_resultChan (co_requests (cs_co s) ! q))" for q
    using co_send_chan [OF _ ch] r len by simp
  have refs: "cntT t_refs q ((cs_threads s)[i := ?T]) + count_list (cs_sent s @ [r]) q
    = cntT t_refs q (cs_threads s) + count_list (cs_sent s) q" for q
    using cntT_update [OF i(1), of t_refs q ?T] i(2) by auto
  have tims: "cntT t_timers q ((cs_threads s)[i := ?T]) = cntT t_timers q (cs_threads s)" for q
    using cntT_update [OF i(1), of t_timers q ?T] i(2) by simp
  have "cntB bt_requests q ?m + cntT t_refs q ((cs_threads s)[i := ?T]) + count_list (cs_sent s @ [r]) q
    = (if is_added s q then 1 else 0)" for q
    using p refs [of q] unfolding inv_places_def by (metis add.assoc)
  then have "inv_places ?s" using p unfolding inv_places_def add by simp
  moreover have "inv_chan ?s" using inv r ch unfolding co_inv_def inv_chan_def Let_def rc
    by (auto simp: nth_list_update)
  moreover have "inv_batches ?s"
  proof -
    have "TTake k \<in> set (cs_threads s) \<Longrightarrow> TTake k \<in> set (cs_threads ?s)" for k
      using set_update_other [of "TTake k" "cs_threads s" i ?T] i(2) by simp
    then have 1: "\<forall>(k, b) \<in> set ?m. batch_ok (co_timers (cs_co s)) (cs_threads ?s) k b"
      using ib batches_mono unfolding inv_batches_def by blast
    have 3: "TClose y z \<in> set (cs_threads s)" if "TClose y z \<in> set ((cs_threads s)[i := ?T])" for y z
      using set_update_in [OF that] by simp
    have 4: "\<forall>y z. TClose y z \<in> set ((cs_threads s)[i := ?T]) \<longrightarrow> bt_requests z \<noteq> [] \<and> \<not> bt_closed z"
      by (blast dest: 3 inv_batchesD(2) [OF ib])
    show ?thesis using ib 1 4 tims unfolding inv_batches_def by simp
  qed
  moreover have "inv_stop ?s"
    using st stop_update [of "fst ` set ?m" _ "cs_threads s" "fst ` set ?m" i ?T] i(2)
    by (auto simp: inv_stop_def split: option.splits)
  moreover have "inv_results ?s"
  proof -
    have 1: "TClose y z \<in> set (cs_threads s)" if "TClose y z \<in> set ((cs_threads s)[i := ?T])" for y z
      using set_update_in [OF that] by simp
    have 2: "TProcess y z \<in> set (cs_threads s)" if "TProcess y z \<in> set ((cs_threads s)[i := ?T])" for y z
      using set_update_in [OF that] by simp
    have 4: "TSend y \<in> set (cs_threads s) \<or> y = rest" if "TSend y \<in> set ((cs_threads s)[i := ?T])" for y
      using set_update_in [OF that] by auto
    have 0: "\<forall>(r, x) \<in> set rest. good_result s r x" using inv_resultsD(4) [OF res mem] by simp
    have 5: "\<forall>y z. TClose y z \<in> set ((cs_threads s)[i := ?T]) \<longrightarrow> (\<forall>r \<in> set (bt_requests z). cs_biz s ! r = y)"
      "\<forall>y z. TProcess y z \<in> set ((cs_threads s)[i := ?T]) \<longrightarrow> (\<forall>r \<in> set z. cs_biz s ! r = y)"
      "\<forall>y. TSend y \<in> set ((cs_threads s)[i := ?T]) \<longrightarrow> (\<forall>(r, x) \<in> set y. good_result s r x)"
      using 0 1 2 4 inv_resultsD(2,3,4) [OF res] by blast+
    have 6: "(\<forall>y \<in> set (ch_buf (rq_resultChan (co_requests (cs_co ?s) ! q))). good_result s q y)
          \<and> (\<forall>k. cs_callers s ! q = CAdd k \<longrightarrow> cs_biz s ! q = k)
          \<and> (\<forall>y. cs_callers s ! q = CRet y \<longrightarrow> good_result s q y)" if "q < length (cs_callers s)" for q
      using res that r gx unfolding rc by (cases "q = r") (auto simp: inv_results_def)
    show ?thesis using res 5 6 unfolding inv_results_def good by simp
  qed
  ultimately show ?thesis by (simp add: co_inv_def)
qed

lemma distribute_refs: "map fst (distribute refs ans) = refs"
  by (auto simp: distribute_def distributeError_def distributeResults_def o_def split: sum.splits)

lemma distribute_good:
  assumes "(k, refs, ans) \<in> set (cs_log s)" and "\<forall>r \<in> set refs. cs_biz s ! r = k" and "(r, x) \<in> set (distribute refs ans)"
  shows "good_result s r x"
proof -
  have "r \<in> set (map fst (distribute refs ans))" using assms(3) by force
  then have r: "r \<in> set refs" unfolding distribute_refs .
  consider e where "ans = Inl e" "x = Inl e"
    | resps where "ans = Inr resps" "length resps \<noteq> length refs" "x = Inl (Sen ErrBatchResponseMismatch)"
    | resps j where "ans = Inr resps" "length resps = length refs" "j < length refs" "refs ! j = r" "x = Inr (resps ! j)"
    using assms(3) by (auto simp: distribute_def distributeError_def distributeResults_def set_zip split: sum.splits if_splits)
  then show ?thesis using assms(1,2) r by cases (auto simp: good_result_def)
qed

lemma trigger_inv:
  assumes inv: "co_inv s" and step: "trigger_step i ans s = Some s'"
  shows "co_inv s'"
proof -
  have i: "i < length (cs_threads s)" using step by (simp add: trigger_step_def split: if_splits)
  have mem: "cs_threads s ! i \<in> set (cs_threads s)" using i by simp
  have ib: "inv_batches s" and res: "inv_results s" using inv by (simp_all add: co_inv_def)
  show ?thesis
  proof (cases "cs_threads s ! i")
    case (TTake k)
    show ?thesis
    proof (cases "sm_load (co_batches (cs_co s)) k")
      case None
      then have "s' = s\<lparr>cs_threads := (cs_threads s)[i := TEnd]\<rparr>"
        using step i TTake by (simp add: trigger_step_def Let_def take_batch_def)
      then show ?thesis using thread_end_inv [OF inv i] TTake None by simp
    next
      case (Some b)
      then show ?thesis using step i TTake take_inv [OF inv i TTake Some]
        by (simp add: trigger_step_def Let_def take_batch_def)
    qed
  next
    case (TClose k b)
    then have "bt_requests b \<noteq> [] \<and> \<not> bt_closed b" using inv_batchesD(2) [OF ib] mem by simp
    then obtain b' c where "close_batch b (cs_co s) = Some (b', c)" by (simp add: close_batch_def)
    then show ?thesis using step i TClose close_inv [OF inv i TClose] by (auto simp: trigger_step_def Let_def)
  next
    case (TProcess k refs)
    let ?s = "s\<lparr>cs_log := cs_log s @ [(k, refs, ans)]\<rparr>"
    have "s' = s\<lparr>cs_log := cs_log s @ [(k, refs, ans)], cs_threads := (cs_threads s)[i := TSend (distribute refs ans)]\<rparr>"
      using step i TProcess by (simp add: trigger_step_def Let_def)
    also have "\<dots> = s\<lparr>cs_threads := (cs_threads s)[i := TSend (distribute refs ans)], cs_log := cs_log s @ [(k, refs, ans)]\<rparr>"
      by (cases s) simp
    finally have s': "s' = s\<lparr>cs_threads := (cs_threads s)[i := TSend (distribute refs ans)], cs_log := cs_log s @ [(k, refs, ans)]\<rparr>" .
    have "\<forall>r \<in> set refs. cs_biz s ! r = k" using inv_resultsD(3) [OF res] mem TProcess by simp
    then have "\<forall>(r, x) \<in> set (distribute refs ans). good_result ?s r x"
      using distribute_good [of k refs ans ?s] by auto
    then show ?thesis unfolding s' by (intro thread_inv [OF inv i]) (simp_all add: TProcess distribute_refs)
  next
    case (TSend xs)
    show ?thesis
    proof (cases xs)
      case Nil
      then have "s' = s\<lparr>cs_threads := (cs_threads s)[i := TEnd]\<rparr>"
        using step i TSend by (simp add: trigger_step_def Let_def)
      then show ?thesis using thread_end_inv [OF inv i] TSend Nil by simp
    next
      case (Cons a rest)
      obtain r x where a: "a = (r, x)" by (cases a)
      have "s' = s\<lparr>cs_co := co_send r x (cs_co s), cs_sent := cs_sent s @ [r],
        cs_threads := (cs_threads s)[i := TSend rest]\<rparr>"
        using step i TSend Cons a by (simp add: trigger_step_def Let_def)
      then show ?thesis using send_inv [OF inv i] TSend Cons a by simp
    qed
  next
    case TEnd
    then show ?thesis using step i by (simp add: trigger_step_def)
  qed
qed

lemma co_step_inv: "co_step s s' \<Longrightarrow> co_inv s \<Longrightarrow> co_inv s'"
proof (induction rule: co_step.induct)
  case (co_add r s bizID c go)
  show ?case
  proof (cases "co_stopped (cs_co s)")
    case True
    then show ?thesis using add_stopped_inv [OF co_add.prems co_add.hyps(1,2)] co_add.hyps(3)
      by (auto simp: addToBatch_def)
  next
    case False
    then show ?thesis using add_batch_inv [OF co_add.prems co_add.hyps(1,2) False co_add.hyps(3)] by simp
  qed
qed (auto intro: co_call_inv co_timer_inv trigger_inv receive_inv unblock_inv Stop_begin_inv dest: Stop_end_inv)


interpretation cos: inv_system co_init co_step co_inv
  by unfold_locales (auto intro: co_init_inv co_step_inv)

subsection \<open>Schedules\<close>

text \<open>A schedule names the steps, so that concrete runs can be evaluated.\<close>

datatype co_move =
    MCall string on_receive_request int | MAdd nat | MTimer nat
  | MTrigger nat "gerr + on_receive_response list" | MReceive nat | MUnblock nat | MStop | MStopped

fun co_do :: "co_move \<Rightarrow> co_sys \<Rightarrow> co_sys option" where
  "co_do (MCall linkID req bizID) s =
     (case OnReceive_begin linkID req (cs_co s) of
        None \<Rightarrow> None
      | Some (r, c) \<Rightarrow> Some (s\<lparr>cs_co := c, cs_callers := cs_callers s @ [CAdd bizID], cs_biz := cs_biz s @ [bizID]\<rparr>))"
| "co_do (MAdd r) s =
     (if r < length (cs_callers s) then
        (case cs_callers s ! r of
           CAdd bizID \<Rightarrow>
             (case addToBatch bizID r (cs_co s) of (c, go) \<Rightarrow>
                Some (s\<lparr>cs_co := c, cs_callers := (cs_callers s)[r := CWait],
                  cs_threads := cs_threads s @ (if go then [TTake bizID] else []),
                  cs_sent := cs_sent s @ (if co_stopped (cs_co s) then [r] else [])\<rparr>))
         | _ \<Rightarrow> None)
      else None)"
| "co_do (MTimer t) s =
     (if t < length (co_timers (cs_co s)) then
        (case co_timers (cs_co s) ! t of
           (bizID, True) \<Rightarrow> Some (s\<lparr>cs_co := (cs_co s)\<lparr>co_timers := (co_timers (cs_co s))[t := (bizID, False)]\<rparr>,
                  cs_threads := cs_threads s @ [TTake bizID]\<rparr>)
         | _ \<Rightarrow> None)
      else None)"
| "co_do (MTrigger i answer) s = trigger_step i answer s"
| "co_do (MReceive r) s =
     (if r < length (cs_callers s) \<and> cs_callers s ! r = CWait then
        (case ch_try_recv (rq_resultChan (co_requests (cs_co s) ! r)) of
           None \<Rightarrow> None
         | Some (res, ch) \<Rightarrow>
             Some (s\<lparr>cs_co := (cs_co s)\<lparr>co_requests := (co_requests (cs_co s))[r := (co_requests (cs_co s) ! r)\<lparr>rq_resultChan := ch\<rparr>]\<rparr>,
                  cs_callers := (cs_callers s)[r := CRet res]\<rparr>))
      else None)"
| "co_do (MUnblock r) s =
     (if r < length (cs_callers s) \<and> cs_callers s ! r = CWait \<and> co_stopCh (cs_co s)
      then Some (s\<lparr>cs_callers := (cs_callers s)[r := CRet (Inl (Sen ErrCoordinatorStopped))]\<rparr>) else None)"
| "co_do MStop s = Some (Stop_begin s)"
| "co_do MStopped s = Stop_end s"

fun co_run :: "co_move list \<Rightarrow> co_sys \<Rightarrow> co_sys option" where
  "co_run [] s = Some s"
| "co_run (m # ms) s = (case co_do m s of None \<Rightarrow> None | Some s' \<Rightarrow> co_run ms s')"

lemma co_do_step: "co_do m s = Some s' \<Longrightarrow> co_step s s'"
proof (cases m)
  case (MAdd r)
  assume "co_do m s = Some s'"
  then obtain k c go where h: "r < length (cs_callers s)" "cs_callers s ! r = CAdd k" "addToBatch k r (cs_co s) = (c, go)"
    "s' = s\<lparr>cs_co := c, cs_callers := (cs_callers s)[r := CWait],
        cs_threads := cs_threads s @ (if go then [TTake k] else []),
        cs_sent := cs_sent s @ (if co_stopped (cs_co s) then [r] else [])\<rparr>"
    using MAdd by (simp split: caller.splits prod.splits if_splits)
  show "co_step s s'" unfolding h(4) by (rule co_add [OF h(1,2,3)])
qed (auto intro: co_step.intros split: option.splits prod.splits if_splits bool.splits)

lemma co_run_reach: "co_run ms s = Some s' \<Longrightarrow> reach co_init co_step s \<Longrightarrow> reach co_init co_step s'"
  by (induction ms arbitrary: s) (auto dest: co_do_step intro: reach_step split: option.splits)

lemma co_run_steps: "co_run ms s = Some s' \<Longrightarrow> co_step\<^sup>*\<^sup>* s s'"
  by (induction ms arbitrary: s) (auto dest: co_do_step intro: converse_rtranclp_into_rtranclp split: option.splits)

definition co_start :: "nat \<Rightarrow> int \<Rightarrow> co_sys" where
  "co_start sz timeout = \<lparr>cs_co = NewCoordinator sz timeout, cs_threads = [], cs_callers = [],
     cs_stop = None, cs_biz = [], cs_sent = [], cs_log = []\<rparr>"

lemma co_start_reach: "reach co_init co_step (co_start sz timeout)"
  by (rule reach_init) (auto simp: co_init_def co_start_def)


subsection \<open>Properties\<close>

definition ex_rq :: "nat \<Rightarrow> on_receive_request" where
  "ex_rq n = \<lparr>req_key = [], req_body = replicate n 0\<rparr>"

definition ex_rs :: "nat \<Rightarrow> on_receive_response" where
  "ex_rs n = \<lparr>resp_msgId = int n, resp_bizId = 7\<rparr>"

definition ex_full_run :: "co_move list" where
  "ex_full_run = [MCall [] (ex_rq 1) 7, MCall [] (ex_rq 2) 7, MAdd 1, MAdd 0, MTrigger 0 (Inr []), MTrigger 0 (Inr []),
     MTrigger 0 (Inr [ex_rs 1, ex_rs 2]), MTrigger 0 (Inr []), MTrigger 0 (Inr []), MReceive 0]"

text \<open>
  The coordinator's own work: timers that fire, triggering goroutines whose processor answers \<open>ans\<close>, and waiting
  callers that receive. Nobody calls, nobody stops the coordinator, and no caller is released by the stop channel.
\<close>

inductive co_work :: "(gerr + on_receive_response list) \<Rightarrow> co_sys \<Rightarrow> co_sys \<Rightarrow> bool" for ans where
  work_timer: "t < length (co_timers (cs_co s)) \<Longrightarrow> co_timers (cs_co s) ! t = (bizID, True) \<Longrightarrow>
     co_work ans s (s\<lparr>cs_co := (cs_co s)\<lparr>co_timers := (co_timers (cs_co s))[t := (bizID, False)]\<rparr>,
                  cs_threads := cs_threads s @ [TTake bizID]\<rparr>)"
| work_trigger: "trigger_step i ans s = Some s' \<Longrightarrow> co_work ans s s'"
| work_receive: "r < length (cs_callers s) \<Longrightarrow> cs_callers s ! r = CWait \<Longrightarrow>
     ch_try_recv (rq_resultChan (co_requests (cs_co s) ! r)) = Some (res, ch) \<Longrightarrow>
     co_work ans s (s\<lparr>cs_co := (cs_co s)\<lparr>co_requests := (co_requests (cs_co s))[r := (co_requests (cs_co s) ! r)\<lparr>rq_resultChan := ch\<rparr>]\<rparr>,
                  cs_callers := (cs_callers s)[r := CRet res]\<rparr>)"

lemma co_work_step: "co_work ans s t \<Longrightarrow> co_step s t"
  by (induction rule: co_work.induct) (blast intro: co_step.intros)+

lemma co_work_steps: "(co_work ans)\<^sup>*\<^sup>* s t \<Longrightarrow> co_step\<^sup>*\<^sup>* s t"
  by (metis co_work_step mono_rtranclp)

text \<open>A goroutine that runs on alone delivers what it holds.\<close>

definition delivered :: "(gerr + on_receive_response list) \<Rightarrow> co_sys \<Rightarrow> (nat \<times> result) list \<Rightarrow> co_sys \<Rightarrow> bool" where
  "delivered ans s xs s' \<longleftrightarrow> (co_work ans)\<^sup>*\<^sup>* s s' \<and> cs_callers s' = cs_callers s
     \<and> co_batches (cs_co s') = co_batches (cs_co s)
     \<and> (\<forall>(r, x) \<in> set xs. ch_buf (rq_resultChan (co_requests (cs_co s') ! r)) = [x])
     \<and> (\<forall>r. r \<notin> fst ` set xs \<longrightarrow> rq_resultChan (co_requests (cs_co s') ! r) = rq_resultChan (co_requests (cs_co s) ! r))"

lemma finish_send:
  "co_inv s \<Longrightarrow> i < length (cs_threads s) \<Longrightarrow> cs_threads s ! i = TSend xs \<Longrightarrow>
   \<exists>s'. delivered ans s xs s' \<and> cs_threads s' ! i = TEnd"
proof (induction xs arbitrary: s)
  case Nil
  have "co_work ans s (s\<lparr>cs_threads := (cs_threads s)[i := TEnd]\<rparr>)"
    by (rule work_trigger [of i ans]) (use Nil in \<open>simp add: trigger_step_def Let_def\<close>)
  then show ?case using Nil by (intro exI [of _ "s\<lparr>cs_threads := (cs_threads s)[i := TEnd]\<rparr>"]) (simp add: delivered_def)
next
  case (Cons a rest)
  obtain r x where a: "a = (r, x)" by (cases a)
  let ?s = "s\<lparr>cs_co := co_send r x (cs_co s), cs_sent := cs_sent s @ [r], cs_threads := (cs_threads s)[i := TSend rest]\<rparr>"
  have inv: "co_inv s" and i: "i < length (cs_threads s)" "cs_threads s ! i = TSend ((r, x) # rest)" using Cons a by simp_all
  have inv': "co_inv ?s" by (rule send_inv [OF inv i])
  have step: "co_work ans s ?s"
    by (rule work_trigger [of i ans]) (use i in \<open>simp add: trigger_step_def Let_def\<close>)
  obtain s' where s': "delivered ans ?s rest s'" "cs_threads s' ! i = TEnd" using Cons.IH [OF inv'] i by auto
  have mem: "TSend ((r, x) # rest) \<in> set (cs_threads s)" using i by (metis nth_mem)
  have p: "inv_places s" "inv_places ?s" using inv inv' by (simp_all add: co_inv_def)
  have "r < length (cs_callers s)" "r \<notin> set (cs_sent s)"
    using place_added(2) [OF p(1) mem] place_unsent [OF p(1) mem] by (simp_all add: is_added_def)
  then have rc: "rq_resultChan (co_requests (cs_co ?s) ! q)
    = (if q = r then (rq_resultChan (co_requests (cs_co s) ! r))\<lparr>ch_buf := [x]\<rparr> else rq_resultChan (co_requests (cs_co s) ! q))" for q
    using inv p(1) co_send_chan [of r "cs_co s" x q] by (simp add: co_inv_def inv_chan_def Let_def inv_places_def)
  have "TSend rest \<in> set (cs_threads ?s)" using i by (simp add: set_update_memI)
  then have "r \<notin> fst ` set rest" using place_unsent [OF p(2), of "TSend rest" r] by auto
  then have "ch_buf (rq_resultChan (co_requests (cs_co s') ! r)) = [x]"
    using s'(1) rc [of r] by (simp add: delivered_def)
  moreover have "rq_resultChan (co_requests (cs_co s') ! q) = rq_resultChan (co_requests (cs_co s) ! q)"
    if "q \<noteq> r" "q \<notin> fst ` set rest" for q using s'(1) rc [of q] that by (simp add: delivered_def)
  ultimately show ?case using s' step unfolding a
    by (intro exI [of _ s']) (auto simp: delivered_def intro: converse_rtranclp_into_rtranclp)
qed

lemma finish_process:
  assumes "co_inv s" and "i < length (cs_threads s)" and "cs_threads s ! i = TProcess k refs"
  shows "\<exists>s'. delivered ans s (distribute refs ans) s' \<and> cs_threads s' ! i = TEnd"
proof -
  obtain s1 where s1: "trigger_step i ans s = Some s1" using assms by (simp add: trigger_step_def Let_def)
  then have e: "s1 = s\<lparr>cs_log := cs_log s @ [(k, refs, ans)], cs_threads := (cs_threads s)[i := TSend (distribute refs ans)]\<rparr>"
    using assms by (simp add: trigger_step_def Let_def)
  have "co_inv s1" using trigger_inv [OF assms(1) s1] .
  then obtain s' where "delivered ans s1 (distribute refs ans) s'" "cs_threads s' ! i = TEnd"
    using finish_send [of s1 i "distribute refs ans"] assms(2) e by auto
  then show ?thesis using work_trigger [OF s1] e
    by (intro exI [of _ s']) (auto simp: delivered_def intro: converse_rtranclp_into_rtranclp)
qed

lemma finish_close:
  assumes "co_inv s" and "i < length (cs_threads s)" and "cs_threads s ! i = TClose k b"
  shows "\<exists>s'. delivered ans s (distribute (bt_requests b) ans) s' \<and> cs_threads s' ! i = TEnd"
proof -
  have "TClose k b \<in> set (cs_threads s)" using assms(2,3) by (metis nth_mem)
  moreover have "inv_batches s" using assms(1) by (simp add: co_inv_def)
  ultimately have "bt_requests b \<noteq> [] \<and> \<not> bt_closed b" by (simp add: inv_batchesD(2))
  then obtain s1 where s1: "trigger_step i ans s = Some s1" and e: "i < length (cs_threads s1)"
      "cs_threads s1 ! i = TProcess k (bt_requests b)"
      "cs_callers s1 = cs_callers s" "co_requests (cs_co s1) = co_requests (cs_co s)" "co_batches (cs_co s1) = co_batches (cs_co s)"
    using assms by (simp add: trigger_step_def Let_def close_batch_def)
  obtain s' where "delivered ans s1 (distribute (bt_requests b) ans) s'" "cs_threads s' ! i = TEnd"
    using finish_process [OF trigger_inv [OF assms(1) s1] e(1,2), of ans] by auto
  then show ?thesis using work_trigger [OF s1] e
    by (intro exI [of _ s']) (auto simp: delivered_def intro: converse_rtranclp_into_rtranclp)
qed

lemma finish_take:
  assumes "co_inv s" and "i < length (cs_threads s)" and "cs_threads s ! i = TTake k"
    and "sm_load (co_batches (cs_co s)) k = Some b"
  shows "\<exists>s1 s'. co_work ans s s1 \<and> delivered ans s1 (distribute (bt_requests b) ans) s' \<and> cs_threads s' ! i = TEnd
    \<and> cs_callers s1 = cs_callers s \<and> co_batches (cs_co s1) = sm_delete k (co_batches (cs_co s))"
proof -
  obtain s1 where s1: "trigger_step i ans s = Some s1" and e: "i < length (cs_threads s1)"
      "cs_threads s1 ! i = TClose k b" "cs_callers s1 = cs_callers s" "co_batches (cs_co s1) = sm_delete k (co_batches (cs_co s))"
    using assms by (simp add: trigger_step_def Let_def take_batch_def)
  then show ?thesis using finish_close [OF trigger_inv [OF assms(1) s1] e(1,2), of ans] work_trigger [OF s1] by blast
qed

text \<open>C8. What a caller of \<open>OnReceive\<close> gets is the answer the processor gave for exactly this request,
  at its position in a batch of its own business whose answers were as many as its requests; or the
  error of the whole batch, or the mismatch error, or the stop error; answers are never mixed up
  between requests or businesses, in any interleaving.\<close>

theorem coordinator_answers_match:
  assumes "reach co_init co_step s" and "r < length (cs_callers s)" and "cs_callers s ! r = CRet res"
  shows "case res of
      Inr resp \<Rightarrow> \<exists>refs resps j. (cs_biz s ! r, refs, Inr resps) \<in> set (cs_log s) \<and> length resps = length refs
        \<and> j < length refs \<and> refs ! j = r \<and> resps ! j = resp
    | Inl e \<Rightarrow> e = Sen ErrCoordinatorStopped
        \<or> (\<exists>refs ans. (cs_biz s ! r, refs, ans) \<in> set (cs_log s) \<and> r \<in> set refs
             \<and> (ans = Inl e \<or> (\<exists>resps. ans = Inr resps \<and> length resps \<noteq> length refs \<and> e = Sen ErrBatchResponseMismatch)))"
proof -
  have "good_result s r res" using cos.reach_inv [OF assms(1)] assms(2,3) by (simp add: co_inv_def inv_results_def)
  then show ?thesis by (cases res) (auto simp: good_result_def)
qed

theorem coordinator_answers_match_witness:
  "\<exists>s. reach co_init co_step s \<and> cs_callers s ! 0 = CRet (Inr (ex_rs 2)) \<and> cs_log s = [(7, [1, 0], Inr [ex_rs 1, ex_rs 2])]
     \<and> (\<exists>refs resps j. (cs_biz s ! 0, refs, Inr resps) \<in> set (cs_log s) \<and> length resps = length refs
        \<and> j < length refs \<and> refs ! j = 0 \<and> resps ! j = ex_rs 2)"
proof -
  let ?s = "the (co_run ex_full_run (co_start 2 10))"
  have run: "co_run ex_full_run (co_start 2 10) = Some ?s" by code_simp
  have c: "0 < length (cs_callers ?s)" "cs_callers ?s ! 0 = CRet (Inr (ex_rs 2))"
    "cs_log ?s = [(7, [1, 0], Inr [ex_rs 1, ex_rs 2])]" by code_simp+
  have r: "reach co_init co_step ?s" using co_run_reach [OF run co_start_reach] .
  show ?thesis using coordinator_answers_match [OF r c(1,2)] r c(2,3) by (intro exI [of _ ?s]) simp
qed

lemma coordinator_one_place:
  assumes "reach co_init co_step s" and "r < length (cs_callers s)" and "cs_callers s ! r = CWait"
  shows "cntB bt_requests r (co_batches (cs_co s)) + cntT t_refs r (cs_threads s) + count_list (cs_sent s) r = 1"
  using cos.reach_inv [OF assms(1)] assms(2,3) by (simp add: co_inv_def inv_places_def is_added_def)

lemma waiting_cases:
  assumes "reach co_init co_step s" and "r < length (cs_callers s)" and "cs_callers s ! r = CWait"
  shows "(\<exists>x xs. ch_buf (rq_resultChan (co_requests (cs_co s) ! r)) = x # xs)
    \<or> (\<exists>i < length (cs_threads s). r \<in> set (t_refs (cs_threads s ! i)))
    \<or> (\<exists>b. sm_load (co_batches (cs_co s)) (cs_biz s ! r) = Some b \<and> r \<in> set (bt_requests b)
          \<and> (co_timers (cs_co s) ! bt_timer b = (cs_biz s ! r, True) \<and> bt_timer b < length (co_timers (cs_co s))
             \<or> (\<exists>i < length (cs_threads s). cs_threads s ! i = TTake (cs_biz s ! r))))"
proof -
  have inv: "inv_places s" "inv_chan s" "inv_batches s" "inv_results s"
    using cos.reach_inv [OF assms(1)] by (simp_all add: co_inv_def)
  show ?thesis
  proof (cases "r \<in> set (cs_sent s)")
    case True
    then show ?thesis using inv(2) assms(2,3) by (simp add: inv_chan_def Let_def neq_Nil_conv)
  next
    case False
    then have "0 < cntB bt_requests r (co_batches (cs_co s)) \<or> 0 < cntT t_refs r (cs_threads s)"
      using coordinator_one_place [OF assms] by (auto simp: count_list_0_iff)
    then show ?thesis
    proof
      assume "0 < cntT t_refs r (cs_threads s)"
      then have "\<exists>t \<in> set (cs_threads s). r \<in> set (t_refs t)" by (rule cntT_pos_ex)
      then show ?thesis unfolding Bex_def in_set_conv_nth by blast
    next
      assume "0 < cntB bt_requests r (co_batches (cs_co s))"
      then obtain k b where kb: "(k, b) \<in> set (co_batches (cs_co s))" "r \<in> set (bt_requests b)"
        using cntB_pos_ex by blast
      have "cs_biz s ! r = k" using inv_resultsD(1) [OF inv(4) kb(1)] kb(2) by blast
      moreover have "sm_load (co_batches (cs_co s)) k = Some b"
        using inv(3) kb(1) by (simp add: inv_batches_def sm_in_iff)
      moreover have "co_timers (cs_co s) ! bt_timer b = (k, True) \<and> bt_timer b < length (co_timers (cs_co s))
          \<or> (\<exists>i < length (cs_threads s). cs_threads s ! i = TTake k)"
        using inv_batchesD(1) [OF inv(3) kb(1)] by (auto simp: batch_ok_def prod_eq_iff in_set_conv_nth)
      ultimately show ?thesis using kb(2) by blast
    qed
  qed
qed


text \<open>C9. No caller is forgotten: the request of a waiting caller is either
  answered in its channel, or held by one goroutine that has still to answer it, or in the open batch of
  its business, whose timer is armed unless a goroutine that will take this batch exists already.\<close>

theorem coordinator_no_lost_caller:
  assumes "reach co_init co_step s" and "r < length (cs_callers s)" and "cs_callers s ! r = CWait"
  shows "ch_buf (rq_resultChan (co_requests (cs_co s) ! r)) \<noteq> []
    \<or> (\<exists>t \<in> set (cs_threads s). r \<in> set (t_refs t))
    \<or> (\<exists>b. sm_load (co_batches (cs_co s)) (cs_biz s ! r) = Some b \<and> r \<in> set (bt_requests b)
          \<and> (co_timers (cs_co s) ! bt_timer b = (cs_biz s ! r, True) \<or> TTake (cs_biz s ! r) \<in> set (cs_threads s)))"
proof -
  have "TTake k \<in> set (cs_threads s)" if "i < length (cs_threads s)" "cs_threads s ! i = TTake k" for i k
    using that by (metis nth_mem)
  then show ?thesis using waiting_cases [OF assms] unfolding neq_Nil_conv by (meson nth_mem)
qed

theorem coordinator_no_lost_caller_witness:
  "\<exists>s. reach co_init co_step s \<and> cs_callers s ! 0 = CWait \<and> cs_threads s = []
     \<and> sm_load (co_batches (cs_co s)) (cs_biz s ! 0) \<noteq> None \<and> snd (co_timers (cs_co s) ! 0)"
proof -
  let ?run = "[MCall [] (ex_rq 1) 7, MAdd 0]"
  let ?s = "the (co_run ?run (co_start 2 10))"
  have run: "co_run ?run (co_start 2 10) = Some ?s" by code_simp
  have c: "0 < length (cs_callers ?s)" "cs_callers ?s ! 0 = CWait" "cs_threads ?s = []"
    "ch_buf (rq_resultChan (co_requests (cs_co ?s) ! 0)) = []" "snd (co_timers (cs_co ?s) ! 0)" by code_simp+
  have r: "reach co_init co_step ?s" using co_run_reach [OF run co_start_reach] .
  then have "sm_load (co_batches (cs_co ?s)) (cs_biz ?s ! 0) \<noteq> None"
    using coordinator_no_lost_caller [OF r c(1,2)] unfolding c(3,4) by auto
  then show ?thesis using r c(2,3,5) by blast
qed

lemma can_receive:
  assumes "r < length (cs_callers s)" and "cs_callers s ! r = CWait"
    and "ch_buf (rq_resultChan (co_requests (cs_co s) ! r)) = [x]"
  shows "\<exists>s'. co_work ans s s' \<and> cs_callers s' = (cs_callers s)[r := CRet x]"
proof -
  have "ch_try_recv (rq_resultChan (co_requests (cs_co s) ! r)) = Some (x, (rq_resultChan (co_requests (cs_co s) ! r))\<lparr>ch_buf := []\<rparr>)"
    using assms(3) by (simp add: ch_try_recv_def)
  from work_receive [OF assms(1,2) this] show ?thesis by (auto intro!: exI)
qed

lemma delivered_can_receive:
  assumes "delivered ans s xs s'" and "(r, x) \<in> set xs" and "r < length (cs_callers s)" and "cs_callers s ! r = CWait"
  shows "\<exists>t. (co_work ans)\<^sup>*\<^sup>* s t \<and> cs_callers t = (cs_callers s)[r := CRet x]"
proof -
  have "ch_buf (rq_resultChan (co_requests (cs_co s') ! r)) = [x]" using assms(1,2) by (auto simp: delivered_def)
  then obtain t where "co_work ans s' t" "cs_callers t = (cs_callers s)[r := CRet x]"
    using can_receive [of r s' x ans] assms by (auto simp: delivered_def)
  then show ?thesis using assms(1) by (auto simp: delivered_def intro: rtranclp.rtrancl_into_rtrancl)
qed

text \<open>What the request at position \<open>j\<close> of a batch of \<open>n\<close> requests is to get.\<close>

definition answer_at :: "(gerr + on_receive_response list) \<Rightarrow> nat \<Rightarrow> nat \<Rightarrow> result" where
  "answer_at ans n j = (case ans of Inl e \<Rightarrow> Inl e
     | Inr resps \<Rightarrow> if length resps = n then Inr (resps ! j) else Inl (Sen ErrBatchResponseMismatch))"

lemma distribute_at: "j < length refs \<Longrightarrow> (refs ! j, answer_at ans (length refs) j) \<in> set (distribute refs ans)"
  by (auto simp: distribute_def distributeError_def distributeResults_def answer_at_def set_zip split: sum.splits)

text \<open>The requests the processor has still to be asked about together: an open batch, one a goroutine has taken, or one
  it is being called for.\<close>

definition unprocessed :: "co_sys \<Rightarrow> nat list \<Rightarrow> bool" where
  "unprocessed s refs \<longleftrightarrow>
     (\<exists>k b. sm_load (co_batches (cs_co s)) k = Some b \<and> refs = bt_requests b)
     \<or> (\<exists>k b. TClose k b \<in> set (cs_threads s) \<and> refs = bt_requests b)
     \<or> (\<exists>k. TProcess k refs \<in> set (cs_threads s))"

lemma take_can_receive:
  assumes "co_inv s" and "TTake k \<in> set (cs_threads s)" and "sm_load (co_batches (cs_co s)) k = Some b"
    and "j < length (bt_requests b)" and "bt_requests b ! j < length (cs_callers s)" and "cs_callers s ! (bt_requests b ! j) = CWait"
  shows "\<exists>t. (co_work ans)\<^sup>*\<^sup>* s t
    \<and> cs_callers t = (cs_callers s)[bt_requests b ! j := CRet (answer_at ans (length (bt_requests b)) j)]"
proof -
  obtain i where i: "i < length (cs_threads s)" "cs_threads s ! i = TTake k" using assms(2) by (metis in_set_conv_nth)
  obtain s1 s' where s: "co_work ans s s1" "delivered ans s1 (distribute (bt_requests b) ans) s'" "cs_callers s1 = cs_callers s"
    using finish_take [OF assms(1) i assms(3), of ans] by blast
  then show ?thesis using delivered_can_receive [OF s(2) distribute_at [OF assms(4)]] assms(5,6)
    by (auto intro: converse_rtranclp_into_rtranclp)
qed

text \<open>C10. A waiting caller whose request the processor has not been asked about yet is served by the coordinator's own
  work: the timer of its batch, one goroutine, and its own receive, without another call and without a stop,
  lead to a state in which it has returned, with the processor's answer at the position of its request, the
  processor's error, or the mismatch error; and no other caller has been touched.\<close>

theorem coordinator_caller_served:
  assumes reach: "reach co_init co_step s" and u: "unprocessed s refs" "j < length refs"
    and r: "refs ! j < length (cs_callers s)" "cs_callers s ! (refs ! j) = CWait"
  shows "\<exists>t. (co_work ans)\<^sup>*\<^sup>* s t \<and> cs_callers t = (cs_callers s)[refs ! j := CRet (answer_at ans (length refs) j)]"
proof -
  have inv: "co_inv s" using cos.reach_inv [OF reach] .
  from u(1) consider k b where "sm_load (co_batches (cs_co s)) k = Some b" "refs = bt_requests b"
    | i k b where "i < length (cs_threads s)" "cs_threads s ! i = TClose k b" "refs = bt_requests b"
    | i k where "i < length (cs_threads s)" "cs_threads s ! i = TProcess k refs"
    unfolding unprocessed_def in_set_conv_nth by blast
  then show ?thesis
  proof cases
    case (1 k b)
    have "(k, b) \<in> set (co_batches (cs_co s))" using 1(1) by (simp add: map_of_SomeD)
    then have "batch_ok (co_timers (cs_co s)) (cs_threads s) k b" using inv inv_batchesD(1) by (simp add: co_inv_def)
    then consider "TTake k \<in> set (cs_threads s)"
      | "bt_timer b < length (co_timers (cs_co s))" "co_timers (cs_co s) ! bt_timer b = (k, True)"
      by (auto simp: batch_ok_def prod_eq_iff)
    then show ?thesis
    proof cases
      case A: 1
      show ?thesis using take_can_receive [OF inv A 1(1)] u(2) r 1(2) by simp
    next
      case 2
      let ?s = "s\<lparr>cs_co := (cs_co s)\<lparr>co_timers := (co_timers (cs_co s))[bt_timer b := (k, False)]\<rparr>,
                    cs_threads := cs_threads s @ [TTake k]\<rparr>"
      have step: "co_work ans s ?s" by (rule work_timer [OF 2])
      have "\<exists>t. (co_work ans)\<^sup>*\<^sup>* ?s t \<and> cs_callers t = (cs_callers ?s)[refs ! j := CRet (answer_at ans (length refs) j)]"
        using take_can_receive [of ?s k b j ans] 1 u(2) r co_step_inv [OF co_work_step [OF step] inv] by simp
      then show ?thesis using step by (auto intro: converse_rtranclp_into_rtranclp)
    qed
  next
    case (2 i k b)
    then show ?thesis using finish_close [OF inv 2(1,2), of ans] delivered_can_receive [OF _ distribute_at [OF u(2)] r] by metis
  next
    case (3 i k)
    then show ?thesis using finish_process [OF inv 3, of ans] delivered_can_receive [OF _ distribute_at [OF u(2)] r] by metis
  qed
qed

theorem coordinator_caller_served_witness:
  "\<exists>s t. reach co_init co_step s \<and> cs_callers s = [CWait] \<and> cs_threads s = [] \<and> \<not> co_stopped (cs_co s)
     \<and> (co_work (Inr [ex_rs 5]))\<^sup>*\<^sup>* s t \<and> cs_callers t = [CRet (Inr (ex_rs 5))]"
proof -
  let ?run = "[MCall [] (ex_rq 1) 7, MAdd 0]"
  let ?s = "the (co_run ?run (co_start 2 10))"
  let ?b = "the (sm_load (co_batches (cs_co ?s)) 7)"
  have run: "co_run ?run (co_start 2 10) = Some ?s" by code_simp
  have c: "cs_callers ?s = [CWait]" "cs_threads ?s = []" "\<not> co_stopped (cs_co ?s)"
    "sm_load (co_batches (cs_co ?s)) 7 = Some ?b" "bt_requests ?b = [0]" by code_simp+
  have r: "reach co_init co_step ?s" using co_run_reach [OF run co_start_reach] .
  have "unprocessed ?s [0]" using c(4,5) unfolding unprocessed_def by metis
  from coordinator_caller_served [OF r this, of 0 "Inr [ex_rs 5]"] obtain t where
    "(co_work (Inr [ex_rs 5]))\<^sup>*\<^sup>* ?s t" "cs_callers t = [CRet (Inr (ex_rs 5))]"
    unfolding c(1) by (auto simp: answer_at_def)
  then show ?thesis using r c(1-3) by blast
qed

text \<open>A goroutine that takes the batch of a business and runs on answers every request of the batch:
  the request at each position gets the answer at this position, or all get the error, or all get the
  mismatch error when the number of answers is wrong; each channel was empty, so no answer is dropped,
  and the batch is no longer in the map.\<close>

theorem coordinator_trigger_answers:
  assumes "reach co_init co_step s" and "i < length (cs_threads s)" and "cs_threads s ! i = TTake k"
    and "sm_load (co_batches (cs_co s)) k = Some b"
  shows "\<exists>t. co_step\<^sup>*\<^sup>* s t \<and> cs_threads t ! i = TEnd \<and> sm_load (co_batches (cs_co t)) k = None
    \<and> (\<forall>j < length (bt_requests b). ch_buf (rq_resultChan (co_requests (cs_co t) ! (bt_requests b ! j)))
         = [case ans of Inl e \<Rightarrow> Inl e
            | Inr resps \<Rightarrow> if length resps = length (bt_requests b) then Inr (resps ! j) else Inl (Sen ErrBatchResponseMismatch)])"
proof -
  obtain s1 t where t: "co_work ans s s1" "delivered ans s1 (distribute (bt_requests b) ans) t" "cs_threads t ! i = TEnd"
      "co_batches (cs_co s1) = sm_delete k (co_batches (cs_co s))"
    using finish_take [OF cos.reach_inv [OF assms(1)] assms(2-4)] by blast
  have "(bt_requests b ! j, case ans of Inl e \<Rightarrow> Inl e
      | Inr resps \<Rightarrow> if length resps = length (bt_requests b) then Inr (resps ! j) else Inl (Sen ErrBatchResponseMismatch))
      \<in> set (distribute (bt_requests b) ans)" if "j < length (bt_requests b)" for j
    using that by (auto simp: distribute_def distributeError_def distributeResults_def set_zip split: sum.splits)
  then have "ch_buf (rq_resultChan (co_requests (cs_co t) ! (bt_requests b ! j)))
         = [case ans of Inl e \<Rightarrow> Inl e
            | Inr resps \<Rightarrow> if length resps = length (bt_requests b) then Inr (resps ! j) else Inl (Sen ErrBatchResponseMismatch)]"
    if "j < length (bt_requests b)" for j using t(2) that by (fastforce simp: delivered_def)
  moreover have "co_step\<^sup>*\<^sup>* s t" using t(1,2) co_work_step [OF t(1)] co_work_steps [of ans s1 t]
    by (auto simp: delivered_def intro: converse_rtranclp_into_rtranclp)
  moreover have "sm_load (co_batches (cs_co t)) k = None" using t(2,4) by (simp add: delivered_def)
  ultimately show ?thesis using t(3) by blast
qed

theorem coordinator_trigger_answers_witness:
  "\<exists>s t. co_step\<^sup>*\<^sup>* s t \<and> cs_threads s = [TTake 7]
     \<and> ch_buf (rq_resultChan (co_requests (cs_co t) ! 1)) = [Inr (ex_rs 1)]
     \<and> ch_buf (rq_resultChan (co_requests (cs_co t) ! 0)) = [Inr (ex_rs 2)]"
proof -
  let ?run = "[MCall [] (ex_rq 1) 7, MCall [] (ex_rq 2) 7, MAdd 1, MAdd 0]"
  let ?s = "the (co_run ?run (co_start 2 10))"
  let ?b = "the (sm_load (co_batches (cs_co ?s)) 7)"
  have run: "co_run ?run (co_start 2 10) = Some ?s" by code_simp
  have c: "cs_threads ?s = [TTake 7]" "sm_load (co_batches (cs_co ?s)) 7 = Some ?b" "bt_requests ?b = [1, 0]" by code_simp+
  have r: "reach co_init co_step ?s" using co_run_reach [OF run co_start_reach] .
  obtain t where t: "co_step\<^sup>*\<^sup>* ?s t"
    "\<forall>j < length (bt_requests ?b). ch_buf (rq_resultChan (co_requests (cs_co t) ! (bt_requests ?b ! j)))
         = [case Inr [ex_rs 1, ex_rs 2] of Inl e \<Rightarrow> Inl e
            | Inr resps \<Rightarrow> if length resps = length (bt_requests ?b) then Inr (resps ! j) else Inl (Sen ErrBatchResponseMismatch)]"
    using coordinator_trigger_answers [OF r, of 0 7 ?b "Inr [ex_rs 1, ex_rs 2]"] c by auto
  have "ch_buf (rq_resultChan (co_requests (cs_co t) ! 1)) = [Inr (ex_rs 1)]"
    "ch_buf (rq_resultChan (co_requests (cs_co t) ! 0)) = [Inr (ex_rs 2)]"
    using t(2) [rule_format, of 0] t(2) [rule_format, of 1] unfolding c(3) by simp_all
  then show ?thesis using t(1) c(1) by blast
qed

text \<open>Stopping: when \<open>Stop\<close> has finished there is no open batch left, and a coordinator that is
  stopped accepts no request and opens no batch.\<close>

theorem coordinator_stop_drains:
  assumes "reach co_init co_step s"
  shows "(co_stopCh (cs_co s) \<longrightarrow> co_stopped (cs_co s) \<and> co_batches (cs_co s) = [])
    \<and> (Stop_end s \<noteq> None \<longrightarrow> co_batches (cs_co s) = [])
    \<and> (co_stopped (cs_co s) \<longrightarrow> OnReceive_begin linkID req (cs_co s) = None
         \<and> co_batches (fst (addToBatch bizID r (cs_co s))) = co_batches (cs_co s))"
proof -
  have inv: "co_inv s" using cos.reach_inv [OF assms] .
  then have 1: "co_stopCh (cs_co s) \<Longrightarrow> co_stopped (cs_co s) \<and> co_batches (cs_co s) = []"
    by (auto simp: co_inv_def inv_stop_def split: option.splits)
  have 2: "Stop_end s \<noteq> None \<Longrightarrow> co_batches (cs_co s) = []" using Stop_end_inv [OF inv] by blast
  show ?thesis using 1 2 by (simp add: OnReceive_begin_def addToBatch_def)
qed

definition ex_inflight_run :: "co_move list" where
  "ex_inflight_run = [MCall [] (ex_rq 1) 7, MAdd 0, MTrigger 0 (Inr []), MTrigger 0 (Inr []), MStop, MStopped,
     MUnblock 0, MTrigger 0 (Inr [ex_rs 1])]"

theorem coordinator_stop_drains_witness:
  "\<exists>s. reach co_init co_step s \<and> co_stopCh (cs_co s) \<and> co_batches (cs_co s) = []
     \<and> OnReceive_begin [] (ex_rq 1) (cs_co s) = None"
proof -
  let ?s = "the (co_run ex_inflight_run (co_start 1 10))"
  have run: "co_run ex_inflight_run (co_start 1 10) = Some ?s" by code_simp
  have c: "co_stopCh (cs_co ?s)" by code_simp
  have r: "reach co_init co_step ?s" using co_run_reach [OF run co_start_reach] .
  show ?thesis using coordinator_stop_drains [OF r] c r by blast
qed

text \<open>\<open>Stop\<close> waits only for the goroutines it started: a batch taken before by another goroutine may still
  be with the processor, and its caller then gets the stop error although its request is processed.\<close>

theorem coordinator_stop_inflight:
  "\<exists>s resp. reach co_init co_step s \<and> co_stopCh (cs_co s) \<and> cs_callers s = [CRet (Inl (Sen ErrCoordinatorStopped))]
     \<and> cs_log s = [(7, [0], Inr [resp])]"
proof -
  let ?s = "the (co_run ex_inflight_run (co_start 1 10))"
  have run: "co_run ex_inflight_run (co_start 1 10) = Some ?s" by code_simp
  have c: "co_stopCh (cs_co ?s)" "cs_callers ?s = [CRet (Inl (Sen ErrCoordinatorStopped))]"
    "cs_log ?s = [(7, [0], Inr [ex_rs 1])]" by code_simp+
  show ?thesis using co_run_reach [OF run co_start_reach] c by blast
qed

end
