(* ===== verification/GW_Batch.thy ===== *)
theory GW_Batch
  imports GW_Handler GW_Coordinator
begin

text \<open>
  \<open>internal/linkevent/batch_processor.go\<close> and \<open>batch_handler.go\<close>: the processor the coordinator
  calls with a batch, and the event handler that forwards upstream messages through the
  coordinator instead of calling the backend itself.
\<close>

subsection \<open>The batch processor\<close>

text \<open>The clients it has loaded and the calls made so far. \<open>bp_loader\<close>, \<open>bp_next\<close> and \<open>bp_retry0\<close>
  stand for the client loader and the retry strategy, as for the plain handler.\<close>

record 'rs batch_processor =
  bp_loader :: "(int, nat) smap"
  bp_bizToBatchClient :: "(int, nat) smap"
  bp_next :: "'rs strategy"
  bp_retry0 :: "'rs option"
  bp_calls :: "(nat \<times> on_receive_request list) list"

definition NewBatchProcessor :: "(int, nat) smap \<Rightarrow> 'rs strategy \<Rightarrow> 'rs option \<Rightarrow> 'rs batch_processor" where
  "NewBatchProcessor loader nxt rs0 =
     \<lparr>bp_loader = loader, bp_bizToBatchClient = [], bp_next = nxt, bp_retry0 = rs0, bp_calls = []\<rparr>"

definition getBatchBackendServiceClient :: "int \<Rightarrow> 'rs batch_processor \<Rightarrow> (gerr + nat) \<times> 'rs batch_processor" where
  "getBatchBackendServiceClient bizID p =
     (case sm_load (bp_bizToBatchClient p) bizID of
        Some client \<Rightarrow> (Inr client, p)
      | None \<Rightarrow>
          let p1 = p\<lparr>bp_bizToBatchClient := bp_loader p\<rparr>
          in (case sm_load (bp_bizToBatchClient p1) bizID of
                Some client \<Rightarrow> (Inr client, p1)
              | None \<Rightarrow> (Inl (WrapE [Sen ErrUnknownBizID]), p1)))"

text \<open>The loop, against what the backend answers to each attempt.\<close>

fun callBatchServiceWithRetry ::
  "'rs option \<Rightarrow> (gerr + on_receive_response list) list \<Rightarrow> nat \<Rightarrow> on_receive_request list
     \<Rightarrow> 'rs batch_processor \<Rightarrow> ((gerr + on_receive_response list) \<times> 'rs batch_processor) exec" where
  "callBatchServiceWithRetry rs [] client reqs p = Block"
| "callBatchServiceWithRetry rs (answer # answers) client reqs p =
     (let p1 = p\<lparr>bp_calls := bp_calls p @ [(client, reqs)]\<rparr> in
      case answer of
        Inr resp \<Rightarrow> Ret (Inr resp, p1)
      | Inl err \<Rightarrow>
          (case rs of
             None \<Rightarrow> Panic
           | Some r \<Rightarrow>
               (case bp_next p r of
                  None \<Rightarrow> Ret (Inl (WrapE [err, Sen ErrMaxRetriesExceeded]), p1)
                | Some (duration, r') \<Rightarrow> callBatchServiceWithRetry (Some r') answers client reqs p1)))"

definition Process ::
  "(gerr + on_receive_response list) list \<Rightarrow> int \<Rightarrow> on_receive_request list
     \<Rightarrow> 'rs batch_processor \<Rightarrow> ((gerr + on_receive_response list) \<times> 'rs batch_processor) exec" where
  "Process answers bizID reqs p =
     (case getBatchBackendServiceClient bizID p of
        (Inl err, p1) \<Rightarrow> Ret (Inl err, p1)
      | (Inr client, p1) \<Rightarrow>
          exec_bind (callBatchServiceWithRetry (bp_retry0 p1) answers client reqs p1)
            (\<lambda>(batchResp, p2). case batchResp of
                 Inl err \<Rightarrow> Ret (Inl err, p2)
               | Inr res \<Rightarrow>
                   if length res \<noteq> length reqs then Ret (Inl (WrapE [Sen ErrBatchResponseMismatch]), p2)
                   else Ret (Inr res, p2)))"

subsection \<open>The batch handler\<close>

text \<open>\<open>receive\<close> is the answer \<open>Coordinator.OnReceive\<close> gives to one call (\<open>Block\<close>: it never returns);
  the coordinator itself runs as in \<open>co_step\<close>.\<close>

type_synonym receive_answer = "int \<Rightarrow> string \<Rightarrow> on_receive_request \<Rightarrow> (gerr + on_receive_response) exec"

record 'c bstate =
  bs_cache :: 'c
  bs_links :: "link list"
  bs_msgs :: "message list"
  bs_retry :: pr_manager

definition NewBatchHandler :: "'c \<Rightarrow> int \<Rightarrow> int \<Rightarrow> 'c bstate" where
  "NewBatchHandler cache pushRetryInterval pushMaxRetries =
     \<lparr>bs_cache = cache, bs_links = [], bs_msgs = [],
      bs_retry = NewPushRetryManager pushRetryInterval pushMaxRetries\<rparr>"

definition bh_userInfo :: "nat \<Rightarrow> 'c bstate \<Rightarrow> user_info" where
  "bh_userInfo lk s = lk_user (bs_links s ! lk)"

definition bh_alloc_msg :: "message \<Rightarrow> 'c bstate \<Rightarrow> nat \<times> 'c bstate" where
  "bh_alloc_msg msg s = (length (bs_msgs s), s\<lparr>bs_msgs := bs_msgs s @ [msg]\<rparr>)"

definition bh_touch_link :: "int \<Rightarrow> nat \<Rightarrow> 'c bstate \<Rightarrow> 'c bstate" where
  "bh_touch_link now lk s = s\<lparr>bs_links := (bs_links s)[lk := link_updateActiveTime now (bs_links s ! lk)]\<rparr>"

definition bh_getMessage :: "('c, 'rs) henv \<Rightarrow> bytes \<Rightarrow> gerr + message" where
  "bh_getMessage E payload =
     (case he_unmarshal E payload of
        Inl err \<Rightarrow> Inl (WrapE [Sen ErrUnKnownFrontendMessageFormat])
      | Inr msg \<Rightarrow>
          if msg_key msg = '''' \<and> msg_cmd msg \<noteq> HEARTBEAT
          then Inl (WrapE [Sen ErrUnKnownFrontendMessageFormat])
          else (case he_decrypt E (msg_body msg) of
                  Inl err \<Rightarrow> Inl (WrapE [Sen ErrDecryptMessageBodyFailed, err])
                | Inr decryptedBody \<Rightarrow> Inr (msg\<lparr>msg_body := decryptedBody\<rparr>)))"

definition bh_cacheKey :: "int \<Rightarrow> message \<Rightarrow> string" where
  "bh_cacheKey bizID msg = fmt_d bizID @ ''-'' @ msg_key msg"

definition bh_cacheMessage :: "('c, 'rs) henv \<Rightarrow> int \<Rightarrow> message \<Rightarrow> 'c bstate \<Rightarrow> (gerr + bool) \<times> 'c bstate" where
  "bh_cacheMessage E bizID msg s =
     (if msg_cmd msg = HEARTBEAT then (Inr True, s)
      else let (r, c) = he_setnx E (bh_cacheKey bizID msg) (msg_key msg) (he_expiration E) (bs_cache s)
           in (r, s\<lparr>bs_cache := c\<rparr>))"

definition bh_shouldDeleteCacheOnError :: "gerr \<Rightarrow> bool" where
  "bh_shouldDeleteCacheOnError err \<longleftrightarrow>
     errors_is err ErrUnknownBizID \<or> errors_is err ErrEncryptMessageBodyFailed
     \<or> errors_is err ErrMarshalMessageFailed \<or> errors_is err ErrMaxRetriesExceeded"

definition bh_deleteCacheMessage :: "('c, 'rs) henv \<Rightarrow> int \<Rightarrow> message \<Rightarrow> 'c bstate \<Rightarrow> gerr option \<times> 'c bstate" where
  "bh_deleteCacheMessage E bizID msg s =
     (if msg_cmd msg = HEARTBEAT then (None, s)
      else let (r, c) = he_delete E (bh_cacheKey bizID msg) (bs_cache s)
           in (case r of Inl err \<Rightarrow> Some (WrapE [Sen ErrDeleteCachedFrontendMessageFailed, err]) | Inr _ \<Rightarrow> None,
               s\<lparr>bs_cache := c\<rparr>))"

definition bh_push :: "('c, 'rs) henv \<Rightarrow> hcall \<Rightarrow> nat \<Rightarrow> nat \<Rightarrow> 'c bstate \<Rightarrow> (gerr option \<times> 'c bstate) exec" where
  "bh_push E nd lk mref s =
     (case he_encrypt E (hc_nonce nd) (msg_body (bs_msgs s ! mref)) of
        Inl err \<Rightarrow> Ret (Some (WrapE [Sen ErrEncryptMessageBodyFailed, err]), s)
      | Inr encryptedBody \<Rightarrow>
          let msg = (bs_msgs s ! mref)\<lparr>msg_body := encryptedBody\<rparr>;
              s1 = s\<lparr>bs_msgs := (bs_msgs s)[mref := msg]\<rparr>
          in (case he_marshal E msg of
                Inl err \<Rightarrow> Ret (Some (WrapE [Sen ErrMarshalMessageFailed, err]), s1)
              | Inr payload \<Rightarrow>
                  (case link_send (fst (hc_pick nd)) (snd (hc_pick nd)) (bs_links s1 ! lk) payload of
                     SBlocked \<Rightarrow> Block
                   | SReturn err l' \<Rightarrow> Ret (err, s1\<lparr>bs_links := (bs_links s1)[lk := l']\<rparr>))))"

definition bh_handleOnHeartbeatCmd ::
  "('c, 'rs) henv \<Rightarrow> hcall \<Rightarrow> nat \<Rightarrow> nat \<Rightarrow> 'c bstate \<Rightarrow> (gerr option \<times> 'c bstate) exec" where
  "bh_handleOnHeartbeatCmd E nd lk mref s = bh_push E nd lk mref s"

definition bh_sendUpstreamMessageAck ::
  "('c, 'rs) henv \<Rightarrow> hcall \<Rightarrow> nat \<Rightarrow> string \<Rightarrow> on_receive_response \<Rightarrow> 'c bstate \<Rightarrow> (gerr option \<times> 'c bstate) exec" where
  "bh_sendUpstreamMessageAck E nd lk key resp s =
     (case he_marshalResp E resp of
        Inl err \<Rightarrow> Ret (Some (WrapE [Sen ErrMarshalMessageFailed, err]), s)
      | Inr respBody \<Rightarrow>
          let (mref, s1) = bh_alloc_msg \<lparr>msg_cmd = UPSTREAM_ACK, msg_key = key, msg_body = respBody\<rparr> s
          in bh_push E nd lk mref s1)"

definition bh_handleOnUpstreamMessageCmd ::
  "('c, 'rs) henv \<Rightarrow> receive_answer \<Rightarrow> hcall \<Rightarrow> nat \<Rightarrow> nat \<Rightarrow> 'c bstate \<Rightarrow> (gerr option \<times> 'c bstate) exec" where
  "bh_handleOnUpstreamMessageCmd E receive nd lk mref s =
     (let s1 = bh_touch_link (hc_now nd) lk s; bizID = BizID (bh_userInfo lk s1); msg = bs_msgs s1 ! mref in
      exec_bind (receive bizID (lk_id (bs_links s1 ! lk)) \<lparr>req_key = msg_key msg, req_body = msg_body msg\<rparr>)
        (\<lambda>r. case r of
             Inl err \<Rightarrow> Ret (Some err, s1)
           | Inr resp \<Rightarrow> bh_sendUpstreamMessageAck E nd lk (msg_key msg) resp s1))"

definition bh_retryKey :: "int \<Rightarrow> string \<Rightarrow> string" where
  "bh_retryKey bizID key = fmt_d bizID @ ''-'' @ key"

definition bh_handleDownstreamAckCmd ::
  "('c, 'rs) henv \<Rightarrow> hcall \<Rightarrow> nat \<Rightarrow> nat \<Rightarrow> 'c bstate \<Rightarrow> (gerr option \<times> 'c bstate) exec" where
  "bh_handleDownstreamAckCmd E nd lk mref s =
     Ret (None, s\<lparr>bs_retry := pr_Stop (bh_retryKey (BizID (bh_userInfo lk s)) (msg_key (bs_msgs s ! mref))) (bs_retry s)\<rparr>)"

type_synonym 'c bh_func = "hcall \<Rightarrow> nat \<Rightarrow> nat \<Rightarrow> 'c bstate \<Rightarrow> (gerr option \<times> 'c bstate) exec"

definition bh_handler_funcs :: "('c, 'rs) henv \<Rightarrow> receive_answer \<Rightarrow> command_type \<Rightarrow> 'c bh_func option" where
  "bh_handler_funcs E receive cmd =
     (case cmd of
        HEARTBEAT \<Rightarrow> Some (bh_handleOnHeartbeatCmd E)
      | UPSTREAM_MESSAGE \<Rightarrow> Some (bh_handleOnUpstreamMessageCmd E receive)
      | DOWNSTREAM_ACK \<Rightarrow> Some (bh_handleDownstreamAckCmd E)
      | _ \<Rightarrow> None)"

definition bh_OnFrontendSendMessage ::
  "('c, 'rs) henv \<Rightarrow> receive_answer \<Rightarrow> hcall \<Rightarrow> nat \<Rightarrow> bytes \<Rightarrow> 'c bstate \<Rightarrow> (gerr option \<times> 'c bstate) exec" where
  "bh_OnFrontendSendMessage E receive nd lk payload s =
     (case bh_getMessage E payload of
        Inl err \<Rightarrow> Ret (Some err, s)
      | Inr msg \<Rightarrow>
          let bizID = BizID (bh_userInfo lk s); (ok, s1) = bh_cacheMessage E bizID msg s in
          (case ok of
             Inl err \<Rightarrow> Ret (Some (WrapE [Sen ErrCacheFrontendMessageFailed, err]), s1)
           | Inr False \<Rightarrow> Ret (Some (WrapE [Sen ErrDuplicatedFrontendMessage]), s1)
           | Inr True \<Rightarrow>
               (case bh_handler_funcs E receive (msg_cmd msg) of
                  None \<Rightarrow> Ret (Some (WrapE [Sen ErrUnKnownFrontendMessageCommandType]), s1)
                | Some handleFunc \<Rightarrow>
                    let (mref, s2) = bh_alloc_msg msg s1 in
                    exec_bind (handleFunc nd lk mref s2)
                      (\<lambda>(err, s3). case err of
                           None \<Rightarrow> Ret (None, s3)
                         | Some e \<Rightarrow>
                             Ret (Some e, if bh_shouldDeleteCacheOnError e
                                          then snd (bh_deleteCacheMessage E bizID msg s3) else s3)))))"

definition bh_OnConnect :: "nat \<Rightarrow> 'c bstate \<Rightarrow> (gerr option \<times> 'c bstate) exec" where
  "bh_OnConnect lk s = Ret (None, s)"

definition bh_OnBackendPushMessage ::
  "('c, 'rs) henv \<Rightarrow> hcall \<Rightarrow> nat \<Rightarrow> push_message \<Rightarrow> 'c bstate \<Rightarrow> (gerr option \<times> 'c bstate) exec" where
  "bh_OnBackendPushMessage E nd lk msg s =
     (if pm_bizId msg = 0 \<or> pm_key msg = '''' then Ret (Some (WrapE [Sen ErrUnKnownBackendMessageFormat]), s)
      else let (mref, s1) = bh_alloc_msg \<lparr>msg_cmd = DOWNSTREAM_MESSAGE, msg_key = pm_key msg, msg_body = pm_body msg\<rparr> s;
               start = (\<lambda>s. s\<lparr>bs_retry := pr_Start (bh_retryKey (pm_bizId msg) (pm_key msg)) lk
                                             (lk_id (bs_links s ! lk)) mref (bs_retry s)\<rparr>)
           in exec_bind (bh_push E nd lk mref s1)
                (\<lambda>(err, s2). case err of
                     Some e \<Rightarrow> Ret (Some (WrapE [e]), start s2)
                   | None \<Rightarrow> Ret (None, start (bh_touch_link (hc_now nd) lk s2))))"

definition bh_OnDisconnect ::
  "bool \<Rightarrow> gerr option \<Rightarrow> nat \<Rightarrow> 'c bstate \<Rightarrow> (gerr option \<times> 'c bstate) exec" where
  "bh_OnDisconnect fw ce lk s =
     (let s1 = s\<lparr>bs_retry := StopByLinkID (lk_id (bs_links s ! lk)) (bs_retry s)\<rparr>;
          (err, l') = link_close fw ce (bs_links s1 ! lk)
      in Ret (err, s1\<lparr>bs_links := (bs_links s1)[lk := l']\<rparr>))"

definition bh_handler_retry ::
  "('c, 'rs) henv \<Rightarrow> hcall \<Rightarrow> nat \<Rightarrow> 'c bstate \<Rightarrow> 'c bstate exec" where
  "bh_handler_retry E nd ref s =
     (let m = bs_retry s; t = pr_heap m ! ref in
      if sm_load (pr_tasks m) (tk_key t) = None \<or> i64 (tk_retryCount t + 1) \<ge> pr_maxRetries m
      then Ret (s\<lparr>bs_retry := task_retry False ref m\<rparr>)
      else exec_bind (bh_push E nd (tk_link t) (tk_message t) s)
             (\<lambda>(err, s1). let s2 = s1\<lparr>bs_retry := task_retry (err = None) ref (bs_retry s1)\<rparr>
                          in Ret (if err = None then bh_touch_link (hc_now nd) (tk_link t) s2 else s2)))"

subsection \<open>The two handlers compared\<close>

text \<open>What of a handler's state a batch handler has too. \<open>b_ret\<close> forgets the rest of a result's state.\<close>

definition b_of :: "'c hstate \<Rightarrow> 'c bstate" where
  "b_of s = \<lparr>bs_cache = hs_cache s, bs_links = hs_links s, bs_msgs = hs_msgs s, bs_retry = hs_retry s\<rparr>"

abbreviation b_ret :: "('a \<times> 'c hstate) exec \<Rightarrow> ('a \<times> 'c bstate) exec" where
  "b_ret \<equiv> map_exec (map_prod id b_of)"

named_theorems b_sim "operations of the batch handler on the part of a handler's state"

lemma b_of_sel [simp]:
  "bs_cache (b_of s) = hs_cache s" "bs_links (b_of s) = hs_links s"
  "bs_msgs (b_of s) = hs_msgs s" "bs_retry (b_of s) = hs_retry s"
  by (simp_all add: b_of_def)

lemma b_of_upd [simp]:
  "b_of (s\<lparr>hs_cache := c\<rparr>) = (b_of s)\<lparr>bs_cache := c\<rparr>" "b_of (s\<lparr>hs_links := l\<rparr>) = (b_of s)\<lparr>bs_links := l\<rparr>"
  "b_of (s\<lparr>hs_msgs := m\<rparr>) = (b_of s)\<lparr>bs_msgs := m\<rparr>" "b_of (s\<lparr>hs_retry := r\<rparr>) = (b_of s)\<lparr>bs_retry := r\<rparr>"
  "b_of (s\<lparr>hs_calls := cs\<rparr>) = b_of s" "b_of (s\<lparr>hs_bizToClient := bc\<rparr>) = b_of s"
  by (simp_all add: b_of_def)

lemma b_of_surj: "\<exists>s'. b_of s' = s \<and> hs_bizToClient s' = m"
  by (rule exI [of _ "\<lparr>hs_cache = bs_cache s, hs_bizToClient = m, hs_links = bs_links s, hs_msgs = bs_msgs s,
      hs_retry = bs_retry s, hs_calls = []\<rparr>"]) (simp add: b_of_def)

lemma map_exec_bind: "map_exec g (exec_bind x f) = exec_bind x (\<lambda>a. map_exec g (f a))"
  by (cases x) simp_all

lemma exec_bind_map: "exec_bind (map_exec g x) f = exec_bind x (\<lambda>a. f (g a))"
  by (cases x) simp_all

lemma exec_bind_cong: "(\<And>a. x = Ret a \<Longrightarrow> f a = g a) \<Longrightarrow> exec_bind x f = exec_bind x g"
  by (cases x) simp_all

lemma b_pure [b_sim]:
  "bh_userInfo lk (b_of s) = userInfo lk s" "bh_getMessage E payload = getMessage E payload"
  "bh_cacheKey bizID msg = cacheKey bizID msg" "bh_retryKey bizID key = retryKey bizID key"
  "bh_shouldDeleteCacheOnError err = shouldDeleteCacheOnError err"
  "bh_touch_link now lk (b_of s) = b_of (touch_link now lk s)"
  "bh_alloc_msg msg (b_of s) = map_prod id b_of (alloc_msg msg s)"
  "bh_cacheMessage E bizID msg (b_of s) = map_prod id b_of (cacheMessage E bizID msg s)"
  "bh_deleteCacheMessage E bizID msg (b_of s) = map_prod id b_of (deleteCacheMessage E bizID msg s)"
  by (simp_all add: bh_userInfo_def userInfo_def bh_getMessage_def getMessage_def bh_cacheKey_def cacheKey_def
      bh_retryKey_def retryKey_def bh_shouldDeleteCacheOnError_def shouldDeleteCacheOnError_def bh_touch_link_def
      touch_link_def bh_alloc_msg_def alloc_msg_def bh_cacheMessage_def cacheMessage_def bh_deleteCacheMessage_def
      deleteCacheMessage_def split: prod.splits)

lemma b_push [b_sim]: "bh_push E nd lk mref (b_of s) = b_ret (push E nd lk mref s)"
  by (simp add: bh_push_def push_def Let_def split: sum.splits send_result.splits)

lemma b_ack [b_sim]: "bh_sendUpstreamMessageAck E nd lk key resp (b_of s) = b_ret (sendUpstreamMessageAck E nd lk key resp s)"
  by (simp add: bh_sendUpstreamMessageAck_def sendUpstreamMessageAck_def b_sim split: sum.splits prod.splits)

lemma b_heartbeat: "bh_handleOnHeartbeatCmd E nd lk mref (b_of s) = b_ret (handleOnHeartbeatCmd E nd lk mref s)"
  by (simp add: bh_handleOnHeartbeatCmd_def handleOnHeartbeatCmd_def b_sim)

lemma b_downstream_ack: "bh_handleDownstreamAckCmd E nd lk mref (b_of s) = b_ret (handleDownstreamAckCmd E nd lk mref s)"
  by (simp add: bh_handleDownstreamAckCmd_def handleDownstreamAckCmd_def b_sim)

text \<open>Forwarding a message agrees when the backend answers at the first attempt what the coordinator answers.\<close>

definition same_answer :: "receive_answer \<Rightarrow> on_receive_response \<Rightarrow> hcall \<Rightarrow> bool" where
  "same_answer receive resp nd \<longleftrightarrow>
     (\<exists>as. hc_answers nd = Inr resp # as) \<and> (\<forall>bizID linkID req. receive bizID linkID req = Ret (Inr resp))"

lemma forward_first:
  assumes "sm_load (hs_bizToClient s) bizID = Some client" and "hc_answers nd = Inr resp # as"
  shows "forwardToBusinessBackend E nd bizID msg s
    = Ret (Inr resp, s\<lparr>hs_calls := hs_calls s @ [(client, \<lparr>req_key = msg_key msg, req_body = msg_body msg\<rparr>)]\<rparr>)"
  using assms by (simp add: forwardToBusinessBackend_def getBackendServiceClient_def)

lemma b_upstream:
  assumes "same_answer receive resp nd" and "sm_load (hs_bizToClient s) (BizID (lk_user (hs_links s ! lk))) = Some client"
  shows "bh_handleOnUpstreamMessageCmd E receive nd lk mref (b_of s) = b_ret (handleOnUpstreamMessageCmd E nd lk mref s)"
proof -
  obtain as where as: "hc_answers nd = Inr resp # as" "\<forall>bizID linkID req. receive bizID linkID req = Ret (Inr resp)"
    using assms(1) by (auto simp: same_answer_def)
  let ?s1 = "touch_link (hc_now nd) lk s"
  have u: "userInfo lk ?s1 = lk_user (hs_links s ! lk)"
    by (cases "lk < length (hs_links s)")
      (simp_all add: userInfo_def touch_link_def list_update_beyond link_updateActiveTime_def)
  have "sm_load (hs_bizToClient ?s1) (BizID (userInfo lk ?s1)) = Some client"
    using assms(2) unfolding u by (simp add: touch_link_def)
  note f = forward_first [OF this as(1)]
  let ?s2 = "?s1\<lparr>hs_calls := hs_calls ?s1 @ [(client, \<lparr>req_key = msg_key (hs_msgs ?s1 ! mref), req_body = msg_body (hs_msgs ?s1 ! mref)\<rparr>)]\<rparr>"
  have "bh_sendUpstreamMessageAck E nd lk key resp (b_of ?s1) = b_ret (sendUpstreamMessageAck E nd lk key resp ?s2)" for key
    using b_ack [of E nd lk key resp ?s2] by simp
  then show ?thesis
    by (simp add: bh_handleOnUpstreamMessageCmd_def handleOnUpstreamMessageCmd_def Let_def b_sim as(2) f)
qed


lemma b_OnFrontend:
  assumes "same_answer receive resp nd" and "sm_load (hs_bizToClient s) (BizID (userInfo lk s)) = Some client"
  shows "bh_OnFrontendSendMessage E receive nd lk payload (b_of s) = b_ret (OnFrontendSendMessage E nd lk payload s)"
proof (cases "getMessage E payload")
  case (Inl e)
  then show ?thesis by (simp add: bh_OnFrontendSendMessage_def OnFrontendSendMessage_def b_sim)
next
  case (Inr msg)
  obtain ok s1 where c: "cacheMessage E (BizID (userInfo lk s)) msg s = (ok, s1)" by fastforce
  have fr: "hs_bizToClient s1 = hs_bizToClient s" "hs_links s1 = hs_links s"
    using c by (auto simp: cacheMessage_def Let_def split: if_splits prod.splits)
  obtain mref s2 where a: "alloc_msg msg s1 = (mref, s2)" by fastforce
  have fr2: "hs_bizToClient s2 = hs_bizToClient s" "hs_links s2 = hs_links s" using a fr by (auto simp: alloc_msg_def)
  have up: "bh_handleOnUpstreamMessageCmd E receive nd lk mref (b_of s2) = b_ret (handleOnUpstreamMessageCmd E nd lk mref s2)"
    by (rule b_upstream [OF assms(1)]) (use assms(2) fr2 in \<open>simp add: userInfo_def\<close>)
  have fin: "exec_bind (b_ret x) (\<lambda>(err, s3). case err of
        None \<Rightarrow> Ret (None, s3)
      | Some e \<Rightarrow> Ret (Some e, if bh_shouldDeleteCacheOnError e
          then snd (bh_deleteCacheMessage E (BizID (userInfo lk s)) msg s3) else s3))
    = b_ret (exec_bind x (\<lambda>(err, s3). case err of
        None \<Rightarrow> Ret (None, s3)
      | Some e \<Rightarrow> Ret (Some e, if shouldDeleteCacheOnError e
          then snd (deleteCacheMessage E (BizID (userInfo lk s)) msg s3) else s3)))" for x
    by (cases x) (auto simp: b_sim split: option.splits)
  show ?thesis
  proof (cases ok)
    case (Inl e)
    then show ?thesis using Inr c by (simp add: bh_OnFrontendSendMessage_def OnFrontendSendMessage_def b_sim)
  next
    case okR: (Inr b)
    show ?thesis
    proof (cases b)
      case False
      then show ?thesis using Inr c okR by (simp add: bh_OnFrontendSendMessage_def OnFrontendSendMessage_def b_sim)
    next
      case True
      then show ?thesis using Inr c okR a
        by (cases "msg_cmd msg")
          (simp_all add: bh_OnFrontendSendMessage_def OnFrontendSendMessage_def b_sim bh_handler_funcs_def
            handler_funcs_def up b_heartbeat b_downstream_ack fin)
    qed
  qed
qed

lemma b_OnBackendPush: "bh_OnBackendPushMessage E nd lk msg (b_of s) = b_ret (OnBackendPushMessage E nd lk msg s)"
proof (cases "pm_bizId msg = 0 \<or> pm_key msg = ''''")
  case True
  then show ?thesis by (simp add: bh_OnBackendPushMessage_def OnBackendPushMessage_def)
next
  case False
  let ?s = "s\<lparr>hs_msgs := hs_msgs s @ [\<lparr>msg_cmd = DOWNSTREAM_MESSAGE, msg_key = pm_key msg, msg_body = pm_body msg\<rparr>]\<rparr>"
  have p: "bh_push E nd lk r ((b_of s)\<lparr>bs_msgs := bs_msgs (b_of ?s)\<rparr>) = b_ret (push E nd lk r ?s)" for r
    using b_push [of E nd lk r ?s] by simp
  show ?thesis using False p
    by (cases "push E nd lk (length (hs_msgs s)) ?s")
      (auto simp: bh_OnBackendPushMessage_def OnBackendPushMessage_def b_sim Let_def alloc_msg_def split: option.splits)
qed

lemma b_OnDisconnect: "bh_OnDisconnect fw ce lk (b_of s) = b_ret (OnDisconnect fw ce lk s)"
  by (simp add: bh_OnDisconnect_def OnDisconnect_def Let_def split: prod.splits)

lemma b_retry: "bh_handler_retry E nd ref (b_of s) = map_exec b_of (handler_retry E nd ref s)"
  by (cases "push E nd (tk_link (pr_heap (hs_retry s) ! ref)) (tk_message (pr_heap (hs_retry s) ! ref)) s")
    (auto simp: bh_handler_retry_def handler_retry_def Let_def b_sim bh_touch_link_def touch_link_def)


subsection \<open>Properties\<close>

definition ex_processor :: "nat batch_processor" where
  "ex_processor = NewBatchProcessor [(7, 4)] countdown (Some 2)"

lemma callBatch_bound:
  assumes "gives_up (bp_next p) r n" and "n < length answers"
  shows "\<exists>k res. k \<le> n \<and> callBatchServiceWithRetry (Some r) answers client reqs p
            = Ret (res, p\<lparr>bp_calls := bp_calls p @ replicate (Suc k) (client, reqs)\<rparr>)
          \<and> (\<forall>i < k. \<exists>e. answers ! i = Inl e)
          \<and> (case res of Inr resp \<Rightarrow> answers ! k = Inr resp
             | Inl e \<Rightarrow> errors_is e ErrMaxRetriesExceeded \<and> (\<exists>e'. answers ! k = Inl e'))"
  using assms
proof (induction answers arbitrary: n r p)
  case (Cons a as)
  show ?case
  proof (cases a)
    case (Inr resp)
    then show ?thesis by (intro exI [of _ 0]) simp
  next
    case a: (Inl e)
    show ?thesis
    proof (cases "bp_next p r")
      case None
      then show ?thesis using a by (intro exI [of _ 0]) simp
    next
      case (Some dr)
      obtain d r' where dr: "dr = (d, r')" by (cases dr)
      let ?p = "p\<lparr>bp_calls := bp_calls p @ [(client, reqs)]\<rparr>"
      obtain m where n: "n = Suc m" using Cons.prems(1) Some dr by (cases n) auto
      have "gives_up (bp_next ?p) r' m" "m < length as" using Cons.prems Some dr n by auto
      from Cons.IH [OF this] obtain k res where k: "k \<le> m"
        "callBatchServiceWithRetry (Some r') as client reqs ?p = Ret (res, ?p\<lparr>bp_calls := bp_calls ?p @ replicate (Suc k) (client, reqs)\<rparr>)"
        "\<forall>i < k. \<exists>e. as ! i = Inl e"
        "case res of Inr resp \<Rightarrow> as ! k = Inr resp | Inl e \<Rightarrow> errors_is e ErrMaxRetriesExceeded \<and> (\<exists>e'. as ! k = Inl e')"
        by blast
      have "\<exists>e. (a # as) ! i = Inl e" if "i < Suc k" for i using that k(3) a by (cases i) auto
      then show ?thesis using k(1,2,4) a Some dr n
        by (intro exI [of _ "Suc k"] exI [of _ res]) (simp split: sum.splits)
    qed
  qed
qed simp

text \<open>The batch processor answers a batch within the retry budget: the backend of the business (loaded
  anew when it is not known) is called at most \<open>n + 1\<close> times, always with the whole batch; answers are
  returned only when there is one for each request, the first success with another number of answers is
  the mismatch error, and if all attempts failed the error is the exhausted-retries error.\<close>

theorem batch_processor_process:
  assumes "sm_load (bp_bizToBatchClient p) bizID = Some client \<or>
           (sm_load (bp_bizToBatchClient p) bizID = None \<and> sm_load (bp_loader p) bizID = Some client)"
    and "bp_retry0 p = Some r" and "gives_up (bp_next p) r n" and "n < length answers"
  shows "\<exists>k res p'. k \<le> n \<and> Process answers bizID reqs p = Ret (res, p')
    \<and> bp_calls p' = bp_calls p @ replicate (Suc k) (client, reqs)
    \<and> (\<forall>i < k. \<exists>e. answers ! i = Inl e)
    \<and> (case res of Inr resps \<Rightarrow> answers ! k = Inr resps \<and> length resps = length reqs
       | Inl e \<Rightarrow> (\<exists>e'. answers ! k = Inl e') \<and> errors_is e ErrMaxRetriesExceeded
           \<or> (\<exists>resps. answers ! k = Inr resps \<and> length resps \<noteq> length reqs) \<and> errors_is e ErrBatchResponseMismatch)"
proof -
  obtain p1 where c: "getBatchBackendServiceClient bizID p = (Inr client, p1)"
    and p1: "bp_calls p1 = bp_calls p" "bp_next p1 = bp_next p" "bp_retry0 p1 = Some r"
    using assms(1,2) by (auto simp: getBatchBackendServiceClient_def Let_def)
  obtain k res where k: "k \<le> n" "callBatchServiceWithRetry (Some r) answers client reqs p1
      = Ret (res, p1\<lparr>bp_calls := bp_calls p1 @ replicate (Suc k) (client, reqs)\<rparr>)"
    "\<forall>i < k. \<exists>e. answers ! i = Inl e"
    "case res of Inr resp \<Rightarrow> answers ! k = Inr resp
       | Inl e \<Rightarrow> errors_is e ErrMaxRetriesExceeded \<and> (\<exists>e'. answers ! k = Inl e')"
    using callBatch_bound [of p1 r n answers client reqs] assms(3,4) p1 by auto
  show ?thesis
  proof (cases res)
    case (Inl e)
    then show ?thesis using k c p1 by (intro exI [of _ k] exI [of _ res]) (simp add: Process_def)
  next
    case (Inr resps)
    then show ?thesis using k c p1
      by (intro exI [of _ k] exI [of _ "if length resps = length reqs then res else Inl (WrapE [Sen ErrBatchResponseMismatch])"])
        (simp add: Process_def)
  qed
qed

theorem batch_processor_process_witness:
  "\<exists>res p'. Process [Inl (Sen ErrUnknownBizID), Inr [ex_rs 1, ex_rs 2], Inl (Sen ErrUnknownBizID)] 7 [ex_rq 1, ex_rq 2] ex_processor
     = Ret (res, p') \<and> length (bp_calls p') \<le> 3"
  using batch_processor_process [of ex_processor 7 4 2 2
      "[Inl (Sen ErrUnknownBizID), Inr [ex_rs 1, ex_rs 2], Inl (Sen ErrUnknownBizID)]" "[ex_rq 1, ex_rq 2]"]
  by (fastforce simp: ex_processor_def NewBatchProcessor_def countdown_gives_up)

text \<open>C16. Apart from how upstream messages reach the backend the two handlers are the same program: on the
  state they share connecting, pushing a message of the backend, disconnecting, retrying a push and the constructor of the
  batch handler do what those of the handler do, with the same result, whatever the state. Receiving a message of the client
  does too when its forwarding cannot differ: the handler has the client of the business, whose backend
  answers the first attempt, and the coordinator returns that answer. (Otherwise the two differ by design: the handler loads
  the client and retries, the batch handler returns what the coordinator gives, see \<open>batch_handler_error\<close>.)\<close>

theorem batch_handler_simulates:
  "bh_OnConnect lk (b_of s) = b_ret (OnConnect lk s)
   \<and> (same_answer receive resp nd \<and> sm_load (hs_bizToClient s) (BizID (userInfo lk s)) = Some client \<longrightarrow>
        bh_OnFrontendSendMessage E receive nd lk payload (b_of s) = b_ret (OnFrontendSendMessage E nd lk payload s))
   \<and> bh_OnBackendPushMessage E nd lk msg (b_of s) = b_ret (OnBackendPushMessage E nd lk msg s)
   \<and> bh_OnDisconnect fw ce lk (b_of s) = b_ret (OnDisconnect fw ce lk s)
   \<and> bh_handler_retry E nd ref (b_of s) = map_exec b_of (handler_retry E nd ref s)
   \<and> b_of (NewHandler cache interval n) = NewBatchHandler cache interval n"
proof -
  have "bh_OnConnect lk (b_of s) = b_ret (OnConnect lk s)" by (simp add: bh_OnConnect_def OnConnect_def)
  moreover have "b_of (NewHandler cache interval n) = NewBatchHandler cache interval n"
    by (simp add: NewHandler_def NewBatchHandler_def b_of_def)
  ultimately show ?thesis using b_OnFrontend [of receive resp nd s lk client E payload]
    by (simp add: b_OnBackendPush b_OnDisconnect b_retry)
qed

theorem batch_handler_simulates_witness:
  "bh_OnFrontendSendMessage ex_env (\<lambda>_ _ _. Ret (Inr (ex_rs 5))) (ex_call\<lparr>hc_answers := [Inr (ex_rs 5)]\<rparr>) 0 ex_payload
       (b_of (ex_state\<lparr>hs_bizToClient := [(1, 0)]\<rparr>))
     = b_ret (OnFrontendSendMessage ex_env (ex_call\<lparr>hc_answers := [Inr (ex_rs 5)]\<rparr>) 0 ex_payload
         (ex_state\<lparr>hs_bizToClient := [(1, 0)]\<rparr>))
   \<and> (case bh_OnFrontendSendMessage ex_env (\<lambda>_ _ _. Ret (Inr (ex_rs 5))) (ex_call\<lparr>hc_answers := [Inr (ex_rs 5)]\<rparr>) 0 ex_payload
       (b_of (ex_state\<lparr>hs_bizToClient := [(1, 0)]\<rparr>)) of Ret (err, s) \<Rightarrow> err = None | _ \<Rightarrow> False)"
proof -
  let ?s = "ex_state\<lparr>hs_bizToClient := [(1, 0)]\<rparr>" and ?nd = "ex_call\<lparr>hc_answers := [Inr (ex_rs 5)]\<rparr>"
  have "same_answer (\<lambda>_ _ _. Ret (Inr (ex_rs 5))) (ex_rs 5) ?nd" by (simp add: same_answer_def)
  moreover have "sm_load (hs_bizToClient ?s) (BizID (userInfo 0 ?s)) = Some 0" by code_simp
  ultimately have "bh_OnFrontendSendMessage ex_env (\<lambda>_ _ _. Ret (Inr (ex_rs 5))) ?nd 0 ex_payload (b_of ?s)
      = b_ret (OnFrontendSendMessage ex_env ?nd 0 ex_payload ?s)"
    by (intro batch_handler_simulates [THEN conjunct2, THEN conjunct1, rule_format]) simp
  moreover have "case bh_OnFrontendSendMessage ex_env (\<lambda>_ _ _. Ret (Inr (ex_rs 5))) ?nd 0 ex_payload (b_of ?s) of
      Ret (err, s) \<Rightarrow> err = None | _ \<Rightarrow> False" by code_simp
  ultimately show ?thesis by blast
qed


text \<open>When the coordinator gives an error for a new upstream message, the client is sent nothing and the
  error is returned; the key of the message leaves the cache only for the errors that release it, so
  after the stop error or the mismatch error of a batch the client's repetition is rejected.\<close>

theorem batch_handler_error:
  assumes "cache_ok E present" and "getMessage E payload = Inr msg" and "msg_cmd msg = UPSTREAM_MESSAGE"
    and "he_setnx E (cacheKey (BizID (bh_userInfo lk s)) msg) (msg_key msg) (he_expiration E) (bs_cache s) = (Inr True, c)"
    and "\<forall>e. fst (he_delete E (cacheKey (BizID (bh_userInfo lk s)) msg) c) \<noteq> Inl e"
    and "receive (BizID (bh_userInfo lk s)) (lk_id (bs_links s ! lk)) \<lparr>req_key = msg_key msg, req_body = msg_body msg\<rparr> = Ret (Inl e)"
  shows "\<exists>s'. bh_OnFrontendSendMessage E receive nd lk payload s = Ret (Some e, s')
    \<and> map lk_sendCh (bs_links s') = map lk_sendCh (bs_links s) \<and> bs_retry s' = bs_retry s
    \<and> (present (cacheKey (BizID (bh_userInfo lk s)) msg) (bs_cache s') \<longleftrightarrow> \<not> shouldDeleteCacheOnError e)
    \<and> \<not> shouldDeleteCacheOnError (Sen ErrCoordinatorStopped) \<and> \<not> shouldDeleteCacheOnError (Sen ErrBatchResponseMismatch)"
proof -
  let ?b = "BizID (bh_userInfo lk s)" let ?k = "cacheKey ?b msg"
  let ?s2 = "s\<lparr>bs_cache := c, bs_msgs := bs_msgs s @ [msg]\<rparr>"
  let ?s3 = "bh_touch_link (hc_now nd) lk ?s2"
  obtain n c2 where d: "he_delete E ?k c = (Inr n, c2)" using assms(5) by (metis prod.collapse sum.exhaust)
  have pr: "present ?k c" "\<not> present ?k c2" using assms(1,4) d by (auto simp: cache_ok_def)
  have u: "bh_userInfo lk ?s3 = bh_userInfo lk s" "lk_id (bs_links ?s3 ! lk) = lk_id (bs_links s ! lk)"
    by (cases "lk < length (bs_links s)";
        simp add: bh_userInfo_def bh_touch_link_def list_update_beyond link_updateActiveTime_def)+
  have ch: "map lk_sendCh (bs_links ?s3) = map lk_sendCh (bs_links s)"
    by (simp add: bh_touch_link_def map_update_same link_updateActiveTime_def)
  have m: "bs_msgs ?s3 ! length (bs_msgs s) = msg" by (simp add: bh_touch_link_def)
  have "bh_handleOnUpstreamMessageCmd E receive nd lk (length (bs_msgs s)) ?s2 = Ret (Some e, ?s3)"
    using assms(6) by (simp add: bh_handleOnUpstreamMessageCmd_def Let_def u m)
  then have "bh_OnFrontendSendMessage E receive nd lk payload s = Ret (Some e, if shouldDeleteCacheOnError e
      then snd (bh_deleteCacheMessage E ?b msg ?s3) else ?s3)"
    using assms(2,3,4)
    by (simp add: bh_OnFrontendSendMessage_def b_sim bh_cacheMessage_def bh_handler_funcs_def bh_alloc_msg_def)
  moreover have "snd (bh_deleteCacheMessage E ?b msg ?s3) = ?s3\<lparr>bs_cache := c2\<rparr>"
    using d assms(3) by (simp add: bh_deleteCacheMessage_def b_sim bh_touch_link_def)
  moreover have "bs_cache ?s3 = c" "bs_retry ?s3 = bs_retry s" by (simp_all add: bh_touch_link_def)
  ultimately show ?thesis using pr ch by (simp add: shouldDeleteCacheOnError_def)
qed

theorem batch_handler_error_witness:
  "\<exists>s'. bh_OnFrontendSendMessage ex_env (\<lambda>_ _ _. Ret (Inl (Sen ErrCoordinatorStopped))) ex_call 0 ex_payload (b_of ex_state)
      = Ret (Some (Sen ErrCoordinatorStopped), s')
     \<and> cacheKey 1 \<lparr>msg_cmd = UPSTREAM_MESSAGE, msg_key = ''k1'', msg_body = [8]\<rparr> \<in> set (bs_cache s')"
proof -
  let ?m = "\<lparr>msg_cmd = UPSTREAM_MESSAGE, msg_key = ''k1'', msg_body = [8]\<rparr>"
  have u: "BizID (bh_userInfo 0 (b_of ex_state)) = 1" "bs_cache (b_of ex_state) = []" by code_simp+
  show ?thesis
    using batch_handler_error [OF ex_env_ok(1) ex_getMessage, of 0 "b_of ex_state" "[cacheKey 1 ?m]"
        "\<lambda>_ _ _. Ret (Inl (Sen ErrCoordinatorStopped))" "Sen ErrCoordinatorStopped" ex_call] u
    by (auto simp: ex_env_def)
qed

end
