(* ===== verification/GW_Events.thy ===== *)
theory GW_Events
  imports GW_Handler
begin

text \<open>
  \<open>types.go\<close> (the link event interface and the wrapper that runs several handlers), the small
  handlers of \<open>internal/linkevent\<close> (rate limit, online users, metrics, user actions) and the
  composition that \<open>ioc/linkevent_handler.go\<close> installs in the server.
\<close>

subsection \<open>The interface\<close>

text \<open>What the outside world does during one callback: see \<open>hcall\<close>; \<open>ec_fw\<close> and \<open>ec_ce\<close> are the
  outcome of closing the socket, \<open>ec_produce\<close> the answer of the message queue.\<close>

record ev_call =
  ec_call :: hcall
  ec_fw :: bool
  ec_ce :: "gerr option"
  ec_produce :: "gerr option"

text \<open>\<open>LinkEventHandler\<close>: four callbacks on a link of the shared heap and the handlers' own state.\<close>

type_synonym 'h ev_result = "(gerr option \<times> link list \<times> 'h) exec"

record 'h link_event_handler =
  lh_OnConnect :: "ev_call \<Rightarrow> nat \<Rightarrow> link list \<times> 'h \<Rightarrow> 'h ev_result"
  lh_OnFrontendSendMessage :: "ev_call \<Rightarrow> nat \<Rightarrow> bytes \<Rightarrow> link list \<times> 'h \<Rightarrow> 'h ev_result"
  lh_OnBackendPushMessage :: "ev_call \<Rightarrow> nat \<Rightarrow> push_message \<Rightarrow> link list \<times> 'h \<Rightarrow> 'h ev_result"
  lh_OnDisconnect :: "ev_call \<Rightarrow> nat \<Rightarrow> link list \<times> 'h \<Rightarrow> 'h ev_result"

subsection \<open>The wrapper\<close>

text \<open>\<open>multierr.Append\<close> is outside the repository: \<open>app\<close>. Its documentation promises that a nil
  error is neutral and that \<open>errors.Is\<close> finds what is in either part.\<close>

type_synonym append_fun = "gerr option \<Rightarrow> gerr option \<Rightarrow> gerr option"

definition multierr_ok :: "append_fun \<Rightarrow> bool" where
  "multierr_ok app \<longleftrightarrow> (\<forall>e. app None e = e \<and> app e None = e)
     \<and> (\<forall>a b t. err_is (app a b) t \<longleftrightarrow> err_is a t \<or> err_is b t)
     \<and> (\<forall>a b. app a b = None \<longleftrightarrow> a = None \<and> b = None)"

fun wrap_all :: "append_fun \<Rightarrow> ('s \<Rightarrow> (gerr option \<times> 's) exec) list \<Rightarrow> gerr option \<Rightarrow> 's \<Rightarrow> (gerr option \<times> 's) exec" where
  "wrap_all app [] err s = Ret (err, s)"
| "wrap_all app (f # fs) err s = exec_bind (f s) (\<lambda>(e, s'). wrap_all app fs (app err e) s')"

fun wrap_frontend :: "append_fun \<Rightarrow> ('s \<Rightarrow> (gerr option \<times> 's) exec) list \<Rightarrow> gerr option \<Rightarrow> 's \<Rightarrow> (gerr option \<times> 's) exec" where
  "wrap_frontend app [] err s = Ret (err, s)"
| "wrap_frontend app (f # fs) err s =
     exec_bind (f s) (\<lambda>(err1, s'). if err_is err1 ErrRateLimitExceeded then Ret (None, s')
                                   else wrap_frontend app fs (app err err1) s')"

definition NewLinkEventHandlerWrapper :: "append_fun \<Rightarrow> 'h link_event_handler list \<Rightarrow> 'h link_event_handler" where
  "NewLinkEventHandlerWrapper app handlers =
     \<lparr>lh_OnConnect = (\<lambda>c lk. wrap_all app (map (\<lambda>h. lh_OnConnect h c lk) handlers) None),
      lh_OnFrontendSendMessage = (\<lambda>c lk payload.
        wrap_frontend app (map (\<lambda>h. lh_OnFrontendSendMessage h c lk payload) handlers) None),
      lh_OnBackendPushMessage = (\<lambda>c lk msg. wrap_all app (map (\<lambda>h. lh_OnBackendPushMessage h c lk msg) handlers) None),
      lh_OnDisconnect = (\<lambda>c lk. wrap_all app (map (\<lambda>h. lh_OnDisconnect h c lk) handlers) None)\<rparr>"

subsection \<open>The handlers' state\<close>

record user_action_event =
  ua_BizID :: int
  ua_UserID :: int
  ua_Action :: string

text \<open>The state of all the handlers the server runs: the message handler's (its copy of the link heap is
  replaced by the shared one at every call), the rate limiter, the gauge of online users by label, the
  counters of messages and of bytes by labels, and the events handed to the queue.\<close>

record ('c, 'l) ev_state =
  es_handler :: "'c hstate"
  es_limiter :: 'l
  es_online :: "string \<Rightarrow> int"
  es_messages :: "string \<times> string \<Rightarrow> nat"
  es_bytes :: "string \<times> string \<Rightarrow> nat"
  es_actions :: "user_action_event list"

subsection \<open>The rate limit\<close>

text \<open>\<open>allow\<close> is \<open>rate.Limiter.Allow\<close>. A marshalling error leaves the payload nil.\<close>

definition rateLimitExceededMessage :: "('c, 'rs) henv \<Rightarrow> string \<Rightarrow> bytes" where
  "rateLimitExceededMessage E key =
     (case he_marshal E \<lparr>msg_cmd = RATE_LIMIT_EXCEEDED, msg_key = key, msg_body = []\<rparr> of
        Inl err \<Rightarrow> [] | Inr payload \<Rightarrow> payload)"

definition limit_OnFrontendSendMessage ::
  "('c, 'rs) henv \<Rightarrow> ('l \<Rightarrow> bool \<times> 'l) \<Rightarrow> ev_call \<Rightarrow> nat \<Rightarrow> bytes
     \<Rightarrow> link list \<times> ('c, 'l) ev_state \<Rightarrow> ('c, 'l) ev_state ev_result" where
  "limit_OnFrontendSendMessage E allow c lk payload hs =
     (let (heap, s) = hs in
      case he_unmarshal E payload of
        Inl err \<Rightarrow> Ret (None, heap, s)
      | Inr msg \<Rightarrow>
          if msg_cmd msg = HEARTBEAT then Ret (None, heap, s)
          else let (ok, l') = allow (es_limiter s); s1 = s\<lparr>es_limiter := l'\<rparr> in
            if ok then Ret (None, heap, s1)
            else (case link_send (fst (hc_pick (ec_call c))) (snd (hc_pick (ec_call c))) (heap ! lk)
                         (rateLimitExceededMessage E (msg_key msg)) of
                    SBlocked \<Rightarrow> Block
                  | SReturn err lnk \<Rightarrow> Ret (Some (Sen ErrRateLimitExceeded), heap[lk := lnk], s1)))"

definition LimitHandler :: "('c, 'rs) henv \<Rightarrow> ('l \<Rightarrow> bool \<times> 'l) \<Rightarrow> ('c, 'l) ev_state link_event_handler" where
  "LimitHandler E allow =
     \<lparr>lh_OnConnect = (\<lambda>c lk (heap, s). Ret (None, heap, s)),
      lh_OnFrontendSendMessage = limit_OnFrontendSendMessage E allow,
      lh_OnBackendPushMessage = (\<lambda>c lk msg (heap, s). Ret (None, heap, s)),
      lh_OnDisconnect = (\<lambda>c lk (heap, s). Ret (None, heap, s))\<rparr>"

subsection \<open>The gauge of online users\<close>

definition labelValues :: "nat \<Rightarrow> link list \<Rightarrow> string" where
  "labelValues lk heap = fmt_d (BizID (lk_user (heap ! lk)))"

definition online_OnConnect :: "ev_call \<Rightarrow> nat \<Rightarrow> link list \<times> ('c, 'l) ev_state \<Rightarrow> ('c, 'l) ev_state ev_result" where
  "online_OnConnect c lk hs =
     (let (heap, s) = hs; l = labelValues lk heap
      in Ret (None, heap, s\<lparr>es_online := (es_online s)(l := es_online s l + 1)\<rparr>))"

definition online_OnDisconnect :: "ev_call \<Rightarrow> nat \<Rightarrow> link list \<times> ('c, 'l) ev_state \<Rightarrow> ('c, 'l) ev_state ev_result" where
  "online_OnDisconnect c lk hs =
     (let (heap, s) = hs; l = labelValues lk heap
      in Ret (None, heap, s\<lparr>es_online := (es_online s)(l := es_online s l - 1)\<rparr>))"

definition OnlineUserHandler :: "('c, 'l) ev_state link_event_handler" where
  "OnlineUserHandler =
     \<lparr>lh_OnConnect = online_OnConnect,
      lh_OnFrontendSendMessage = (\<lambda>c lk payload (heap, s). Ret (None, heap, s)),
      lh_OnBackendPushMessage = (\<lambda>c lk msg (heap, s). Ret (None, heap, s)),
      lh_OnDisconnect = online_OnDisconnect\<rparr>"

subsection \<open>The message counters\<close>

definition updateMessageMetrics :: "string \<Rightarrow> int \<Rightarrow> nat \<Rightarrow> ('c, 'l) ev_state \<Rightarrow> ('c, 'l) ev_state" where
  "updateMessageMetrics direction bizID bodySize s =
     (let l = (direction, fmt_d bizID)
      in s\<lparr>es_messages := (es_messages s)(l := es_messages s l + 1),
           es_bytes := (es_bytes s)(l := es_bytes s l + bodySize)\<rparr>)"

definition prom_OnFrontendSendMessage ::
  "('c, 'rs) henv \<Rightarrow> ev_call \<Rightarrow> nat \<Rightarrow> bytes \<Rightarrow> link list \<times> ('c, 'l) ev_state \<Rightarrow> ('c, 'l) ev_state ev_result" where
  "prom_OnFrontendSendMessage E c lk payload hs =
     (let (heap, s) = hs in
      case he_unmarshal E payload of
        Inl err \<Rightarrow> Ret (None, heap, s)
      | Inr msg \<Rightarrow>
          if msg_cmd msg = HEARTBEAT then Ret (None, heap, s)
          else Ret (None, heap, updateMessageMetrics ''upstream'' (BizID (lk_user (heap ! lk))) (length (msg_body msg)) s))"

definition prom_OnBackendPushMessage ::
  "ev_call \<Rightarrow> nat \<Rightarrow> push_message \<Rightarrow> link list \<times> ('c, 'l) ev_state \<Rightarrow> ('c, 'l) ev_state ev_result" where
  "prom_OnBackendPushMessage c lk msg hs =
     (let (heap, s) = hs
      in Ret (None, heap, updateMessageMetrics ''downstream'' (pm_bizId msg) (length (pm_body msg)) s))"

definition PrometheusHandler :: "('c, 'rs) henv \<Rightarrow> ('c, 'l) ev_state link_event_handler" where
  "PrometheusHandler E =
     \<lparr>lh_OnConnect = (\<lambda>c lk (heap, s). Ret (None, heap, s)),
      lh_OnFrontendSendMessage = prom_OnFrontendSendMessage E,
      lh_OnBackendPushMessage = prom_OnBackendPushMessage,
      lh_OnDisconnect = (\<lambda>c lk (heap, s). Ret (None, heap, s))\<rparr>"

subsection \<open>User action events\<close>

text \<open>A failure of the queue is only logged.\<close>

definition sendUserActionEvent ::
  "string \<Rightarrow> ev_call \<Rightarrow> nat \<Rightarrow> link list \<times> ('c, 'l) ev_state \<Rightarrow> gerr option \<times> ('c, 'l) ev_state" where
  "sendUserActionEvent action c lk hs =
     (let (heap, s) = hs; userInfo = lk_user (heap ! lk)
      in (ec_produce c, s\<lparr>es_actions := es_actions s @
            [\<lparr>ua_BizID = BizID userInfo, ua_UserID = UserID userInfo, ua_Action = action\<rparr>]\<rparr>))"

definition action_OnConnect :: "ev_call \<Rightarrow> nat \<Rightarrow> link list \<times> ('c, 'l) ev_state \<Rightarrow> ('c, 'l) ev_state ev_result" where
  "action_OnConnect c lk hs = (let (err, s') = sendUserActionEvent ''ONLINE'' c lk hs in Ret (None, fst hs, s'))"

definition action_OnDisconnect :: "ev_call \<Rightarrow> nat \<Rightarrow> link list \<times> ('c, 'l) ev_state \<Rightarrow> ('c, 'l) ev_state ev_result" where
  "action_OnDisconnect c lk hs = (let (err, s') = sendUserActionEvent ''OFFLINE'' c lk hs in Ret (None, fst hs, s'))"

definition UserActionHandler :: "('c, 'l) ev_state link_event_handler" where
  "UserActionHandler =
     \<lparr>lh_OnConnect = action_OnConnect,
      lh_OnFrontendSendMessage = (\<lambda>c lk payload (heap, s). Ret (None, heap, s)),
      lh_OnBackendPushMessage = (\<lambda>c lk msg (heap, s). Ret (None, heap, s)),
      lh_OnDisconnect = action_OnDisconnect\<rparr>"

subsection \<open>The message handler and the composition\<close>

text \<open>A call of the message handler on the shared heap.\<close>

definition on_heap ::
  "('c hstate \<Rightarrow> (gerr option \<times> 'c hstate) exec) \<Rightarrow> link list \<times> ('c, 'l) ev_state \<Rightarrow> ('c, 'l) ev_state ev_result" where
  "on_heap f hs =
     (let (heap, s) = hs in
      exec_bind (f ((es_handler s)\<lparr>hs_links := heap\<rparr>))
        (\<lambda>(err, h'). Ret (err, hs_links h', s\<lparr>es_handler := h'\<rparr>)))"

definition MessageHandler :: "('c, 'rs) henv \<Rightarrow> ('c, 'l) ev_state link_event_handler" where
  "MessageHandler E =
     \<lparr>lh_OnConnect = (\<lambda>c lk. on_heap (OnConnect lk)),
      lh_OnFrontendSendMessage = (\<lambda>c lk payload. on_heap (OnFrontendSendMessage E (ec_call c) lk payload)),
      lh_OnBackendPushMessage = (\<lambda>c lk msg. on_heap (OnBackendPushMessage E (ec_call c) lk msg)),
      lh_OnDisconnect = (\<lambda>c lk. on_heap (OnDisconnect (ec_fw c) (ec_ce c) lk))\<rparr>"

definition InitLinkEventHandlerWrapper ::
  "append_fun \<Rightarrow> ('c, 'rs) henv \<Rightarrow> ('l \<Rightarrow> bool \<times> 'l) \<Rightarrow> ('c, 'l) ev_state link_event_handler" where
  "InitLinkEventHandlerWrapper app E allow =
     NewLinkEventHandlerWrapper app
       [LimitHandler E allow, MessageHandler E, UserActionHandler, OnlineUserHandler, PrometheusHandler E]"

subsection \<open>What the callbacks keep of the shared links\<close>

text \<open>Identifiers stay, and a closed link stays closed.\<close>

definition heap_le :: "link list \<Rightarrow> link list \<Rightarrow> bool" where
  "heap_le h h' \<longleftrightarrow> heap_ids h' = heap_ids h \<and> (\<forall>r < length h. lk_once (h ! r) \<longrightarrow> lk_once (h' ! r))"

named_theorems heap_le "operations that keep the shared links"

lemma heap_le_refl [simp, intro]: "heap_le h h"
  by (simp add: heap_le_def)

lemma heap_le_length: "heap_le h h' \<Longrightarrow> length h' = length h"
  by (metis heap_le_def length_heap_ids)

lemma heap_le_trans: "heap_le h h' \<Longrightarrow> heap_le h' h'' \<Longrightarrow> heap_le h h''"
  using heap_le_length by (fastforce simp: heap_le_def)

lemma heap_le_update:
  "lk_id l' = lk_id (h ! r) \<Longrightarrow> lk_user l' = lk_user (h ! r) \<Longrightarrow> (lk_once (h ! r) \<Longrightarrow> lk_once l') \<Longrightarrow> heap_le h (h[r := l'])"
  by (cases "r < length h") (auto simp: heap_le_def heap_ids_update nth_list_update list_update_beyond)

lemma heap_le_ids: "heap_le h h' \<Longrightarrow> r < length h \<Longrightarrow> lk_id (h' ! r) = lk_id (h ! r) \<and> lk_user (h' ! r) = lk_user (h ! r)"
  using heap_ids_nth heap_le_length by (metis heap_le_def prod.inject)

lemma link_send_once: "link_send pick late l p = SReturn err l' \<Longrightarrow> lk_once l' = lk_once l"
  by (auto simp: link_send_def Let_def ch_try_send_Some split: if_splits option.splits)

lemma send_heap_le [heap_le]: "link_send pick late (h ! r) p = SReturn err l' \<Longrightarrow> heap_le h (h[r := l'])"
  by (rule heap_le_update) (auto dest: link_send_ids link_send_once)

lemma close_heap_le [heap_le]: "link_close fw ce (h ! r) = (err, l') \<Longrightarrow> heap_le h (h[r := l'])"
  by (rule heap_le_update) (auto simp: link_close_def Let_def)

lemma touch_heap_le [heap_le]: "heap_le (hs_links s) (hs_links (touch_link now lk s))"
  unfolding touch_link_def by (simp, rule heap_le_update) (auto simp: link_updateActiveTime_def)

lemma push_heap_le [heap_le]: "push E nd lk mref s = Ret (err, s') \<Longrightarrow> heap_le (hs_links s) (hs_links s')"
  by (auto simp: push_def Let_def intro: send_heap_le split: sum.splits send_result.splits)

lemma ack_heap_le [heap_le]: "sendUpstreamMessageAck E nd lk key resp s = Ret (err, s') \<Longrightarrow> heap_le (hs_links s) (hs_links s')"
  by (auto simp: sendUpstreamMessageAck_def alloc_msg_def dest: push_heap_le split: sum.splits)

lemma upstream_heap_le [heap_le]:
  assumes "handleOnUpstreamMessageCmd E nd lk mref s = Ret (err, s')"
  shows "heap_le (hs_links s) (hs_links s')"
proof -
  obtain r s2 where f: "forwardToBusinessBackend E nd (BizID (userInfo lk (touch_link (hc_now nd) lk s)))
      (hs_msgs s ! mref) (touch_link (hc_now nd) lk s) = Ret (r, s2)"
    and k: "(case r of Inl err \<Rightarrow> Ret (Some err, s2)
      | Inr resp \<Rightarrow> sendUpstreamMessageAck E nd lk (msg_key (hs_msgs s2 ! mref)) resp s2) = Ret (err, s')"
    using assms by (auto simp: handleOnUpstreamMessageCmd_def Let_def exec_bind_Ret)
  have "heap_le (hs_links s) (hs_links s2)" using forward_frame [OF f] touch_heap_le by simp
  with k show ?thesis by (auto dest: ack_heap_le intro: heap_le_trans split: sum.splits)
qed

lemma funcs_heap_le [heap_le]:
  assumes "handler_funcs E cmd = Some f" and "f nd lk mref s = Ret (err, s')"
  shows "heap_le (hs_links s) (hs_links s')"
  using assms
  by (cases cmd) (auto simp: handler_funcs_def handleOnHeartbeatCmd_def handleDownstreamAckCmd_def
      dest: push_heap_le upstream_heap_le)

lemma cacheMessage_links: "hs_links (snd (cacheMessage E b msg s)) = hs_links s"
  by (simp add: cacheMessage_def Let_def split: prod.splits)

lemma deleteCache_links: "hs_links (snd (deleteCacheMessage E b msg s)) = hs_links s"
  by (simp add: deleteCacheMessage_def Let_def split: prod.splits)

lemma frontend_heap_le [heap_le]:
  assumes "OnFrontendSendMessage E nd lk payload s = Ret (err, s')"
  shows "heap_le (hs_links s) (hs_links s')"
proof (cases "getMessage E payload")
  case (Inr msg)
  obtain ok s1 where c: "cacheMessage E (BizID (userInfo lk s)) msg s = (ok, s1)" by fastforce
  have s1: "hs_links s1 = hs_links s" using cacheMessage_links [of E _ msg s] c by (metis snd_conv)
  show ?thesis
  proof (cases "ok = Inr True \<and> handler_funcs E (msg_cmd msg) \<noteq> None")
    case False
    then have "s' = s1" using assms Inr c
      by (auto simp: OnFrontendSendMessage_def split: sum.splits bool.splits option.splits)
    then show ?thesis by (simp add: s1)
  next
    case True
    then obtain f e3 s3 where f: "handler_funcs E (msg_cmd msg) = Some f"
        "f nd lk (length (hs_msgs s1)) (s1\<lparr>hs_msgs := hs_msgs s1 @ [msg]\<rparr>) = Ret (e3, s3)"
      and r: "(case e3 of None \<Rightarrow> Ret (None, s3) | Some e \<Rightarrow> Ret (Some e, if shouldDeleteCacheOnError e
        then snd (deleteCacheMessage E (BizID (userInfo lk s)) msg s3) else s3)) = Ret (err, s')"
      using assms Inr c by (auto simp: OnFrontendSendMessage_def alloc_msg_def exec_bind_Ret)
    have "hs_links s' = hs_links s3" using r deleteCache_links by (auto split: option.splits)
    then show ?thesis using funcs_heap_le [OF f] s1 by simp
  qed
qed (use assms in \<open>simp add: OnFrontendSendMessage_def\<close>)

lemma backend_heap_le [heap_le]:
  assumes "OnBackendPushMessage E nd lk msg s = Ret (err, s')"
  shows "heap_le (hs_links s) (hs_links s')"
proof (cases "pm_bizId msg = 0 \<or> pm_key msg = ''''")
  case False
  obtain e s1 where p: "push E nd lk (length (hs_msgs s)) (s\<lparr>hs_msgs := hs_msgs s @
      [\<lparr>msg_cmd = DOWNSTREAM_MESSAGE, msg_key = pm_key msg, msg_body = pm_body msg\<rparr>]\<rparr>) = Ret (e, s1)"
    and r: "hs_links s' = (if e = None then hs_links (touch_link (hc_now nd) lk s1) else hs_links s1)"
    using assms False by (auto simp: OnBackendPushMessage_def alloc_msg_def exec_bind_Ret Let_def split: option.splits)
  have "heap_le (hs_links s) (hs_links s1)" using push_heap_le [OF p] by simp
  then show ?thesis using r heap_le_trans [OF _ touch_heap_le] by (cases "e = None") simp_all
qed (use assms in \<open>simp add: OnBackendPushMessage_def\<close>)

lemma disconnect_heap_le [heap_le]:
  "OnDisconnect fw ce lk s = Ret (err, s') \<Longrightarrow> heap_le (hs_links s) (hs_links s')"
  by (auto simp: OnDisconnect_def Let_def intro: close_heap_le split: prod.splits)

text \<open>The contract of a handler: whatever a callback does, it keeps the shared links.\<close>

locale link_events =
  fixes h :: "'h link_event_handler"
  assumes OnConnect_keeps: "lh_OnConnect h c lk (heap, s) = Ret (err, heap', s') \<Longrightarrow> heap_le heap heap'"
    and OnFrontend_keeps: "lh_OnFrontendSendMessage h c lk payload (heap, s) = Ret (err, heap', s') \<Longrightarrow> heap_le heap heap'"
    and OnBackend_keeps: "lh_OnBackendPushMessage h c lk msg (heap, s) = Ret (err, heap', s') \<Longrightarrow> heap_le heap heap'"
    and OnDisconnect_keeps: "lh_OnDisconnect h c lk (heap, s) = Ret (err, heap', s') \<Longrightarrow> heap_le heap heap'"
begin

lemmas keeps = OnConnect_keeps OnFrontend_keeps OnBackend_keeps OnDisconnect_keeps

end

lemma wrap_all_keeps:
  assumes "\<And>f heap s e heap' s'. f \<in> set fs \<Longrightarrow> f (heap, s) = Ret (e, heap', s') \<Longrightarrow> heap_le heap heap'"
  shows "wrap_all app fs err (heap, s) = Ret (err', heap', s') \<Longrightarrow> heap_le heap heap'"
  using assms
proof (induction fs arbitrary: err heap s)
  case (Cons f fs)
  then obtain e h1 s1 where 1: "f (heap, s) = Ret (e, h1, s1)" "wrap_all app fs (app err e) (h1, s1) = Ret (err', heap', s')"
    by (auto simp: exec_bind_Ret)
  have "heap_le h1 heap'" using Cons.IH [OF 1(2)] Cons.prems(2) by (meson list.set_intros(2))
  moreover have "heap_le heap h1" using Cons.prems(2) 1(1) by (meson list.set_intros(1))
  ultimately show ?case by (blast intro: heap_le_trans)
qed simp

lemma wrap_frontend_keeps:
  assumes "\<And>f heap s e heap' s'. f \<in> set fs \<Longrightarrow> f (heap, s) = Ret (e, heap', s') \<Longrightarrow> heap_le heap heap'"
  shows "wrap_frontend app fs err (heap, s) = Ret (err', heap', s') \<Longrightarrow> heap_le heap heap'"
  using assms
proof (induction fs arbitrary: err heap s)
  case (Cons f fs)
  then obtain e h1 s1 where 1: "f (heap, s) = Ret (e, h1, s1)"
    "(if err_is e ErrRateLimitExceeded then Ret (None, h1, s1) else wrap_frontend app fs (app err e) (h1, s1)) = Ret (err', heap', s')"
    by (auto simp: exec_bind_Ret)
  have h: "heap_le heap h1" using Cons.prems(2) 1(1) by (meson list.set_intros(1))
  show ?case
  proof (cases "err_is e ErrRateLimitExceeded")
    case True
    then show ?thesis using 1(2) h by simp
  next
    case False
    then have "wrap_frontend app fs (app err e) (h1, s1) = Ret (err', heap', s')" using 1(2) by simp
    then have "heap_le h1 heap'" using Cons.IH Cons.prems(2) by (meson list.set_intros(2))
    then show ?thesis using h by (blast intro: heap_le_trans)
  qed
qed simp

text \<open>A wrapper of handlers with the contract has it.\<close>

lemma wrapper_link_events:
  assumes "\<forall>h \<in> set handlers. link_events h"
  shows "link_events (NewLinkEventHandlerWrapper app handlers)"
proof (unfold_locales, goal_cases)
  case (1 c lk heap s err heap' s')
  then show ?case using wrap_all_keeps [of "map (\<lambda>h. lh_OnConnect h c lk) handlers"] assms
    by (fastforce simp: NewLinkEventHandlerWrapper_def dest: link_events.OnConnect_keeps)
next
  case (2 c lk payload heap s err heap' s')
  then show ?case using wrap_frontend_keeps [of "map (\<lambda>h. lh_OnFrontendSendMessage h c lk payload) handlers"] assms
    by (fastforce simp: NewLinkEventHandlerWrapper_def dest: link_events.OnFrontend_keeps)
next
  case (3 c lk msg heap s err heap' s')
  then show ?case using wrap_all_keeps [of "map (\<lambda>h. lh_OnBackendPushMessage h c lk msg) handlers"] assms
    by (fastforce simp: NewLinkEventHandlerWrapper_def dest: link_events.OnBackend_keeps)
next
  case (4 c lk heap s err heap' s')
  then show ?case using wrap_all_keeps [of "map (\<lambda>h. lh_OnDisconnect h c lk) handlers"] assms
    by (fastforce simp: NewLinkEventHandlerWrapper_def dest: link_events.OnDisconnect_keeps)
qed


lemma on_heap_keeps:
  assumes "on_heap f (heap, s) = Ret (err, heap', s')"
    and "\<And>t e t'. f t = Ret (e, t') \<Longrightarrow> heap_le (hs_links t) (hs_links t')"
  shows "heap_le heap heap'"
proof -
  obtain e t' where "f ((es_handler s)\<lparr>hs_links := heap\<rparr>) = Ret (e, t')" "heap' = hs_links t'"
    using assms(1) by (auto simp: on_heap_def exec_bind_Ret)
  then show ?thesis using assms(2) by fastforce
qed

interpretation lim_h: link_events "LimitHandler E allow" for E allow
  by unfold_locales (auto simp: LimitHandler_def limit_OnFrontendSendMessage_def Let_def intro: send_heap_le
      split: sum.splits prod.splits send_result.splits if_splits)

interpretation online_h: link_events OnlineUserHandler
  by unfold_locales (auto simp: OnlineUserHandler_def online_OnConnect_def online_OnDisconnect_def Let_def)

interpretation prom_h: link_events "PrometheusHandler E" for E
  by unfold_locales (auto simp: PrometheusHandler_def prom_OnFrontendSendMessage_def prom_OnBackendPushMessage_def
      Let_def split: sum.splits if_splits)

interpretation action_h: link_events UserActionHandler
  by unfold_locales (auto simp: UserActionHandler_def action_OnConnect_def action_OnDisconnect_def split: prod.splits)

interpretation msg_h: link_events "MessageHandler E" for E
proof (unfold_locales, goal_cases)
  case (1 c lk heap s err heap' s')
  then show ?case by (auto simp: MessageHandler_def OnConnect_def elim!: on_heap_keeps)
next
  case (2 c lk payload heap s err heap' s')
  then show ?case by (auto simp: MessageHandler_def dest: frontend_heap_le elim!: on_heap_keeps)
next
  case (3 c lk msg heap s err heap' s')
  then show ?case by (auto simp: MessageHandler_def dest: backend_heap_le elim!: on_heap_keeps)
next
  case (4 c lk heap s err heap' s')
  then show ?case by (auto simp: MessageHandler_def dest: disconnect_heap_le elim!: on_heap_keeps)
qed

interpretation init_h: link_events "InitLinkEventHandlerWrapper app E allow" for app E allow
  unfolding InitLinkEventHandlerWrapper_def
  by (rule wrapper_link_events)
    (simp add: lim_h.link_events_axioms online_h.link_events_axioms prom_h.link_events_axioms
      action_h.link_events_axioms msg_h.link_events_axioms)

subsection \<open>Properties\<close>

lemmas handler_defs = InitLinkEventHandlerWrapper_def NewLinkEventHandlerWrapper_def LimitHandler_def MessageHandler_def
  UserActionHandler_def OnlineUserHandler_def PrometheusHandler_def

lemma multierr_ok_simps [simp]:
  "multierr_ok app \<Longrightarrow> app None e = e" "multierr_ok app \<Longrightarrow> app e None = e"
  by (simp_all add: multierr_ok_def)

text \<open>C38. A message the rate limiter refuses reaches no other handler: the key is not cached, the backend is not called,
  nothing is counted; the client gets exactly one message, the rate limit notice with the key of the refused
  message, and the server sees no error.\<close>

theorem events_rate_limited:
  assumes "codec_ok E" and "he_unmarshal E payload = Inr msg" and "msg_cmd msg \<noteq> HEARTBEAT"
    and "allow (es_limiter s) = (False, l')"
    and "he_marshal E \<lparr>msg_cmd = RATE_LIMIT_EXCEEDED, msg_key = msg_key msg, msg_body = []\<rparr> = Inr p"
    and "\<not> lk_done (heap ! lk)" and "ch_room (lk_sendCh (heap ! lk))" and "lk < length heap"
  shows "\<exists>heap' m. lh_OnFrontendSendMessage (InitLinkEventHandlerWrapper app E allow) c lk payload (heap, s)
      = Ret (None, heap', s\<lparr>es_limiter := l'\<rparr>)
    \<and> ch_buf (lk_sendCh (heap' ! lk)) = ch_buf (lk_sendCh (heap ! lk)) @ [p]
    \<and> he_unmarshal E p = Inr m \<and> msg_cmd m = RATE_LIMIT_EXCEEDED \<and> msg_key m = msg_key msg
    \<and> (\<forall>r. r \<noteq> lk \<longrightarrow> heap' ! r = heap ! r)"
proof -
  have p: "rateLimitExceededMessage E (msg_key msg) = p" using assms(5) by (simp add: rateLimitExceededMessage_def)
  obtain err l where l: "link_send (fst (hc_pick (ec_call c))) (snd (hc_pick (ec_call c))) (heap ! lk) p = SReturn err l"
      "ch_buf (lk_sendCh l) = ch_buf (lk_sendCh (heap ! lk)) @ [p]"
    using assms(6,7) by (auto simp: link_send_def Let_def ch_try_send_def)
  have "lh_OnFrontendSendMessage (InitLinkEventHandlerWrapper app E allow) c lk payload (heap, s)
      = Ret (None, heap[lk := l], s\<lparr>es_limiter := l'\<rparr>)"
    using assms(2,3,4) l(1) by (simp add: handler_defs limit_OnFrontendSendMessage_def p)
  moreover have "he_unmarshal E p = Inr \<lparr>msg_cmd = RATE_LIMIT_EXCEEDED, msg_key = msg_key msg, msg_body = []\<rparr>"
    using assms(1,5) by (simp add: codec_ok_def)
  ultimately show ?thesis using l(2) assms(8)
    by (intro exI [of _ "heap[lk := l]"] exI [of _ "\<lparr>msg_cmd = RATE_LIMIT_EXCEEDED, msg_key = msg_key msg, msg_body = []\<rparr>"]) simp
qed

text \<open>A message the rate limiter admits, and a heartbeat, which it does not see, is given to the message handler on the
  same links; the server gets that handler's error; the upstream counters of the sender's business grow by
  one message and the size of its (still encrypted) body, also when the message was rejected, but not for
  a heartbeat.\<close>

theorem events_admitted:
  assumes "multierr_ok app" and "he_unmarshal E payload = Inr msg"
    and "OnFrontendSendMessage E (ec_call c) lk payload ((es_handler s)\<lparr>hs_links := heap\<rparr>) = Ret (err, h')"
    and "\<not> err_is err ErrRateLimitExceeded" and "lk < length heap"
  shows "(msg_cmd msg = HEARTBEAT \<longrightarrow>
      lh_OnFrontendSendMessage (InitLinkEventHandlerWrapper app E allow) c lk payload (heap, s)
        = Ret (err, hs_links h', s\<lparr>es_handler := h'\<rparr>))
    \<and> (msg_cmd msg \<noteq> HEARTBEAT \<and> allow (es_limiter s) = (True, l') \<longrightarrow>
      lh_OnFrontendSendMessage (InitLinkEventHandlerWrapper app E allow) c lk payload (heap, s)
        = Ret (err, hs_links h', updateMessageMetrics ''upstream'' (BizID (lk_user (heap ! lk))) (length (msg_body msg))
            (s\<lparr>es_limiter := l', es_handler := h'\<rparr>)))"
proof -
  have "heap_le heap (hs_links h')" using frontend_heap_le [OF assms(3)] by simp
  then have u: "lk_user (hs_links h' ! lk) = lk_user (heap ! lk)" using heap_le_ids assms(5) by blast
  show ?thesis using assms(1-4)
    by (simp add: handler_defs limit_OnFrontendSendMessage_def on_heap_def action_OnConnect_def
        prom_OnFrontendSendMessage_def u)
qed

lemma connect_result:
  assumes "multierr_ok app"
  shows "lh_OnConnect (InitLinkEventHandlerWrapper app E allow) c lk (heap, s)
      = Ret (None, heap, s\<lparr>es_handler := (es_handler s)\<lparr>hs_links := heap\<rparr>,
          es_online := (es_online s)(fmt_d (BizID (lk_user (heap ! lk))) := es_online s (fmt_d (BizID (lk_user (heap ! lk)))) + 1),
          es_actions := es_actions s @ [\<lparr>ua_BizID = BizID (lk_user (heap ! lk)), ua_UserID = UserID (lk_user (heap ! lk)), ua_Action = ''ONLINE''\<rparr>]\<rparr>)"
  using assms by (simp add: handler_defs on_heap_def OnConnect_def action_OnConnect_def sendUserActionEvent_def Let_def
        online_OnConnect_def labelValues_def)

lemma disconnect_result:
  assumes "multierr_ok app"
  shows "\<exists>s'. lh_OnDisconnect (InitLinkEventHandlerWrapper app E allow) c lk (heap, s)
        = Ret (fst (link_close (ec_fw c) (ec_ce c) (heap ! lk)), heap[lk := snd (link_close (ec_fw c) (ec_ce c) (heap ! lk))], s')
      \<and> hs_retry (es_handler s') = StopByLinkID (lk_id (heap ! lk)) (hs_retry (es_handler s))
      \<and> es_online s' = (es_online s)(fmt_d (BizID (lk_user (heap ! lk))) := es_online s (fmt_d (BizID (lk_user (heap ! lk)))) - 1)
      \<and> es_actions s' = es_actions s @ [\<lparr>ua_BizID = BizID (lk_user (heap ! lk)), ua_UserID = UserID (lk_user (heap ! lk)), ua_Action = ''OFFLINE''\<rparr>]"
proof -
  have u: "lk_user (heap[lk := snd (link_close fw ce (heap ! lk))] ! lk) = lk_user (heap ! lk)" for fw ce
    by (cases "lk < length heap") (simp_all add: link_close_def Let_def list_update_beyond)
  show ?thesis using assms
    by (simp add: handler_defs on_heap_def OnDisconnect_def action_OnDisconnect_def sendUserActionEvent_def Let_def
        online_OnDisconnect_def labelValues_def case_prod_beta u)
qed

text \<open>Connecting never fails, adds one to the gauge of the business and announces the user; disconnecting takes
  one off again, announces it, closes the link, stops the retransmissions of the link, and reports the error of
  closing the socket.\<close>

theorem events_connect_disconnect:
  assumes "multierr_ok app"
  shows "lh_OnConnect (InitLinkEventHandlerWrapper app E allow) c lk (heap, s)
      = Ret (None, heap, s\<lparr>es_handler := (es_handler s)\<lparr>hs_links := heap\<rparr>,
          es_online := (es_online s)(fmt_d (BizID (lk_user (heap ! lk))) := es_online s (fmt_d (BizID (lk_user (heap ! lk)))) + 1),
          es_actions := es_actions s @ [\<lparr>ua_BizID = BizID (lk_user (heap ! lk)), ua_UserID = UserID (lk_user (heap ! lk)), ua_Action = ''ONLINE''\<rparr>]\<rparr>)
    \<and> (\<exists>heap' s'. lh_OnDisconnect (InitLinkEventHandlerWrapper app E allow) c lk (heap, s)
        = Ret (fst (link_close (ec_fw c) (ec_ce c) (heap ! lk)), heap', s')
      \<and> heap' = heap[lk := snd (link_close (ec_fw c) (ec_ce c) (heap ! lk))]
      \<and> hs_retry (es_handler s') = StopByLinkID (lk_id (heap ! lk)) (hs_retry (es_handler s))
      \<and> es_online s' = (es_online s)(fmt_d (BizID (lk_user (heap ! lk))) := es_online s (fmt_d (BizID (lk_user (heap ! lk)))) - 1)
      \<and> es_actions s' = es_actions s @ [\<lparr>ua_BizID = BizID (lk_user (heap ! lk)), ua_UserID = UserID (lk_user (heap ! lk)), ua_Action = ''OFFLINE''\<rparr>])"
  using connect_result [OF assms] disconnect_result [OF assms] by blast

text \<open>The gauge of online users changes only when a link comes or goes.\<close>

lemma frontend_online:
  "lh_OnFrontendSendMessage (InitLinkEventHandlerWrapper app E allow) c lk payload (heap, s) = Ret (err, heap', s') \<Longrightarrow>
   es_online s' = es_online s"
  by (auto simp: handler_defs limit_OnFrontendSendMessage_def on_heap_def prom_OnFrontendSendMessage_def exec_bind_Ret
      updateMessageMetrics_def Let_def split: sum.splits if_splits send_result.splits prod.splits)

lemma backend_online:
  "lh_OnBackendPushMessage (InitLinkEventHandlerWrapper app E allow) c lk msg (heap, s) = Ret (err, heap', s') \<Longrightarrow>
   es_online s' = es_online s"
  by (auto simp: handler_defs on_heap_def prom_OnBackendPushMessage_def exec_bind_Ret updateMessageMetrics_def Let_def)


definition ex_ev :: "(string list, nat) ev_state" where
  "ex_ev = \<lparr>es_handler = ex_state, es_limiter = 0, es_online = (\<lambda>_. 0), es_messages = (\<lambda>_. 0), es_bytes = (\<lambda>_. 0), es_actions = []\<rparr>"

definition ex_evcall :: ev_call where
  "ex_evcall = \<lparr>ec_call = ex_call, ec_fw = True, ec_ce = None, ec_produce = Some (Txt ''queue'')\<rparr>"

definition ex_append :: append_fun where
  "ex_append a b = (case a of None \<Rightarrow> b | Some x \<Rightarrow> (case b of None \<Rightarrow> a | Some y \<Rightarrow> Some (WrapE [x, y])))"

lemma ex_append_ok: "multierr_ok ex_append"
  by (auto simp: multierr_ok_def ex_append_def split: option.splits)

theorem events_rate_limited_witness:
  "\<exists>heap' m p. lh_OnFrontendSendMessage (InitLinkEventHandlerWrapper ex_append ex_env (\<lambda>n. (False, n))) ex_evcall 0
      ex_payload (hs_links ex_state, ex_ev) = Ret (None, heap', ex_ev)
    \<and> ch_buf (lk_sendCh (heap' ! 0)) = [p]
    \<and> he_unmarshal ex_env p = Inr m \<and> msg_cmd m = RATE_LIMIT_EXCEEDED \<and> msg_key m = ''k1''"
proof -
  let ?m = "projr (he_unmarshal ex_env ex_payload)"
  let ?p = "projr (he_marshal ex_env \<lparr>msg_cmd = RATE_LIMIT_EXCEEDED, msg_key = msg_key ?m, msg_body = []\<rparr>)"
  have 1: "he_unmarshal ex_env ex_payload = Inr ?m" "msg_cmd ?m \<noteq> HEARTBEAT" "msg_key ?m = ''k1''"
    "he_marshal ex_env \<lparr>msg_cmd = RATE_LIMIT_EXCEEDED, msg_key = msg_key ?m, msg_body = []\<rparr> = Inr ?p" by code_simp+
  have 2: "\<not> lk_done (hs_links ex_state ! 0)" "ch_room (lk_sendCh (hs_links ex_state ! 0))" "0 < length (hs_links ex_state)"
    "ch_buf (lk_sendCh (hs_links ex_state ! 0)) = []" by code_simp+
  have 3: "(\<lambda>n. (False, n)) (es_limiter ex_ev) = (False, 0)" "ex_ev\<lparr>es_limiter := 0\<rparr> = ex_ev" by (simp_all add: ex_ev_def)
  from events_rate_limited [where allow = "\<lambda>n. (False, n)" and s = ex_ev and heap = "hs_links ex_state" and lk = 0 and app = ex_append
      and c = ex_evcall, OF ex_env_ok(2) 1(1,2) 3(1) 1(4) 2(1,2,3)]
  show ?thesis unfolding 3(2) 1(3) 2(4) append_Nil by blast
qed

theorem events_admitted_witness:
  "\<exists>h' s'. lh_OnFrontendSendMessage (InitLinkEventHandlerWrapper ex_append ex_env (\<lambda>n. (True, n + 1))) ex_evcall 0
      ex_payload (hs_links ex_state, ex_ev) = Ret (None, h', s')
    \<and> es_limiter s' = 1 \<and> es_messages s' (''upstream'', fmt_d 1) = 1"
proof -
  let ?m = "projr (he_unmarshal ex_env ex_payload)"
  have 1: "he_unmarshal ex_env ex_payload = Inr ?m" "msg_cmd ?m \<noteq> HEARTBEAT" by code_simp+
  have e: "(es_handler ex_ev)\<lparr>hs_links := hs_links ex_state\<rparr> = ex_state" by (simp add: ex_ev_def)
  obtain h' where h: "OnFrontendSendMessage ex_env (ec_call ex_evcall) 0 ex_payload ((es_handler ex_ev)\<lparr>hs_links := hs_links ex_state\<rparr>) = Ret (None, h')"
    using ex_upstream_run unfolding e by (auto simp: ex_evcall_def split: exec.splits prod.splits)
  have 2: "0 < length (hs_links ex_state)" "BizID (lk_user (hs_links ex_state ! 0)) = 1" by code_simp+
  from events_admitted [OF ex_append_ok 1(1) h _ 2(1), of "\<lambda>n. (True, n + 1)" 1] 1(2) 2(2)
  show ?thesis by (simp add: ex_ev_def updateMessageMetrics_def Let_def)
qed

theorem events_connect_disconnect_witness:
  "\<exists>heap' s'. lh_OnDisconnect (InitLinkEventHandlerWrapper ex_append ex_env (\<lambda>n. (True, n))) ex_evcall 0 (hs_links ex_state, ex_ev)
      = Ret (None, heap', s') \<and> lk_done (heap' ! 0) \<and> map ua_Action (es_actions s') = [''OFFLINE'']"
proof -
  have "fst (link_close (ec_fw ex_evcall) (ec_ce ex_evcall) (hs_links ex_state ! 0)) = None"
    "0 < length (hs_links ex_state)" "lk_done (snd (link_close (ec_fw ex_evcall) (ec_ce ex_evcall) (hs_links ex_state ! 0)))"
    by code_simp+
  then show ?thesis
    using events_connect_disconnect [OF ex_append_ok, of ex_env "\<lambda>n. (True, n)" ex_evcall 0 "hs_links ex_state" ex_ev]
    by (auto simp: ex_ev_def)
qed

end
