(* ===== verification/GW_Server.thy ===== *)
theory GW_Server
  imports GW_Events GW_Manager GW_Limiter
begin

text \<open>
  \<open>internal/websocket_server.go\<close>, with \<open>container.go\<close>, \<open>options.go\<close> and \<open>config.go\<close>: the gateway node. It
  composes the connection limiter, the link manager and the event handler; its goroutines are the
  accept loop, one goroutine per connection, the consumers of the message queue, the idle scan and the ramp-up
  of the limiter.
\<close>

subsection \<open>Configuration\<close>

record server_config =
  cf_Host :: string
  cf_Port :: int
  cf_Network :: string
  cf_EnableLocalMainIP :: bool

text \<open>\<open>host\<close> is the command line flag.\<close>

definition DefaultConfig :: "string \<Rightarrow> server_config" where
  "DefaultConfig host = \<lparr>cf_Host = host, cf_Port = 9002, cf_Network = ''tcp4'', cf_EnableLocalMainIP = False\<rparr>"

definition Address :: "server_config \<Rightarrow> string" where
  "Address config =
     (if cf_Network config = ''unix'' then cf_Host config else cf_Host config @ '':'' @ fmt_d (cf_Port config))"

record 'h container =
  cn_config :: server_config
  cn_name :: string
  cn_linkEventHandler :: "'h link_event_handler option"
  cn_consumers :: "string list"
  cn_linkManager :: "manager option"
  cn_updateNodeStateInterval :: int
  cn_nodeInfo :: "node option"
  cn_idleTimeout :: int
  cn_idleScanInterval :: int
  cn_tokenLimiter :: "token_limiter option"

type_synonym 'h server_option = "'h container \<Rightarrow> 'h container"

definition DefaultContainer :: "string \<Rightarrow> 'h container" where
  "DefaultContainer host =
     \<lparr>cn_config = DefaultConfig host, cn_name = '''', cn_linkEventHandler = None, cn_consumers = [], cn_linkManager = None,
      cn_updateNodeStateInterval = 0, cn_nodeInfo = None, cn_idleTimeout = 0, cn_idleScanInterval = 0, cn_tokenLimiter = None\<rparr>"

text \<open>\<open>Load\<close>: \<open>parsed\<close> is what the configuration file makes of the default configuration (\<open>None\<close>: it cannot be
  parsed, which panics), \<open>mainIP\<close> the address of the network card.\<close>

definition Load :: "string \<Rightarrow> server_config option \<Rightarrow> (gerr + string) \<Rightarrow> string \<Rightarrow> 'h container exec" where
  "Load host parsed mainIP key =
     (case parsed of
        None \<Rightarrow> Panic
      | Some cfg \<Rightarrow>
          let cfg1 = (if cf_EnableLocalMainIP cfg
                      then (case mainIP of Inl err \<Rightarrow> cfg | Inr h \<Rightarrow> cfg\<lparr>cf_Host := h\<rparr>) else cfg)
          in Ret ((DefaultContainer host)\<lparr>cn_config := cfg1, cn_name := key\<rparr>))"

definition WithNetwork :: "string \<Rightarrow> 'h server_option" where
  "WithNetwork network c = c\<lparr>cn_config := (cn_config c)\<lparr>cf_Network := network\<rparr>\<rparr>"
definition WithLinkEventHandler :: "'h link_event_handler \<Rightarrow> 'h server_option" where
  "WithLinkEventHandler h c = c\<lparr>cn_linkEventHandler := Some h\<rparr>"
definition WithAutoCloseIdleLink :: "int \<Rightarrow> int \<Rightarrow> 'h server_option" where
  "WithAutoCloseIdleLink idleTimeout idleScanInterval c = c\<lparr>cn_idleTimeout := idleTimeout, cn_idleScanInterval := idleScanInterval\<rparr>"
definition WithLinkManager :: "manager \<Rightarrow> 'h server_option" where
  "WithLinkManager m c = c\<lparr>cn_linkManager := Some m\<rparr>"
definition WithServiceRegistry :: "int \<Rightarrow> 'h server_option" where
  "WithServiceRegistry updateNodeStateInterval c = c\<lparr>cn_updateNodeStateInterval := updateNodeStateInterval\<rparr>"
definition WithNodeInfo :: "node \<Rightarrow> 'h server_option" where
  "WithNodeInfo n c = c\<lparr>cn_nodeInfo := Some n\<rparr>"
definition WithTokenLimiter :: "token_limiter \<Rightarrow> 'h server_option" where
  "WithTokenLimiter t c = c\<lparr>cn_tokenLimiter := Some t\<rparr>"
definition WithConsumers :: "string list \<Rightarrow> 'h server_option" where
  "WithConsumers keys c = c\<lparr>cn_consumers := keys\<rparr>"

subsection \<open>The server\<close>

text \<open>\<open>sv_hs\<close>: the state of the event handler; the links it sees are the manager's heap. The handler itself is the
  argument \<open>eh\<close> of the operations that call it.\<close>

record 'h server =
  sv_name :: string
  sv_config :: server_config
  sv_consumers :: "string list"
  sv_mgr :: manager
  sv_updateNodeStateInterval :: int
  sv_leaseID :: int
  sv_nodeInfo :: node
  sv_accepting :: bool
  sv_listening :: bool
  sv_idleTimeout :: int
  sv_idleScanInterval :: int
  sv_lim :: token_limiter
  sv_ctxDone :: bool
  sv_hs :: 'h

text \<open>\<open>None\<close>: the container has a component that is nil, and the server would panic when it first uses it.\<close>

definition newWebSocketServer :: "'h container \<Rightarrow> 'h \<Rightarrow> ('h link_event_handler \<times> 'h server) option" where
  "newWebSocketServer c hs =
     (case (cn_linkEventHandler c, cn_linkManager c, cn_nodeInfo c, cn_tokenLimiter c) of
        (Some eh, Some m, Some n, Some t) \<Rightarrow>
          Some (eh, \<lparr>sv_name = cn_name c, sv_config = cn_config c, sv_consumers = cn_consumers c, sv_mgr = m,
             sv_updateNodeStateInterval = cn_updateNodeStateInterval c, sv_leaseID = 0, sv_nodeInfo = n, sv_accepting = True,
             sv_listening = False, sv_idleTimeout = cn_idleTimeout c, sv_idleScanInterval = cn_idleScanInterval c,
             sv_lim = t, sv_ctxDone = False, sv_hs = hs\<rparr>)
      | _ \<Rightarrow> None)"

definition Build :: "'h server_option list \<Rightarrow> 'h container \<Rightarrow> 'h \<Rightarrow> ('h link_event_handler \<times> 'h server) option" where
  "Build options c hs = newWebSocketServer (fold (\<lambda>option c. option c) options c) hs"

definition Health :: "'h server \<Rightarrow> bool" where
  "Health s \<longleftrightarrow> \<not> sv_ctxDone s"

text \<open>A call of the event handler.\<close>

definition with_handler ::
  "(link list \<times> 'h \<Rightarrow> 'h ev_result) \<Rightarrow> 'h server \<Rightarrow> (gerr option \<times> 'h server) exec" where
  "with_handler f s =
     exec_bind (f (mg_heap (sv_mgr s), sv_hs s))
       (\<lambda>(err, heap, h). Ret (err, s\<lparr>sv_mgr := (sv_mgr s)\<lparr>mg_heap := heap\<rparr>, sv_hs := h\<rparr>))"

subsection \<open>Accepting connections\<close>

text \<open>The accept loop: about to check the flag, about to take a token, in \<open>Accept\<close> with a token, gone.\<close>

datatype accept_pc = AcCheck | AcAcquire | AcAccept | AcGone
datatype accept_res = AConn | AErr bool

text \<open>\<open>AErr cl\<close>: \<open>Accept\<close> failed, and whether because the listener was closed. The third result: a goroutine
  \<open>handleConn\<close> was started.\<close>

definition acceptConn :: "accept_res \<Rightarrow> accept_pc \<Rightarrow> 'h server \<Rightarrow> (accept_pc \<times> 'h server \<times> bool) option" where
  "acceptConn res pc s =
     (case pc of
        AcCheck \<Rightarrow> Some (if \<not> sv_accepting s then AcGone else AcAcquire, s, False)
      | AcAcquire \<Rightarrow>
          let (ok, t) = limiter_Acquire (sv_lim s)
          in Some (if ok then AcAccept else AcCheck, s\<lparr>sv_lim := t\<rparr>, False)
      | AcAccept \<Rightarrow>
          (case res of
             AConn \<Rightarrow> Some (AcCheck, s, True)
           | AErr cl \<Rightarrow>
               Some (if cl then AcGone else AcCheck, s\<lparr>sv_lim := snd (limiter_Release (sv_lim s))\<rparr>, False))
      | AcGone \<Rightarrow> None)"

subsection \<open>One connection\<close>

text \<open>Where \<open>handleConn\<close> stands: upgrading, creating the link, in a callback, in its select, and in the deferred
  calls, which run in the reverse order of their \<open>defer\<close>. \<open>CClose\<close> is the deferred \<open>conn.Close\<close>: the link it
  carries is the one that shares the socket (\<open>None\<close>: the upgrade failed, there is none), whose \<open>lk_connCloses\<close> counts
  this closing too; its error is only logged.\<close>

datatype conn_pc =
    CUpgrade | CNew user_info "bool option" | COnConnect nat | CLoop nat | CMsg nat bytes
  | COnDisconnect nat | CRemove nat | CCloseLink nat | CClose "nat option" | CRelease | CGone

datatype loop_event = LReceive | LHasClosed | LCtxDone

record conn_in =
  ci_upgrade :: "gerr + user_info \<times> bool option"
  ci_now :: int
  ci_loop :: loop_event
  ci_call :: ev_call

definition handleConn :: "'h link_event_handler \<Rightarrow> conn_in \<Rightarrow> conn_pc \<Rightarrow> 'h server \<Rightarrow> (conn_pc \<times> 'h server) exec" where
  "handleConn eh x pc s =
     (case pc of
        CUpgrade \<Rightarrow> (case ci_upgrade x of Inl err \<Rightarrow> Ret (CClose None, s) | Inr (u, cst) \<Rightarrow> Ret (CNew u cst, s))
      | CNew u cst \<Rightarrow>
          exec_bind (NewLink (ci_now x) u cst (sv_mgr s)) (\<lambda>(r, m). Ret (COnConnect r, s\<lparr>sv_mgr := m\<rparr>))
      | COnConnect r \<Rightarrow>
          exec_bind (with_handler (lh_OnConnect eh (ci_call x) r) s)
            (\<lambda>(err1, s1). Ret (if err1 \<noteq> None then CRemove r else CLoop r, s1))
      | CLoop r \<Rightarrow>
          let lk = mg_heap (sv_mgr s) ! r in
          (case ci_loop x of
             LReceive \<Rightarrow>
               (case ch_try_recv (lk_receiveCh lk) of
                  Some (message, ch) \<Rightarrow>
                    Ret (CMsg r message, s\<lparr>sv_mgr := (sv_mgr s)\<lparr>mg_heap := (mg_heap (sv_mgr s))[r := lk\<lparr>lk_receiveCh := ch\<rparr>]\<rparr>\<rparr>)
                | None \<Rightarrow> if ch_closed (lk_receiveCh lk) then Ret (COnDisconnect r, s) else Block)
           | LHasClosed \<Rightarrow> if lk_done lk then Ret (COnDisconnect r, s) else Block
           | LCtxDone \<Rightarrow> if sv_ctxDone s then Ret (COnDisconnect r, s) else Block)
      | CMsg r message \<Rightarrow>
          exec_bind (with_handler (lh_OnFrontendSendMessage eh (ci_call x) r message) s)
            (\<lambda>(err1, s1). Ret (if err_is err1 ErrLinkClosed then COnDisconnect r else CLoop r, s1))
      | COnDisconnect r \<Rightarrow>
          exec_bind (with_handler (lh_OnDisconnect eh (ci_call x) r) s) (\<lambda>(err1, s1). Ret (CRemove r, s1))
      | CRemove r \<Rightarrow> Ret (CCloseLink r, s\<lparr>sv_mgr := snd (RemoveLink (lk_id (mg_heap (sv_mgr s) ! r)) (sv_mgr s))\<rparr>)
      | CCloseLink r \<Rightarrow>
          let (err1, l') = link_close (ec_fw (ci_call x)) (ec_ce (ci_call x)) (mg_heap (sv_mgr s) ! r)
          in Ret (CClose (Some r), s\<lparr>sv_mgr := (sv_mgr s)\<lparr>mg_heap := (mg_heap (sv_mgr s))[r := l']\<rparr>\<rparr>)
      | CClose lo \<Rightarrow>
          Ret (CRelease, case lo of None \<Rightarrow> s
            | Some r \<Rightarrow> s\<lparr>sv_mgr := (sv_mgr s)\<lparr>mg_heap := (mg_heap (sv_mgr s))[r := conn_close (mg_heap (sv_mgr s) ! r)]\<rparr>\<rparr>)
      | CRelease \<Rightarrow> Ret (CGone, s\<lparr>sv_lim := snd (limiter_Release (sv_lim s))\<rparr>)
      | CGone \<Rightarrow> Block)"

subsection \<open>Messages of the queue\<close>

definition findLink :: "push_message \<Rightarrow> 'h server \<Rightarrow> gerr + nat" where
  "findLink msg s =
     (case FindLinkByUserInfo \<lparr>BizID = pm_bizId msg, UserID = pm_receiverId msg, AutoClose = False\<rparr> (sv_mgr s) of
        None \<Rightarrow> Inl (WrapE [Sen ErrUnknownReceiver])
      | Some r \<Rightarrow> Inr r)"

text \<open>\<open>unmarshal\<close> is \<open>json.Unmarshal\<close> into the message type.\<close>

definition consumePushMessageEvent ::
  "'h link_event_handler \<Rightarrow> (bytes \<Rightarrow> gerr + push_message) \<Rightarrow> ev_call \<Rightarrow> bytes \<Rightarrow> 'h server \<Rightarrow> (gerr option \<times> 'h server) exec" where
  "consumePushMessageEvent eh unmarshal c value s =
     (case unmarshal value of
        Inl err \<Rightarrow> Ret (Some err, s)
      | Inr msg \<Rightarrow>
          (case findLink msg s of
             Inl err \<Rightarrow> Ret (Some err, s)
           | Inr r \<Rightarrow> with_handler (lh_OnBackendPushMessage eh c r msg) s))"

text \<open>\<open>NewNodeList\<close> is a pointer, nil when the event has none; the code reads its field \<open>Nodes\<close>.\<close>

record scale_up_event =
  su_TotalNodeCount :: int
  su_NewNodeList :: "node list option"

text \<open>How many connections to migrate: the code's \<open>int64\<close> arithmetic, \<open>None\<close> for the division by zero.\<close>

definition scale_up_count :: "int \<Rightarrow> int \<Rightarrow> int \<Rightarrow> int option" where
  "scale_up_count m n k = (if n = 0 then None else Some (i64 (m - go_div (i64 (m * i64 (n - k))) n)))"

definition consumeScaleUpEvent ::
  "(bytes \<Rightarrow> gerr + scale_up_event) \<Rightarrow> (node list \<Rightarrow> gerr + bytes) \<Rightarrow> (message \<Rightarrow> gerr + bytes) \<Rightarrow> int
     \<Rightarrow> (nat \<Rightarrow> bool \<times> bool) \<Rightarrow> (nat \<Rightarrow> nat) \<Rightarrow> bytes \<Rightarrow> 'h server \<Rightarrow> (gerr option \<times> 'h server) exec" where
  "consumeScaleUpEvent unmarshal marshalNodes marshal nowMilli sc rnd value s =
     (case unmarshal value of
        Inl err \<Rightarrow> Ret (Some err, s)
      | Inr msg \<Rightarrow>
          (case su_NewNodeList msg of
             None \<Rightarrow> Panic
           | Some nodes \<Rightarrow>
               if list_ex (\<lambda>n. nd_id n = nd_id (sv_nodeInfo s)) nodes then Ret (None, s)
               else (case scale_up_count (Len (sv_mgr s)) (su_TotalNodeCount msg) (int (length nodes)) of
                       None \<Rightarrow> Panic
                     | Some cnt \<Rightarrow>
                         exec_bind (RedirectLinks marshalNodes marshal nowMilli sc (RandomLinks_Select cnt rnd) nodes (sv_mgr s))
                           (\<lambda>(err, m). Ret (err, s\<lparr>sv_mgr := m\<rparr>)))))"

text \<open>One tick of \<open>cleanIdleLinks\<close>.\<close>

definition cleanIdleLinks :: "close_env \<Rightarrow> int \<Rightarrow> 'h server \<Rightarrow> 'h server" where
  "cleanIdleLinks ce now s =
     (if sv_ctxDone s then s else s\<lparr>sv_mgr := snd (CleanIdleLinks ce now (sv_idleTimeout s) (sv_mgr s))\<rparr>)"

subsection \<open>Starting and stopping\<close>

text \<open>The goroutines \<open>Start\<close> launches.\<close>

datatype server_goroutine = GRampUp | GAccept | GCleanIdle | GConsumer string | GKeepAlive int | GStateUpdater int

text \<open>The consumers are started in the iteration order of the map (\<open>keys\<close>); an unknown key is skipped. The result:
  the error that stopped it and the consumers started before it.\<close>

fun start_consumers :: "(string \<Rightarrow> gerr option) \<Rightarrow> string list \<Rightarrow> gerr option \<times> server_goroutine list" where
  "start_consumers start [] = (None, [])"
| "start_consumers start (key # keys) =
     (if key = ''pushMessage'' \<or> key = ''scaleUp'' then
        (case start key of
           Some err \<Rightarrow> (Some err, [])
         | None \<Rightarrow> let (err, gs) = start_consumers start keys in (err, GConsumer key # gs))
      else start_consumers start keys)"

definition Start ::
  "gerr option \<Rightarrow> (string \<Rightarrow> gerr option) \<Rightarrow> string list \<Rightarrow> (node \<Rightarrow> gerr + int) \<Rightarrow> 'h server
     \<Rightarrow> gerr option \<times> 'h server \<times> server_goroutine list" where
  "Start listen start keys register s =
     (case listen of
        Some err \<Rightarrow> (Some err, s, [])
      | None \<Rightarrow>
          let s1 = s\<lparr>sv_listening := True\<rparr>; (err, gs) = start_consumers start keys;
              gs1 = [GRampUp, GAccept, GCleanIdle] @ gs
          in (case err of
                Some e \<Rightarrow> (Some e, s1, gs1)
              | None \<Rightarrow>
                  (case register (sv_nodeInfo s1) of
                     Inl e \<Rightarrow> (Some (WrapE [e]), s1, gs1)
                   | Inr leaseID \<Rightarrow> (None, s1\<lparr>sv_leaseID := leaseID\<rparr>, gs1 @ [GKeepAlive leaseID, GStateUpdater leaseID]))))"

text \<open>The update function of the node state: the load is the number of links.\<close>

definition updateFunc :: "'h server \<Rightarrow> node \<Rightarrow> bool \<times> node" where
  "updateFunc s n =
     (let newLoad = Len (sv_mgr s)
      in if nd_load n \<noteq> newLoad then (True, n\<lparr>nd_load := newLoad\<rparr>) else (False, n))"

definition Stop :: "'h server \<Rightarrow> gerr option \<times> 'h server" where
  "Stop s = (None, s\<lparr>sv_lim := snd (limiter_Close (sv_lim s)), sv_ctxDone := True\<rparr>)"

text \<open>What \<open>GracefulStop\<close> meets, and the calls it makes to the registry and the consumers, in order.\<close>

datatype stop_call = KListenerClose | KDeregister int string | KConsumerStop string | KAvailableNodes string
  | KGracefulClose "node list" | KStop

record stop_env =
  se_deregister :: "gerr option"
  se_consumerStop :: "string \<Rightarrow> gerr option"
  se_available :: "gerr + node list"
  se_marshalNodes :: "node list \<Rightarrow> gerr + bytes"
  se_marshal :: "message \<Rightarrow> gerr + bytes"
  se_nowMilli :: int
  se_sc :: "nat \<Rightarrow> bool \<times> bool"
  se_close :: close_env
  se_events :: "close_event list"

definition stop_accepting :: "'h server \<Rightarrow> 'h server" where
  "stop_accepting s = s\<lparr>sv_accepting := False, sv_listening := False\<rparr>"

text \<open>\<open>Ret None\<close>: the events end while the call still waits for the connections.\<close>

definition GracefulStop :: "stop_env \<Rightarrow> 'h server \<Rightarrow> (gerr option \<times> 'h server \<times> stop_call list) option exec" where
  "GracefulStop e s =
     (let s1 = stop_accepting s;
          nodes = (case se_available e of Inl err \<Rightarrow> [] | Inr ns \<Rightarrow> ns);
          calls = [KListenerClose, KDeregister (sv_leaseID s1) (nd_id (sv_nodeInfo s1))] @ map KConsumerStop (sv_consumers s1)
            @ [KAvailableNodes (nd_id (sv_nodeInfo s1)), KGracefulClose nodes, KStop]
      in exec_bind (GracefulClose (se_close e) (se_marshalNodes e) (se_marshal e) (se_nowMilli e) (se_sc e) (se_events e) nodes (sv_mgr s1))
           (\<lambda>r. Ret (map_option (\<lambda>(err, m). let (err1, s2) = Stop (s1\<lparr>sv_mgr := m\<rparr>) in (err1, s2, calls)) r)))"

subsection \<open>The running server\<close>

text \<open>The server with its goroutines. \<open>ss_dups\<close> counts the links created for a user who already had one.\<close>

record 'h sv_sys =
  ss_srv :: "'h server"
  ss_accept :: accept_pc
  ss_conns :: "conn_pc list"
  ss_ramp :: ramp_pc
  ss_dups :: nat

inductive sv_step :: "'h link_event_handler \<Rightarrow> 'h sv_sys \<Rightarrow> 'h sv_sys \<Rightarrow> bool" for eh where
  sv_accept: "acceptConn res (ss_accept s) (ss_srv s) = Some (pc, srv, new) \<Longrightarrow>
     sv_step eh s (s\<lparr>ss_accept := pc, ss_srv := srv, ss_conns := ss_conns s @ (if new then [CUpgrade] else [])\<rparr>)"
| sv_conn: "i < length (ss_conns s) \<Longrightarrow> handleConn eh x (ss_conns s ! i) (ss_srv s) = Ret (pc, srv) \<Longrightarrow>
     sv_step eh s (s\<lparr>ss_conns := (ss_conns s)[i := pc], ss_srv := srv,
       ss_dups := ss_dups s + (case ss_conns s ! i of
         CNew u cst \<Rightarrow> if FindLinkByUserInfo u (sv_mgr (ss_srv s)) = None then 0 else 1 | _ \<Rightarrow> 0)\<rparr>)"
| sv_ramp_tick: "ss_ramp s = RampWait \<Longrightarrow> sv_step eh s (s\<lparr>ss_ramp := rampup_tick (sv_lim (ss_srv s))\<rparr>)"
| sv_ramp_fill: "ss_ramp s = RampFill n c \<Longrightarrow> rampup_fill n c (sv_lim (ss_srv s)) = Some (pc, t) \<Longrightarrow>
     sv_step eh s (s\<lparr>ss_ramp := pc, ss_srv := (ss_srv s)\<lparr>sv_lim := t\<rparr>\<rparr>)"
| sv_ramp_stop: "ss_ramp s = RampWait \<Longrightarrow> sv_step eh s (s\<lparr>ss_ramp := RampDone\<rparr>)"
| sv_links: "heap_le (mg_heap (sv_mgr (ss_srv s))) heap \<Longrightarrow>
     sv_step eh s (s\<lparr>ss_srv := (ss_srv s)\<lparr>sv_mgr := (sv_mgr (ss_srv s))\<lparr>mg_heap := heap\<rparr>\<rparr>\<rparr>)"
| sv_push: "consumePushMessageEvent eh unmarshal c value (ss_srv s) = Ret (err, srv) \<Longrightarrow> sv_step eh s (s\<lparr>ss_srv := srv\<rparr>)"
| sv_scale: "consumeScaleUpEvent us mn marshal now sc rnd value (ss_srv s) = Ret (err, srv) \<Longrightarrow> sv_step eh s (s\<lparr>ss_srv := srv\<rparr>)"
| sv_clean: "sv_step eh s (s\<lparr>ss_srv := cleanIdleLinks ce now (ss_srv s)\<rparr>)"
| sv_stop_accepting: "sv_step eh s (s\<lparr>ss_srv := stop_accepting (ss_srv s)\<rparr>)"
| sv_redirect_all: "manager_push marshal sc (Links (sv_mgr (ss_srv s))) msg (sv_mgr (ss_srv s)) = Ret (err, m) \<Longrightarrow>
     sv_step eh s (s\<lparr>ss_srv := (ss_srv s)\<lparr>sv_mgr := m\<rparr>\<rparr>)"
| sv_force_close: "sv_step eh s (s\<lparr>ss_srv := (ss_srv s)\<lparr>sv_mgr := snd (manager_Close ce (sv_mgr (ss_srv s)))\<rparr>\<rparr>)"
| sv_stop: "sv_step eh s (s\<lparr>ss_srv := snd (Stop (ss_srv s))\<rparr>)"

text \<open>The state right after \<open>Start\<close>: no connection, a manager and a limiter as they were built.\<close>

definition sv_init :: "'h sv_sys \<Rightarrow> bool" where
  "sv_init s \<longleftrightarrow> (\<exists>config cfg. sv_mgr (ss_srv s) = NewManager config
     \<and> tl_config_small cfg \<and> NewTokenLimiter cfg = Ret (Inr (sv_lim (ss_srv s))))
     \<and> ss_accept s = AcCheck \<and> ss_conns s = [] \<and> ss_ramp s = RampWait \<and> ss_dups s = 0"


subsection \<open>The tokens\<close>

definition tokens_held :: "accept_pc \<Rightarrow> conn_pc list \<Rightarrow> nat" where
  "tokens_held a cs = (if a = AcAccept then 1 else 0) + length (filter (\<lambda>pc. pc \<noteq> CGone) cs)"

definition tl_of :: "'h sv_sys \<Rightarrow> tl_sys" where
  "tl_of s = \<lparr>tls_lim = sv_lim (ss_srv s), tls_held = tokens_held (ss_accept s) (ss_conns s), tls_pc = ss_ramp s\<rparr>"

lemma tokens_held_conn:
  "i < length cs \<Longrightarrow> tokens_held a (cs[i := pc]) + (if cs ! i = CGone then 0 else 1)
     = tokens_held a cs + (if pc = CGone then 0 else 1)"
proof (induction cs arbitrary: i)
  case (Cons c cs)
  then show ?case by (cases i) (fastforce simp: tokens_held_def)+
qed simp

lemma with_handler_frame:
  "with_handler f s = Ret (err, s') \<Longrightarrow> sv_lim s' = sv_lim s \<and> sv_ctxDone s' = sv_ctxDone s \<and> sv_accepting s' = sv_accepting s
   \<and> mg_links (sv_mgr s') = mg_links (sv_mgr s) \<and> mg_len (sv_mgr s') = mg_len (sv_mgr s) \<and> mg_config (sv_mgr s') = mg_config (sv_mgr s)"
  by (auto simp: with_handler_def exec_bind_Ret)

lemma handleConn_frame:
  assumes "handleConn eh x pc s = Ret (pc', s')"
  shows "pc \<noteq> CGone \<and> sv_ctxDone s' = sv_ctxDone s \<and> sv_accepting s' = sv_accepting s
    \<and> (pc \<noteq> CRelease \<longrightarrow> pc' \<noteq> CGone \<and> sv_lim s' = sv_lim s)
    \<and> (pc = CRelease \<longrightarrow> pc' = CGone \<and> sv_lim s' = snd (limiter_Release (sv_lim s)))"
  using assms
  by (cases pc) (auto simp: handleConn_def exec_bind_Ret Let_def dest: with_handler_frame
      split: sum.splits prod.splits loop_event.splits option.splits if_splits)

lemma cleanIdle_lim [simp]: "sv_lim (cleanIdleLinks ce now s) = sv_lim s"
  by (simp add: cleanIdleLinks_def)

lemma push_event_frame:
  "consumePushMessageEvent eh um c value s = Ret (err, s') \<Longrightarrow> s' = s \<or> (\<exists>r msg. with_handler (lh_OnBackendPushMessage eh c r msg) s = Ret (err, s'))"
  by (auto simp: consumePushMessageEvent_def split: sum.splits)

lemma scale_event_frame:
  "consumeScaleUpEvent us mn marshal now sc rnd value s = Ret (err, s') \<Longrightarrow>
   s' = s \<or> (\<exists>select nodes m. RedirectLinks mn marshal now sc select nodes (sv_mgr s) = Ret (err, m) \<and> s' = s\<lparr>sv_mgr := m\<rparr>)"
  by (auto simp: consumeScaleUpEvent_def exec_bind_Ret split: sum.splits option.splits if_splits)

text \<open>The server uses the limiter as its users are allowed to.\<close>

lemma sv_step_limiter: "sv_step eh s s' \<Longrightarrow> tl_of s' = tl_of s \<or> tl_step (tl_of s) (tl_of s')"
proof (induction rule: sv_step.induct)
  case (sv_accept res s pc srv new)
  let ?L = "sv_lim (ss_srv s)"
  show ?case
  proof (cases "ss_accept s")
    case AcCheck
    then show ?thesis using sv_accept by (auto simp: acceptConn_def tl_of_def tokens_held_def split: if_splits)
  next
    case AcAcquire
    obtain ok t where a: "limiter_Acquire ?L = (ok, t)" by fastforce
    have "tl_step (tl_of s) ((tl_of s)\<lparr>tls_lim := t, tls_held := (if ok then Suc (tls_held (tl_of s)) else tls_held (tl_of s))\<rparr>)"
      by (rule tl_acquire) (simp add: tl_of_def a)
    then show ?thesis using sv_accept AcAcquire a
      by (cases ok) (auto simp: acceptConn_def tl_of_def tokens_held_def)
  next
    case AcAccept
    show ?thesis
    proof (cases res)
      case AConn
      then show ?thesis using sv_accept AcAccept by (auto simp: acceptConn_def tl_of_def tokens_held_def)
    next
      case (AErr cl)
      obtain ok t where r: "limiter_Release ?L = (ok, t)" by fastforce
      have "tl_step (tl_of s) ((tl_of s)\<lparr>tls_lim := t, tls_held := length (filter (\<lambda>pc. pc \<noteq> CGone) (ss_conns s))\<rparr>)"
        by (rule tl_release) (simp_all add: tl_of_def r tokens_held_def AcAccept)
      then show ?thesis using sv_accept AcAccept AErr r
        by (cases cl) (auto simp: acceptConn_def tl_of_def tokens_held_def)
    qed
  next
    case AcGone
    then show ?thesis using sv_accept by (simp add: acceptConn_def)
  qed
next
  case (sv_conn i s x pc srv)
  note f = handleConn_frame [OF sv_conn(2)] and h = tokens_held_conn [OF sv_conn(1), of "ss_accept s" pc]
  show ?case
  proof (cases "ss_conns s ! i = CRelease")
    case True
    obtain ok t where r: "limiter_Release (sv_lim (ss_srv s)) = (ok, t)" by fastforce
    let ?n = "tokens_held (ss_accept s) ((ss_conns s)[i := pc])"
    have "tl_step (tl_of s) ((tl_of s)\<lparr>tls_lim := t, tls_held := ?n\<rparr>)"
      using f h True by (intro tl_release) (simp_all add: tl_of_def r)
    then show ?thesis using f r True by (simp add: tl_of_def)
  next
    case False
    then show ?thesis using f h by (simp add: tl_of_def)
  qed
next
  case (sv_ramp_tick s)
  then show ?case using tl_tick [of "tl_of s"] by (simp add: tl_of_def)
next
  case (sv_ramp_fill s n c pc t)
  then show ?case using tl_fill [of "tl_of s" n c pc t] by (simp add: tl_of_def)
next
  case (sv_ramp_stop s)
  then show ?case using tl_stop [of "tl_of s"] by (simp add: tl_of_def)
next
  case (sv_push unmarshal c v s err srv)
  then show ?case by (auto simp: tl_of_def dest!: push_event_frame with_handler_frame)
next
  case (sv_scale us mn marshal now sc rnd v s err srv)
  then show ?case by (auto simp: tl_of_def dest!: scale_event_frame)
next
  case (sv_stop s)
  then show ?case using tl_close [of "tl_of s"] by (simp add: tl_of_def Stop_def)
qed (simp_all add: tl_of_def stop_accepting_def)

lemma sv_reach_limiter: "reach sv_init (sv_step eh) s \<Longrightarrow> reach tl_init tl_step (tl_of s)"
proof (induction rule: reach.induct)
  case (reach_init s)
  then have "tl_init (tl_of s)" by (auto simp: sv_init_def tl_init_def tl_of_def tokens_held_def)
  then show ?case by (rule reach.reach_init)
next
  case (reach_step s t)
  then show ?case using sv_step_limiter [of eh s t] by (auto intro: reach.reach_step)
qed


subsection \<open>The links\<close>

text \<open>The link a connection's goroutine holds, and until when the manager may have it.\<close>

fun conn_link :: "conn_pc \<Rightarrow> nat option" where
  "conn_link (COnConnect r) = Some r" | "conn_link (CLoop r) = Some r" | "conn_link (CMsg r p) = Some r"
| "conn_link (COnDisconnect r) = Some r" | "conn_link (CRemove r) = Some r" | "conn_link (CCloseLink r) = Some r"
| "conn_link _ = None"

fun conn_managed :: "conn_pc \<Rightarrow> nat option" where
  "conn_managed (CCloseLink r) = None" | "conn_managed pc = conn_link pc"

text \<open>What an operation of the manager or of the event handler does to the links: entries only go, links stay.\<close>

definition mgr_le :: "manager \<Rightarrow> manager \<Rightarrow> bool" where
  "mgr_le m m' \<longleftrightarrow> set (mg_links m') \<subseteq> set (mg_links m) \<and> heap_le (mg_heap m) (mg_heap m')"

lemma mgr_le_refl [simp, intro]: "mgr_le m m"
  by (simp add: mgr_le_def)

lemma mgr_le_trans: "mgr_le m m' \<Longrightarrow> mgr_le m' m'' \<Longrightarrow> mgr_le m m''"
  by (auto simp: mgr_le_def intro: heap_le_trans)

lemma mgr_le_heap: "heap_le (mg_heap m) h \<Longrightarrow> mgr_le m (m\<lparr>mg_heap := h\<rparr>)"
  by (simp add: mgr_le_def)

lemma mgr_le_remove: "mgr_le m (snd (RemoveLink k m))"
  by (auto simp: mgr_le_def)

lemma sweep_mgr_le:
  assumes f: "\<And>r l. lk_id (snd (f r l)) = lk_id l \<and> lk_user (snd (f r l)) = lk_user l \<and> (lk_once l \<longrightarrow> lk_once (snd (f r l)))"
  shows "mgr_le m (sweep f es m)"
proof (induction es arbitrary: m)
  case (Cons e es)
  obtain k r where e: "e = (k, r)" by (cases e)
  have "heap_le (mg_heap m) ((mg_heap m)[r := snd (f r (mg_heap m ! r))])" by (rule heap_le_update) (use f in auto)
  then have "mgr_le m (sweep1 f k r m)" by (auto simp: mgr_le_def)
  then show ?case using Cons.IH by (simp add: e) (blast intro: mgr_le_trans)
qed simp

lemma close_mgr_le: "mgr_le m (snd (manager_Close ce m))"
  by (simp add: manager_Close_def close_range_sweep sweep_mgr_le link_close_def Let_def)

lemma clean_mgr_le: "mgr_le m (snd (CleanIdleLinks ce now t m))"
  by (simp add: CleanIdleLinks_def clean_range_sweep)
    (rule sweep_mgr_le, simp add: link_tryCloseIfIdle_def link_close_def Let_def)

lemma push_sends_heap_le: "push_sends sc p rs h = Ret h' \<Longrightarrow> heap_le h h'"
  by (induction sc p rs h rule: push_sends.induct)
    (auto split: send_result.splits intro: heap_le_trans send_heap_le)

lemma manager_push_mgr_le: "manager_push marshal sc sel msg m = Ret (err, m') \<Longrightarrow> mgr_le m m'"
  by (auto simp: manager_push_def exec_bind_Ret split: sum.splits intro: mgr_le_heap push_sends_heap_le)

lemma redirect_mgr_le: "RedirectLinks mn marshal now sc select ns m = Ret (err, m') \<Longrightarrow> mgr_le m m'"
  by (auto simp: RedirectLinks_def PushMessage_def Let_def split: if_splits sum.splits option.splits intro: manager_push_mgr_le)

text \<open>Every managed link is held by a goroutine that will remove it, no two goroutines hold one link, and every link no
  goroutine holds is closed.\<close>

definition sv_links_inv :: "manager \<Rightarrow> conn_pc list \<Rightarrow> bool" where
  "sv_links_inv m cs \<longleftrightarrow>
     (\<forall>(k, r) \<in> set (mg_links m). \<exists>i < length cs. conn_managed (cs ! i) = Some r)
     \<and> (\<forall>i < length cs. \<forall>r. conn_link (cs ! i) = Some r \<longrightarrow> r < length (mg_heap m))
     \<and> (\<forall>i < length cs. \<forall>j < length cs. i \<noteq> j \<longrightarrow> conn_link (cs ! i) \<noteq> None \<longrightarrow> conn_link (cs ! i) \<noteq> conn_link (cs ! j))
     \<and> (\<forall>r < length (mg_heap m). lk_once (mg_heap m ! r) \<or> (\<exists>i < length cs. conn_link (cs ! i) = Some r))"

lemma links_inv_le:
  assumes "sv_links_inv m cs" and "mgr_le m m'"
  shows "sv_links_inv m' cs"
proof -
  have l: "length (mg_heap m') = length (mg_heap m)" using assms(2) by (simp add: mgr_le_def heap_le_length)
  have o: "lk_once (mg_heap m ! r) \<Longrightarrow> r < length (mg_heap m) \<Longrightarrow> lk_once (mg_heap m' ! r)" for r
    using assms(2) by (simp add: mgr_le_def heap_le_def)
  show ?thesis using assms l o unfolding sv_links_inv_def mgr_le_def by (auto; blast)
qed

lemma links_inv_pc:
  assumes inv: "sv_links_inv m cs" and i: "i < length cs"
    and "conn_link pc = conn_link (cs ! i)" and "conn_managed pc = conn_managed (cs ! i)"
  shows "sv_links_inv m (cs[i := pc])"
proof -
  have "conn_link (cs[i := pc] ! j) = conn_link (cs ! j)" "conn_managed (cs[i := pc] ! j) = conn_managed (cs ! j)" for j
    using assms by (cases "j = i"; simp)+
  then show ?thesis using inv unfolding sv_links_inv_def by simp
qed

lemma links_inv_spawn: "sv_links_inv m cs \<Longrightarrow> conn_link pc = None \<Longrightarrow> sv_links_inv m (cs @ [pc])"
  unfolding sv_links_inv_def by (auto simp: nth_append less_Suc_eq; blast)


lemma links_inv_new:
  assumes inv: "sv_links_inv m cs" and i: "i < length cs" "conn_link (cs ! i) = None"
    and new: "NewLink now u cst m = Ret (r, m')"
  shows "sv_links_inv m' (cs[i := COnConnect r])"
proof -
  obtain lk where r: "r = length (mg_heap m)"
    and m': "m' = m\<lparr>mg_heap := mg_heap m @ [lk], mg_links := sm_store (generateLinkID u) r (mg_links m), mg_len := i64 (mg_len m + 1)\<rparr>"
    by (rule NewLink_cases [OF new])
  let ?cs = "cs[i := COnConnect r]"
  have old: "?cs ! j = cs ! j" if "j \<noteq> i" for j using that by simp
  have here: "?cs ! i = COnConnect r" using i by simp
  have managed: "conn_managed (cs ! i) = None" using i(2) by (cases "cs ! i") auto
  have "\<exists>j < length ?cs. conn_managed (?cs ! j) = Some q" if "(k, q) \<in> set (mg_links m')" for k q
  proof (cases "q = r")
    case True
    then show ?thesis using here i(1) by (intro exI [of _ i]) simp
  next
    case False
    then have "(k, q) \<in> set (mg_links m)" using that sm_in_store by (fastforce simp: m')
    then obtain j where "j < length cs" "conn_managed (cs ! j) = Some q" using inv unfolding sv_links_inv_def by blast
    then show ?thesis using old [of j] managed by (intro exI [of _ j]) (cases "j = i"; simp)
  qed
  moreover have "q < length (mg_heap m')" if "j < length ?cs" "conn_link (?cs ! j) = Some q" for j q
  proof (cases "j = i")
    case False
    then have "q < length (mg_heap m)" using that inv unfolding sv_links_inv_def by simp
    then show ?thesis by (simp add: m')
  qed (use that here in \<open>simp add: m' r\<close>)
  moreover have "conn_link (?cs ! j) \<noteq> conn_link (?cs ! l)"
    if "j < length ?cs" "l < length ?cs" "j \<noteq> l" "conn_link (?cs ! j) \<noteq> None" for j l
  proof -
    have b: "conn_link (cs ! j) = Some q \<Longrightarrow> j < length cs \<Longrightarrow> q < r" for j q using inv r unfolding sv_links_inv_def by blast
    consider "j = i" | "l = i" "j \<noteq> i" | "j \<noteq> i" "l \<noteq> i" by blast
    then show ?thesis
    proof cases
      case 1
      then show ?thesis using that b [of l r] here by auto
    next
      case 2
      then show ?thesis using that b [of j r] here by auto
    next
      case 3
      then show ?thesis using that inv unfolding sv_links_inv_def by simp
    qed
  qed
  moreover have "lk_once (mg_heap m' ! q) \<or> (\<exists>j < length ?cs. conn_link (?cs ! j) = Some q)" if "q < length (mg_heap m')" for q
  proof (cases "q = r")
    case True
    then show ?thesis using here i(1) by (intro disjI2 exI [of _ i]) simp
  next
    case False
    then have q: "q < length (mg_heap m)" using that by (simp add: m' r)
    then consider "lk_once (mg_heap m ! q)" | j where "j < length cs" "conn_link (cs ! j) = Some q"
      using inv unfolding sv_links_inv_def by blast
    then show ?thesis
    proof cases
      case 1
      then show ?thesis using q by (simp add: m' nth_append)
    next
      case 2
      then show ?thesis using old [of j] i(2) by (intro disjI2 exI [of _ j]) (cases "j = i"; simp)
    qed
  qed
  ultimately show ?thesis unfolding sv_links_inv_def by blast
qed

text \<open>Removing by the key of its own link leaves no entry for that link.\<close>

lemma links_inv_remove:
  assumes inv: "sv_links_inv m cs" and ok: "mg_ok m" and i: "i < length cs" "cs ! i = CRemove r"
  shows "sv_links_inv (snd (RemoveLink (lk_id (mg_heap m ! r)) m)) (cs[i := CCloseLink r])"
proof -
  let ?k = "lk_id (mg_heap m ! r)" and ?cs = "cs[i := CCloseLink r]"
  have "\<exists>j < length ?cs. conn_managed (?cs ! j) = Some q" if e: "(k, q) \<in> set (sm_delete ?k (mg_links m))" for k q
  proof -
    have kq: "(k, q) \<in> set (mg_links m)" "k \<noteq> ?k" using e by auto
    have "q < length (mg_heap m)" "k = lk_id (mg_heap m ! q)" using ok kq(1) heap_ids_nth by (auto simp: mg_ok_def)
    then have "q \<noteq> r" using kq(2) by blast
    moreover obtain j where "j < length cs" "conn_managed (cs ! j) = Some q" using inv kq(1) unfolding sv_links_inv_def by blast
    ultimately show ?thesis using i by (intro exI [of _ j]) (cases "j = i"; simp)
  qed
  moreover have "conn_link (?cs ! j) = conn_link (cs ! j)" for j using i by (cases "j = i"; simp)
  ultimately show ?thesis using inv unfolding sv_links_inv_def by auto
qed

lemma links_inv_close:
  assumes inv: "sv_links_inv m cs" and i: "i < length cs" "cs ! i = CCloseLink r"
    and m': "mg_links m' = mg_links m" "mg_heap m' = (mg_heap m)[r := l]" and l: "lk_once l"
  shows "sv_links_inv m' (cs[i := CClose (Some r)])"
proof -
  let ?cs = "cs[i := CClose (Some r)]"
  have r: "r < length (mg_heap m)" using inv i unfolding sv_links_inv_def by (metis conn_link.simps(6))
  have link: "conn_link (?cs ! j) = (if j = i then None else conn_link (cs ! j))"
    and man: "conn_managed (?cs ! j) = conn_managed (cs ! j)" for j using i by (cases "j = i"; simp)+
  have "lk_once (mg_heap m' ! q) \<or> (\<exists>j < length ?cs. conn_link (?cs ! j) = Some q)" if "q < length (mg_heap m')" for q
  proof (cases "q = r")
    case False
    have "q < length (mg_heap m)" using that m'(2) by simp
    then consider "lk_once (mg_heap m ! q)" | j where "j < length cs" "conn_link (cs ! j) = Some q"
      using inv unfolding sv_links_inv_def by blast
    then show ?thesis
    proof cases
      case 2
      then show ?thesis using False i link by (intro disjI2 exI [of _ j]) (cases "j = i"; simp)
    qed (use False m'(2) in simp)
  qed (use r l m'(2) in simp)
  then show ?thesis using inv link man m' unfolding sv_links_inv_def by simp
qed

lemma with_handler_mgr_le:
  assumes "with_handler f s = Ret (err, s')"
    and "\<And>heap e heap' hs'. f (heap, sv_hs s) = Ret (e, heap', hs') \<Longrightarrow> heap_le heap heap'"
  shows "mgr_le (sv_mgr s) (sv_mgr s')"
proof -
  obtain a b where "f (mg_heap (sv_mgr s), sv_hs s) = Ret (err, a, b)" "sv_mgr s' = (sv_mgr s)\<lparr>mg_heap := a\<rparr>"
    using assms(1) by (auto simp: with_handler_def exec_bind_Ret)
  then show ?thesis using assms(2) by (simp add: mgr_le_def)
qed


lemma recv_heap_le: "heap_le h (h[r := (h ! r)\<lparr>lk_receiveCh := ch\<rparr>])"
  by (rule heap_le_update) simp_all

lemma conn_close_heap_le: "heap_le h (h[r := conn_close (h ! r)])"
  by (rule heap_le_update) simp_all

lemma mg_inv_heap_le: "mg_inv m d \<Longrightarrow> heap_le (mg_heap m) h \<Longrightarrow> mg_inv (m\<lparr>mg_heap := h\<rparr>) d"
  by (simp add: heap_le_def mg_inv_heap)

text \<open>One step of a connection keeps it, and keeps what the manager keeps.\<close>

context link_events
begin

lemmas handler_mgr_le = with_handler_mgr_le [OF _ OnConnect_keeps] with_handler_mgr_le [OF _ OnFrontend_keeps]
  with_handler_mgr_le [OF _ OnBackend_keeps] with_handler_mgr_le [OF _ OnDisconnect_keeps]

lemma handleConn_links:
  assumes inv: "sv_links_inv (sv_mgr s) cs" and ok: "mg_ok (sv_mgr s)" and i: "i < length cs"
    and step: "handleConn h x (cs ! i) s = Ret (pc, s')"
  shows "sv_links_inv (sv_mgr s') (cs[i := pc])"
proof -
  have quiet: "sv_links_inv (sv_mgr s') (cs[i := pc])"
    if "mgr_le (sv_mgr s) (sv_mgr s')" "conn_link pc = conn_link (cs ! i)" "conn_managed pc = conn_managed (cs ! i)"
    using links_inv_pc [OF links_inv_le [OF inv that(1)] i that(2,3)] .
  show ?thesis
  proof (cases "cs ! i")
    case (CNew u cst)
    then obtain r m where "NewLink (ci_now x) u cst (sv_mgr s) = Ret (r, m)" "pc = COnConnect r" "sv_mgr s' = m"
      using step by (auto simp: handleConn_def exec_bind_Ret)
    then show ?thesis using links_inv_new [OF inv i] CNew by simp
  next
    case (COnConnect r)
    then show ?thesis using step by (intro quiet) (auto simp: handleConn_def exec_bind_Ret intro: handler_mgr_le)
  next
    case (CLoop r)
    then show ?thesis using step
      by (intro quiet) (auto simp: handleConn_def Let_def mgr_le_def recv_heap_le
          split: loop_event.splits option.splits if_splits)
  next
    case (CMsg r message)
    then show ?thesis using step by (intro quiet) (auto simp: handleConn_def exec_bind_Ret intro: handler_mgr_le)
  next
    case (COnDisconnect r)
    then show ?thesis using step by (intro quiet) (auto simp: handleConn_def exec_bind_Ret intro: handler_mgr_le)
  next
    case (CRemove r)
    then show ?thesis using step links_inv_remove [OF inv ok i] by (auto simp: handleConn_def)
  next
    case (CCloseLink r)
    obtain err1 l' where c: "link_close (ec_fw (ci_call x)) (ec_ce (ci_call x)) (mg_heap (sv_mgr s) ! r) = (err1, l')" by fastforce
    have "lk_once l'" using c by (auto simp: link_close_def Let_def)
    then show ?thesis using step c CCloseLink by (auto simp: handleConn_def intro!: links_inv_close [OF inv i])
  next
    case (CClose lo)
    then show ?thesis using step
      by (intro quiet) (auto simp: handleConn_def mgr_le_def conn_close_heap_le split: option.splits)
  qed (intro quiet; use step in \<open>auto simp: handleConn_def split: sum.splits prod.splits\<close>)+
qed

lemma handleConn_mgr:
  assumes inv: "mg_inv (sv_mgr s) d" and step: "handleConn h x pc s = Ret (pc', s')"
  shows "mg_inv (sv_mgr s') (d + (case pc of CNew u cst \<Rightarrow> if FindLinkByUserInfo u (sv_mgr s) = None then 0 else 1 | _ \<Rightarrow> 0))"
proof -
  have wh: "mg_inv (sv_mgr s') d" if "with_handler f s = Ret (err, s')"
    "\<And>heap e heap' hs'. f (heap, sv_hs s) = Ret (e, heap', hs') \<Longrightarrow> heap_le heap heap'" for f err s'
    using that inv by (fastforce simp: with_handler_def exec_bind_Ret heap_le_def intro: mg_inv_heap)
  show ?thesis
  proof (cases pc)
    case (CNew u cst)
    then obtain r m where "NewLink (ci_now x) u cst (sv_mgr s) = Ret (r, m)" "sv_mgr s' = m"
      using step by (auto simp: handleConn_def exec_bind_Ret)
    then show ?thesis using mg_inv_new [OF inv] CNew by force
  next
    case (CLoop r)
    then show ?thesis using step inv mg_inv_heap_le [OF inv recv_heap_le]
      by (auto simp: handleConn_def Let_def split: loop_event.splits option.splits if_splits)
  next
    case (CRemove r)
    then show ?thesis using step inv by (auto simp: handleConn_def intro: mg_inv_remove)
  next
    case (CCloseLink r)
    obtain err1 l' where c: "link_close (ec_fw (ci_call x)) (ec_ce (ci_call x)) (mg_heap (sv_mgr s) ! r) = (err1, l')" by fastforce
    then show ?thesis using step inv CCloseLink close_heap_le [OF c]
      by (auto simp: handleConn_def heap_le_def intro: mg_inv_heap)
  next
    case (CClose lo)
    then show ?thesis using step inv mg_inv_heap_le [OF inv conn_close_heap_le]
      by (auto simp: handleConn_def split: option.splits)
  qed (use step inv in \<open>auto simp: handleConn_def exec_bind_Ret intro: wh keeps split: sum.splits prod.splits\<close>)
qed

end


text \<open>The invariant of the running server.\<close>

definition sv_inv :: "'h sv_sys \<Rightarrow> bool" where
  "sv_inv s \<longleftrightarrow> mg_inv (sv_mgr (ss_srv s)) (int (ss_dups s)) \<and> sv_links_inv (sv_mgr (ss_srv s)) (ss_conns s)"

lemma sv_init_inv: "sv_init s \<Longrightarrow> sv_inv s"
  using mg_init_inv by (fastforce simp: sv_init_def sv_inv_def mg_init_def mg_sys_inv_def sv_links_inv_def NewManager_def)

context link_events
begin

lemma push_event_inv:
  assumes "consumePushMessageEvent h um c v s = Ret (err, s')"
  shows "mgr_le (sv_mgr s) (sv_mgr s') \<and> (mg_inv (sv_mgr s) d \<longrightarrow> mg_inv (sv_mgr s') d)"
proof (cases "s' = s")
  case False
  then obtain r msg where w: "with_handler (lh_OnBackendPushMessage h c r msg) s = Ret (err, s')"
    using push_event_frame [OF assms] by blast
  then obtain heap hs where o: "lh_OnBackendPushMessage h c r msg (mg_heap (sv_mgr s), sv_hs s) = Ret (err, heap, hs)"
    "sv_mgr s' = (sv_mgr s)\<lparr>mg_heap := heap\<rparr>" by (auto simp: with_handler_def exec_bind_Ret)
  have "heap_le (mg_heap (sv_mgr s)) heap" by (rule OnBackend_keeps [OF o(1)])
  then show ?thesis using o(2) mg_inv_heap_le by (auto simp: mgr_le_def)
qed simp

lemma sv_step_inv: "sv_step h s s' \<Longrightarrow> sv_inv s \<Longrightarrow> sv_inv s'"
proof (induction rule: sv_step.induct)
  case (sv_accept res s pc srv new)
  then have "sv_mgr srv = sv_mgr (ss_srv s)"
    by (auto simp: acceptConn_def split: accept_pc.splits accept_res.splits prod.splits)
  then show ?case using sv_accept by (simp add: sv_inv_def links_inv_spawn)
next
  case (sv_conn i s x pc srv)
  then have "mg_ok (sv_mgr (ss_srv s))" by (simp add: sv_inv_def mg_inv_def)
  moreover have "int (a + (case y of CNew u cst \<Rightarrow> if P u then 0 else 1 | _ \<Rightarrow> 0))
      = int a + (case y of CNew u cst \<Rightarrow> if P u then 0 else 1 | _ \<Rightarrow> 0)" for a y P by (simp split: conn_pc.split)
  ultimately show ?case using sv_conn handleConn_links [of "ss_srv s" "ss_conns s" i x pc srv]
      handleConn_mgr [of "ss_srv s" "int (ss_dups s)" x "ss_conns s ! i" pc srv]
    by (simp add: sv_inv_def)
next
  case (sv_links s heap)
  then show ?case by (auto simp: sv_inv_def intro: mg_inv_heap_le links_inv_le mgr_le_heap)
next
  case (sv_push unmarshal c v s err srv)
  then show ?case using push_event_inv [OF sv_push(1)] by (auto simp: sv_inv_def intro: links_inv_le)
next
  case (sv_scale us mn marshal now sc rnd v s err srv)
  then consider "srv = ss_srv s" | select nodes m where
      "RedirectLinks mn marshal now sc select nodes (sv_mgr (ss_srv s)) = Ret (err, m)" "srv = (ss_srv s)\<lparr>sv_mgr := m\<rparr>"
    using scale_event_frame by blast
  then show ?case using sv_scale(2)
    by cases (auto simp: sv_inv_def intro: links_inv_le redirect_mgr_le RedirectLinks_inv)
next
  case (sv_clean s ce now)
  then show ?case by (auto simp: sv_inv_def cleanIdleLinks_def intro: links_inv_le clean_mgr_le CleanIdleLinks_inv)
next
  case (sv_redirect_all marshal sc s msg err m)
  then show ?case by (auto simp: sv_inv_def intro: links_inv_le manager_push_mgr_le manager_push_inv)
next
  case (sv_force_close s ce)
  then show ?case by (auto simp: sv_inv_def intro: links_inv_le close_mgr_le manager_Close_inv)
qed (simp_all add: sv_inv_def stop_accepting_def Stop_def)

end

end
