(* ===== verification/GW_Node.thy ===== *)
theory GW_Node
  imports GW_Server
begin

text \<open>
  The properties of the running node: \<open>internal/websocket_server.go\<close> with the handlers that
  \<open>ioc/linkevent_handler.go\<close> installs. They hold in every state the goroutines of \<open>sv_step\<close> can reach.
\<close>

interpretation gws: inv_system sv_init "sv_step (InitLinkEventHandlerWrapper app E allow)" sv_inv for app E allow
  by unfold_locales (auto intro: sv_init_inv init_h.sv_step_inv)

lemmas server_inv = gws.reach_inv

subsection \<open>The gauge of online users\<close>

text \<open>A connection counts between the return of its \<open>OnConnect\<close> and its \<open>OnDisconnect\<close>.\<close>

fun conn_online :: "conn_pc \<Rightarrow> nat option" where
  "conn_online (CLoop r) = Some r" | "conn_online (CMsg r p) = Some r" | "conn_online (COnDisconnect r) = Some r"
| "conn_online _ = None"

definition online_pc :: "int \<Rightarrow> link list \<Rightarrow> conn_pc \<Rightarrow> bool" where
  "online_pc b heap pc = (case conn_online pc of None \<Rightarrow> False | Some r \<Rightarrow> BizID (lk_user (heap ! r)) = b)"

definition online_count :: "int \<Rightarrow> 'h sv_sys \<Rightarrow> nat" where
  "online_count b s = length (filter (online_pc b (mg_heap (sv_mgr (ss_srv s)))) (ss_conns s))"

lemma length_filter_update:
  "i < length xs \<Longrightarrow> length (filter P (xs[i := x])) + (if P (xs ! i) then 1 else 0)
     = length (filter P xs) + (if P x then 1 else 0)"
proof (induction xs arbitrary: i)
  case (Cons y ys)
  then show ?case by (cases i) auto
qed simp

lemma conn_online_link: "conn_online pc = Some r \<Longrightarrow> conn_link pc = Some r"
  by (cases pc) auto

text \<open>Users of old links stay.\<close>

definition users_le :: "link list \<Rightarrow> link list \<Rightarrow> bool" where
  "users_le h h' \<longleftrightarrow> (\<forall>r < length h. lk_user (h' ! r) = lk_user (h ! r))"

lemma users_le_refl: "users_le h h"
  by (simp add: users_le_def)

lemma heap_le_users: "heap_le h h' \<Longrightarrow> users_le h h'"
  by (simp add: users_le_def heap_le_ids)

lemma mgr_le_users: "mgr_le m m' \<Longrightarrow> users_le (mg_heap m) (mg_heap m')"
  by (simp add: mgr_le_def heap_le_users)

lemma NewLink_users: "NewLink now u cst m = Ret (r, m') \<Longrightarrow> users_le (mg_heap m) (mg_heap m')"
  by (erule NewLink_cases) (simp add: users_le_def nth_append)

lemma online_pc_users:
  assumes "users_le h h'" and "\<And>r. conn_link pc = Some r \<Longrightarrow> r < length h"
  shows "online_pc b h' pc = online_pc b h pc"
  using assms conn_online_link [of pc] by (auto simp: online_pc_def users_le_def split: option.splits)

lemma online_filter:
  assumes "users_le (mg_heap m) h" and "sv_links_inv m cs"
  shows "filter (online_pc b h) cs = filter (online_pc b (mg_heap m)) cs"
proof (rule filter_cong [OF refl])
  fix pc assume "pc \<in> set cs"
  then obtain i where "i < length cs" "cs ! i = pc" unfolding in_set_conv_nth by blast
  then have "r < length (mg_heap m)" if "conn_link pc = Some r" for r
    using assms(2) that unfolding sv_links_inv_def by blast
  then show "online_pc b h pc = online_pc b (mg_heap m) pc" by (rule online_pc_users [OF assms(1)])
qed

text \<open>One step of a connection changes the gauge by what it changes the count.\<close>

definition gauge_change :: "int \<Rightarrow> link list \<Rightarrow> conn_pc \<Rightarrow> conn_pc \<Rightarrow> int" where
  "gauge_change b heap pc pc' = of_bool (online_pc b heap pc') - of_bool (online_pc b heap pc)"

lemma online_pc_simps [simp]:
  "online_pc b h (CLoop r) = (BizID (lk_user (h ! r)) = b)" "online_pc b h (CMsg r p) = (BizID (lk_user (h ! r)) = b)"
  "online_pc b h (COnDisconnect r) = (BizID (lk_user (h ! r)) = b)"
  "\<not> online_pc b h CUpgrade" "\<not> online_pc b h (CNew u cst)" "\<not> online_pc b h (COnConnect r)" "\<not> online_pc b h (CRemove r)"
  "\<not> online_pc b h (CCloseLink r)" "\<not> online_pc b h (CClose lo)" "\<not> online_pc b h CRelease" "\<not> online_pc b h CGone"
  by (simp_all add: online_pc_def)

lemma fmt_d_eq_iff: "fmt_d x = fmt_d y \<longleftrightarrow> x = y"
  using fmt_d_inject by blast

lemma handleConn_gauge:
  fixes s :: "('c, 'l) ev_state server"
  assumes app: "multierr_ok app"
    and step: "handleConn (InitLinkEventHandlerWrapper app E allow) x pc s = Ret (pc', s')"
  shows "es_online (sv_hs s') (fmt_d b) = es_online (sv_hs s) (fmt_d b) + gauge_change b (mg_heap (sv_mgr s)) pc pc'"
proof (cases pc)
  case (COnConnect r)
  then show ?thesis using step
    by (auto simp: handleConn_def with_handler_def connect_result [OF app] gauge_change_def fmt_d_eq_iff)
next
  case (COnDisconnect r)
  obtain e heap hs where d: "lh_OnDisconnect (InitLinkEventHandlerWrapper app E allow) (ci_call x) r (mg_heap (sv_mgr s), sv_hs s)
      = Ret (e, heap, hs)" "pc' = CRemove r" "sv_hs s' = hs"
    using step COnDisconnect by (auto simp: handleConn_def with_handler_def exec_bind_Ret)
  then show ?thesis using disconnect_result [OF app, of E allow "ci_call x" r "mg_heap (sv_mgr s)" "sv_hs s"] COnDisconnect
    by (auto simp: gauge_change_def fmt_d_eq_iff)
next
  case (CMsg r message)
  then show ?thesis using step
    by (auto simp: handleConn_def with_handler_def exec_bind_Ret gauge_change_def dest!: frontend_online split: if_splits)
qed (use step in \<open>auto simp: handleConn_def exec_bind_Ret Let_def gauge_change_def
      split: sum.splits prod.splits loop_event.splits option.splits if_splits\<close>)


definition gauge_inv :: "('c, 'l) ev_state sv_sys \<Rightarrow> bool" where
  "gauge_inv s \<longleftrightarrow> sv_inv s \<and> (\<forall>b. es_online (sv_hs (ss_srv s)) (fmt_d b) = int (online_count b s))"

definition gauge_init :: "('c, 'l) ev_state sv_sys \<Rightarrow> bool" where
  "gauge_init s \<longleftrightarrow> sv_init s \<and> (\<forall>l. es_online (sv_hs (ss_srv s)) l = 0)"

lemma gauge_same:
  assumes inv: "gauge_inv s" and inv': "sv_inv s'"
    and "mgr_le (sv_mgr (ss_srv s)) (sv_mgr (ss_srv s'))" and "ss_conns s' = ss_conns s @ cs" and "\<forall>b h. filter (online_pc b h) cs = []"
    and "es_online (sv_hs (ss_srv s')) = es_online (sv_hs (ss_srv s))"
  shows "gauge_inv s'"
proof -
  have "sv_links_inv (sv_mgr (ss_srv s)) (ss_conns s)" using inv by (simp add: gauge_inv_def sv_inv_def)
  then have "online_count b s' = online_count b s" for b
    using online_filter [OF mgr_le_users [OF assms(3)]] assms(4,5) by (simp add: online_count_def)
  then show ?thesis using assms by (simp add: gauge_inv_def)
qed

context link_events
begin

lemma handleConn_users:
  assumes "handleConn h x pc s = Ret (pc', s')"
  shows "users_le (mg_heap (sv_mgr s)) (mg_heap (sv_mgr s'))"
proof (cases pc)
  case (CNew u cst)
  then show ?thesis using assms by (auto simp: handleConn_def exec_bind_Ret intro: NewLink_users)
next
  case (COnConnect r)
  then obtain err where "with_handler (lh_OnConnect h (ci_call x) r) s = Ret (err, s')"
    using assms by (auto simp: handleConn_def exec_bind_Ret)
  then show ?thesis by (rule mgr_le_users [OF handler_mgr_le(1)])
next
  case (CLoop r)
  then show ?thesis using assms
    by (auto simp: handleConn_def Let_def recv_heap_le users_le_refl intro: heap_le_users split: loop_event.splits option.splits if_splits)
next
  case (CMsg r message)
  then obtain err where "with_handler (lh_OnFrontendSendMessage h (ci_call x) r message) s = Ret (err, s')"
    using assms by (auto simp: handleConn_def exec_bind_Ret)
  then show ?thesis by (rule mgr_le_users [OF handler_mgr_le(2)])
next
  case (COnDisconnect r)
  then obtain err where "with_handler (lh_OnDisconnect h (ci_call x) r) s = Ret (err, s')"
    using assms by (auto simp: handleConn_def exec_bind_Ret)
  then show ?thesis by (rule mgr_le_users [OF handler_mgr_le(4)])
next
  case (CCloseLink r)
  obtain e l where c: "link_close (ec_fw (ci_call x)) (ec_ce (ci_call x)) (mg_heap (sv_mgr s) ! r) = (e, l)" by fastforce
  show ?thesis using assms CCloseLink c heap_le_users [OF close_heap_le [OF c]] by (auto simp: handleConn_def)
next
  case (CClose lo)
  then show ?thesis using assms
    by (auto simp: handleConn_def users_le_refl conn_close_heap_le intro: heap_le_users split: option.splits)
qed (use assms in \<open>auto simp: handleConn_def users_le_refl split: sum.splits prod.splits\<close>)

end

lemma gauge_quiet:
  assumes "gauge_inv s" and "sv_inv s \<Longrightarrow> sv_inv s'" and "ss_conns s' = ss_conns s"
    and "mgr_le (sv_mgr (ss_srv s)) (sv_mgr (ss_srv s'))" and "es_online (sv_hs (ss_srv s')) = es_online (sv_hs (ss_srv s))"
  shows "gauge_inv s'"
  by (rule gauge_same [OF assms(1), where cs = "[]"]) (use assms in \<open>simp_all add: gauge_inv_def\<close>)

lemma handleConn_online_link:
  "handleConn eh x pc s = Ret (pc', s') \<Longrightarrow> conn_online pc' = Some r \<Longrightarrow> conn_link pc = Some r"
  by (cases pc) (auto simp: handleConn_def exec_bind_Ret Let_def
      split: sum.splits prod.splits loop_event.splits option.splits if_splits)

lemma gauge_conn:
  assumes app: "multierr_ok app" and inv: "gauge_inv s" and i: "i < length (ss_conns s)"
    and step: "handleConn (InitLinkEventHandlerWrapper app E allow) x (ss_conns s ! i) (ss_srv s) = Ret (pc, srv)"
    and inv': "sv_inv (s\<lparr>ss_conns := (ss_conns s)[i := pc], ss_srv := srv, ss_dups := d\<rparr>)"
  shows "gauge_inv (s\<lparr>ss_conns := (ss_conns s)[i := pc], ss_srv := srv, ss_dups := d\<rparr>)"
proof -
  let ?h = "mg_heap (sv_mgr (ss_srv s))" and ?h' = "mg_heap (sv_mgr srv)" and ?cs = "ss_conns s"
  have u: "users_le ?h ?h'" by (rule init_h.handleConn_users [OF step])
  have links: "sv_links_inv (sv_mgr (ss_srv s)) ?cs" using inv by (simp add: gauge_inv_def sv_inv_def)
  have "r < length ?h" if "conn_online pc = Some r" for r
    using links handleConn_online_link [OF step that] i unfolding sv_links_inv_def by blast
  then have pc: "online_pc b ?h' pc = online_pc b ?h pc" for b
    using u by (auto simp: online_pc_def users_le_def split: option.splits)
  have "int (length (filter (online_pc b ?h') (?cs[i := pc]))) = int (online_count b s) + gauge_change b ?h (?cs ! i) pc" for b
  proof -
    have f: "filter (online_pc b ?h') ?cs = filter (online_pc b ?h) ?cs" by (rule online_filter [OF u links])
    have "online_pc b ?h' (?cs ! i) = online_pc b ?h (?cs ! i)"
      using links i by (intro online_pc_users [OF u]) (auto simp: sv_links_inv_def)
    then show ?thesis using length_filter_update [OF i, of "online_pc b ?h'" pc] f pc
      by (simp add: online_count_def gauge_change_def split: if_splits)
  qed
  then show ?thesis using inv inv' handleConn_gauge [OF app step] by (simp add: gauge_inv_def online_count_def)
qed

lemma gauge_step:
  assumes app: "multierr_ok app"
  shows "sv_step (InitLinkEventHandlerWrapper app E allow) s s' \<Longrightarrow> gauge_inv s \<Longrightarrow> gauge_inv s'"
proof (induction rule: sv_step.induct)
  case (sv_accept res s pc srv new)
  have f: "sv_mgr srv = sv_mgr (ss_srv s)" "sv_hs srv = sv_hs (ss_srv s)"
    using sv_accept(1) by (auto simp: acceptConn_def split: accept_pc.splits accept_res.splits prod.splits)
  show ?case
    by (rule gauge_same [OF sv_accept(2) init_h.sv_step_inv [OF sv_step.sv_accept [OF sv_accept(1)]]])
      (use sv_accept(2) f in \<open>auto simp: gauge_inv_def\<close>)
next
  case (sv_conn i s x pc srv)
  show ?case
    by (rule gauge_conn [OF app sv_conn(3,1,2) init_h.sv_step_inv [OF sv_step.sv_conn [OF sv_conn(1,2)]]])
      (use sv_conn(3) in \<open>simp add: gauge_inv_def\<close>)
next
  case (sv_links s heap)
  show ?case by (rule gauge_quiet [OF sv_links(2) init_h.sv_step_inv [OF sv_step.sv_links [OF sv_links(1)]]])
      (use sv_links in \<open>auto simp: gauge_inv_def intro: mgr_le_heap\<close>)
next
  case (sv_push unmarshal c v s err srv)
  have "es_online (sv_hs srv) = es_online (sv_hs (ss_srv s))"
    using push_event_frame [OF sv_push(1)] by (auto simp: with_handler_def exec_bind_Ret dest: backend_online)
  then show ?case by (intro gauge_quiet [OF sv_push(2) init_h.sv_step_inv [OF sv_step.sv_push [OF sv_push(1)]]])
      (use sv_push init_h.push_event_inv [OF sv_push(1)] in \<open>auto simp: gauge_inv_def\<close>)
next
  case (sv_scale us mn marshal now sc rnd v s err srv)
  show ?case by (rule gauge_quiet [OF sv_scale(2) init_h.sv_step_inv [OF sv_step.sv_scale [OF sv_scale(1)]]])
      (use sv_scale scale_event_frame [OF sv_scale(1)] in \<open>auto simp: gauge_inv_def intro: redirect_mgr_le\<close>)
next
  case (sv_redirect_all marshal sc s msg err m)
  show ?case by (rule gauge_quiet [OF sv_redirect_all(2) init_h.sv_step_inv [OF sv_step.sv_redirect_all [OF sv_redirect_all(1)]]])
      (use sv_redirect_all in \<open>auto simp: gauge_inv_def intro: manager_push_mgr_le\<close>)
next
  case (sv_clean s ce now)
  show ?case by (rule gauge_quiet [OF sv_clean(1) init_h.sv_step_inv [OF sv_step.sv_clean]])
      (use sv_clean in \<open>auto simp: gauge_inv_def cleanIdleLinks_def intro: clean_mgr_le\<close>)
next
  case (sv_force_close s ce)
  show ?case by (rule gauge_quiet [OF sv_force_close(1) init_h.sv_step_inv [OF sv_step.sv_force_close]])
      (use sv_force_close in \<open>auto simp: gauge_inv_def intro: close_mgr_le\<close>)
next
  case (sv_ramp_tick s)
  show ?case by (rule gauge_quiet [OF sv_ramp_tick(2) init_h.sv_step_inv [OF sv_step.sv_ramp_tick [OF sv_ramp_tick(1)]]])
      (use sv_ramp_tick in \<open>simp_all add: gauge_inv_def\<close>)
next
  case (sv_ramp_fill s n c pc t)
  show ?case by (rule gauge_quiet [OF sv_ramp_fill(3) init_h.sv_step_inv [OF sv_step.sv_ramp_fill [OF sv_ramp_fill(1,2)]]])
      (use sv_ramp_fill in \<open>simp_all add: gauge_inv_def\<close>)
next
  case (sv_ramp_stop s)
  show ?case by (rule gauge_quiet [OF sv_ramp_stop(2) init_h.sv_step_inv [OF sv_step.sv_ramp_stop [OF sv_ramp_stop(1)]]])
      (use sv_ramp_stop in \<open>simp_all add: gauge_inv_def\<close>)
next
  case (sv_stop_accepting s)
  show ?case by (rule gauge_quiet [OF sv_stop_accepting init_h.sv_step_inv [OF sv_step.sv_stop_accepting]])
      (use sv_stop_accepting in \<open>simp_all add: gauge_inv_def stop_accepting_def\<close>)
next
  case (sv_stop s)
  show ?case by (rule gauge_quiet [OF sv_stop init_h.sv_step_inv [OF sv_step.sv_stop]])
      (use sv_stop in \<open>simp_all add: gauge_inv_def Stop_def\<close>)
qed

lemma gauge_init_inv: "gauge_init s \<Longrightarrow> gauge_inv s"
  using sv_init_inv [of s] by (auto simp: gauge_init_def gauge_inv_def online_count_def sv_init_def)


lemma gauge_reach:
  assumes "multierr_ok app" and "reach gauge_init (sv_step (InitLinkEventHandlerWrapper app E allow)) s"
  shows "gauge_inv s"
  using assms(2)
proof (induction rule: reach.induct)
  case (reach_init s)
  then show ?case by (rule gauge_init_inv)
next
  case (reach_step s t)
  show ?case by (rule gauge_step [OF assms(1) reach_step(2,3)])
qed

subsection \<open>A run of the node\<close>

definition do_accept :: "accept_res \<Rightarrow> 'h sv_sys \<Rightarrow> 'h sv_sys" where
  "do_accept res s = (case acceptConn res (ss_accept s) (ss_srv s) of
     Some (pc, srv, new) \<Rightarrow> s\<lparr>ss_accept := pc, ss_srv := srv, ss_conns := ss_conns s @ (if new then [CUpgrade] else [])\<rparr>
   | None \<Rightarrow> s)"

definition do_conn :: "'h link_event_handler \<Rightarrow> nat \<Rightarrow> conn_in \<Rightarrow> 'h sv_sys \<Rightarrow> 'h sv_sys" where
  "do_conn eh i x s =
     (if i < length (ss_conns s) then
       (case handleConn eh x (ss_conns s ! i) (ss_srv s) of
          Ret (pc, srv) \<Rightarrow> s\<lparr>ss_conns := (ss_conns s)[i := pc], ss_srv := srv,
            ss_dups := ss_dups s + (case ss_conns s ! i of
              CNew u cst \<Rightarrow> if FindLinkByUserInfo u (sv_mgr (ss_srv s)) = None then 0 else 1 | _ \<Rightarrow> 0)\<rparr>
        | _ \<Rightarrow> s)
      else s)"

lemma do_accept_step: "do_accept res s = s \<or> sv_step eh s (do_accept res s)"
proof (cases "acceptConn res (ss_accept s) (ss_srv s)")
  case (Some t)
  then show ?thesis using sv_step.sv_accept [of res s] by (cases t) (simp add: do_accept_def)
qed (simp add: do_accept_def)

lemma do_accept_reach: "reach init (sv_step eh) s \<Longrightarrow> reach init (sv_step eh) (do_accept res s)"
  using do_accept_step [of res s eh] by (auto intro: reach_step)

lemma do_conn_reach: "reach init (sv_step eh) s \<Longrightarrow> reach init (sv_step eh) (do_conn eh i x s)"
  by (auto simp: do_conn_def intro: reach_step sv_step.sv_conn split: exec.split)

definition ex_node :: "(string list, nat) ev_state sv_sys" where
  "ex_node = \<lparr>ss_srv = \<lparr>sv_name = ''gateway'', sv_config = DefaultConfig ''127.0.0.1'', sv_consumers = [''pushMessage''],
       sv_mgr = NewManager None, sv_updateNodeStateInterval = 10, sv_leaseID = 7,
       sv_nodeInfo = \<lparr>nd_id = ''n1'', nd_ip = ''127.0.0.1'', nd_port = 9002, nd_weight = 1, nd_location = '''', nd_labels = [],
         nd_capacity = 3, nd_load = 0\<rparr>,
       sv_accepting = True, sv_listening = True, sv_idleTimeout = 30, sv_idleScanInterval = 5, sv_lim = ex_lim,
       sv_ctxDone = False, sv_hs = ex_ev\<rparr>,
     ss_accept = AcCheck, ss_conns = [], ss_ramp = RampWait, ss_dups = 0\<rparr>"

abbreviation ex_handler :: "(string list, nat) ev_state link_event_handler" where
  "ex_handler \<equiv> InitLinkEventHandlerWrapper ex_append ex_env (\<lambda>n. (True, n))"

definition ex_conn_in :: conn_in where
  "ex_conn_in = \<lparr>ci_upgrade = Inr (\<lparr>BizID = 1, UserID = 7, AutoClose = False\<rparr>, None), ci_now = 5, ci_loop = LReceive, ci_call = ex_evcall\<rparr>"

text \<open>One client connected: the accept loop is about to take the next token.\<close>

definition ex_node1 :: "(string list, nat) ev_state sv_sys" where
  "ex_node1 = do_conn ex_handler 0 ex_conn_in (do_conn ex_handler 0 ex_conn_in (do_conn ex_handler 0 ex_conn_in
     (do_accept AConn (do_accept AConn (do_accept AConn ex_node)))))"

lemma ex_node_init: "sv_init ex_node" "gauge_init ex_node"
proof -
  show "sv_init ex_node" using ex_lim_new by (auto simp: sv_init_def ex_node_def)
  then show "gauge_init ex_node" by (simp add: gauge_init_def ex_node_def ex_ev_def)
qed

lemma ex_node1_reach: "reach sv_init (sv_step ex_handler) ex_node1" "reach gauge_init (sv_step ex_handler) ex_node1"
  unfolding ex_node1_def by (intro do_conn_reach do_accept_reach reach_init ex_node_init)+

lemma ex_node1_conns: "ss_conns ex_node1 = [CLoop 0]" "length (mg_heap (sv_mgr (ss_srv ex_node1))) = 1"
  "ss_accept ex_node1 = AcCheck" "mg_links (sv_mgr (ss_srv ex_node1)) = [(''1-7'', 0)]" "sv_accepting (ss_srv ex_node1)"
  "lk_user (mg_heap (sv_mgr (ss_srv ex_node1)) ! 0) = \<lparr>BizID = 1, UserID = 7, AutoClose = False\<rparr>"
  by code_simp+


lemma accepting_step:
  assumes "sv_step eh s s'" and "\<not> sv_accepting (ss_srv s)"
  shows "\<not> sv_accepting (ss_srv s')
    \<and> length (ss_conns s') + (if ss_accept s' \<in> {AcAcquire, AcAccept} then 1 else 0)
      \<le> length (ss_conns s) + (if ss_accept s \<in> {AcAcquire, AcAccept} then 1 else 0)"
  using assms
proof (induction rule: sv_step.induct)
  case (sv_accept res s pc srv new)
  then show ?case
    by (auto simp: acceptConn_def split: accept_pc.splits accept_res.splits prod.splits if_splits)
next
  case (sv_conn i s x pc srv)
  then show ?case using handleConn_frame [OF sv_conn(2)] by simp
next
  case (sv_push unmarshal c v s err srv)
  then show ?case by (auto dest!: push_event_frame with_handler_frame)
next
  case (sv_scale us mn marshal now sc rnd v s err srv)
  then show ?case by (auto dest!: scale_event_frame)
qed (simp_all add: cleanIdleLinks_def stop_accepting_def Stop_def)

lemma start_consumers_result:
  "start_consumers start keys = (err, gs) \<Longrightarrow> set gs \<subseteq> range GConsumer
   \<and> (err = None \<longrightarrow> gs = map GConsumer (filter (\<lambda>k. k = ''pushMessage'' \<or> k = ''scaleUp'') keys))"
proof (induction keys arbitrary: err gs)
  case (Cons key keys)
  obtain e g where r: "start_consumers start keys = (e, g)" by fastforce
  show ?case
  proof (cases "start key")
    case None
    then show ?thesis using Cons.prems Cons.IH [OF r] r by (auto split: if_splits)
  next
    case (Some a)
    then have "(err, gs) = (if key = ''pushMessage'' \<or> key = ''scaleUp'' then (Some a, []) else (e, g))"
      using Cons.prems unfolding start_consumers.simps Some r option.case by simp
    then show ?thesis using Cons.IH [OF r] by (cases "key = ''pushMessage'' \<or> key = ''scaleUp''") simp_all
  qed
qed simp

subsection \<open>Properties\<close>

text \<open>C1. The node is a well-behaved user of its connection limiter: seen from the limiter, every run of the
  server is a run of the limiter's own specification, in which only held tokens are given back. So the
  tokens available and held (one per live connection, one while the accept loop waits in \<open>Accept\<close>) add up to
  the current capacity, there are never more live connections than the configured maximum, and the
  deferred \<open>Release\<close> of a connection never finds the pool full.\<close>

theorem server_limits_connections:
  assumes "reach sv_init (sv_step eh) s"
  shows "reach tl_init tl_step (tl_of s)
    \<and> (let t = sv_lim (ss_srv s); held = tokens_held (ss_accept s) (ss_conns s)
       in int (tl_avail t) + int held = CurrentCapacity t + ramp_added (ss_ramp s) (CurrentCapacity t)
        \<and> int (length (filter (\<lambda>pc. pc \<noteq> CGone) (ss_conns s))) \<le> tc_MaxCapacity (tl_config t)
        \<and> (0 < held \<longrightarrow> fst (limiter_Release t)))"
proof -
  have r: "reach tl_init tl_step (tl_of s)" by (rule sv_reach_limiter [OF assms])
  have inv: "tl_inv (tl_of s)" by (rule tls.reach_inv [OF r])
  have "0 < tokens_held (ss_accept s) (ss_conns s) \<longrightarrow> fst (limiter_Release (sv_lim (ss_srv s)))"
    using held_room [OF inv] by (auto simp: tl_of_def limiter_Release_def ch_try_send_def)
  moreover have "length (filter (\<lambda>pc. pc \<noteq> CGone) (ss_conns s)) \<le> tokens_held (ss_accept s) (ss_conns s)"
    by (simp add: tokens_held_def)
  ultimately show ?thesis using r inv ramp_added_bound [OF inv]
    by (cases "ss_ramp s") (auto simp: tl_of_def tl_inv_def Let_def tl_avail_def CurrentCapacity_def)
qed

theorem server_limits_connections_witness:
  "int (length (filter (\<lambda>pc. pc \<noteq> CGone) (ss_conns ex_node1))) \<le> tc_MaxCapacity (tl_config (sv_lim (ss_srv ex_node1)))"
  using server_limits_connections [OF ex_node1_reach(1)] by (simp add: Let_def)

text \<open>C2. The links and the goroutines of a node: every managed link belongs to exactly one goroutine of
  \<open>handleConn\<close>, which has still to remove it; a link whose goroutine is gone has been closed. When all
  connections are gone the manager is empty and every link is closed, but its counter is then the number of
  links that replaced an older one of the same user, not zero.\<close>

theorem server_links_owned:
  assumes "reach sv_init (sv_step (InitLinkEventHandlerWrapper app E allow)) s"
  shows "(\<forall>(k, r) \<in> set (mg_links (sv_mgr (ss_srv s))). \<exists>!i. i < length (ss_conns s) \<and> conn_managed (ss_conns s ! i) = Some r)
    \<and> (\<forall>r < length (mg_heap (sv_mgr (ss_srv s))).
         (\<forall>i < length (ss_conns s). conn_link (ss_conns s ! i) \<noteq> Some r) \<longrightarrow> lk_once (mg_heap (sv_mgr (ss_srv s)) ! r))
    \<and> (set (ss_conns s) \<subseteq> {CGone} \<longrightarrow> mg_links (sv_mgr (ss_srv s)) = []
         \<and> list_all lk_once (mg_heap (sv_mgr (ss_srv s))) \<and> Len (sv_mgr (ss_srv s)) = i64 (int (ss_dups s)))"
proof -
  let ?m = "sv_mgr (ss_srv s)" and ?cs = "ss_conns s"
  have inv: "mg_inv ?m (int (ss_dups s))" and links: "sv_links_inv ?m ?cs"
    using server_inv [OF assms] by (simp_all add: sv_inv_def)
  have m: "conn_managed pc = Some r \<Longrightarrow> conn_link pc = Some r" for pc r by (cases pc) auto
  have one: "i = j" if "i < length ?cs" "j < length ?cs" "conn_managed (?cs ! i) = Some r" "conn_managed (?cs ! j) = Some r" for i j r
    using links m [OF that(3)] m [OF that(4)] that(1,2) unfolding sv_links_inv_def by (metis option.distinct(1))
  have some: "\<exists>i < length ?cs. conn_managed (?cs ! i) = Some r" if "(k, r) \<in> set (mg_links ?m)" for k r
    using links that unfolding sv_links_inv_def by blast
  have closed: "lk_once (mg_heap ?m ! r)" if "r < length (mg_heap ?m)" "\<forall>i < length ?cs. conn_link (?cs ! i) \<noteq> Some r" for r
    using links that unfolding sv_links_inv_def by blast
  have gone: "conn_link (?cs ! i) = None" "conn_managed (?cs ! i) = None" if "set ?cs \<subseteq> {CGone}" "i < length ?cs" for i
    using subsetD [OF that(1) nth_mem [OF that(2)]] by simp_all
  have "mg_links ?m = []" if "set ?cs \<subseteq> {CGone}"
  proof (rule ccontr)
    assume "mg_links ?m \<noteq> []"
    then obtain k r where "(k, r) \<in> set (mg_links ?m)" by (metis list.set_sel(1) surj_pair)
    then show False using some gone(2) [OF that] by fastforce
  qed
  moreover have "list_all lk_once (mg_heap ?m)" if "set ?cs \<subseteq> {CGone}"
    using closed gone(1) [OF that] by (simp add: list_all_length)
  moreover have "\<exists>!i. i < length ?cs \<and> conn_managed (?cs ! i) = Some r" if e: "(k, r) \<in> set (mg_links ?m)" for k r
  proof -
    obtain i where "i < length ?cs" "conn_managed (?cs ! i) = Some r" using some [OF e] by blast
    then show ?thesis using one by (intro ex1I [of _ i]) blast+
  qed
  moreover have "Len ?m = i64 (int (ss_dups s))" if "mg_links ?m = []" using inv that by (simp add: mg_inv_def Len_def)
  ultimately show ?thesis using closed by blast
qed

theorem server_links_owned_witness:
  "\<exists>!i. i < length (ss_conns ex_node1) \<and> conn_managed (ss_conns ex_node1 ! i) = Some 0"
  using server_links_owned [OF ex_node1_reach(1)] ex_node1_conns(4) by simp

text \<open>The gauge of online users of every business is the number of connections of that business between the
  return of their \<open>OnConnect\<close> and their \<open>OnDisconnect\<close>, whatever happened in between.\<close>

theorem server_online_gauge:
  assumes "multierr_ok app" and "reach gauge_init (sv_step (InitLinkEventHandlerWrapper app E allow)) s"
  shows "es_online (sv_hs (ss_srv s)) (fmt_d b) = int (online_count b s)"
  using gauge_reach [OF assms] by (simp add: gauge_inv_def)

theorem server_online_gauge_witness: "es_online (sv_hs (ss_srv ex_node1)) (fmt_d 1) = 1"
  using server_online_gauge [OF ex_append_ok ex_node1_reach(2), of 1] ex_node1_conns(1,6)
  by (simp add: online_count_def)


text \<open>C22. A push message of the queue reaches the link of its receiver, and only that one: an undecodable message
  is refused; a message for a user without a link fails with the unknown receiver error; in both cases
  nothing changes; otherwise the handler is called once, on a link of exactly this business and user.\<close>

theorem server_routes_push:
  assumes "reach sv_init (sv_step (InitLinkEventHandlerWrapper app E allow)) s"
  shows "case unmarshal payload of
      Inl err \<Rightarrow> consumePushMessageEvent eh unmarshal c payload (ss_srv s) = Ret (Some err, ss_srv s)
    | Inr msg \<Rightarrow>
        (case FindLinkByUserInfo \<lparr>BizID = pm_bizId msg, UserID = pm_receiverId msg, AutoClose = False\<rparr> (sv_mgr (ss_srv s)) of
           None \<Rightarrow> \<exists>err. consumePushMessageEvent eh unmarshal c payload (ss_srv s) = Ret (Some err, ss_srv s)
             \<and> err_is (Some err) ErrUnknownReceiver
         | Some r \<Rightarrow> consumePushMessageEvent eh unmarshal c payload (ss_srv s)
               = with_handler (lh_OnBackendPushMessage eh c r msg) (ss_srv s)
             \<and> r < length (mg_heap (sv_mgr (ss_srv s)))
             \<and> BizID (lk_user (mg_heap (sv_mgr (ss_srv s)) ! r)) = pm_bizId msg
             \<and> UserID (lk_user (mg_heap (sv_mgr (ss_srv s)) ! r)) = pm_receiverId msg)"
proof (cases "unmarshal payload")
  case (Inr msg)
  let ?m = "sv_mgr (ss_srv s)" and ?u = "\<lparr>BizID = pm_bizId msg, UserID = pm_receiverId msg, AutoClose = False\<rparr>"
  show ?thesis
  proof (cases "FindLinkByUserInfo ?u ?m")
    case None
    then show ?thesis using Inr by (simp add: consumePushMessageEvent_def findLink_def)
  next
    case (Some r)
    have ok: "mg_ok ?m" using server_inv [OF assms] by (simp add: sv_inv_def mg_inv_def)
    have "(generateLinkID ?u, r) \<in> set (mg_links ?m)" using Some ok by (simp add: FindLinkByUserInfo_def mg_ok_def sm_in_iff)
    with ok have "r < length (mg_heap ?m)" "generateLinkID ?u = generateLinkID (lk_user (mg_heap ?m ! r))"
      by (auto simp: mg_ok_def heap_ids_nth)
    then show ?thesis using Inr Some by (simp add: consumePushMessageEvent_def findLink_def generateLinkID_inject)
  qed
qed (simp add: consumePushMessageEvent_def)

theorem server_routes_push_witness:
  "\<exists>err. consumePushMessageEvent ex_handler (\<lambda>_. Inr \<lparr>pm_key = ''k'', pm_bizId = 2, pm_receiverId = 7, pm_body = [1]\<rparr>) ex_evcall [] (ss_srv ex_node1)
     = Ret (Some err, ss_srv ex_node1) \<and> err_is (Some err) ErrUnknownReceiver"
proof -
  have "FindLinkByUserInfo \<lparr>BizID = 2, UserID = 7, AutoClose = False\<rparr> (sv_mgr (ss_srv ex_node1)) = None" by code_simp
  then show ?thesis
    using server_routes_push [OF ex_node1_reach(1), where unmarshal = "\<lambda>_. Inr \<lparr>pm_key = ''k'', pm_bizId = 2, pm_receiverId = 7, pm_body = [1]\<rparr>"
        and payload = "[]" and eh = ex_handler and c = ex_evcall] by simp
qed

text \<open>The share of the connections a scale-up moves.\<close>

lemma scale_up_count_bounds:
  assumes "0 \<le> m" "m < 2 ^ 31" "0 \<le> k" "k \<le> n" "0 < n" "n < 2 ^ 31"
  shows "\<exists>cnt. scale_up_count m n k = Some cnt \<and> 0 \<le> cnt \<and> cnt \<le> m \<and> m * k \<le> cnt * n \<and> cnt * n < m * k + n"
proof -
  note b = assms
  have nk: "0 \<le> n - k" "n - k \<le> n" using b by simp_all
  have p0: "0 \<le> m * (n - k)" using b nk by simp
  have p1: "m * (n - k) \<le> m * n" using b nk by (simp add: mult_left_mono)
  have "m * n \<le> 2 ^ 31 * 2 ^ 31" using b by (intro mult_mono) simp_all
  then have p: "m * (n - k) < 2 ^ 63" using p1 by simp
  define q where "q = m * (n - k) div n"
  have q0: "0 \<le> q" using b(5) p0 by (simp add: q_def pos_imp_zdiv_nonneg_iff)
  have q: "q * n \<le> m * (n - k)" "m * (n - k) < q * n + n"
    using b(5) p0 mult_div_mod_eq [of n "m * (n - k)"] pos_mod_bound [of n "m * (n - k)"] pos_mod_sign [of n "m * (n - k)"]
    unfolding q_def mult.commute [of _ n] by linarith+
  have "q * n \<le> m * n" using q(1) p1 by linarith
  then have qm: "q \<le> m" using b(5) by simp
  have "scale_up_count m n k = Some (m - q)"
    unfolding q_def using b p p0 nk q0 [unfolded q_def] qm [unfolded q_def] by (simp add: scale_up_count_def i64_nonneg go_div_nonneg)
  then show ?thesis
    using q q0 qm by (intro exI [of _ "m - q"]) (simp add: right_diff_distrib left_diff_distrib)
qed

text \<open>After a scale-up event, of \<open>m\<close> connections the node redirects \<open>\<lceil>m k / n\<rceil>\<close>, \<open>k\<close> of the \<open>n\<close> nodes being new: between none and
  all of them, at least the share of the new nodes and less than one more, with no overflow for the sizes of
  a real node. But an event with a total of zero nodes, or without its list of nodes, makes the consumer panic, while an
  event that lists this node as new does nothing.\<close>

theorem server_scale_up:
  "(0 \<le> m \<and> m < 2 ^ 31 \<and> 0 \<le> k \<and> k \<le> n \<and> 0 < n \<and> n < 2 ^ 31 \<longrightarrow>
      (\<exists>cnt. scale_up_count m n k = Some cnt \<and> 0 \<le> cnt \<and> cnt \<le> m \<and> m * k \<le> cnt * n \<and> cnt * n < m * k + n))
   \<and> (su_NewNodeList msg = None \<longrightarrow>
        consumeScaleUpEvent (\<lambda>_. Inr msg) mn marshal now sc rnd payload s = Panic)
   \<and> (su_NewNodeList msg = Some nodes \<and> nd_id (sv_nodeInfo s) \<in> nd_id ` set nodes \<longrightarrow>
        consumeScaleUpEvent (\<lambda>_. Inr msg) mn marshal now sc rnd payload s = Ret (None, s))
   \<and> (su_NewNodeList msg = Some nodes \<and> nd_id (sv_nodeInfo s) \<notin> nd_id ` set nodes \<and> su_TotalNodeCount msg = 0 \<longrightarrow>
        consumeScaleUpEvent (\<lambda>_. Inr msg) mn marshal now sc rnd payload s = Panic)"
proof (intro conjI impI; (elim conjE)?)
  assume "0 \<le> m" "m < 2 ^ 31" "0 \<le> k" "k \<le> n" "0 < n" "n < 2 ^ 31"
  then show "\<exists>cnt. scale_up_count m n k = Some cnt \<and> 0 \<le> cnt \<and> cnt \<le> m \<and> m * k \<le> cnt * n \<and> cnt * n < m * k + n"
    by (rule scale_up_count_bounds)
qed (auto simp: consumeScaleUpEvent_def scale_up_count_def list_ex_iff image_iff)

theorem server_scale_up_witness: "\<exists>cnt. scale_up_count 1000 4 1 = Some cnt \<and> 1000 \<le> cnt * 4 \<and> cnt * 4 < 1004"
  by (rule exE [OF server_scale_up [THEN conjunct1, rule_format, of 1000 1 4]]) auto


text \<open>Once the node stops accepting it never accepts again: in any continuation at most one more connection
  appears, the one the accept loop is already waiting for, and none if the loop is at its check or gone.\<close>

theorem server_stops_accepting:
  assumes "(sv_step eh)\<^sup>*\<^sup>* (s\<lparr>ss_srv := stop_accepting (ss_srv s)\<rparr>) s'"
  shows "\<not> sv_accepting (ss_srv s')
    \<and> length (ss_conns s') + (if ss_accept s' \<in> {AcAcquire, AcAccept} then 1 else 0)
      \<le> length (ss_conns s) + (if ss_accept s \<in> {AcAcquire, AcAccept} then 1 else 0)"
  using assms
proof (induction rule: rtranclp_induct)
  case base
  then show ?case by (simp add: stop_accepting_def)
next
  case (step t u)
  show ?case using accepting_step [OF step.hyps(2)] step.IH by simp
qed

theorem server_stops_accepting_witness:
  "length (ss_conns (do_accept AConn (ex_node1\<lparr>ss_srv := stop_accepting (ss_srv ex_node1)\<rparr>))) \<le> 1"
proof -
  let ?s = "ex_node1\<lparr>ss_srv := stop_accepting (ss_srv ex_node1)\<rparr>"
  have "(sv_step ex_handler)\<^sup>*\<^sup>* ?s (do_accept AConn ?s)"
    using do_accept_step [of AConn ?s ex_handler] by (metis r_into_rtranclp rtranclp.rtrancl_refl)
  from server_stops_accepting [OF this] show ?thesis using ex_node1_conns(1,3) by (simp split: if_splits)
qed

text \<open>\<open>Start\<close>: on success all goroutines run, one consumer per known key, and the node has the lease it was given; if
  listening fails nothing was started; but if a consumer or the registration fails, \<open>Start\<close> returns the error with
  the listener open and the accept loop, the ramp-up and the idle scan running, and the node is not
  registered (its lease is still the old one).\<close>

theorem server_start:
  "(case Start listen start keys register s of (err, s', gs) \<Rightarrow>
      (listen \<noteq> None \<longrightarrow> err = listen \<and> s' = s \<and> gs = [])
    \<and> (listen = None \<longrightarrow> {GRampUp, GAccept, GCleanIdle} \<subseteq> set gs \<and> sv_listening s')
    \<and> (err = None \<longrightarrow> (\<exists>leaseID. register (sv_nodeInfo s) = Inr leaseID \<and> sv_leaseID s' = leaseID
         \<and> gs = [GRampUp, GAccept, GCleanIdle] @ map GConsumer (filter (\<lambda>k. k = ''pushMessage'' \<or> k = ''scaleUp'') keys)
             @ [GKeepAlive leaseID, GStateUpdater leaseID]))
    \<and> (err \<noteq> None \<longrightarrow> sv_leaseID s' = sv_leaseID s \<and> (\<forall>l. GKeepAlive l \<notin> set gs \<and> GStateUpdater l \<notin> set gs))
    \<and> sv_accepting s' = sv_accepting s)"
  using start_consumers_result [of start keys]
  by (auto simp: Start_def Let_def split: option.splits sum.splits prod.splits)

text \<open>When \<open>GracefulStop\<close> returns, it returns no error whatever failed on the way; the node accepts no connection, its
  limiter is closed and its context has ended, so every connection's goroutine can leave its loop; the listener was
  closed before the node was deregistered, the consumers stopped before the clients were redirected.\<close>

theorem server_graceful_stop:
  assumes "GracefulStop e s = Ret (Some (err, s', calls))"
  shows "err = None \<and> \<not> sv_accepting s' \<and> \<not> Health s' \<and> tl_closed (sv_lim s')
    \<and> (\<forall>x r. ci_loop x = LCtxDone \<longrightarrow> handleConn eh x (CLoop r) s' = Ret (COnDisconnect r, s'))
    \<and> calls = [KListenerClose, KDeregister (sv_leaseID s) (nd_id (sv_nodeInfo s))] @ map KConsumerStop (sv_consumers s)
        @ [KAvailableNodes (nd_id (sv_nodeInfo s)), KGracefulClose (case se_available e of Inl _ \<Rightarrow> [] | Inr ns \<Rightarrow> ns), KStop]
    \<and> (mg_links (sv_mgr s) = [] \<and> mg_len (sv_mgr s) = 0 \<longrightarrow> sv_mgr s' = sv_mgr s)"
  using assms
  by (auto simp: GracefulStop_def Let_def exec_bind_Ret Stop_def stop_accepting_def Health_def limiter_Close_def handleConn_def
      GracefulClose_def split: option.splits sum.splits)

definition ex_stop_env :: stop_env where
  "ex_stop_env = \<lparr>se_deregister = None, se_consumerStop = (\<lambda>_. None), se_available = Inl (Txt ''etcd''), se_marshalNodes = (\<lambda>_. Inr []),
     se_marshal = (\<lambda>m. Inr (msg_body m)), se_nowMilli = 9, se_sc = (\<lambda>_. (False, False)),
     se_close = \<lparr>ce_frame = \<lambda>_. True, ce_err = \<lambda>_. None\<rparr>, se_events = []\<rparr>"

theorem server_graceful_stop_witness:
  "\<exists>s' calls. GracefulStop ex_stop_env (ss_srv ex_node) = Ret (Some (None, s', calls)) \<and> \<not> Health s' \<and> length calls = 6"
proof -
  obtain err s' calls where g: "GracefulStop ex_stop_env (ss_srv ex_node) = Ret (Some (err, s', calls))"
    by (auto simp: GracefulStop_def Let_def ex_node_def GracefulClose_def NewManager_def stop_accepting_def Stop_def)
  from server_graceful_stop [OF g] g show ?thesis by (simp add: ex_node_def)
qed


theorem server_start_witness:
  "\<exists>s' gs. Start None (\<lambda>_. None) [''scaleUp''] (\<lambda>_. Inl (Txt ''etcd'')) (ss_srv ex_node) = (Some (WrapE [Txt ''etcd'']), s', gs)
     \<and> GAccept \<in> set gs \<and> sv_listening s' \<and> sv_leaseID s' = 7"
  using server_start [where listen = None and start = "\<lambda>_. None" and keys = "[''scaleUp'']"
    and register = "\<lambda>_. Inl (Txt ''etcd'')" and s = "ss_srv ex_node"]
  by (simp add: Start_def Let_def ex_node_def)

end
