(* ===== verification/GW_Session.thy ===== *)
theory GW_Session
  imports GW_Types GW_Float "HOL-Library.Countable"
begin

text \<open>
  How a connection gets its user: \<open>pkg/session\<close> (sessions in Redis), \<open>pkg/jwt\<close> (the user token),
  \<open>pkg/compression\<close> and \<open>internal/upgrader\<close> (the WebSocket handshake, which ties them together).
\<close>

subsection \<open>Redis\<close>

text \<open>The commands of Redis the code uses, on a database of type \<open>'r\<close>. \<open>redis_ok\<close> is what their documentation
  promises of hashes: \<open>EXISTS\<close>, \<open>HSET\<close> (which creates the hash or overwrites single fields), \<open>HGET\<close>,
  \<open>DEL\<close>.\<close>

record 'r redis =
  rd_exists :: "string \<Rightarrow> 'r \<Rightarrow> bool"
  rd_hset :: "string \<Rightarrow> (string \<times> string) list \<Rightarrow> 'r \<Rightarrow> 'r"
  rd_hget :: "string \<Rightarrow> string \<Rightarrow> 'r \<Rightarrow> string option"
  rd_del :: "string \<Rightarrow> 'r \<Rightarrow> 'r"

definition redis_ok :: "'r redis \<Rightarrow> bool" where
  "redis_ok R \<longleftrightarrow>
     (\<forall>k k' fvs db. rd_exists R k (rd_hset R k' fvs db) \<longleftrightarrow> (k = k' \<and> fvs \<noteq> []) \<or> rd_exists R k db)
     \<and> (\<forall>k k' f fvs db. rd_hget R k f (rd_hset R k' fvs db)
          = (if k = k' \<and> f \<in> fst ` set fvs then map_of (rev fvs) f else rd_hget R k f db))
     \<and> (\<forall>k k' db. rd_exists R k (rd_del R k' db) \<longleftrightarrow> k \<noteq> k' \<and> rd_exists R k db)
     \<and> (\<forall>k k' f db. rd_hget R k f (rd_del R k' db) = (if k = k' then None else rd_hget R k f db))
     \<and> (\<forall>k f db. \<not> rd_exists R k db \<longrightarrow> rd_hget R k f db = None)"

subsection \<open>Sessions\<close>

record redis_session =
  se_userInfo :: user_info
  se_key :: string

definition newRedisSession :: "user_info \<Rightarrow> redis_session" where
  "newRedisSession userInfo =
     \<lparr>se_userInfo = userInfo,
      se_key = ''gateway:session:bizId:'' @ fmt_d (BizID userInfo) @ '':userId:'' @ fmt_d (UserID userInfo)\<rparr>"

text \<open>The Lua script, which Redis runs atomically.\<close>

definition luaSetSessionIfNotExist :: "'r redis \<Rightarrow> string \<Rightarrow> (string \<times> string) list \<Rightarrow> 'r \<Rightarrow> int \<times> 'r" where
  "luaSetSessionIfNotExist R key args db =
     (if \<not> rd_exists R key db then (1, rd_hset R key args db) else (0, db))"

definition initialize :: "'r redis \<Rightarrow> remote_call \<Rightarrow> string \<Rightarrow> redis_session \<Rightarrow> 'r \<Rightarrow> gerr option \<times> 'r" where
  "initialize R c now s db =
     (let (r, db') = remote_run c (luaSetSessionIfNotExist R (se_key s) [(''loginTime'', now)]) db
      in (case r of
            Inl err \<Rightarrow> (Some (WrapE [Sen ErrCreateSessionFailed, err]), db')
          | Inr created \<Rightarrow> (if created \<noteq> 1 then Some (Sen ErrSessionExisted) else None, db')))"

text \<open>\<open>Get\<close>: a missing field is the zero value, not an error.\<close>

definition session_Get :: "'r redis \<Rightarrow> remote_call \<Rightarrow> string \<Rightarrow> redis_session \<Rightarrow> 'r \<Rightarrow> gerr + string option" where
  "session_Get R c key s db = fst (remote_run c (\<lambda>db. (rd_hget R (se_key s) key db, db)) db)"

definition session_Set :: "'r redis \<Rightarrow> remote_call \<Rightarrow> string \<Rightarrow> string \<Rightarrow> redis_session \<Rightarrow> 'r \<Rightarrow> gerr option \<times> 'r" where
  "session_Set R c key val s db =
     (let (r, db') = remote_run c (\<lambda>db. ((), rd_hset R (se_key s) [(key, val)] db)) db
      in (case r of Inl err \<Rightarrow> Some err | Inr _ \<Rightarrow> None, db'))"

definition Destroy :: "'r redis \<Rightarrow> remote_call \<Rightarrow> redis_session \<Rightarrow> 'r \<Rightarrow> gerr option \<times> 'r" where
  "Destroy R c s db =
     (let (r, db') = remote_run c (\<lambda>db. ((), rd_del R (se_key s) db)) db
      in (case r of Inl err \<Rightarrow> Some (WrapE [Sen ErrDestroySessionFailed, err]) | Inr _ \<Rightarrow> None, db'))"

definition session_Build :: "'r redis \<Rightarrow> remote_call \<Rightarrow> string \<Rightarrow> user_info \<Rightarrow> 'r \<Rightarrow> (gerr + redis_session \<times> bool) \<times> 'r" where
  "session_Build R c now userInfo db =
     (let s = newRedisSession userInfo; (err, db') = initialize R c now s db
      in (case err of
            None \<Rightarrow> (Inr (s, True), db')
          | Some e \<Rightarrow> if errors_is e ErrSessionExisted then (Inr (s, False), db') else (Inl e, db')))"

subsection \<open>The user token\<close>

text \<open>A claim of a JSON web token: what the code puts in (\<open>int64\<close> and strings) and what decoding the
  JSON gives back (every number becomes a \<open>float64\<close>).\<close>

datatype cvalue = VInt int | VFloat f64 | VStr string | VOther

type_synonym claims = "(string, cvalue) smap"

fun json_value :: "cvalue \<Rightarrow> cvalue" where
  "json_value (VInt n) = VFloat (f64_of_int n)"
| "json_value v = v"

definition json_claims :: "claims \<Rightarrow> claims" where
  "json_claims c = map (\<lambda>(k, v). (k, json_value v)) c"

datatype jwt_alg = AlgHMAC | AlgOther string

text \<open>\<open>golang-jwt\<close>: \<open>jl_sign\<close> is \<open>SignedString\<close> with HS256, \<open>jl_parse now keyfunc\<close> is \<open>Parse\<close> at Unix time
  \<open>now\<close>: the claims, \<open>None\<close> if they are no map, and whether the token is valid; \<open>jl_alg\<close> is the
  algorithm named by the header of a token.\<close>

record jwt_lib =
  jl_sign :: "string \<Rightarrow> claims \<Rightarrow> gerr + string"
  jl_alg :: "string \<Rightarrow> jwt_alg"
  jl_parse :: "int \<Rightarrow> (jwt_alg \<Rightarrow> gerr + string) \<Rightarrow> string \<Rightarrow> gerr + claims option \<times> bool"

text \<open>When a token can be used: \<open>exp\<close> and \<open>nbf\<close> are checked if they are there (\<open>iat\<close> only by an option the code does not set).\<close>

definition claims_live :: "int \<Rightarrow> claims \<Rightarrow> bool" where
  "claims_live now c \<longleftrightarrow>
     (case sm_load c ''exp'' of None \<Rightarrow> True | Some (VInt e) \<Rightarrow> now < e | _ \<Rightarrow> False)
     \<and> (case sm_load c ''nbf'' of None \<Rightarrow> True | Some (VInt b) \<Rightarrow> b \<le> now | _ \<Rightarrow> False)"

text \<open>The claims the code signs: a map from names to \<open>int64\<close> numbers and ASCII text, whose dates are in the range a
  \<open>float64\<close> represents exactly (the library takes 0 for no date).\<close>

fun claim_plain :: "cvalue \<Rightarrow> bool" where
  "claim_plain (VInt n) = in64 n"
| "claim_plain (VStr s) = list_all (\<lambda>ch. (of_char ch :: nat) < 128) s"
| "claim_plain _ = False"

definition date_plain :: "cvalue option \<Rightarrow> bool" where
  "date_plain v = (case v of Some (VInt e) \<Rightarrow> 0 < e \<and> e < 2 ^ 53 | Some _ \<Rightarrow> False | None \<Rightarrow> True)"

definition claims_plain :: "claims \<Rightarrow> bool" where
  "claims_plain c \<longleftrightarrow> sm_ok c \<and> list_all (\<lambda>(k, v). claim_plain v) c
     \<and> date_plain (sm_load c ''exp'') \<and> date_plain (sm_load c ''nbf'')"

text \<open>What its documentation promises. Such claims can be signed. The token names the algorithm HMAC, has no blank in it, and is
  parsed, when the key function returns the key it was signed with, to a map with the same names and values (every number a
  \<open>float64\<close>; nothing is said of the order, since JSON objects have none) if the claims can be used at that time, and
  refused if they cannot. A token for which the key function fails is refused. Nothing is assumed of other keys.\<close>

definition jwt_ok :: "jwt_lib \<Rightarrow> bool" where
  "jwt_ok J \<longleftrightarrow>
     (\<forall>key c s. claims_plain c \<and> jl_sign J key c = Inr s \<longrightarrow> jl_alg J s = AlgHMAC \<and> CHR '' '' \<notin> set s
        \<and> (\<forall>now kf. kf AlgHMAC = Inr key \<longrightarrow>
             (if claims_live now c
              then \<exists>d. jl_parse J now kf s = Inr (Some d, True) \<and> (\<forall>k. sm_load d k = map_option json_value (sm_load c k))
              else \<exists>err. jl_parse J now kf s = Inl err)))
     \<and> (\<forall>s now kf err. kf (jl_alg J s) = Inl err \<longrightarrow> (\<exists>err'. jl_parse J now kf s = Inl err'))
     \<and> (\<forall>key c. claims_plain c \<longrightarrow> (\<exists>s. jl_sign J key c = Inr s))"

lemma jwt_sign: "jwt_ok J \<Longrightarrow> claims_plain c \<Longrightarrow> \<exists>s. jl_sign J key c = Inr s"
  by (simp add: jwt_ok_def)

lemma jwt_signed:
  assumes "jwt_ok J" and "claims_plain c" and "jl_sign J key c = Inr s"
  shows "jl_alg J s = AlgHMAC" and "\<not> (\<exists>t. s = ''Bearer '' @ t)"
    and "kf AlgHMAC = Inr key \<Longrightarrow> claims_live now c \<Longrightarrow>
      \<exists>d. jl_parse J now kf s = Inr (Some d, True) \<and> (\<forall>k. sm_load d k = map_option json_value (sm_load c k))"
    and "kf AlgHMAC = Inr key \<Longrightarrow> \<not> claims_live now c \<Longrightarrow> \<exists>err. jl_parse J now kf s = Inl err"
proof -
  have a: "jl_alg J s = AlgHMAC \<and> CHR '' '' \<notin> set s" using assms unfolding jwt_ok_def by blast
  then show "jl_alg J s = AlgHMAC" "\<not> (\<exists>t. s = ''Bearer '' @ t)" by auto
  have p: "if claims_live now c
      then \<exists>d. jl_parse J now kf s = Inr (Some d, True) \<and> (\<forall>k. sm_load d k = map_option json_value (sm_load c k))
      else \<exists>err. jl_parse J now kf s = Inl err" if "kf AlgHMAC = Inr key"
    using assms that unfolding jwt_ok_def by blast
  then show "kf AlgHMAC = Inr key \<Longrightarrow> claims_live now c \<Longrightarrow>
      \<exists>d. jl_parse J now kf s = Inr (Some d, True) \<and> (\<forall>k. sm_load d k = map_option json_value (sm_load c k))"
    "kf AlgHMAC = Inr key \<Longrightarrow> \<not> claims_live now c \<Longrightarrow> \<exists>err. jl_parse J now kf s = Inl err" by simp_all
qed

record token =
  tk_key :: string
  tk_issuer :: string

definition token_New :: "string \<Rightarrow> string \<Rightarrow> token" where
  "token_New key issuer = \<lparr>tk_key = key, tk_issuer = issuer\<rparr>"

definition trim_prefix :: "string \<Rightarrow> string \<Rightarrow> string" where
  "trim_prefix p s = (if take (length p) s = p then drop (length p) s else s)"

definition token_Decode :: "jwt_lib \<Rightarrow> int \<Rightarrow> token \<Rightarrow> string \<Rightarrow> gerr + claims" where
  "token_Decode J now t tokenString =
     (case jl_parse J now
             (\<lambda>alg. case alg of AlgHMAC \<Rightarrow> Inr (tk_key t) | AlgOther a \<Rightarrow> Inl (WrapE [Sen ErrSupportedSignAlgorithm]))
             (trim_prefix ''Bearer '' tokenString) of
        Inl err \<Rightarrow> Inl (WrapE [Sen ErrDecodeJWTTokenFailed, err])
      | Inr (claims, valid) \<Rightarrow>
          (case claims of
             Some c \<Rightarrow> if valid then Inr c else Inl (WrapE [Sen ErrInvalidJWTToken])
           | None \<Rightarrow> Inl (WrapE [Sen ErrInvalidJWTToken])))"

definition day :: int where
  "day = 24 * 60 * 60"

definition token_Encode :: "jwt_lib \<Rightarrow> int \<Rightarrow> token \<Rightarrow> claims \<Rightarrow> gerr + string" where
  "token_Encode J now t customClaims =
     (let claims = fold (\<lambda>(k, v) c. sm_store k v c) customClaims [(''iat'', VInt now), (''iss'', VStr (tk_issuer t))];
          claims1 = (if sm_load claims ''exp'' = None then sm_store ''exp'' (VInt (now + day)) claims else claims)
      in jl_sign J (tk_key t) claims1)"

text \<open>Times are Unix seconds; \<open>None\<close> is a nil date.\<close>

record user_claims =
  uc_UserID :: int
  uc_BizID :: int
  uc_IssuedAt :: "int option"
  uc_ExpiresAt :: "int option"
  uc_Issuer :: string

text \<open>\<open>unspec\<close> is what the platform makes of a float that is no \<open>int64\<close>. A claim of another type is ignored.\<close>

definition claim_int :: "(f64 \<Rightarrow> int) \<Rightarrow> claims \<Rightarrow> string \<Rightarrow> int option" where
  "claim_int unspec c k = (case sm_load c k of Some (VFloat x) \<Rightarrow> Some (f64_to_int64 unspec x) | _ \<Rightarrow> None)"

definition user_Decode :: "jwt_lib \<Rightarrow> (f64 \<Rightarrow> int) \<Rightarrow> int \<Rightarrow> token \<Rightarrow> string \<Rightarrow> gerr + user_claims" where
  "user_Decode J unspec now t tokenString =
     (case token_Decode J now t tokenString of
        Inl err \<Rightarrow> Inl err
      | Inr c \<Rightarrow>
          Inr \<lparr>uc_UserID = (case claim_int unspec c ''user_id'' of Some i \<Rightarrow> i | None \<Rightarrow> 0),
               uc_BizID = (case claim_int unspec c ''biz_id'' of Some i \<Rightarrow> i | None \<Rightarrow> 0),
               uc_IssuedAt = claim_int unspec c ''iat'',
               uc_ExpiresAt = claim_int unspec c ''exp'',
               uc_Issuer = (case sm_load c ''iss'' of Some (VStr s) \<Rightarrow> s | _ \<Rightarrow> '''')\<rparr>)"

definition user_Encode :: "jwt_lib \<Rightarrow> int \<Rightarrow> token \<Rightarrow> user_claims \<Rightarrow> gerr + string" where
  "user_Encode J now t uc =
     (let c = [(''user_id'', VInt (uc_UserID uc)), (''biz_id'', VInt (uc_BizID uc))];
          c1 = (case uc_IssuedAt uc of Some i \<Rightarrow> sm_store ''iat'' (VInt i) c | None \<Rightarrow> c);
          c2 = (case uc_ExpiresAt uc of Some e \<Rightarrow> sm_store ''exp'' (VInt e) c1 | None \<Rightarrow> c1);
          c3 = (if uc_Issuer uc \<noteq> '''' then sm_store ''iss'' (VStr (uc_Issuer uc)) c2 else c2);
          c4 = (if sm_load c3 ''exp'' = None then sm_store ''exp'' (VInt (now + day)) c3 else c3)
      in token_Encode J now t c4)"


subsection \<open>Compression\<close>

record compression_config =
  cc_Enabled :: bool
  cc_ServerMaxWindow :: int
  cc_ClientMaxWindow :: int
  cc_ServerNoContext :: bool
  cc_ClientNoContext :: bool
  cc_Level :: int

text \<open>\<open>WindowBits\<close> is a byte: the conversion keeps the low eight bits.\<close>

record wsflate_parameters =
  wp_ServerMaxWindowBits :: byte
  wp_ClientMaxWindowBits :: byte
  wp_ServerNoContextTakeover :: bool
  wp_ClientNoContextTakeover :: bool

definition ToParameters :: "compression_config \<Rightarrow> wsflate_parameters" where
  "ToParameters c =
     \<lparr>wp_ServerMaxWindowBits = word_of_int (cc_ServerMaxWindow c), wp_ClientMaxWindowBits = word_of_int (cc_ClientMaxWindow c),
      wp_ServerNoContextTakeover = cc_ServerNoContext c, wp_ClientNoContextTakeover = cc_ClientNoContext c\<rparr>"

record compression_state =
  cs_Enabled :: bool
  cs_Parameters :: wsflate_parameters

subsection \<open>The handshake\<close>

record upgrader =
  up_token :: token
  up_compressionConfig :: compression_config

text \<open>One handshake as \<open>gobwas/ws\<close> drives it: the URI of the request line, the headers it hands to
  \<open>OnHeader\<close> in order, what it answers to an offer of compression, and where it fails on its own: reading the
  request line, checking the headers, writing the response. It stops at the first error and returns it.\<close>

record handshake =
  hk_request :: "gerr option"
  hk_uri :: string
  hk_header :: "(string \<times> string) list"
  hk_headerErr :: "gerr option"
  hk_negotiate :: "wsflate_parameters \<Rightarrow> wsflate_parameters option"
  hk_write :: "gerr option"

text \<open>\<open>query\<close>: \<open>url.Parse\<close> and the parameter \<open>token\<close> of the query (empty if absent).\<close>

definition getUserInfo ::
  "jwt_lib \<Rightarrow> (f64 \<Rightarrow> int) \<Rightarrow> (string \<Rightarrow> gerr + string) \<Rightarrow> int \<Rightarrow> upgrader \<Rightarrow> string \<Rightarrow> gerr + user_info" where
  "getUserInfo J unspec query now u uri =
     (case query uri of
        Inl err \<Rightarrow> Inl (Sen ErrInvalidURI)
      | Inr tok \<Rightarrow>
          (case user_Decode J unspec now (up_token u) tok of
             Inl err \<Rightarrow> Inl (WrapE [Sen ErrInvalidUserToken, err])
           | Inr userClaims \<Rightarrow> Inr \<lparr>BizID = uc_BizID userClaims, UserID = uc_UserID userClaims, AutoClose = False\<rparr>))"

text \<open>\<open>strings.EqualFold\<close> on header names, which are ASCII.\<close>

definition ascii_lower :: "char \<Rightarrow> char" where
  "ascii_lower c = (let n = of_char c in if 65 \<le> n \<and> n \<le> (90 :: nat) then char_of (n + 32) else c)"

definition equal_fold :: "string \<Rightarrow> string \<Rightarrow> bool" where
  "equal_fold a b \<longleftrightarrow> map ascii_lower a = map ascii_lower b"

definition on_header :: "string \<times> string \<Rightarrow> bool \<Rightarrow> bool" where
  "on_header kv autoClose = (if equal_fold (fst kv) ''X-AutoClose'' then snd kv = ''true'' else autoClose)"

definition Upgrade ::
  "jwt_lib \<Rightarrow> (f64 \<Rightarrow> int) \<Rightarrow> (string \<Rightarrow> gerr + string) \<Rightarrow> 'r redis \<Rightarrow> remote_call \<Rightarrow> int \<Rightarrow> string
     \<Rightarrow> upgrader \<Rightarrow> handshake \<Rightarrow> 'r \<Rightarrow> (gerr + redis_session \<times> compression_state option) \<times> 'r" where
  "Upgrade J unspec query R c now nowText u h db =
     (let ext = (if cc_Enabled (up_compressionConfig u) then Some (ToParameters (up_compressionConfig u)) else None) in
      case hk_request h of
        Some err \<Rightarrow> (Inl err, db)
      | None \<Rightarrow>
          (case getUserInfo J unspec query now u (hk_uri h) of
             Inl err \<Rightarrow> (Inl (WrapE [err]), db)
           | Inr userInfo \<Rightarrow>
               let autoClose = fold on_header (hk_header h) False in
               (case hk_headerErr h of
                  Some err \<Rightarrow> (Inl err, db)
                | None \<Rightarrow>
                    (case session_Build R c nowText (userInfo\<lparr>AutoClose := autoClose\<rparr>) db of
                       (Inl err, db') \<Rightarrow> (Inl (WrapE [err]), db')
                     | (Inr (s, isNew), db') \<Rightarrow>
                         (case hk_write h of
                            Some err \<Rightarrow> (Inl err, db')
                          | None \<Rightarrow>
                              (Inr (s, case ext of
                                         None \<Rightarrow> None
                                       | Some params \<Rightarrow>
                                           map_option (\<lambda>p. \<lparr>cs_Enabled = True, cs_Parameters = p\<rparr>) (hk_negotiate h params)),
                               db'))))))"

subsection \<open>Sessions are per user\<close>

lemma fmt_nat_digit: "c \<in> set (fmt_nat n) \<Longrightarrow> c \<in> digit ` {0..<10}"
proof (induction n rule: fmt_nat.induct)
  case (1 n)
  show ?case
  proof (cases "n < 10")
    case True
    then show ?thesis using 1(2) by (subst (asm) fmt_nat.simps) auto
  next
    case False
    then show ?thesis using 1 by (subst (asm) (2) fmt_nat.simps) auto
  qed
qed

lemma fmt_d_no_colon: "CHR '':'' \<notin> set (fmt_d x)"
proof -
  have "CHR '':'' \<notin> digit ` {0..<10}" by code_simp
  then show ?thesis using fmt_nat_digit by (auto simp: fmt_d_def)
qed

lemma session_key_inject:
  "se_key (newRedisSession u) = se_key (newRedisSession u') \<longleftrightarrow> BizID u = BizID u' \<and> UserID u = UserID u'"
proof
  assume "se_key (newRedisSession u) = se_key (newRedisSession u')"
  then have "fmt_d (BizID u) @ CHR '':'' # (''userId:'' @ fmt_d (UserID u))
      = fmt_d (BizID u') @ CHR '':'' # (''userId:'' @ fmt_d (UserID u'))" by (simp add: newRedisSession_def)
  from append_sep_inject [OF this fmt_d_no_colon fmt_d_no_colon] show "BizID u = BizID u' \<and> UserID u = UserID u'"
    by (auto dest: fmt_d_inject)
qed (simp add: newRedisSession_def)


subsection \<open>Instances\<close>

text \<open>A Redis in memory, and a token library whose tokens are numbers written in unary.\<close>

definition mem_redis :: "(string \<rightharpoonup> (string \<rightharpoonup> string)) redis" where
  "mem_redis =
     \<lparr>rd_exists = (\<lambda>k db. db k \<noteq> None),
      rd_hset = (\<lambda>k fvs db. if fvs = [] then db
        else db(k \<mapsto> (case db k of None \<Rightarrow> Map.empty | Some h \<Rightarrow> h) ++ map_of (rev fvs))),
      rd_hget = (\<lambda>k f db. case db k of None \<Rightarrow> None | Some h \<Rightarrow> h f),
      rd_del = (\<lambda>k db. db(k := None))\<rparr>"

lemma mem_redis_ok: "redis_ok mem_redis"
proof -
  have "sm_load (rev fvs) f = Some v \<Longrightarrow> f \<in> fst ` set fvs" for fvs :: "(string \<times> string) list" and f v
    by (metis map_of_SomeD set_rev image_eqI fst_conv)
  then show ?thesis
    by (auto simp: redis_ok_def mem_redis_def map_add_def map_of_eq_None_iff split: option.splits)
qed

instance f64 :: countable
  by countable_datatype

instance cvalue :: countable
  by countable_datatype

definition unary_sign :: "string \<Rightarrow> claims \<Rightarrow> gerr + string" where
  "unary_sign key c = Inr (replicate (to_nat (key, c)) CHR ''x'')"

definition unary_parse :: "int \<Rightarrow> (jwt_alg \<Rightarrow> gerr + string) \<Rightarrow> string \<Rightarrow> gerr + claims option \<times> bool" where
  "unary_parse now kf s =
     (if set s \<subseteq> {CHR ''x''} then
        (case kf AlgHMAC of
           Inl err \<Rightarrow> Inl (WrapE [err])
         | Inr key \<Rightarrow>
             let (key', c) = (from_nat (length s) :: string \<times> claims)
             in if key' \<noteq> key then Inl (Ext ''signature'') else if \<not> claims_live now c then Inl (Ext ''expired'')
                else Inr (Some (json_claims c), True))
      else (case kf (AlgOther ''none'') of Inl err \<Rightarrow> Inl (WrapE [err]) | Inr key \<Rightarrow> Inl (Ext ''malformed'')))"

definition unary_jwt :: jwt_lib where
  "unary_jwt = \<lparr>jl_sign = unary_sign, jl_alg = (\<lambda>s. if set s \<subseteq> {CHR ''x''} then AlgHMAC else AlgOther ''none''), jl_parse = unary_parse\<rparr>"

lemma json_claims_load [simp]: "sm_load (json_claims c) k = map_option json_value (sm_load c k)"
  by (induction c) (auto simp: json_claims_def)

lemma unary_jwt_ok: "jwt_ok unary_jwt"
proof -
  have "set (replicate n CHR ''x'') \<subseteq> {CHR ''x''}" for n by auto
  then show ?thesis unfolding jwt_ok_def unary_jwt_def
    by (auto simp: unary_sign_def unary_parse_def json_claims_load)
qed

subsection \<open>Properties\<close>

text \<open>\<open>Build\<close> is get-or-create: it answers with the session of this user, says whether it is new, leaves an existing
  session as it was, starts a new one with the login time, and touches no other user's session. When Redis
  refuses, it fails and nothing changes; when only the answer was lost, it fails although the session exists
  now, and the next attempt finds it as an old one.\<close>

theorem session_get_or_create:
  assumes "redis_ok R"
  shows "\<exists>s isNew db'. session_Build R ROk now u db = (Inr (s, isNew), db') \<and> s = newRedisSession u
      \<and> (isNew \<longleftrightarrow> \<not> rd_exists R (se_key s) db) \<and> rd_exists R (se_key s) db'
      \<and> (\<not> isNew \<longrightarrow> db' = db)
      \<and> (isNew \<longrightarrow> (\<forall>f. session_Get R ROk f s db' = Inr (if f = ''loginTime'' then Some now else None)))
      \<and> (\<forall>v. se_key (newRedisSession v) \<noteq> se_key s \<longrightarrow>
           rd_exists R (se_key (newRedisSession v)) db' = rd_exists R (se_key (newRedisSession v)) db
         \<and> (\<forall>f c. session_Get R c f (newRedisSession v) db' = session_Get R c f (newRedisSession v) db))
      \<and> session_Build R (RRefused err) now u db = (Inl (WrapE [Sen ErrCreateSessionFailed, Ext err]), db)
      \<and> session_Build R (RLost err) now u db = (Inl (WrapE [Sen ErrCreateSessionFailed, Ext err]), db')
      \<and> fst (session_Build R ROk now' u db') = Inr (s, False)"
proof (cases "rd_exists R (se_key (newRedisSession u)) db")
  case True
  then show ?thesis
    by (simp add: session_Build_def initialize_def luaSetSessionIfNotExist_def remote_run_def Let_def)
next
  case False
  let ?k = "se_key (newRedisSession u)"
  let ?db' = "rd_hset R ?k [(''loginTime'', now)] db"
  have e: "rd_exists R k ?db' \<longleftrightarrow> ?k = k \<or> rd_exists R k db" for k using assms by (auto simp: redis_ok_def)
  have g: "rd_hget R k f ?db' = (if k = ?k \<and> f = ''loginTime'' then Some now else rd_hget R k f db)" for k f
    using assms by (simp add: redis_ok_def)
  have n: "rd_hget R ?k f db = None" for f using assms False by (simp add: redis_ok_def)
  show ?thesis using False e g n
    by (simp add: session_Build_def initialize_def luaSetSessionIfNotExist_def remote_run_def session_Get_def Let_def split: remote_call.split)
qed

theorem session_get_or_create_witness:
  "\<exists>db'. session_Build mem_redis ROk ''t0'' \<lparr>BizID = 1, UserID = 7, AutoClose = False\<rparr> Map.empty
       = (Inr (newRedisSession \<lparr>BizID = 1, UserID = 7, AutoClose = False\<rparr>, True), db')
     \<and> fst (session_Build mem_redis ROk ''t1'' \<lparr>BizID = 1, UserID = 7, AutoClose = False\<rparr> db')
       = Inr (newRedisSession \<lparr>BizID = 1, UserID = 7, AutoClose = False\<rparr>, False)"
proof -
  have "\<not> rd_exists mem_redis k Map.empty" for k by (simp add: mem_redis_def)
  then show ?thesis
    using session_get_or_create [OF mem_redis_ok, where now = "''t0''" and u = "\<lparr>BizID = 1, UserID = 7, AutoClose = False\<rparr>"
        and db = Map.empty and now' = "''t1''" and err = "''timeout''"]
    by auto
qed

text \<open>Several connections building sessions: the script is atomic, so their interleavings are sequences.\<close>

fun build_run :: "'r redis \<Rightarrow> (string \<times> user_info) list \<Rightarrow> 'r \<Rightarrow> (user_info \<times> bool) list \<times> 'r" where
  "build_run R [] db = ([], db)"
| "build_run R ((now, u) # calls) db =
     (case session_Build R ROk now u db of
        (Inr (s, isNew), db') \<Rightarrow> let (rs, db'') = build_run R calls db' in ((u, isNew) # rs, db'')
      | (Inl err, db') \<Rightarrow> build_run R calls db')"

lemma session_Build_ROk:
  "session_Build R ROk now u db =
     (Inr (newRedisSession u, \<not> rd_exists R (se_key (newRedisSession u)) db),
      if rd_exists R (se_key (newRedisSession u)) db then db else rd_hset R (se_key (newRedisSession u)) [(''loginTime'', now)] db)"
  by (simp add: session_Build_def initialize_def luaSetSessionIfNotExist_def remote_run_def Let_def)

text \<open>However many connections of a user arrive at once, and whoever else connects meanwhile, exactly one of them
  creates the session, and none if there was one already; users with different ids never share a session.\<close>

theorem session_created_once:
  assumes "redis_ok R"
  shows "length (filter (\<lambda>(v, isNew). isNew \<and> BizID v = BizID u \<and> UserID v = UserID u) (fst (build_run R calls db)))
    = (if rd_exists R (se_key (newRedisSession u)) db \<or> (\<forall>(now, v) \<in> set calls. BizID v \<noteq> BizID u \<or> UserID v \<noteq> UserID u) then 0 else 1)"
proof (induction calls arbitrary: db)
  case (Cons call calls)
  obtain now v where c: "call = (now, v)" by (cases call)
  let ?k = "\<lambda>w. se_key (newRedisSession w)"
  let ?db' = "if rd_exists R (?k v) db then db else rd_hset R (?k v) [(''loginTime'', now)] db"
  obtain rs db'' where r: "build_run R calls ?db' = (rs, db'')" by fastforce
  have "rd_exists R (?k u) ?db' \<longleftrightarrow> ?k u = ?k v \<or> rd_exists R (?k u) db" using assms by (auto simp: redis_ok_def)
  then show ?case using Cons.IH [of ?db'] r session_key_inject [of u v]
    by (cases "BizID v = BizID u \<and> UserID v = UserID u") (auto simp: c session_Build_ROk split: if_splits)
qed simp

theorem session_created_once_witness:
  "length (filter (\<lambda>(v, isNew). isNew \<and> BizID v = 1 \<and> UserID v = 7)
     (fst (build_run mem_redis [(''t0'', \<lparr>BizID = 1, UserID = 7, AutoClose = False\<rparr>), (''t1'', \<lparr>BizID = 1, UserID = 7, AutoClose = True\<rparr>)] Map.empty))) = 1"
  using session_created_once [OF mem_redis_ok, of "\<lparr>BizID = 1, UserID = 7, AutoClose = False\<rparr>"
      "[(''t0'', \<lparr>BizID = 1, UserID = 7, AutoClose = False\<rparr>), (''t1'', \<lparr>BizID = 1, UserID = 7, AutoClose = True\<rparr>)]" Map.empty]
  by (simp add: mem_redis_def)


subsection \<open>Claims\<close>

lemma fold_store_load:
  "sm_ok cs \<Longrightarrow> sm_load (fold (\<lambda>(k, v) c. sm_store k v c) cs c0) k
     = (case sm_load cs k of Some v \<Rightarrow> Some v | None \<Rightarrow> sm_load c0 k)"
proof (induction cs arbitrary: c0)
  case (Cons x cs)
  obtain k' v' where x: "x = (k', v')" by (cases x)
  have "sm_ok cs" "sm_load cs k' = None" using Cons.prems by (auto simp: x sm_ok_def map_of_eq_None_iff)
  then show ?case using Cons.IH by (simp add: x split: option.split)
qed simp

lemma plain_store: "claim_plain v \<Longrightarrow> list_all (\<lambda>(k, v). claim_plain v) c \<Longrightarrow> list_all (\<lambda>(k, v). claim_plain v) (sm_store k v c)"
  by (induction c) auto

lemma plain_fold:
  "list_all (\<lambda>(k, v). claim_plain v) cs \<Longrightarrow> list_all (\<lambda>(k, v). claim_plain v) c0 \<Longrightarrow>
   list_all (\<lambda>(k, v). claim_plain v) (fold (\<lambda>(k, v) c. sm_store k v c) cs c0)"
  by (induction cs arbitrary: c0) (auto simp: plain_store)

text \<open>The claims of a user token, and what the library makes of them.\<close>

definition user_claims_list :: "int \<Rightarrow> user_claims \<Rightarrow> claims" where
  "user_claims_list now uc =
     (let c = [(''user_id'', VInt (uc_UserID uc)), (''biz_id'', VInt (uc_BizID uc))];
          c1 = (case uc_IssuedAt uc of Some i \<Rightarrow> sm_store ''iat'' (VInt i) c | None \<Rightarrow> c);
          c2 = (case uc_ExpiresAt uc of Some e \<Rightarrow> sm_store ''exp'' (VInt e) c1 | None \<Rightarrow> c1);
          c3 = (if uc_Issuer uc \<noteq> '''' then sm_store ''iss'' (VStr (uc_Issuer uc)) c2 else c2)
      in if sm_load c3 ''exp'' = None then sm_store ''exp'' (VInt (now + day)) c3 else c3)"

definition or_else :: "'a option \<Rightarrow> 'a \<Rightarrow> 'a" where
  "or_else x d = (case x of Some a \<Rightarrow> a | None \<Rightarrow> d)"

lemma user_claims_loads:
  "sm_ok (user_claims_list now uc)"
  "sm_load (user_claims_list now uc) ''user_id'' = Some (VInt (uc_UserID uc))"
  "sm_load (user_claims_list now uc) ''biz_id'' = Some (VInt (uc_BizID uc))"
  "sm_load (user_claims_list now uc) ''iat'' = map_option VInt (uc_IssuedAt uc)"
  "sm_load (user_claims_list now uc) ''exp'' = Some (VInt (or_else (uc_ExpiresAt uc) (now + day)))"
  "sm_load (user_claims_list now uc) ''iss'' = (if uc_Issuer uc = '''' then None else Some (VStr (uc_Issuer uc)))"
  "sm_load (user_claims_list now uc) ''nbf'' = None"
  by (simp_all add: user_claims_list_def Let_def or_else_def sm_ok_def split: option.split)

definition signed_claims :: "int \<Rightarrow> token \<Rightarrow> user_claims \<Rightarrow> claims" where
  "signed_claims now t uc =
     fold (\<lambda>(k, v) c. sm_store k v c) (user_claims_list now uc) [(''iat'', VInt now), (''iss'', VStr (tk_issuer t))]"

lemma signed_claims_loads:
  "sm_load (signed_claims now t uc) ''user_id'' = Some (VInt (uc_UserID uc))"
  "sm_load (signed_claims now t uc) ''biz_id'' = Some (VInt (uc_BizID uc))"
  "sm_load (signed_claims now t uc) ''iat'' = Some (VInt (or_else (uc_IssuedAt uc) now))"
  "sm_load (signed_claims now t uc) ''exp'' = Some (VInt (or_else (uc_ExpiresAt uc) (now + day)))"
  "sm_load (signed_claims now t uc) ''iss'' = Some (VStr (if uc_Issuer uc = '''' then tk_issuer t else uc_Issuer uc))"
  by (simp_all add: signed_claims_def fold_store_load user_claims_loads or_else_def split: option.split)

lemma signed_claims_nbf: "sm_load (signed_claims now t uc) ''nbf'' = None"
  by (simp add: signed_claims_def fold_store_load user_claims_loads split: option.split)

lemma sm_ok_fold: "sm_ok c \<Longrightarrow> sm_ok (fold (\<lambda>(k, v) c. sm_store k v c) kvs c)"
  by (induction kvs arbitrary: c) auto

lemma user_Encode_signs: "user_Encode J now t uc = jl_sign J (tk_key t) (signed_claims now t uc)"
proof -
  have "user_Encode J now t uc = token_Encode J now t (user_claims_list now uc)"
    by (simp add: user_Encode_def user_claims_list_def Let_def)
  then show ?thesis using signed_claims_loads(4) [of now t uc] by (simp add: token_Encode_def signed_claims_def Let_def)
qed

text \<open>The tokens this service can make: ids and dates are \<open>int64\<close>, the expiry a date before the year 285 million,
  the issuers ASCII.\<close>

definition token_plain :: "int \<Rightarrow> token \<Rightarrow> user_claims \<Rightarrow> bool" where
  "token_plain now t uc \<longleftrightarrow> in64 (uc_UserID uc) \<and> in64 (uc_BizID uc) \<and> in64 now \<and> in64 (or_else (uc_IssuedAt uc) now)
     \<and> 0 < or_else (uc_ExpiresAt uc) (now + day) \<and> or_else (uc_ExpiresAt uc) (now + day) < 2 ^ 53
     \<and> claim_plain (VStr (tk_issuer t)) \<and> claim_plain (VStr (uc_Issuer uc))"

lemma signed_claims_plain: "token_plain now t uc \<Longrightarrow> claims_plain (signed_claims now t uc)"
proof -
  assume p: "token_plain now t uc"
  then have e: "in64 (or_else (uc_ExpiresAt uc) (now + day))" by (simp add: token_plain_def in64_def)
  have "list_all (\<lambda>(k, v). claim_plain v) (user_claims_list now uc)"
    using p e unfolding user_claims_list_def Let_def token_plain_def
    by (auto simp: or_else_def intro!: plain_store split: option.splits)
  moreover have "sm_ok (signed_claims now t uc)" unfolding signed_claims_def by (rule sm_ok_fold) (simp add: sm_ok_def)
  ultimately show ?thesis using p unfolding claims_plain_def date_plain_def
    by (simp add: signed_claims_loads signed_claims_nbf) (simp add: signed_claims_def token_plain_def plain_fold)
qed

lemma f64_int_exact: "0 \<le> n \<Longrightarrow> n < 2 ^ 53 \<Longrightarrow> f64_to_int64 unspec (f64_of_int n) = n"
  by (simp add: f64_of_int_exact f64_to_int64_def rat_trunc_def in64_def)

lemma trim_bearer: "\<not> (\<exists>t. s = ''Bearer '' @ t) \<Longrightarrow> p \<in> {'''', ''Bearer ''} \<Longrightarrow> trim_prefix ''Bearer '' (p @ s) = s"
  by (auto simp: trim_prefix_def) (metis append_take_drop_id append_Cons append_Nil)

lemma header_last:
  "fold on_header hs b = (case filter (\<lambda>(k, v). equal_fold k ''X-AutoClose'') hs of [] \<Rightarrow> b | x # xs \<Rightarrow> snd (last (x # xs)) = ''true'')"
  by (induction hs arbitrary: b) (auto simp: on_header_def split: list.splits)


text \<open>C18. The token of a user, issued and then presented (with or without the \<open>Bearer\<close> prefix) before it expires, gives
  back the claims: the dates and issuer default to now, a day later and the service's issuer; ids below \<open>2 ^ 53\<close> come
  back unchanged, larger ones as the \<open>float64\<close> nearest to them, because decoded JSON numbers are floats. From its
  expiry on it is refused.\<close>

theorem token_roundtrip:
  assumes "jwt_ok J" and "token_plain now t uc" and "p \<in> {'''', ''Bearer ''}"
  shows "\<exists>s. user_Encode J now t uc = Inr s
    \<and> (now' < or_else (uc_ExpiresAt uc) (now + day) \<longrightarrow>
        user_Decode J unspec now' t (p @ s) = Inr
          \<lparr>uc_UserID = f64_to_int64 unspec (f64_of_int (uc_UserID uc)), uc_BizID = f64_to_int64 unspec (f64_of_int (uc_BizID uc)),
           uc_IssuedAt = Some (f64_to_int64 unspec (f64_of_int (or_else (uc_IssuedAt uc) now))),
           uc_ExpiresAt = Some (or_else (uc_ExpiresAt uc) (now + day)),
           uc_Issuer = (if uc_Issuer uc = '''' then tk_issuer t else uc_Issuer uc)\<rparr>)
    \<and> (or_else (uc_ExpiresAt uc) (now + day) \<le> now' \<longrightarrow>
        (\<exists>err. user_Decode J unspec now' t (p @ s) = Inl err \<and> errors_is err ErrDecodeJWTTokenFailed))
    \<and> (\<forall>n. 0 \<le> n \<and> n < 2 ^ 53 \<longrightarrow> f64_to_int64 unspec (f64_of_int n) = n)"
proof -
  let ?c = "signed_claims now t uc"
  let ?kf = "\<lambda>alg. case alg of AlgHMAC \<Rightarrow> Inr (tk_key t) | AlgOther a \<Rightarrow> Inl (WrapE [Sen ErrSupportedSignAlgorithm])"
  have plain: "claims_plain ?c" by (rule signed_claims_plain [OF assms(2)])
  obtain s where s: "jl_sign J (tk_key t) ?c = Inr s" using jwt_sign [OF assms(1) plain] by blast
  note sg = jwt_signed [OF assms(1) plain s]
  have live: "claims_live now' ?c \<longleftrightarrow> now' < or_else (uc_ExpiresAt uc) (now + day)"
    by (simp add: claims_live_def signed_claims_loads signed_claims_nbf)
  have ok: "\<exists>d. jl_parse J now' ?kf s = Inr (Some d, True) \<and> (\<forall>k. sm_load d k = map_option json_value (sm_load ?c k))"
    if "claims_live now' ?c" by (rule sg(3) [OF _ that]) simp
  have bad: "\<exists>err. jl_parse J now' ?kf s = Inl err" if "\<not> claims_live now' ?c" by (rule sg(4) [OF _ that]) simp
  have "f64_to_int64 unspec (f64_of_int (or_else (uc_ExpiresAt uc) (now + day))) = or_else (uc_ExpiresAt uc) (now + day)"
    using assms(2) by (intro f64_int_exact) (simp_all add: token_plain_def)
  then show ?thesis using s live ok bad trim_bearer [OF sg(2) assms(3)] f64_int_exact
    by (auto simp: user_Encode_signs user_Decode_def token_Decode_def claim_int_def signed_claims_loads not_less [symmetric])
qed

definition ex_uc :: user_claims where
  "ex_uc = \<lparr>uc_UserID = 7, uc_BizID = 1, uc_IssuedAt = None, uc_ExpiresAt = None, uc_Issuer = ''''\<rparr>"

lemma ex_uc_plain: "token_plain 100 (token_New ''key'' ''im'') ex_uc"
  by (simp add: token_plain_def ex_uc_def token_New_def in64_def or_else_def day_def)

theorem token_roundtrip_witness:
  "\<exists>s uc. user_Encode unary_jwt 100 (token_New ''key'' ''im'') ex_uc = Inr s
     \<and> user_Decode unary_jwt (\<lambda>_. 0) 86499 (token_New ''key'' ''im'') (''Bearer '' @ s) = Inr uc \<and> uc_UserID uc = 7 \<and> uc_BizID uc = 1"
  using token_roundtrip [OF unary_jwt_ok ex_uc_plain, of "''Bearer ''" 86499 "\<lambda>_. 0"]
  by (auto simp: ex_uc_def or_else_def day_def)

lemma ilog2_unique: "2 ^ k \<le> n \<Longrightarrow> n < 2 ^ Suc k \<Longrightarrow> ilog2 n = k"
proof -
  assume n: "2 ^ k \<le> n" "n < 2 ^ Suc k"
  then have "0 < n" by (metis gr0I not_less zero_less_numeral zero_less_power)
  then have b: "2 ^ ilog2 n \<le> n" "n < 2 ^ Suc (ilog2 n)" using ilog2_bounds by blast+
  have "(2::nat) ^ k < 2 ^ Suc (ilog2 n)" "(2::nat) ^ ilog2 n < 2 ^ Suc k" using n b by linarith+
  then have "k < Suc (ilog2 n)" "ilog2 n < Suc k" by (simp_all only: power_strict_increasing_iff [of "2::nat"] one_less_numeral_iff semiring_norm(76))
  then show ?thesis by linarith
qed

text \<open>So two users whose ids differ by one can have tokens that decode to the same id.\<close>

lemma token_large_ids:
  "f64_to_int64 unspec (f64_of_int (2 ^ 53 + 1)) = 2 ^ 53" "f64_to_int64 unspec (f64_of_int (2 ^ 53)) = 2 ^ 53"
proof -
  have fl: "\<lfloor>9007199254740993 / 2 :: rat\<rfloor> = 4503599627370496" by (simp add: floor_eq_iff)
  have "f64_round_pos 9007199254740993 = 9007199254740992"
    by (simp add: f64_round_pos_def f64_exponent_def ilog2_unique [of 53] pow2_def round_even_def fl Let_def)
  moreover have "f64_round_pos 9007199254740992 = 9007199254740992"
    by (simp add: f64_round_pos_def f64_exponent_def ilog2_unique [of 53] pow2_def round_even_def Let_def)
  moreover have "\<bar>9007199254740992\<bar> < (2::rat) ^ 1024" by simp
  ultimately show "f64_to_int64 unspec (f64_of_int (2 ^ 53 + 1)) = 2 ^ 53" "f64_to_int64 unspec (f64_of_int (2 ^ 53)) = 2 ^ 53"
    by (simp_all add: f64_of_int_def f64_round_def f64_to_int64_def rat_trunc_def in64_def)
qed

lemma token_Decode_alg:
  assumes "jwt_ok J" and "jl_alg J (trim_prefix ''Bearer '' tok) = AlgOther a"
  shows "\<exists>err. token_Decode J now t tok = Inl (WrapE [Sen ErrDecodeJWTTokenFailed, err])"
proof -
  let ?kf = "\<lambda>alg. case alg of AlgHMAC \<Rightarrow> Inr (tk_key t) | AlgOther a \<Rightarrow> Inl (WrapE [Sen ErrSupportedSignAlgorithm])"
  have "?kf (jl_alg J (trim_prefix ''Bearer '' tok)) = Inl (WrapE [Sen ErrSupportedSignAlgorithm])" using assms(2) by simp
  then obtain err where "jl_parse J now ?kf (trim_prefix ''Bearer '' tok) = Inl err" using assms(1) unfolding jwt_ok_def by blast
  then show ?thesis by (simp add: token_Decode_def)
qed

lemma user_Decode_alg:
  assumes "jwt_ok J" and "jl_alg J (trim_prefix ''Bearer '' tok) \<noteq> AlgHMAC"
  shows "\<exists>err. user_Decode J unspec now t tok = Inl err"
proof -
  obtain a where "jl_alg J (trim_prefix ''Bearer '' tok) = AlgOther a" using assms(2) by (cases "jl_alg J (trim_prefix ''Bearer '' tok)") auto
  from token_Decode_alg [OF assms(1) this] obtain err where "token_Decode J now t tok = Inl (WrapE [Sen ErrDecodeJWTTokenFailed, err])"
    by blast
  then show ?thesis by (simp add: user_Decode_def)
qed

text \<open>C17. A handshake that succeeds gives the session of the user named by its token, which names an HMAC algorithm
  and which the library accepted with this node's key: the ids are those of the decoded token, the link may be closed when idle exactly if the last
  \<open>X-AutoClose\<close> header (in any case) says \<open>true\<close>, the session exists in Redis, and compression is on only if
  it is configured and was negotiated. A user who is connected already is not refused.\<close>

theorem upgrade_authenticates:
  assumes "jwt_ok J" and "redis_ok R" and "Upgrade J unspec query R c now nowText u h db = (Inr (ss, st), db')"
  shows "\<exists>tok claims. query (hk_uri h) = Inr tok \<and> user_Decode J unspec now (up_token u) tok = Inr claims
    \<and> jl_alg J (trim_prefix ''Bearer '' tok) = AlgHMAC
    \<and> se_userInfo ss = \<lparr>BizID = uc_BizID claims, UserID = uc_UserID claims,
        AutoClose = (case filter (\<lambda>(k, v). equal_fold k ''X-AutoClose'') (hk_header h) of
                       [] \<Rightarrow> False | x # xs \<Rightarrow> snd (last (x # xs)) = ''true'')\<rparr>
    \<and> se_key ss = se_key (newRedisSession (se_userInfo ss)) \<and> rd_exists R (se_key ss) db'
    \<and> st = (if cc_Enabled (up_compressionConfig u)
            then map_option (\<lambda>p. \<lparr>cs_Enabled = True, cs_Parameters = p\<rparr>) (hk_negotiate h (ToParameters (up_compressionConfig u)))
            else None)"
proof -
  obtain tok where q: "query (hk_uri h) = Inr tok"
    using assms(3) by (auto simp: Upgrade_def getUserInfo_def split: option.splits sum.splits)
  obtain claims where d: "user_Decode J unspec now (up_token u) tok = Inr claims"
    using assms(3) q by (auto simp: Upgrade_def getUserInfo_def split: option.splits sum.splits)
  define usr where "usr = \<lparr>BizID = uc_BizID claims, UserID = uc_UserID claims, AutoClose = fold on_header (hk_header h) False\<rparr>"
  obtain isNew where b: "session_Build R c nowText usr db = (Inr (ss, isNew), db')"
    and st: "st = (if cc_Enabled (up_compressionConfig u)
            then map_option (\<lambda>p. \<lparr>cs_Enabled = True, cs_Parameters = p\<rparr>) (hk_negotiate h (ToParameters (up_compressionConfig u)))
            else None)"
    using assms(3) q d by (auto simp: Upgrade_def getUserInfo_def Let_def usr_def split: option.splits sum.splits prod.splits if_splits)
  have ss: "ss = newRedisSession usr" "rd_exists R (se_key ss) db'"
    using b assms(2) by (auto simp: session_Build_def initialize_def luaSetSessionIfNotExist_def remote_run_def Let_def redis_ok_def
        split: remote_call.splits if_splits option.splits)
  have "jl_alg J (trim_prefix ''Bearer '' tok) = AlgHMAC"
    using user_Decode_alg [OF assms(1), of tok unspec now "up_token u"] d by fastforce
  then show ?thesis using q d ss st header_last [of "hk_header h" False]
    by (auto simp: newRedisSession_def usr_def)
qed


definition ex_upgrader :: upgrader where
  "ex_upgrader = \<lparr>up_token = token_New ''key'' ''im'', up_compressionConfig =
     \<lparr>cc_Enabled = False, cc_ServerMaxWindow = 15, cc_ClientMaxWindow = 15, cc_ServerNoContext = False, cc_ClientNoContext = False, cc_Level = 1\<rparr>\<rparr>"

definition ex_handshake :: handshake where
  "ex_handshake = \<lparr>hk_request = None, hk_uri = ''/ws'', hk_header = [(''x-autoclose'', ''true'')], hk_headerErr = None,
     hk_negotiate = (\<lambda>_. None), hk_write = None\<rparr>"

theorem upgrade_authenticates_witness:
  "\<exists>s ss st db'. user_Encode unary_jwt 100 (token_New ''key'' ''im'') ex_uc = Inr s
     \<and> Upgrade unary_jwt (\<lambda>_. 0) (\<lambda>_. Inr s) mem_redis ROk 200 ''t'' ex_upgrader ex_handshake Map.empty = (Inr (ss, st), db')
     \<and> se_userInfo ss = \<lparr>BizID = 1, UserID = 7, AutoClose = True\<rparr>"
proof -
  obtain s where s: "user_Encode unary_jwt 100 (token_New ''key'' ''im'') ex_uc = Inr s"
    by (auto simp: user_Encode_signs unary_jwt_def unary_sign_def)
  have d: "claims_live 200 (signed_claims 100 (token_New ''key'' ''im'') ex_uc)"
    by (simp add: claims_live_def signed_claims_loads signed_claims_nbf ex_uc_def or_else_def day_def)
  have t: "trim_prefix ''Bearer '' s = s"
  proof -
    have "set s \<subseteq> {CHR ''x''}" using s by (auto simp: user_Encode_signs unary_jwt_def unary_sign_def)
    then have "\<not> (\<exists>t. s = ''Bearer '' @ t)" by auto
    then show ?thesis using trim_bearer [of s "''''"] by simp
  qed
  let ?c = "signed_claims 100 (token_New ''key'' ''im'') ex_uc"
  have "set s \<subseteq> {CHR ''x''}" "from_nat (length s) = (''key'', ?c)"
    using s by (auto simp: user_Encode_signs unary_jwt_def unary_sign_def token_New_def)
  then have "token_Decode unary_jwt 200 (token_New ''key'' ''im'') s = Inr (json_claims ?c)"
    using d t by (simp add: token_Decode_def unary_jwt_def unary_parse_def token_New_def)
  then obtain uc where u: "user_Decode unary_jwt (\<lambda>_. 0) 200 (token_New ''key'' ''im'') s = Inr uc" "uc_UserID uc = 7" "uc_BizID uc = 1"
    using f64_int_exact [of 7 "\<lambda>_. 0"] f64_int_exact [of 1 "\<lambda>_. 0"]
    by (simp add: user_Decode_def claim_int_def signed_claims_loads json_claims_load) (simp add: ex_uc_def)
  have h: "filter (\<lambda>(k, v). equal_fold k ''X-AutoClose'') (hk_header ex_handshake) = [(''x-autoclose'', ''true'')]" by code_simp
  obtain ss st db' where up: "Upgrade unary_jwt (\<lambda>_. 0) (\<lambda>_. Inr s) mem_redis ROk 200 ''t'' ex_upgrader ex_handshake Map.empty = (Inr (ss, st), db')"
    using u(1) by (auto simp: Upgrade_def getUserInfo_def ex_upgrader_def ex_handshake_def session_Build_ROk Let_def)
  from upgrade_authenticates [OF unary_jwt_ok mem_redis_ok up] u h have "se_userInfo ss = \<lparr>BizID = 1, UserID = 7, AutoClose = True\<rparr>"
    by (auto simp: ex_upgrader_def)
  with s up show ?thesis by blast
qed

text \<open>A handshake without a valid user token fails before anything is stored: an unparsable URI, a token with an
  algorithm that is not HMAC, and one the library refuses each give their own error, and Redis is as
  before; so is it when the headers are bad. Only after the session was built can a failure (writing the response) leave it behind.\<close>

theorem upgrade_refuses:
  assumes "jwt_ok J"
  shows "(hk_request h = None \<and> query (hk_uri h) = Inl err \<longrightarrow>
      (\<exists>e. Upgrade J unspec query R c now nowText u h db = (Inl e, db) \<and> errors_is e ErrInvalidURI))
    \<and> (hk_request h = None \<and> query (hk_uri h) = Inr tok
        \<and> (jl_alg J (trim_prefix ''Bearer '' tok) \<noteq> AlgHMAC \<or> user_Decode J unspec now (up_token u) tok = Inl err) \<longrightarrow>
      (\<exists>e. Upgrade J unspec query R c now nowText u h db = (Inl e, db) \<and> errors_is e ErrInvalidUserToken))
    \<and> (hk_headerErr h \<noteq> None \<longrightarrow> (\<exists>e. Upgrade J unspec query R c now nowText u h db = (Inl e, db)))
    \<and> (\<forall>e db'. Upgrade J unspec query R c now nowText u h db = (Inl e, db') \<and> c = ROk \<and> db' \<noteq> db \<longrightarrow> hk_write h = Some e)"
proof -
  have a: "\<exists>err. user_Decode J unspec now (up_token u) tok = Inl err"
    if "jl_alg J (trim_prefix ''Bearer '' tok) \<noteq> AlgHMAC"
    by (rule user_Decode_alg [OF assms that])
  have "\<exists>e. Upgrade J unspec query R c now nowText u h db = (Inl e, db) \<and> errors_is e ErrInvalidUserToken"
    if "hk_request h = None" "query (hk_uri h) = Inr tok" "user_Decode J unspec now (up_token u) tok = Inl e'" for e'
    using that by (simp add: Upgrade_def getUserInfo_def)
  moreover have "\<exists>e. Upgrade J unspec query R c now nowText u h db = (Inl e, db)" if "hk_headerErr h \<noteq> None"
    using that by (auto simp: Upgrade_def Let_def split: option.split sum.split)
  moreover have "hk_write h = Some e" if "Upgrade J unspec query R ROk now nowText u h db = (Inl e, db')" "db' \<noteq> db" for e db'
    using that by (auto simp: Upgrade_def Let_def session_Build_ROk split: option.splits sum.splits)
  ultimately show ?thesis using a by (auto simp: Upgrade_def getUserInfo_def)
qed

theorem upgrade_refuses_witness:
  "\<exists>e. Upgrade unary_jwt (\<lambda>_. 0) (\<lambda>_. Inr ''forged'') mem_redis ROk 200 ''t'' ex_upgrader ex_handshake Map.empty = (Inl e, Map.empty)
     \<and> errors_is e ErrInvalidUserToken"
proof -
  have "hk_request ex_handshake = None" "jl_alg unary_jwt (trim_prefix ''Bearer '' ''forged'') \<noteq> AlgHMAC"
    by (simp_all add: ex_handshake_def unary_jwt_def trim_prefix_def)
  then show ?thesis
    using upgrade_refuses [OF unary_jwt_ok, where h = ex_handshake and query = "\<lambda>_. Inr ''forged''" and tok = "''forged''"
        and u = ex_upgrader and R = mem_redis and db = Map.empty and now = 200 and nowText = "''t''" and c = ROk and unspec = "\<lambda>_. 0"]
    by blast
qed

end
