(* ===== verification/GW_Etcd.thy ===== *)
theory GW_Etcd
  imports GW_Types
begin

text \<open>
  etcd, the store the node registry, the service registry and the id generator share. It is outside the
  repository, so its operations are an argument, with what its documentation promises as \<open>etcd_ok\<close>; and
  an instance in memory, on which the laws hold.
\<close>

text \<open>\<open>ec_get\<close>: value and \<open>ModRevision\<close>; \<open>ec_list\<close>: the pairs whose key has a prefix; \<open>ec_put\<close> and \<open>ec_revoke\<close>
  fail (\<open>None\<close>) for a lease that does not exist. \<open>ec_used\<close>, \<open>ec_alive\<close>, \<open>ec_attached\<close> and \<open>ec_rev\<close> observe which
  leases were ever granted, which are alive, the lease of a key and the revision of the store.\<close>

record 'e etcd =
  ec_get :: "string \<Rightarrow> 'e \<Rightarrow> (string \<times> int) option"
  ec_list :: "string \<Rightarrow> 'e \<Rightarrow> (string \<times> string) list"
  ec_put :: "string \<Rightarrow> string \<Rightarrow> int option \<Rightarrow> 'e \<Rightarrow> 'e option"
  ec_delete :: "string \<Rightarrow> 'e \<Rightarrow> 'e"
  ec_grant :: "int \<Rightarrow> 'e \<Rightarrow> int \<times> 'e"
  ec_revoke :: "int \<Rightarrow> 'e \<Rightarrow> 'e option"
  ec_used :: "int \<Rightarrow> 'e \<Rightarrow> bool"
  ec_alive :: "int \<Rightarrow> 'e \<Rightarrow> bool"
  ec_attached :: "string \<Rightarrow> 'e \<Rightarrow> int option"
  ec_rev :: "'e \<Rightarrow> int"

definition is_prefix :: "string \<Rightarrow> string \<Rightarrow> bool" where
  "is_prefix p k \<longleftrightarrow> take (length p) k = p"

definition etcd_ok :: "'e etcd \<Rightarrow> bool" where
  "etcd_ok C \<longleftrightarrow>
     (\<forall>k v r e. ec_get C k e = Some (v, r) \<longrightarrow> 0 < r \<and> r \<le> ec_rev C e)
     \<and> (\<forall>i e. ec_alive C i e \<longrightarrow> ec_used C i e)
     \<and> (\<forall>k i e. ec_attached C k e = Some i \<longrightarrow> ec_alive C i e)
     \<and> (\<forall>k v l e. ec_put C k v l e = None \<longleftrightarrow> (\<exists>i. l = Some i \<and> \<not> ec_alive C i e))
     \<and> (\<forall>k v l e e'. ec_put C k v l e = Some e' \<longrightarrow>
          ec_rev C e < ec_rev C e' \<and> ec_get C k e' = Some (v, ec_rev C e') \<and> ec_attached C k e' = l
          \<and> (\<forall>i. ec_alive C i e' = ec_alive C i e \<and> ec_used C i e' = ec_used C i e)
          \<and> (\<forall>k'. k' \<noteq> k \<longrightarrow> ec_get C k' e' = ec_get C k' e \<and> ec_attached C k' e' = ec_attached C k' e))
     \<and> (\<forall>k e. ec_rev C e \<le> ec_rev C (ec_delete C k e) \<and> ec_get C k (ec_delete C k e) = None
          \<and> (\<forall>i. ec_alive C i (ec_delete C k e) = ec_alive C i e \<and> ec_used C i (ec_delete C k e) = ec_used C i e)
          \<and> (\<forall>k'. k' \<noteq> k \<longrightarrow> ec_get C k' (ec_delete C k e) = ec_get C k' e \<and> ec_attached C k' (ec_delete C k e) = ec_attached C k' e))
     \<and> (\<forall>ttl e i e'. ec_grant C ttl e = (i, e') \<longrightarrow>
          \<not> ec_used C i e \<and> (\<forall>j. (ec_alive C j e' \<longleftrightarrow> j = i \<or> ec_alive C j e) \<and> (ec_used C j e' \<longleftrightarrow> j = i \<or> ec_used C j e)) \<and> ec_rev C e' = ec_rev C e
          \<and> (\<forall>k. ec_get C k e' = ec_get C k e \<and> ec_attached C k e' = ec_attached C k e))
     \<and> (\<forall>i e. ec_revoke C i e = None \<longleftrightarrow> \<not> ec_alive C i e)
     \<and> (\<forall>i e e'. ec_revoke C i e = Some e' \<longrightarrow>
          ec_rev C e \<le> ec_rev C e' \<and> (\<forall>j. (ec_alive C j e' \<longleftrightarrow> j \<noteq> i \<and> ec_alive C j e) \<and> ec_used C j e' = ec_used C j e)
          \<and> (\<forall>k. ec_get C k e' = (if ec_attached C k e = Some i then None else ec_get C k e))
          \<and> (\<forall>k. ec_attached C k e \<noteq> Some i \<longrightarrow> ec_attached C k e' = ec_attached C k e))
     \<and> (\<forall>p e. distinct (map fst (ec_list C p e))
          \<and> (\<forall>k. map_of (ec_list C p e) k = (if is_prefix p k then map_option fst (ec_get C k e) else None)))"

lemma etcd_laws:
  assumes "etcd_ok C"
  shows etcd_rev: "ec_get C k e = Some (v, r) \<Longrightarrow> 0 < r \<and> r \<le> ec_rev C e"
    and etcd_alive_used: "ec_alive C i e \<Longrightarrow> ec_used C i e"
    and etcd_attached: "ec_attached C k e = Some i \<Longrightarrow> ec_alive C i e"
    and etcd_put_None: "ec_put C k v l e = None \<longleftrightarrow> (\<exists>i. l = Some i \<and> \<not> ec_alive C i e)"
    and etcd_put: "ec_put C k v l e = Some e' \<Longrightarrow>
          ec_rev C e < ec_rev C e' \<and> ec_get C k e' = Some (v, ec_rev C e') \<and> ec_attached C k e' = l
          \<and> (\<forall>i. ec_alive C i e' = ec_alive C i e \<and> ec_used C i e' = ec_used C i e)
          \<and> (\<forall>k'. k' \<noteq> k \<longrightarrow> ec_get C k' e' = ec_get C k' e \<and> ec_attached C k' e' = ec_attached C k' e)"
    and etcd_delete: "ec_rev C e \<le> ec_rev C (ec_delete C k e) \<and> ec_get C k (ec_delete C k e) = None
          \<and> (\<forall>i. ec_alive C i (ec_delete C k e) = ec_alive C i e \<and> ec_used C i (ec_delete C k e) = ec_used C i e)
          \<and> (\<forall>k'. k' \<noteq> k \<longrightarrow> ec_get C k' (ec_delete C k e) = ec_get C k' e \<and> ec_attached C k' (ec_delete C k e) = ec_attached C k' e)"
    and etcd_grant: "ec_grant C ttl e = (i, e') \<Longrightarrow>
          \<not> ec_used C i e \<and> (\<forall>j. (ec_alive C j e' \<longleftrightarrow> j = i \<or> ec_alive C j e) \<and> (ec_used C j e' \<longleftrightarrow> j = i \<or> ec_used C j e)) \<and> ec_rev C e' = ec_rev C e
          \<and> (\<forall>k. ec_get C k e' = ec_get C k e \<and> ec_attached C k e' = ec_attached C k e)"
    and etcd_revoke_None: "ec_revoke C i e = None \<longleftrightarrow> \<not> ec_alive C i e"
    and etcd_revoke: "ec_revoke C i e = Some e' \<Longrightarrow>
          ec_rev C e \<le> ec_rev C e' \<and> (\<forall>j. (ec_alive C j e' \<longleftrightarrow> j \<noteq> i \<and> ec_alive C j e) \<and> ec_used C j e' = ec_used C j e)
          \<and> (\<forall>k. ec_get C k e' = (if ec_attached C k e = Some i then None else ec_get C k e))
          \<and> (\<forall>k. ec_attached C k e \<noteq> Some i \<longrightarrow> ec_attached C k e' = ec_attached C k e)"
    and etcd_list: "distinct (map fst (ec_list C p e))
          \<and> (\<forall>k. map_of (ec_list C p e) k = (if is_prefix p k then map_option fst (ec_get C k e) else None))"
proof -
  note l = assms [unfolded etcd_ok_def]
  show "ec_get C k e = Some (v, r) \<Longrightarrow> 0 < r \<and> r \<le> ec_rev C e" by (rule l [THEN conjunct1, rule_format])
  note l = l [THEN conjunct2]
  show "ec_alive C i e \<Longrightarrow> ec_used C i e" by (rule l [THEN conjunct1, rule_format])
  note l = l [THEN conjunct2]
  show "ec_attached C k e = Some i \<Longrightarrow> ec_alive C i e" by (rule l [THEN conjunct1, rule_format])
  note l = l [THEN conjunct2]
  show "ec_put C k v l e = None \<longleftrightarrow> (\<exists>i. l = Some i \<and> \<not> ec_alive C i e)" by (rule l [THEN conjunct1, rule_format])
  note l = l [THEN conjunct2]
  show "ec_put C k v l e = Some e' \<Longrightarrow>
          ec_rev C e < ec_rev C e' \<and> ec_get C k e' = Some (v, ec_rev C e') \<and> ec_attached C k e' = l
          \<and> (\<forall>i. ec_alive C i e' = ec_alive C i e \<and> ec_used C i e' = ec_used C i e)
          \<and> (\<forall>k'. k' \<noteq> k \<longrightarrow> ec_get C k' e' = ec_get C k' e \<and> ec_attached C k' e' = ec_attached C k' e)"
    using l [THEN conjunct1, THEN spec [of _ k], THEN spec [of _ v], THEN spec [of _ l], THEN spec [of _ e], THEN spec [of _ e']] by (rule mp)
  note l = l [THEN conjunct2]
  show "ec_rev C e \<le> ec_rev C (ec_delete C k e) \<and> ec_get C k (ec_delete C k e) = None
          \<and> (\<forall>i. ec_alive C i (ec_delete C k e) = ec_alive C i e \<and> ec_used C i (ec_delete C k e) = ec_used C i e)
          \<and> (\<forall>k'. k' \<noteq> k \<longrightarrow> ec_get C k' (ec_delete C k e) = ec_get C k' e \<and> ec_attached C k' (ec_delete C k e) = ec_attached C k' e)"
    by (rule l [THEN conjunct1, THEN spec [of _ k], THEN spec [of _ e]])
  note l = l [THEN conjunct2]
  show "ec_grant C ttl e = (i, e') \<Longrightarrow>
          \<not> ec_used C i e \<and> (\<forall>j. (ec_alive C j e' \<longleftrightarrow> j = i \<or> ec_alive C j e) \<and> (ec_used C j e' \<longleftrightarrow> j = i \<or> ec_used C j e)) \<and> ec_rev C e' = ec_rev C e
          \<and> (\<forall>k. ec_get C k e' = ec_get C k e \<and> ec_attached C k e' = ec_attached C k e)"
    using l [THEN conjunct1, THEN spec [of _ ttl], THEN spec [of _ e], THEN spec [of _ i], THEN spec [of _ e']] by (rule mp)
  note l = l [THEN conjunct2]
  show "ec_revoke C i e = None \<longleftrightarrow> \<not> ec_alive C i e" by (rule l [THEN conjunct1, rule_format])
  note l = l [THEN conjunct2]
  show "ec_revoke C i e = Some e' \<Longrightarrow>
          ec_rev C e \<le> ec_rev C e' \<and> (\<forall>j. (ec_alive C j e' \<longleftrightarrow> j \<noteq> i \<and> ec_alive C j e) \<and> ec_used C j e' = ec_used C j e)
          \<and> (\<forall>k. ec_get C k e' = (if ec_attached C k e = Some i then None else ec_get C k e))
          \<and> (\<forall>k. ec_attached C k e \<noteq> Some i \<longrightarrow> ec_attached C k e' = ec_attached C k e)"
    using l [THEN conjunct1, THEN spec [of _ i], THEN spec [of _ e], THEN spec [of _ e']] by (rule mp)
  show "distinct (map fst (ec_list C p e))
          \<and> (\<forall>k. map_of (ec_list C p e) k = (if is_prefix p k then map_option fst (ec_get C k e) else None))"
    by (rule l [THEN conjunct2, THEN spec [of _ p], THEN spec [of _ e]])
qed

subsection \<open>Calls\<close>

text \<open>The client's methods; an operation that etcd itself refuses is an error and changes nothing.\<close>

definition refused :: "'e option \<Rightarrow> 'e \<Rightarrow> bool \<times> 'e" where
  "refused r e = (case r of Some e' \<Rightarrow> (True, e') | None \<Rightarrow> (False, e))"

definition flatten_call :: "string \<Rightarrow> (gerr + bool) \<times> 'e \<Rightarrow> gerr option \<times> 'e" where
  "flatten_call msg r = (case fst r of Inl err \<Rightarrow> Some err | Inr ok \<Rightarrow> if ok then None else Some (Ext msg), snd r)"

definition etcd_Put :: "'e etcd \<Rightarrow> remote_call \<Rightarrow> string \<Rightarrow> string \<Rightarrow> int option \<Rightarrow> 'e \<Rightarrow> gerr option \<times> 'e" where
  "etcd_Put C c k v l e = flatten_call ''requested lease not found'' (remote_run c (\<lambda>e. refused (ec_put C k v l e) e) e)"

definition etcd_Revoke :: "'e etcd \<Rightarrow> remote_call \<Rightarrow> int \<Rightarrow> 'e \<Rightarrow> gerr option \<times> 'e" where
  "etcd_Revoke C c i e = flatten_call ''requested lease not found'' (remote_run c (\<lambda>e. refused (ec_revoke C i e) e) e)"

definition etcd_Grant :: "'e etcd \<Rightarrow> remote_call \<Rightarrow> int \<Rightarrow> 'e \<Rightarrow> (gerr + int) \<times> 'e" where
  "etcd_Grant C c ttl e = remote_run c (ec_grant C ttl) e"

definition etcd_Get :: "'e etcd \<Rightarrow> remote_call \<Rightarrow> string \<Rightarrow> 'e \<Rightarrow> gerr + (string \<times> int) option" where
  "etcd_Get C c k e = fst (remote_run c (\<lambda>e. (ec_get C k e, e)) e)"

definition etcd_List :: "'e etcd \<Rightarrow> remote_call \<Rightarrow> string \<Rightarrow> 'e \<Rightarrow> gerr + (string \<times> string) list" where
  "etcd_List C c p e = fst (remote_run c (\<lambda>e. (ec_list C p e, e)) e)"

definition etcd_Delete :: "'e etcd \<Rightarrow> remote_call \<Rightarrow> string \<Rightarrow> 'e \<Rightarrow> gerr option \<times> 'e" where
  "etcd_Delete C c k e = flatten_call '''' (remote_run c (\<lambda>e. (True, ec_delete C k e)) e)"

text \<open>A transaction: one comparison, and a \<open>Put\<close> if it holds; the result is \<open>Succeeded\<close>.\<close>

definition etcd_Txn :: "'e etcd \<Rightarrow> remote_call \<Rightarrow> ('e \<Rightarrow> bool) \<Rightarrow> string \<Rightarrow> string \<Rightarrow> 'e \<Rightarrow> (gerr + bool) \<times> 'e" where
  "etcd_Txn C c cond k v e = remote_run c (\<lambda>e. if cond e then refused (ec_put C k v None e) e else (False, e)) e"

lemma etcd_Put_cases:
  assumes "etcd_Put C c k v l e = (err, e')"
  shows "e' = e \<and> err \<noteq> None \<or> ec_put C k v l e = Some e'"
  using assms by (auto simp: etcd_Put_def flatten_call_def remote_run_def refused_def Let_def split: remote_call.splits option.splits)

lemma etcd_Put_ok: "etcd_Put C c k v l e = (None, e') \<longleftrightarrow> c = ROk \<and> ec_put C k v l e = Some e'"
  by (cases c; cases "ec_put C k v l e") (auto simp: etcd_Put_def flatten_call_def remote_run_def refused_def)

lemma etcd_Revoke_cases:
  assumes "etcd_Revoke C c i e = (err, e')"
  shows "e' = e \<and> err \<noteq> None \<or> ec_revoke C i e = Some e'"
  using assms by (auto simp: etcd_Revoke_def flatten_call_def remote_run_def refused_def Let_def split: remote_call.splits option.splits)

lemma etcd_Revoke_ok: "etcd_Revoke C c i e = (None, e') \<longleftrightarrow> c = ROk \<and> ec_revoke C i e = Some e'"
  by (cases c; cases "ec_revoke C i e") (auto simp: etcd_Revoke_def flatten_call_def remote_run_def refused_def)

lemma etcd_Get_simps: "etcd_Get C c k e = Inr r \<longleftrightarrow> c = ROk \<and> r = ec_get C k e"
  by (cases c) (auto simp: etcd_Get_def remote_run_def)

subsection \<open>etcd in memory\<close>

text \<open>The log of writes, newest first (\<open>None\<close> is a deletion), its length the revision; the number of leases granted, and
  those revoked. A key whose lease is not alive is gone.\<close>

record mem_store =
  ms_log :: "(string \<times> (string \<times> int option) option) list"
  ms_granted :: nat
  ms_revoked :: "int list"

fun log_find :: "string \<Rightarrow> (string \<times> (string \<times> int option) option) list \<Rightarrow> (string \<times> int \<times> int option) option" where
  "log_find k [] = None"
| "log_find k ((k', w) # log) =
     (if k = k' then map_option (\<lambda>(v, l). (v, int (Suc (length log)), l)) w else log_find k log)"

definition ms_alive :: "int \<Rightarrow> mem_store \<Rightarrow> bool" where
  "ms_alive i s \<longleftrightarrow> 0 < i \<and> i \<le> int (ms_granted s) \<and> i \<notin> set (ms_revoked s)"

definition ms_find :: "string \<Rightarrow> mem_store \<Rightarrow> (string \<times> int \<times> int option) option" where
  "ms_find k s =
     (case log_find k (ms_log s) of
        None \<Rightarrow> None
      | Some (v, r, l) \<Rightarrow> if (case l of None \<Rightarrow> True | Some i \<Rightarrow> ms_alive i s) then Some (v, r, l) else None)"

definition unlease :: "int \<Rightarrow> string \<times> (string \<times> int option) option \<Rightarrow> string \<times> (string \<times> int option) option" where
  "unlease i kw = (fst kw, case snd kw of Some (v, Some j) \<Rightarrow> if j = i then None else snd kw | w \<Rightarrow> w)"

definition mem_etcd :: "mem_store etcd" where
  "mem_etcd =
     \<lparr>ec_get = (\<lambda>k s. map_option (\<lambda>(v, r, l). (v, r)) (ms_find k s)),
      ec_list = (\<lambda>p s. map (\<lambda>k. (k, fst (the (ms_find k s))))
                     (filter (\<lambda>k. is_prefix p k \<and> ms_find k s \<noteq> None) (remdups (map fst (ms_log s))))),
      ec_put = (\<lambda>k v l s. if (case l of None \<Rightarrow> True | Some i \<Rightarrow> ms_alive i s)
                then Some (s\<lparr>ms_log := (k, Some (v, l)) # ms_log s\<rparr>) else None),
      ec_delete = (\<lambda>k s. s\<lparr>ms_log := (k, None) # ms_log s\<rparr>),
      ec_grant = (\<lambda>ttl s. let i = int (Suc (ms_granted s))
                in (i, s\<lparr>ms_granted := Suc (ms_granted s), ms_revoked := filter (\<lambda>j. j \<noteq> i) (ms_revoked s),
                       ms_log := map (unlease i) (ms_log s)\<rparr>)),
      ec_revoke = (\<lambda>i s. if ms_alive i s then Some (s\<lparr>ms_revoked := i # ms_revoked s\<rparr>) else None),
      ec_used = (\<lambda>i s. 0 < i \<and> i \<le> int (ms_granted s)),
      ec_alive = ms_alive,
      ec_attached = (\<lambda>k s. case ms_find k s of Some (v, r, l) \<Rightarrow> l | None \<Rightarrow> None),
      ec_rev = (\<lambda>s. int (length (ms_log s)))\<rparr>"

lemma log_find_rev: "log_find k log = Some (v, r, l) \<Longrightarrow> 0 < r \<and> r \<le> int (length log)"
  by (induction log) (auto split: if_splits)

lemma log_find_key: "log_find k log \<noteq> None \<Longrightarrow> k \<in> fst ` set log"
  by (induction log) (auto split: if_splits)

lemma log_find_unlease:
  "log_find k (map (unlease i) log) = (case log_find k log of Some (v, r, l) \<Rightarrow> if l = Some i then None else Some (v, r, l) | None \<Rightarrow> None)"
proof (induction log)
  case (Cons kw log)
  then show ?case by (cases kw) (auto simp: unlease_def split: option.splits)
qed simp

lemma mem_list:
  "distinct (map fst (ec_list mem_etcd p s))
   \<and> (\<forall>k. map_of (ec_list mem_etcd p s) k = (if is_prefix p k then map_option fst (ec_get mem_etcd k s) else None))"
proof -
  let ?ks = "filter (\<lambda>k. is_prefix p k \<and> ms_find k s \<noteq> None) (remdups (map fst (ms_log s)))"
  have m: "map_of (map (\<lambda>k. (k, f k)) ks) k = (if k \<in> set ks then Some (f k) else None)" for f k and ks :: "string list"
    by (induction ks) auto
  have l: "ec_list mem_etcd p s = map (\<lambda>k. (k, fst (the (ms_find k s)))) ?ks" by (simp add: mem_etcd_def)
  have "k \<in> set ?ks \<longleftrightarrow> is_prefix p k \<and> ms_find k s \<noteq> None" for k
    using log_find_key [of k "ms_log s"] by (auto simp: ms_find_def split: option.splits)
  moreover have "map_of (ec_list mem_etcd p s) k = (if k \<in> set ?ks then Some (fst (the (ms_find k s))) else None)" for k
    unfolding l by (rule m)
  moreover have "ec_get mem_etcd k s = map_option (\<lambda>(v, r, l). (v, r)) (ms_find k s)" for k by (simp add: mem_etcd_def)
  ultimately have "map_of (ec_list mem_etcd p s) k = (if is_prefix p k then map_option fst (ec_get mem_etcd k s) else None)" for k
    by (cases "ms_find k s") auto
  moreover have "distinct (map fst (ec_list mem_etcd p s))" unfolding l by (simp add: o_def)
  ultimately show ?thesis by blast
qed

lemma mem_etcd_ok: "etcd_ok mem_etcd"
  unfolding etcd_ok_def
proof (intro conjI, goal_cases)
  case 1
  show ?case using log_find_rev by (fastforce simp: mem_etcd_def ms_find_def split: option.splits if_splits)
next
  case 2
  show ?case by (simp add: mem_etcd_def ms_alive_def)
next
  case 3
  show ?case by (auto simp: mem_etcd_def ms_find_def split: option.splits if_splits)
next
  case 4
  show ?case by (auto simp: mem_etcd_def split: option.splits)
next
  case 5
  show ?case by (auto simp: mem_etcd_def ms_alive_def ms_find_def split: option.splits if_splits)
next
  case 6
  show ?case by (auto simp: mem_etcd_def ms_alive_def ms_find_def split: option.splits)
next
  case 7
  show ?case
  proof (intro allI impI)
    fix ttl e i e' assume "ec_grant mem_etcd ttl e = (i, e')"
    then have i: "i = int (Suc (ms_granted e))" and e': "e' = e\<lparr>ms_granted := Suc (ms_granted e),
        ms_revoked := filter (\<lambda>j. j \<noteq> i) (ms_revoked e), ms_log := map (unlease i) (ms_log e)\<rparr>"
      by (auto simp: mem_etcd_def Let_def)
    have a: "ms_alive j e' \<longleftrightarrow> j = i \<or> ms_alive j e" for j by (auto simp: ms_alive_def e' i)
    have "\<not> ms_alive i e" by (simp add: ms_alive_def i)
    then have f: "ms_find k e' = ms_find k e" for k
      unfolding ms_find_def a by (simp add: e' log_find_unlease split: option.split)
    show "\<not> ec_used mem_etcd i e
        \<and> (\<forall>j. (ec_alive mem_etcd j e' \<longleftrightarrow> j = i \<or> ec_alive mem_etcd j e) \<and> (ec_used mem_etcd j e' \<longleftrightarrow> j = i \<or> ec_used mem_etcd j e))
        \<and> ec_rev mem_etcd e' = ec_rev mem_etcd e
        \<and> (\<forall>k. ec_get mem_etcd k e' = ec_get mem_etcd k e \<and> ec_attached mem_etcd k e' = ec_attached mem_etcd k e)"
      by (auto simp: mem_etcd_def a f) (auto simp: e' i)
  qed
next
  case 8
  show ?case by (simp add: mem_etcd_def)
next
  case 9
  show ?case
  proof (intro allI impI)
    fix i e e' assume "ec_revoke mem_etcd i e = Some e'"
    then have e': "e' = e\<lparr>ms_revoked := i # ms_revoked e\<rparr>" by (simp add: mem_etcd_def split: if_splits)
    have a: "ms_alive j e' \<longleftrightarrow> j \<noteq> i \<and> ms_alive j e" for j by (auto simp: ms_alive_def e')
    have f: "ms_find k e' = (case ms_find k e of Some (v, r, l) \<Rightarrow> if l = Some i then None else Some (v, r, l) | None \<Rightarrow> None)" for k
      unfolding ms_find_def a by (simp add: e' split: option.split)
    show "ec_rev mem_etcd e \<le> ec_rev mem_etcd e'
        \<and> (\<forall>j. (ec_alive mem_etcd j e' \<longleftrightarrow> j \<noteq> i \<and> ec_alive mem_etcd j e) \<and> ec_used mem_etcd j e' = ec_used mem_etcd j e)
        \<and> (\<forall>k. ec_get mem_etcd k e' = (if ec_attached mem_etcd k e = Some i then None else ec_get mem_etcd k e))
        \<and> (\<forall>k. ec_attached mem_etcd k e \<noteq> Some i \<longrightarrow> ec_attached mem_etcd k e' = ec_attached mem_etcd k e)"
      by (auto simp: mem_etcd_def a f split: option.splits) (simp_all add: e')
  qed
next
  case 10
  show ?case using mem_list by blast
qed

end
