(* ===== verification/GW_Generator.thy ===== *)
theory GW_Generator
  imports GW_Etcd
begin

text \<open>
  \<open>pkg/generator/etcd.go\<close>: cluster-wide node ids and ports, drawn from counters in etcd by compare-and-swap.
\<close>

definition nodeIDKey :: string where
  "nodeIDKey = ''/service/gateway/gen/id''"

definition portKey :: string where
  "portKey = ''/service/gateway/gen/port''"

text \<open>Create if absent: the comparison is \<open>CreateRevision(key) = 0\<close>.\<close>

definition initializeKey :: "'e etcd \<Rightarrow> remote_call \<Rightarrow> string \<Rightarrow> int \<Rightarrow> 'e \<Rightarrow> gerr option \<times> 'e" where
  "initializeKey C c key val e =
     (let (r, e') = etcd_Txn C c (\<lambda>e. ec_get C key e = None) key (fmt_d val) e
      in (case r of Inl err \<Rightarrow> Some (WrapE [err]) | Inr succeeded \<Rightarrow> None, e'))"

definition NewEtcdIDGenerator :: "'e etcd \<Rightarrow> remote_call \<Rightarrow> remote_call \<Rightarrow> int \<Rightarrow> int \<Rightarrow> 'e \<Rightarrow> gerr option \<times> 'e" where
  "NewEtcdIDGenerator C c1 c2 initialNodeID initialPort e =
     (case initializeKey C c1 nodeIDKey initialNodeID e of
        (Some err, e1) \<Rightarrow> (Some (WrapE [err]), e1)
      | (None, e1) \<Rightarrow>
          (case initializeKey C c2 portKey initialPort e1 of
             (Some err, e2) \<Rightarrow> (Some (WrapE [err]), e2)
           | (None, e2) \<Rightarrow> (None, e2)))"

text \<open>Where a call of \<open>generateValue\<close> stands: at the top of its loop, between the read and the transaction, returned. One
  step makes one call to etcd; the waiting before a retry is not modelled.\<close>

datatype gen_pc = GGet | GTxn int int | GDone "gerr + int"

definition generateValue :: "'e etcd \<Rightarrow> string \<Rightarrow> gerr option \<Rightarrow> remote_call \<Rightarrow> gen_pc \<Rightarrow> 'e \<Rightarrow> gen_pc \<times> 'e" where
  "generateValue C key ctxErr c pc e =
     (case pc of
        GGet \<Rightarrow>
          (case ctxErr of
             Some err \<Rightarrow> (GDone (Inl err), e)
           | None \<Rightarrow>
               (case etcd_Get C c key e of
                  Inl err \<Rightarrow> (GGet, e)
                | Inr None \<Rightarrow> (GDone (Inl (Txt ''generator not initialised'')), e)
                | Inr (Some (val, modRev)) \<Rightarrow>
                    (case parse_int64 val of
                       None \<Rightarrow> (GDone (Inl (WrapE [Ext ''strconv''])), e)
                     | Some currentValue \<Rightarrow> (GTxn (i64 (currentValue + 1)) modRev, e))))
      | GTxn nextValue modRev \<Rightarrow>
          (case etcd_Txn C c (\<lambda>e. (case ec_get C key e of Some (_, r) \<Rightarrow> r | None \<Rightarrow> 0) = modRev) key (fmt_d nextValue) e of
             (Inl err, e') \<Rightarrow> (GGet, e')
           | (Inr succeeded, e') \<Rightarrow> (if succeeded then GDone (Inr nextValue) else GGet, e'))
      | GDone r \<Rightarrow> (GDone r, e))"

definition GenerateNodeID :: "'e etcd \<Rightarrow> gerr option \<Rightarrow> remote_call \<Rightarrow> gen_pc \<Rightarrow> 'e \<Rightarrow> gen_pc \<times> 'e" where
  "GenerateNodeID C = generateValue C nodeIDKey"

definition GeneratePort :: "'e etcd \<Rightarrow> gerr option \<Rightarrow> remote_call \<Rightarrow> gen_pc \<Rightarrow> 'e \<Rightarrow> gen_pc \<times> 'e" where
  "GeneratePort C = generateValue C portKey"

subsection \<open>Many nodes drawing at once\<close>

text \<open>Any number of calls on one counter, by any nodes, and everything else that happens in the cluster and leaves the
  counter alone. \<open>gs_issued\<close> is a ghost: for every value drawn so far, the call that drew it, or \<open>None\<close> if its transaction was executed but
  the answer was lost.\<close>

record 'e gen_sys =
  gs_etcd :: 'e
  gs_pcs :: "gen_pc list"
  gs_issued :: "nat option list"

definition newly_issued :: "'e etcd \<Rightarrow> string \<Rightarrow> nat \<Rightarrow> gen_pc \<Rightarrow> 'e \<Rightarrow> 'e \<Rightarrow> nat option list" where
  "newly_issued C key i pc' e e' =
     (if ec_get C key e' = ec_get C key e then [] else [case pc' of GDone (Inr v) \<Rightarrow> Some i | _ \<Rightarrow> None])"

inductive gen_step :: "'e etcd \<Rightarrow> string \<Rightarrow> 'e gen_sys \<Rightarrow> 'e gen_sys \<Rightarrow> bool" for C key where
  gen_call: "gen_step C key s (s\<lparr>gs_pcs := gs_pcs s @ [GGet]\<rparr>)"
| gen_run: "i < length (gs_pcs s) \<Longrightarrow> generateValue C key (map_option Ext ctxErr) c (gs_pcs s ! i) (gs_etcd s) = (pc', e') \<Longrightarrow>
     gen_step C key s (s\<lparr>gs_pcs := (gs_pcs s)[i := pc'], gs_etcd := e',
       gs_issued := gs_issued s @ newly_issued C key i pc' (gs_etcd s) e'\<rparr>)"
| gen_other: "ec_get C key e' = ec_get C key (gs_etcd s) \<Longrightarrow> ec_rev C (gs_etcd s) \<le> ec_rev C e' \<Longrightarrow>
     gen_step C key s (s\<lparr>gs_etcd := e'\<rparr>)"

definition gen_init :: "'e etcd \<Rightarrow> string \<Rightarrow> int \<Rightarrow> 'e gen_sys \<Rightarrow> bool" where
  "gen_init C key initial s \<longleftrightarrow> (\<exists>r. ec_get C key (gs_etcd s) = Some (fmt_d initial, r)) \<and> gs_pcs s = [] \<and> gs_issued s = []"

definition pc_ok :: "int \<Rightarrow> int \<Rightarrow> nat option list \<Rightarrow> int \<Rightarrow> nat \<Rightarrow> gen_pc \<Rightarrow> bool" where
  "pc_ok initial storeRev issued r i pc =
     (case pc of
        GGet \<Rightarrow> True
      | GTxn nxt rv \<Rightarrow> rv \<le> storeRev \<and> (rv = r \<longrightarrow> nxt = i64 (initial + int (length issued) + 1))
      | GDone (Inr v) \<Rightarrow> \<exists>j < length issued. issued ! j = Some i \<and> v = i64 (initial + int j + 1)
      | GDone (Inl err) \<Rightarrow> \<exists>m. err = Ext m)"

text \<open>The counter holds the last value drawn; a pending transaction can only succeed with the next one; every result was
  drawn by its call, and by no other.\<close>

definition gen_inv :: "'e etcd \<Rightarrow> string \<Rightarrow> int \<Rightarrow> 'e gen_sys \<Rightarrow> bool" where
  "gen_inv C key initial s \<longleftrightarrow>
     (\<exists>r. ec_get C key (gs_etcd s) = Some (fmt_d (i64 (initial + int (length (gs_issued s)))), r)
        \<and> (\<forall>i < length (gs_pcs s). pc_ok initial (ec_rev C (gs_etcd s)) (gs_issued s) r i (gs_pcs s ! i)))
     \<and> (\<forall>j < length (gs_issued s). \<forall>i. gs_issued s ! j = Some i \<longrightarrow> i < length (gs_pcs s) \<and> (\<exists>v. gs_pcs s ! i = GDone (Inr v)))"

lemma i64_plus_one: "i64 (i64 x + 1) = i64 (x + 1)"
  by (simp add: i64_def) (simp add: mod_simps)

lemma pc_ok_rev: "pc_ok initial n issued r i pc \<Longrightarrow> n \<le> n' \<Longrightarrow> pc_ok initial n' issued r i pc"
  by (auto simp: pc_ok_def split: gen_pc.splits sum.splits)

lemma pc_ok_issued: "pc_ok initial n issued r i pc \<Longrightarrow> n < r' \<Longrightarrow> pc_ok initial r' (issued @ [x]) r' i pc"
  by (auto simp: pc_ok_def nth_append split: gen_pc.splits sum.splits)

text \<open>One call to etcd against a counter that holds \<open>cur\<close> since revision \<open>r\<close>.\<close>

lemma generateValue_get:
  assumes g: "ec_get C key e = Some (fmt_d cur, r)" and "in64 cur"
    and "generateValue C key ctxErr c GGet e = (pc', e')"
  shows "e' = e \<and> (pc' = GGet \<or> pc' = GTxn (i64 (cur + 1)) r \<or> (\<exists>err. ctxErr = Some err \<and> pc' = GDone (Inl err)))"
  using assms parse_fmt_d [of cur]
  by (cases c) (auto simp: generateValue_def etcd_Get_def remote_run_def split: option.splits)

lemma generateValue_txn:
  assumes ok: "etcd_ok C" and g: "ec_get C key e = Some (v, r)"
    and step: "generateValue C key ctxErr c (GTxn nxt rv) e = (pc', e')"
  shows "(e' = e \<and> pc' = GGet)
    \<or> (rv = r \<and> ec_put C key (fmt_d nxt) None e = Some e' \<and> pc' \<in> {GGet, GDone (Inr nxt)})"
proof -
  obtain e1 where p: "ec_put C key (fmt_d nxt) None e = Some e1"
    using etcd_put_None [OF ok, of key "fmt_d nxt" None e] by (cases "ec_put C key (fmt_d nxt) None e") auto
  show ?thesis using step g p
    by (cases c; cases "rv = r") (auto simp: generateValue_def etcd_Txn_def remote_run_def refused_def)
qed

lemma gen_step_inv:
  assumes ok: "etcd_ok C" and inv: "gen_inv C key initial s" and step: "gen_step C key s t"
  shows "gen_inv C key initial t"
  using step
proof cases
  case gen_call
  then show ?thesis using inv unfolding gen_inv_def
    by (auto simp: nth_append less_Suc_eq pc_ok_def [of _ _ _ _ _ GGet])
next
  case (gen_other e')
  then show ?thesis using inv pc_ok_rev unfolding gen_inv_def by fastforce
next
  case (gen_run i ctxErr c pc' e')
  let ?n = "length (gs_issued s)"
  obtain r where g: "ec_get C key (gs_etcd s) = Some (fmt_d (i64 (initial + int ?n)), r)"
    and pcs: "\<And>j. j < length (gs_pcs s) \<Longrightarrow> pc_ok initial (ec_rev C (gs_etcd s)) (gs_issued s) r j (gs_pcs s ! j)"
    and own: "\<And>k j. k < ?n \<Longrightarrow> gs_issued s ! k = Some j \<Longrightarrow> j < length (gs_pcs s) \<and> (\<exists>v. gs_pcs s ! j = GDone (Inr v))"
    using inv unfolding gen_inv_def by blast
  have r: "0 < r \<and> r \<le> ec_rev C (gs_etcd s)" using etcd_rev [OF ok g] .
  have quiet: ?thesis if e': "e' = gs_etcd s" and np: "pc_ok initial (ec_rev C (gs_etcd s)) (gs_issued s) r i pc'"
    and nd: "\<forall>v. gs_pcs s ! i \<noteq> GDone (Inr v)"
  proof -
    have "j \<noteq> i" if "k < ?n" "gs_issued s ! k = Some j" for k j using own [OF that] nd by blast
    then show ?thesis using g pcs own e' np gen_run(1,2) unfolding gen_inv_def
      by (auto simp: newly_issued_def nth_list_update)
  qed
  show ?thesis
  proof (cases "gs_pcs s ! i")
    case GGet
    have i64: "in64 (i64 (initial + int ?n))" by (rule i64_in64)
    from generateValue_get [OF g i64 gen_run(3) [unfolded GGet]] show ?thesis
      using r GGet by (intro quiet) (auto simp: pc_ok_def i64_plus_one)
  next
    case (GTxn nxt rv)
    from generateValue_txn [OF ok g gen_run(3) [unfolded GTxn]]
    show ?thesis
    proof (elim disjE conjE)
      assume "e' = gs_etcd s" "pc' = GGet"
      then show ?thesis using GTxn by (intro quiet) (auto simp: pc_ok_def)
    next
      assume rv: "rv = r" and p: "ec_put C key (fmt_d nxt) None (gs_etcd s) = Some e'" and pc': "pc' \<in> {GGet, GDone (Inr nxt)}"
      have nxt: "nxt = i64 (initial + int ?n + 1)" using pcs [OF gen_run(2)] GTxn rv by (simp add: pc_ok_def)
      let ?x = "case pc' of GDone (Inr v) \<Rightarrow> Some i | _ \<Rightarrow> None"
      have e: "ec_rev C (gs_etcd s) < ec_rev C e'" "ec_get C key e' = Some (fmt_d nxt, ec_rev C e')"
        using etcd_put [OF ok p] by simp_all
      then have new: "newly_issued C key i pc' (gs_etcd s) e' = [?x]" using g r by (auto simp: newly_issued_def)
      have i': "pc_ok initial (ec_rev C e') (gs_issued s @ [?x]) (ec_rev C e') i pc'" using pc' nxt by (auto simp: pc_ok_def intro!: exI [of _ ?n])
      have "pc_ok initial (ec_rev C e') (gs_issued s @ [?x]) (ec_rev C e') j ((gs_pcs s)[i := pc'] ! j)" if "j < length (gs_pcs s)" for j
        using i' pc_ok_issued [OF pcs [OF that] e(1)] that by (cases "j = i") simp_all
      moreover have "j < length (gs_pcs s) \<and> (\<exists>v. (gs_pcs s)[i := pc'] ! j = GDone (Inr v))"
        if "k < Suc ?n" "(gs_issued s @ [?x]) ! k = Some j" for k j
      proof (cases "k = ?n")
        case True
        then show ?thesis using that pc' gen_run(2) by (auto split: gen_pc.splits sum.splits)
      next
        case False
        then have "j < length (gs_pcs s) \<and> (\<exists>v. gs_pcs s ! j = GDone (Inr v))" using own [of k j] that by (simp add: nth_append)
        then show ?thesis using GTxn by (cases "j = i") auto
      qed
      ultimately show ?thesis using gen_run(1) new e(2) nxt unfolding gen_inv_def
        by (auto simp: algebra_simps)
    qed
  next
    case (GDone res)
    then have "pc' = GDone res" "e' = gs_etcd s" using gen_run(3) by (simp_all add: generateValue_def)
    moreover have "(gs_pcs s)[i := GDone res] = gs_pcs s" using GDone list_update_id [of "gs_pcs s" i] by simp
    ultimately have "t = s" using gen_run(1) by (simp add: newly_issued_def)
    then show ?thesis using inv by simp
  qed
qed


lemma gen_init_inv: "in64 initial \<Longrightarrow> gen_init C key initial s \<Longrightarrow> gen_inv C key initial s"
  by (auto simp: gen_init_def gen_inv_def)

lemma gen_reach_inv:
  assumes "etcd_ok C" and "in64 initial" and "reach (gen_init C key initial) (gen_step C key) s"
  shows "gen_inv C key initial s"
  using assms(3)
proof (induction rule: reach.induct)
  case (reach_init s)
  then show ?case by (rule gen_init_inv [OF assms(2)])
next
  case (reach_step s t)
  show ?case by (rule gen_step_inv [OF assms(1) reach_step(3,2)])
qed

lemma i64_inject: "i64 (a + int m) = i64 (a + int n) \<Longrightarrow> m < 2 ^ 64 \<Longrightarrow> n < 2 ^ 64 \<Longrightarrow> m = n"
proof -
  assume e: "i64 (a + int m) = i64 (a + int n)" and b: "m < 2 ^ 64" "n < 2 ^ 64"
  have "(a + int m) mod 2 ^ 64 = (a + int n) mod 2 ^ 64" using e i64_mod by metis
  then have "int m mod 2 ^ 64 = int n mod 2 ^ 64"
    using mod_diff_cong [of "a + int m" "2 ^ 64" "a + int n" a a] by simp
  moreover have "int k mod 2 ^ 64 = int k" if "k < 2 ^ 64" for k
    by (rule mod_pos_pos_trivial) (use that in simp_all)
  ultimately show "m = n" using b by (metis of_nat_eq_iff)
qed

text \<open>A run on the instance: two calls read the counter, both try, the loser tries again.\<close>

definition ex_gen :: "mem_store gen_sys" where
  "ex_gen = \<lparr>gs_etcd = \<lparr>ms_log = [(nodeIDKey, Some (fmt_d 100, None))], ms_granted = 0, ms_revoked = []\<rparr>,
             gs_pcs = [], gs_issued = []\<rparr>"

definition gen_exec :: "'e etcd \<Rightarrow> string \<Rightarrow> nat \<Rightarrow> 'e gen_sys \<Rightarrow> 'e gen_sys" where
  "gen_exec C key i s =
     (if i < length (gs_pcs s)
      then let (pc', e') = generateValue C key None ROk (gs_pcs s ! i) (gs_etcd s)
           in s\<lparr>gs_pcs := (gs_pcs s)[i := pc'], gs_etcd := e', gs_issued := gs_issued s @ newly_issued C key i pc' (gs_etcd s) e'\<rparr>
      else s\<lparr>gs_pcs := gs_pcs s @ [GGet]\<rparr>)"

lemma gen_exec_reach: "reach init (gen_step C key) s \<Longrightarrow> reach init (gen_step C key) (gen_exec C key i s)"
proof -
  assume r: "reach init (gen_step C key) s"
  show ?thesis
  proof (cases "i < length (gs_pcs s)")
    case True
    obtain pc' e' where g: "generateValue C key None ROk (gs_pcs s ! i) (gs_etcd s) = (pc', e')" by fastforce
    then show ?thesis using r True gen_step.gen_run [of i s C key None ROk pc' e'] by (auto simp: gen_exec_def intro: reach_step)
  next
    case False
    then show ?thesis using r by (auto simp: gen_exec_def intro: reach_step gen_step.gen_call)
  qed
qed

definition ex_gen_run :: "mem_store gen_sys" where
  "ex_gen_run = fold (gen_exec mem_etcd nodeIDKey) [9, 9, 0, 1, 1, 0, 0, 0] ex_gen"

lemma ex_gen_run_reach: "reach (gen_init mem_etcd nodeIDKey 100) (gen_step mem_etcd nodeIDKey) ex_gen_run"
proof -
  have "gen_init mem_etcd nodeIDKey 100 ex_gen" by (simp add: gen_init_def ex_gen_def mem_etcd_def ms_find_def)
  then show ?thesis unfolding ex_gen_run_def by (simp add: gen_exec_reach reach_init)
qed

lemma mem_gen_get:
  "ms_find k e = Some (fmt_d cur, r, l) \<Longrightarrow> in64 cur \<Longrightarrow>
   generateValue mem_etcd k None ROk GGet e = (GTxn (i64 (cur + 1)) r, e)"
  by (simp add: generateValue_def etcd_Get_def mem_etcd_def parse_fmt_d)

lemma mem_gen_txn:
  "ms_find k e = Some (v, r, l) \<Longrightarrow>
   generateValue mem_etcd k None ROk (GTxn nxt rv) e
     = (if r = rv then (GDone (Inr nxt), e\<lparr>ms_log := (k, Some (fmt_d nxt, None)) # ms_log e\<rparr>) else (GGet, e))"
  by (simp add: generateValue_def etcd_Txn_def mem_etcd_def refused_def)

lemma ex_gen_run_pcs: "gs_pcs ex_gen_run = [GDone (Inr 102), GDone (Inr 101)]" "length (gs_issued ex_gen_run) = 2"
proof -
  have g: "ec_get mem_etcd k e = map_option (\<lambda>(v, r, l). (v, r)) (ms_find k e)" for k e by (simp add: mem_etcd_def)
  show "gs_pcs ex_gen_run = [GDone (Inr 102), GDone (Inr 101)]" "length (gs_issued ex_gen_run) = 2"
    by (simp_all add: ex_gen_run_def ex_gen_def gen_exec_def mem_gen_get mem_gen_txn in64_def newly_issued_def g ms_find_def eval_nat_numeral)
qed

subsection \<open>Properties\<close>

text \<open>C24. However the calls of any number of nodes interleave, and whichever calls to etcd fail or lose their
  answer, no two of them return the same value; every value lies after the initial one, at most as many steps
  as were drawn; and the only error a call can end with is that of its own context.\<close>

theorem generator_unique:
  assumes "etcd_ok C" and "in64 initial" and "reach (gen_init C key initial) (gen_step C key) s" and "length (gs_issued s) < 2 ^ 64"
  shows "(\<forall>i < length (gs_pcs s). \<forall>j < length (gs_pcs s). \<forall>v. i \<noteq> j \<longrightarrow> gs_pcs s ! i = GDone (Inr v) \<longrightarrow> gs_pcs s ! j \<noteq> GDone (Inr v))
    \<and> (\<forall>i < length (gs_pcs s). \<forall>v. gs_pcs s ! i = GDone (Inr v) \<longrightarrow> initial + int (length (gs_issued s)) < 2 ^ 63 \<longrightarrow>
         initial < v \<and> v \<le> initial + int (length (gs_issued s)))
    \<and> (\<forall>i < length (gs_pcs s). \<forall>err. gs_pcs s ! i = GDone (Inl err) \<longrightarrow> (\<exists>m. err = Ext m))"
proof -
  have inv: "gen_inv C key initial s" by (rule gen_reach_inv [OF assms(1-3)])
  have won: "\<exists>k < length (gs_issued s). gs_issued s ! k = Some i \<and> v = i64 (initial + int k + 1)"
    if "i < length (gs_pcs s)" "gs_pcs s ! i = GDone (Inr v)" for i v
    using inv that unfolding gen_inv_def by (fastforce simp: pc_ok_def)
  have "gs_pcs s ! j \<noteq> GDone (Inr v)" if ij: "i < length (gs_pcs s)" "j < length (gs_pcs s)" "i \<noteq> j" "gs_pcs s ! i = GDone (Inr v)" for i j v
  proof
    assume dj: "gs_pcs s ! j = GDone (Inr v)"
    obtain k l where kl: "k < length (gs_issued s)" "gs_issued s ! k = Some i" "v = i64 (initial + int k + 1)"
      "l < length (gs_issued s)" "gs_issued s ! l = Some j" "v = i64 (initial + int l + 1)"
      using won [OF ij(1,4)] won [OF ij(2) dj] by blast
    then have "i64 ((initial + 1) + int k) = i64 ((initial + 1) + int l)" by (simp add: algebra_simps)
    then have "k = l" using i64_inject kl(1,4) assms(4) less_trans by blast
    then show False using kl(2,5) ij(3) by simp
  qed
  moreover have "initial < v \<and> v \<le> initial + int (length (gs_issued s))"
    if iv: "i < length (gs_pcs s)" "gs_pcs s ! i = GDone (Inr v)" "initial + int (length (gs_issued s)) < 2 ^ 63" for i v
  proof -
    obtain k where k: "k < length (gs_issued s)" "v = i64 (initial + int k + 1)" using won [OF iv(1,2)] by blast
    have "in64 (initial + int k + 1)" using k(1) iv(3) assms(2) by (simp add: in64_def)
    then show ?thesis using k by simp
  qed
  moreover have "\<exists>m. err = Ext m" if "i < length (gs_pcs s)" "gs_pcs s ! i = GDone (Inl err)" for i err
    using inv that unfolding gen_inv_def by (fastforce simp: pc_ok_def)
  ultimately show ?thesis by blast
qed

theorem generator_unique_witness:
  "gs_pcs ex_gen_run ! 0 = GDone (Inr 102) \<and> gs_pcs ex_gen_run ! 1 \<noteq> GDone (Inr 102)"
  using generator_unique [OF mem_etcd_ok _ ex_gen_run_reach] ex_gen_run_pcs by (simp add: in64_def)

text \<open>Drawing is lock-free: from any state a call at the top of its loop returns the next value after one read and
  one transaction if etcd answers and nobody else draws in between; and a transaction that is answered can fail only if
  the counter was changed since the read.\<close>

theorem generator_progress:
  assumes "etcd_ok C" and "in64 initial" and "reach (gen_init C key initial) (gen_step C key) s"
  shows "(case generateValue C key None ROk GGet (gs_etcd s) of (pc1, e1) \<Rightarrow>
      (case generateValue C key None ROk pc1 e1 of (pc2, e2) \<Rightarrow>
         pc2 = GDone (Inr (i64 (initial + int (length (gs_issued s)) + 1)))
         \<and> map_option fst (ec_get C key e2) = Some (fmt_d (i64 (initial + int (length (gs_issued s)) + 1)))))
    \<and> (\<forall>nxt modRev. fst (generateValue C key None ROk (GTxn nxt modRev) (gs_etcd s)) = GGet \<longrightarrow>
         map_option snd (ec_get C key (gs_etcd s)) \<noteq> Some modRev)"
proof -
  let ?v = "i64 (initial + int (length (gs_issued s)) + 1)"
  obtain r where g: "ec_get C key (gs_etcd s) = Some (fmt_d (i64 (initial + int (length (gs_issued s)))), r)"
    using gen_reach_inv [OF assms] unfolding gen_inv_def by blast
  have one: "generateValue C key None ROk GGet (gs_etcd s) = (GTxn ?v r, gs_etcd s)"
    using g parse_fmt_d [OF i64_in64, of "initial + int (length (gs_issued s))"] by (simp add: generateValue_def etcd_Get_def i64_plus_one)
  have put: "\<exists>e'. ec_put C key w None (gs_etcd s) = Some e'" for w
    using etcd_put_None [OF assms(1), of key w None "gs_etcd s"] by (cases "ec_put C key w None (gs_etcd s)") auto
  obtain e' where p: "ec_put C key (fmt_d ?v) None (gs_etcd s) = Some e'" using put by blast
  have two: "generateValue C key None ROk (GTxn ?v r) (gs_etcd s) = (GDone (Inr ?v), e')"
    using g p by (simp add: generateValue_def etcd_Txn_def refused_def)
  have "ec_get C key e' = Some (fmt_d ?v, ec_rev C e')" using etcd_put [OF assms(1) p] by simp
  moreover have "fst (generateValue C key None ROk (GTxn nxt r) (gs_etcd s)) = GDone (Inr nxt)" for nxt
    using g put [of "fmt_d nxt"] by (auto simp: generateValue_def etcd_Txn_def refused_def)
  ultimately show ?thesis using one two g by auto
qed

theorem generator_progress_witness:
  "fst (case generateValue mem_etcd nodeIDKey None ROk GGet (gs_etcd ex_gen_run) of (pc1, e1) \<Rightarrow> generateValue mem_etcd nodeIDKey None ROk pc1 e1)
     = GDone (Inr 103)"
  using generator_progress [OF mem_etcd_ok _ ex_gen_run_reach] ex_gen_run_pcs(2) by (simp add: in64_def case_prod_beta)

end
