(* ===== verification/GW_Registry.thy ===== *)
theory GW_Registry
  imports GW_Etcd
begin

text \<open>
  \<open>internal/registry/registry.go\<close>: the gateway nodes in etcd. A node registers under a lease, keeps it alive, updates its
  load, lists the others, and on shutdown lowers its weight, waits and revokes the lease. Goroutines of one node
  (the state updater and the graceful shutdown) interleave; each step makes one call to etcd.
\<close>

definition GatewayRegistryPrefix :: string where
  "GatewayRegistryPrefix = ''/services/gateway/node/''"

definition LeaseTTL :: int where
  "LeaseTTL = 10"

definition registry_key :: "string \<Rightarrow> string" where
  "registry_key nodeID = GatewayRegistryPrefix @ nodeID"

text \<open>\<open>json.Marshal\<close> and \<open>json.Unmarshal\<close> of a node; its texts are UTF-8, as protobuf demands, so decoding inverts encoding.\<close>

record node_json =
  nj_marshal :: "node \<Rightarrow> gerr + string"
  nj_unmarshal :: "string \<Rightarrow> gerr + node"

definition node_json_ok :: "node_json \<Rightarrow> bool" where
  "node_json_ok J \<longleftrightarrow> (\<forall>n s. nj_marshal J n = Inr s \<longrightarrow> nj_unmarshal J s = Inr n)"

subsection \<open>Registering\<close>

text \<open>The fate of the three calls of one attempt: \<open>Grant\<close>, \<open>Put\<close>, \<open>Revoke\<close>. \<open>Block\<close>: the attempts end before the loop.\<close>

fun register_loop ::
  "'e etcd \<Rightarrow> 'rs strategy \<Rightarrow> string \<Rightarrow> string \<Rightarrow> (remote_call \<times> remote_call \<times> remote_call) list \<Rightarrow> 'rs \<Rightarrow> 'e
     \<Rightarrow> ((gerr + int) \<times> 'e) exec" where
  "register_loop C nxt k v [] rs e = Block"
| "register_loop C nxt k v ((gc, pc, rc) # attempts) rs e =
     (case etcd_Grant C gc LeaseTTL e of
        (Inl err, e1) \<Rightarrow> Ret (Inl (WrapE [err]), e1)
      | (Inr leaseID, e1) \<Rightarrow>
          (case etcd_Put C pc k v (Some leaseID) e1 of
             (None, e2) \<Rightarrow> Ret (Inr leaseID, e2)
           | (Some err, e2) \<Rightarrow>
               let e3 = snd (etcd_Revoke C rc leaseID e2) in
               (case nxt rs of
                  None \<Rightarrow> Ret (Inl (WrapE [err, Sen ErrRegistryMaxRetriesExceeded]), e3)
                | Some (duration, rs') \<Rightarrow> register_loop C nxt k v attempts rs' e3)))"

definition Register ::
  "'e etcd \<Rightarrow> 'rs strategy \<Rightarrow> gerr + 'rs \<Rightarrow> node_json \<Rightarrow> (remote_call \<times> remote_call \<times> remote_call) list \<Rightarrow> node \<Rightarrow> 'e
     \<Rightarrow> ((gerr + int) \<times> 'e) exec" where
  "Register C nxt rs0 J attempts n e =
     (case nj_marshal J n of
        Inl err \<Rightarrow> Ret (Inl (WrapE [err]), e)
      | Inr nodeBytes \<Rightarrow>
          (case rs0 of
             Inl err \<Rightarrow> Ret (Inl (WrapE [err]), e)
           | Inr rs \<Rightarrow> register_loop C nxt (registry_key (nd_id n)) nodeBytes attempts rs e))"

subsection \<open>Keeping the lease alive\<close>

text \<open>What the select of \<open>KeepAlive\<close> meets: a response, a nil response, the channel closed (and how the restart ends), a
  context done. The outer \<open>None\<close>: still running.\<close>

datatype keepalive_event = KaResponse | KaNil | KaClosed "gerr option" | KaDone

fun keepalive_loop :: "int \<Rightarrow> int \<Rightarrow> keepalive_event list \<Rightarrow> gerr option option" where
  "keepalive_loop maxRetries retryCount [] = None"
| "keepalive_loop maxRetries retryCount (KaResponse # evs) = keepalive_loop maxRetries 0 evs"
| "keepalive_loop maxRetries retryCount (KaNil # evs) = keepalive_loop maxRetries retryCount evs"
| "keepalive_loop maxRetries retryCount (KaDone # evs) = Some None"
| "keepalive_loop maxRetries retryCount (KaClosed restart # evs) =
     (if retryCount \<ge> maxRetries then Some (Some (Sen ErrRegistryMaxRetriesExceeded))
      else if restart \<noteq> None \<and> retryCount + 1 \<ge> maxRetries then Some (Some (Sen ErrRegistryMaxRetriesExceeded))
      else keepalive_loop maxRetries 0 evs)"

definition KeepAlive :: "int \<Rightarrow> gerr option \<Rightarrow> keepalive_event list \<Rightarrow> gerr option option" where
  "KeepAlive maxRetries start evs = (case start of Some err \<Rightarrow> Some (Some err) | None \<Rightarrow> keepalive_loop maxRetries 0 evs)"

subsection \<open>Reading and updating\<close>

definition getNodeInfo :: "'e etcd \<Rightarrow> node_json \<Rightarrow> remote_call \<Rightarrow> string \<Rightarrow> 'e \<Rightarrow> gerr + node" where
  "getNodeInfo C J c nodeID e =
     (case etcd_Get C c (registry_key nodeID) e of
        Inl err \<Rightarrow> Inl (WrapE [err])
      | Inr None \<Rightarrow> Inl (WrapE [Sen ErrNodeInfoNotExist])
      | Inr (Some (v, r)) \<Rightarrow> (case nj_unmarshal J v of Inl err \<Rightarrow> Inl (WrapE [err]) | Inr n \<Rightarrow> Inr n))"

definition GetAvailableNodes :: "'e etcd \<Rightarrow> node_json \<Rightarrow> remote_call \<Rightarrow> string \<Rightarrow> 'e \<Rightarrow> gerr + node list" where
  "GetAvailableNodes C J c selfID e =
     (case etcd_List C c GatewayRegistryPrefix e of
        Inl err \<Rightarrow> Inl (WrapE [err])
      | Inr kvs \<Rightarrow> Inr (concat (map (\<lambda>(k, v). case nj_unmarshal J v of
                                     Inl err \<Rightarrow> []
                                   | Inr n \<Rightarrow> if nd_id n \<noteq> selfID then [n] else []) kvs)))"

definition UpdateNodeInfo :: "'e etcd \<Rightarrow> node_json \<Rightarrow> remote_call \<Rightarrow> int \<Rightarrow> node \<Rightarrow> 'e \<Rightarrow> gerr option \<times> 'e" where
  "UpdateNodeInfo C J c leaseID n e =
     (case nj_marshal J n of
        Inl err \<Rightarrow> (Some (WrapE [err]), e)
      | Inr nodeBytes \<Rightarrow>
          (case etcd_Put C c (registry_key (nd_id n)) nodeBytes (Some leaseID) e of
             (Some err, e') \<Rightarrow> (Some (WrapE [err]), e')
           | (None, e') \<Rightarrow> (None, e')))"

text \<open>\<open>Deregister\<close> also cancels the registry's own context: the third result.\<close>

definition Deregister :: "'e etcd \<Rightarrow> remote_call \<Rightarrow> int \<Rightarrow> 'e \<Rightarrow> bool \<Rightarrow> gerr option \<times> 'e \<times> bool" where
  "Deregister C c leaseID e cancelled =
     (case etcd_Revoke C c leaseID e of
        (Some err, e') \<Rightarrow> (Some (WrapE [err]), e', cancelled)
      | (None, e') \<Rightarrow> (None, e', True))"

text \<open>\<open>GracefulDeregister\<close>: reading the node, writing it back with weight 0, waiting (for the time, or for the context),
  revoking, returned.\<close>

datatype graceful_pc = GdGet | GdPut node | GdWait | GdRevoke | GdDone "gerr option"

definition GracefulDeregister ::
  "'e etcd \<Rightarrow> node_json \<Rightarrow> int \<Rightarrow> string \<Rightarrow> remote_call \<Rightarrow> graceful_pc \<Rightarrow> 'e \<times> bool \<Rightarrow> graceful_pc \<times> 'e \<times> bool" where
  "GracefulDeregister C J leaseID nodeID c pc ec =
     (let (e, cancelled) = ec in
      case pc of
        GdGet \<Rightarrow>
          (case getNodeInfo C J c nodeID e of
             Inl err \<Rightarrow> (GdDone (if errors_is err ErrNodeInfoNotExist then None else Some (WrapE [err])), e, cancelled)
           | Inr n \<Rightarrow> (GdPut (n\<lparr>nd_weight := 0\<rparr>), e, cancelled))
      | GdPut n \<Rightarrow>
          (case UpdateNodeInfo C J c leaseID n e of
             (Some err, e') \<Rightarrow> (GdDone (Some (WrapE [err])), e', cancelled)
           | (None, e') \<Rightarrow> (GdWait, e', cancelled))
      | GdWait \<Rightarrow> (GdRevoke, e, cancelled)
      | GdRevoke \<Rightarrow>
          (case Deregister C c leaseID e cancelled of
             (Some err2, e', cancelled') \<Rightarrow> (GdDone (Some (WrapE [err2])), e', cancelled')
           | (None, e', cancelled') \<Rightarrow> (GdDone None, e', cancelled'))
      | GdDone r \<Rightarrow> (GdDone r, e, cancelled))"

text \<open>\<open>StartNodeStateUpdater\<close>: in its select, between reading a node and writing it back, returned. \<open>stop\<close>: the select
  takes a context that is done.\<close>

datatype updater_pc = SuWait | SuPut node | SuDone

definition StartNodeStateUpdater ::
  "'e etcd \<Rightarrow> node_json \<Rightarrow> (node \<Rightarrow> bool \<times> node) \<Rightarrow> int \<Rightarrow> string \<Rightarrow> bool \<Rightarrow> remote_call \<Rightarrow> updater_pc \<Rightarrow> 'e \<Rightarrow> updater_pc \<times> 'e" where
  "StartNodeStateUpdater C J updateFunc leaseID nodeID stop c pc e =
     (case pc of
        SuWait \<Rightarrow>
          if stop then (SuDone, e)
          else (case getNodeInfo C J c nodeID e of
                  Inl err \<Rightarrow> (SuWait, e)
                | Inr n \<Rightarrow> let (changed, n') = updateFunc n in (if changed then SuPut n' else SuWait, e))
      | SuPut n \<Rightarrow> (SuWait, snd (UpdateNodeInfo C J c leaseID n e))
      | SuDone \<Rightarrow> (SuDone, e))"

subsection \<open>One node in the cluster\<close>

record 'e reg_sys =
  rg_etcd :: 'e
  rg_graceful :: graceful_pc
  rg_updater :: updater_pc
  rg_cancelled :: bool

text \<open>The steps of the node registered as \<open>nodeID\<close> under \<open>leaseID\<close>; the lease expiring; and everything others do to etcd: they
  do not touch this node's key or lease.\<close>

inductive reg_step :: "'e etcd \<Rightarrow> node_json \<Rightarrow> (node \<Rightarrow> bool \<times> node) \<Rightarrow> int \<Rightarrow> string \<Rightarrow> 'e reg_sys \<Rightarrow> 'e reg_sys \<Rightarrow> bool"
  for C J updateFunc leaseID nodeID where
  reg_graceful: "GracefulDeregister C J leaseID nodeID c (rg_graceful s) (rg_etcd s, rg_cancelled s) = (pc, e, cn) \<Longrightarrow>
     reg_step C J updateFunc leaseID nodeID s (s\<lparr>rg_graceful := pc, rg_etcd := e, rg_cancelled := cn\<rparr>)"
| reg_updater: "StartNodeStateUpdater C J updateFunc leaseID nodeID stop c (rg_updater s) (rg_etcd s) = (pc, e) \<Longrightarrow>
     reg_step C J updateFunc leaseID nodeID s (s\<lparr>rg_updater := pc, rg_etcd := e\<rparr>)"
| reg_expire: "ec_revoke C leaseID (rg_etcd s) = Some e \<Longrightarrow> reg_step C J updateFunc leaseID nodeID s (s\<lparr>rg_etcd := e\<rparr>)"
| reg_others: "ec_get C (registry_key nodeID) e = ec_get C (registry_key nodeID) (rg_etcd s) \<Longrightarrow>
     ec_attached C (registry_key nodeID) e = ec_attached C (registry_key nodeID) (rg_etcd s) \<Longrightarrow>
     ec_alive C leaseID e = ec_alive C leaseID (rg_etcd s) \<Longrightarrow>
     reg_step C J updateFunc leaseID nodeID s (s\<lparr>rg_etcd := e\<rparr>)"


subsection \<open>What a registration leaves behind\<close>

text \<open>An attempt can leave a lease nobody will use: the reply to its \<open>Grant\<close> was lost, or its \<open>Revoke\<close>, whose error the code
  ignores, did not reach etcd.\<close>

fun leaves_lease :: "remote_call \<times> remote_call \<times> remote_call \<Rightarrow> bool" where
  "leaves_lease (gc, pc, rc) \<longleftrightarrow> (case gc of RLost err \<Rightarrow> True | _ \<Rightarrow> False) \<or> (case rc of RRefused err \<Rightarrow> True | _ \<Rightarrow> False)"

text \<open>Against the state before: only the fresh leases \<open>left\<close> (and, on success, the lease \<open>l\<close>) are alive in addition, no other key
  has changed, and the node's record is as before, or gone, or bound to one of the leases left.\<close>

definition reg_undone :: "'e etcd \<Rightarrow> string \<Rightarrow> int list \<Rightarrow> 'e \<Rightarrow> 'e \<Rightarrow> bool" where
  "reg_undone C k left e e' \<longleftrightarrow> (\<forall>i. ec_alive C i e' \<longleftrightarrow> ec_alive C i e \<or> i \<in> set left)
     \<and> (\<forall>i \<in> set left. \<not> ec_used C i e) \<and> (\<forall>i. ec_used C i e \<longrightarrow> ec_used C i e')
     \<and> (\<forall>k'. k' \<noteq> k \<longrightarrow> ec_get C k' e' = ec_get C k' e)
     \<and> (ec_get C k e' = ec_get C k e \<and> ec_attached C k e' = ec_attached C k e \<or> ec_get C k e' = None
          \<or> (\<exists>i \<in> set left. ec_attached C k e' = Some i))"

definition reg_done :: "'e etcd \<Rightarrow> string \<Rightarrow> string \<Rightarrow> int list \<Rightarrow> 'e \<Rightarrow> int \<Rightarrow> 'e \<Rightarrow> bool" where
  "reg_done C k v left e l e' \<longleftrightarrow> map_option fst (ec_get C k e') = Some v \<and> ec_attached C k e' = Some l \<and> \<not> ec_used C l e
     \<and> (\<forall>i. ec_alive C i e' \<longleftrightarrow> i = l \<or> ec_alive C i e \<or> i \<in> set left) \<and> (\<forall>i \<in> set left. \<not> ec_used C i e)
     \<and> (\<forall>k'. k' \<noteq> k \<longrightarrow> ec_get C k' e' = ec_get C k' e)"

definition reg_result :: "'e etcd \<Rightarrow> string \<Rightarrow> string \<Rightarrow> int list \<Rightarrow> 'e \<Rightarrow> gerr + int \<Rightarrow> 'e \<Rightarrow> bool" where
  "reg_result C k v left e res e' = (case res of Inr l \<Rightarrow> reg_done C k v left e l e' | Inl err \<Rightarrow> reg_undone C k left e e')"

lemma reg_undone_refl [simp]: "reg_undone C k [] e e"
  by (simp add: reg_undone_def)

lemma reg_undone_then:
  assumes "reg_undone C k left1 e e1" and "reg_result C k v left2 e1 res e2"
  shows "reg_result C k v (left1 @ left2) e res e2"
  using assms by (cases res) (auto simp: reg_undone_def reg_result_def reg_done_def)

lemma grant_lost:
  assumes ok: "etcd_ok C" and g: "ec_grant C ttl e = (l, e1)"
  shows "reg_undone C k [l] e e1"
  using etcd_grant [OF ok g] by (auto simp: reg_undone_def)

text \<open>An attempt whose \<open>Put\<close> failed, with and without its \<open>Revoke\<close>.\<close>

lemma attempt_put:
  assumes ok: "etcd_ok C" and g: "ec_grant C LeaseTTL e = (l, e1)" and put: "etcd_Put C pc k v (Some l) e1 = (Some err, e2)"
  shows "reg_undone C k [l] e e2" and "ec_alive C l e2" and "\<not> ec_used C l e"
    and "\<And>k'. ec_attached C k' e \<noteq> Some l"
    and "ec_get C k e2 = ec_get C k e \<and> ec_attached C k e2 = ec_attached C k e \<or> ec_attached C k e2 = Some l"
    and "\<And>k'. k' \<noteq> k \<Longrightarrow> ec_attached C k' e2 = ec_attached C k' e"
proof -
  note gl = etcd_grant [OF ok g]
  have p: "e2 = e1 \<or> ec_put C k v (Some l) e1 = Some e2" using etcd_Put_cases [OF put] by blast
  note pl = etcd_put [OF ok, of k v "Some l" e1 e2]
  have alive2: "ec_alive C i e2 = ec_alive C i e1" "ec_used C i e2 = ec_used C i e1" for i using p pl by auto
  show nu: "\<not> ec_used C l e" using gl by blast
  then have "\<not> ec_alive C l e" using etcd_alive_used [OF ok] by blast
  then show "ec_attached C k' e \<noteq> Some l" for k' using etcd_attached [OF ok] by blast
  show "ec_alive C l e2" using gl alive2 by simp
  show c: "ec_get C k e2 = ec_get C k e \<and> ec_attached C k e2 = ec_attached C k e \<or> ec_attached C k e2 = Some l"
    using p pl gl by auto
  show "ec_attached C k' e2 = ec_attached C k' e" if "k' \<noteq> k" for k' using p pl gl that by auto
  have "ec_get C k' e2 = ec_get C k' e" if "k' \<noteq> k" for k' using p pl gl that by auto
  then show "reg_undone C k [l] e e2" using c gl alive2 nu by (auto simp: reg_undone_def)
qed

lemma attempt_fails:
  assumes ok: "etcd_ok C" and g: "ec_grant C LeaseTTL e = (l, e1)"
    and put: "etcd_Put C pc k v (Some l) e1 = (Some err, e2)"
  shows "reg_undone C k (case rc of RRefused err \<Rightarrow> [l] | _ \<Rightarrow> []) e (snd (etcd_Revoke C rc l e2))"
proof -
  note a = attempt_put [OF ok g put]
  show ?thesis
  proof (cases "\<exists>err. rc = RRefused err")
    case True
    then show ?thesis using a(1) by (auto simp: etcd_Revoke_def flatten_call_def remote_run_def)
  next
    case False
    obtain e3 where r: "ec_revoke C l e2 = Some e3" using a(2) etcd_revoke_None [OF ok, of l e2] by (cases "ec_revoke C l e2") auto
    note rl = etcd_revoke [OF ok r]
    have e3: "snd (etcd_Revoke C rc l e2) = e3"
      using False by (cases rc) (auto simp: etcd_Revoke_def flatten_call_def refused_def remote_run_def r)
    have nl: "\<not> ec_alive C l e" using a(3) etcd_alive_used [OF ok] by blast
    have u: "reg_undone C k [l] e e2" by (rule a(1))
    have "ec_get C k' e3 = ec_get C k' e" if "k' \<noteq> k" for k'
      using rl a(6) [OF that] a(4) [of k'] u that by (simp add: reg_undone_def)
    moreover have "ec_get C k e3 = ec_get C k e \<and> ec_attached C k e3 = ec_attached C k e \<or> ec_get C k e3 = None"
      using rl a(5) a(4) [of k] by auto
    moreover have "ec_alive C i e3 \<longleftrightarrow> ec_alive C i e" "ec_used C i e \<longrightarrow> ec_used C i e3" for i
      using rl u nl by (auto simp: reg_undone_def)
    ultimately have "reg_undone C k [] e e3" by (simp add: reg_undone_def)
    then show ?thesis unfolding e3 using False by (cases rc) auto
  qed
qed

definition register_claim ::
  "'e etcd \<Rightarrow> string \<Rightarrow> string \<Rightarrow> (remote_call \<times> remote_call \<times> remote_call) list \<Rightarrow> 'e \<Rightarrow> ((gerr + int) \<times> 'e) exec \<Rightarrow> bool" where
  "register_claim C k v attempts e r \<longleftrightarrow> (\<exists>res e' left. r = Ret (res, e') \<and> reg_result C k v left e res e'
     \<and> length left \<le> length (filter leaves_lease attempts)
     \<and> (\<forall>err. res = Inl err \<longrightarrow> errors_is err ErrRegistryMaxRetriesExceeded \<or> (\<exists>(gc, pc, rc) \<in> set attempts. gc \<noteq> ROk)))"

lemma register_claimI:
  "r = Ret (res, e') \<Longrightarrow> reg_result C k v left e res e' \<Longrightarrow> length left \<le> length (filter leaves_lease attempts) \<Longrightarrow>
   (\<And>err. res = Inl err \<Longrightarrow> errors_is err ErrRegistryMaxRetriesExceeded \<or> (\<exists>(gc, pc, rc) \<in> set attempts. gc \<noteq> ROk)) \<Longrightarrow>
   register_claim C k v attempts e r"
  unfolding register_claim_def by blast

lemma register_loop_returns:
  assumes ok: "etcd_ok C" and "gives_up nxt rs m" and "m < length attempts"
  shows "register_claim C k v attempts e (register_loop C nxt k v attempts rs e)"
  using assms(2-)
proof (induction attempts arbitrary: rs m e)
  case (Cons a attempts)
  obtain gc pc rc where a: "a = (gc, pc, rc)" by (cases a)
  obtain l e1 where g: "ec_grant C LeaseTTL e = (l, e1)" by fastforce
  show ?case
  proof (cases "gc = ROk")
    case False
    obtain err e0 where er: "etcd_Grant C gc LeaseTTL e = (Inl err, e0)"
      using False by (cases gc) (auto simp: etcd_Grant_def remote_run_def)
    then have "register_loop C nxt k v (a # attempts) rs e = Ret (Inl (WrapE [err]), e0)" by (simp add: a)
    moreover have "reg_undone C k (case gc of RLost err \<Rightarrow> [l] | _ \<Rightarrow> []) e e0"
      using False er grant_lost [OF ok g, of k] by (cases gc) (auto simp: etcd_Grant_def remote_run_def g)
    ultimately show ?thesis using False
      by (intro register_claimI [where left = "case gc of RLost err \<Rightarrow> [l] | _ \<Rightarrow> []"])
        (auto simp: a reg_result_def split: remote_call.splits)
  next
    case True
    then have gr: "etcd_Grant C gc LeaseTTL e = (Inr l, e1)" using g by (simp add: etcd_Grant_def)
    obtain perr e2 where p: "etcd_Put C pc k v (Some l) e1 = (perr, e2)" by fastforce
    show ?thesis
    proof (cases perr)
      case None
      have "ec_put C k v (Some l) e1 = Some e2" using p None etcd_Put_ok by metis
      then have "reg_done C k v [] e l e2" unfolding reg_done_def using etcd_grant [OF ok g] etcd_put [OF ok] by fastforce
      then show ?thesis using gr p None by (intro register_claimI [where left = "[]"]) (auto simp: a reg_result_def)
    next
      case (Some err)
      let ?left = "case rc of RRefused err \<Rightarrow> [l] | _ \<Rightarrow> []" and ?e3 = "snd (etcd_Revoke C rc l e2)"
      have u: "reg_undone C k ?left e ?e3" by (rule attempt_fails [OF ok g p [unfolded Some]])
      have n: "length ?left \<le> length (filter leaves_lease [a])" by (simp add: a split: remote_call.splits)
      show ?thesis
      proof (cases "nxt rs")
        case None
        then have "register_loop C nxt k v (a # attempts) rs e = Ret (Inl (WrapE [err, Sen ErrRegistryMaxRetriesExceeded]), ?e3)"
          using gr p Some by (simp add: a)
        then show ?thesis by (rule register_claimI [where left = ?left]) (use u n in \<open>auto simp: reg_result_def\<close>)
      next
        case d: (Some d)
        obtain dur rs' where d': "d = (dur, rs')" by (cases d)
        from Cons.prems(1) d d' obtain m' where "m = Suc m'" "gives_up nxt rs' m'" by (cases m) auto
        with Cons.prems have "register_claim C k v attempts ?e3 (register_loop C nxt k v attempts rs' ?e3)"
          by (intro Cons.IH) auto
        then obtain res e' left where r: "register_loop C nxt k v attempts rs' ?e3 = Ret (res, e')"
          "reg_result C k v left ?e3 res e'" "length left \<le> length (filter leaves_lease attempts)"
          "\<And>err. res = Inl err \<Longrightarrow> errors_is err ErrRegistryMaxRetriesExceeded \<or> (\<exists>(gc, pc, rc) \<in> set attempts. gc \<noteq> ROk)"
          unfolding register_claim_def by blast
        have "register_loop C nxt k v (a # attempts) rs e = Ret (res, e')" using gr p Some d d' r(1) by (simp add: a)
        then show ?thesis
        proof (rule register_claimI)
          show "reg_result C k v (?left @ left) e res e'" by (rule reg_undone_then [OF u r(2)])
          show "length (?left @ left) \<le> length (filter leaves_lease (a # attempts))" using n r(3) by (simp split: if_splits)
        qed (use r(4) in auto)
      qed
    qed
  qed
qed simp

text \<open>C25. However its calls to etcd fail, \<open>Register\<close> returns once its retry strategy gives up. On success the node's
  record is bound to a fresh, live lease. On failure the record is as before, or removed, or, if a lease was left behind, bound to that lease.
  Besides the lease returned, the only leases that are alive and were not before are fresh ones, at most one for each attempt
  whose \<open>Grant\<close> reply was lost or whose \<open>Revoke\<close> did not reach etcd (the code ignores its error); so where there was
  no such attempt a failure leaves no lease. No other key is touched, and the error is the exhausted retries unless a
  \<open>Grant\<close> failed. Meanwhile no other client acts on etcd and no lease expires.\<close>

theorem registry_register:
  assumes "etcd_ok C" and "nj_marshal J n = Inr v" and "gives_up nxt rs m" and "m < length attempts"
  shows "\<exists>res e' left. Register C nxt (Inr rs) J attempts n e = Ret (res, e')
     \<and> length left \<le> length (filter leaves_lease attempts)
     \<and> (\<forall>i \<in> set left. \<not> ec_used C i e)
     \<and> (\<forall>k. k \<noteq> registry_key (nd_id n) \<longrightarrow> ec_get C k e' = ec_get C k e)
     \<and> (case res of
          Inr l \<Rightarrow> map_option fst (ec_get C (registry_key (nd_id n)) e') = Some v \<and> ec_attached C (registry_key (nd_id n)) e' = Some l
            \<and> \<not> ec_used C l e \<and> (\<forall>i. ec_alive C i e' \<longleftrightarrow> i = l \<or> ec_alive C i e \<or> i \<in> set left)
        | Inl err \<Rightarrow> (\<forall>i. ec_alive C i e' \<longleftrightarrow> ec_alive C i e \<or> i \<in> set left)
            \<and> (ec_get C (registry_key (nd_id n)) e' = ec_get C (registry_key (nd_id n)) e \<or> ec_get C (registry_key (nd_id n)) e' = None
                 \<or> (\<exists>i \<in> set left. ec_attached C (registry_key (nd_id n)) e' = Some i))
            \<and> (errors_is err ErrRegistryMaxRetriesExceeded \<or> (\<exists>(gc, pc, rc) \<in> set attempts. gc \<noteq> ROk)))"
proof -
  have "register_claim C (registry_key (nd_id n)) v attempts e (Register C nxt (Inr rs) J attempts n e)"
    using register_loop_returns [OF assms(1,3,4)] by (simp add: Register_def assms(2))
  then obtain res e' left where "Register C nxt (Inr rs) J attempts n e = Ret (res, e')"
    "reg_result C (registry_key (nd_id n)) v left e res e'" "length left \<le> length (filter leaves_lease attempts)"
    "\<And>err. res = Inl err \<Longrightarrow> errors_is err ErrRegistryMaxRetriesExceeded \<or> (\<exists>(gc, pc, rc) \<in> set attempts. gc \<noteq> ROk)"
    unfolding register_claim_def by blast
  then show ?thesis
    by (intro exI [of _ res] exI [of _ e'] exI [of _ left])
      (cases res; auto simp: reg_result_def reg_done_def reg_undone_def)
qed

subsection \<open>An example codec\<close>

definition ex_node :: "int \<Rightarrow> node" where
  "ex_node w = \<lparr>nd_id = ''n1'', nd_ip = '''', nd_port = 9002, nd_weight = w, nd_location = '''', nd_labels = [], nd_capacity = 0, nd_load = 0\<rparr>"

definition ex_json :: node_json where
  "ex_json = \<lparr>nj_marshal = (\<lambda>n. if n = ex_node 1 then Inr ''w1'' else if n = ex_node 0 then Inr ''w0'' else Inl (Ext ''marshal'')),
     nj_unmarshal = (\<lambda>s. if s = ''w1'' then Inr (ex_node 1) else if s = ''w0'' then Inr (ex_node 0) else Inl (Ext ''unmarshal''))\<rparr>"

lemma ex_node_fields [simp]: "nd_id (ex_node w) = ''n1''" "nd_weight (ex_node w) = w" "(ex_node w)\<lparr>nd_weight := w'\<rparr> = ex_node w'"
  "ex_node w = ex_node w' \<longleftrightarrow> w = w'"
  by (auto simp: ex_node_def)

lemma ex_json_simps [simp]: "nj_marshal ex_json (ex_node 1) = Inr ''w1''" "nj_marshal ex_json (ex_node 0) = Inr ''w0''"
  "nj_unmarshal ex_json ''w1'' = Inr (ex_node 1)" "nj_unmarshal ex_json ''w0'' = Inr (ex_node 0)"
  by (simp_all add: ex_json_def)

lemma ex_json_ok: "node_json_ok ex_json"
  by (auto simp: node_json_ok_def ex_json_def)

definition mem_empty :: mem_store where
  "mem_empty = \<lparr>ms_log = [], ms_granted = 0, ms_revoked = []\<rparr>"

text \<open>The first attempt's \<open>Put\<close> is lost, the second succeeds, every \<open>Revoke\<close> arrives: only the second lease is alive.\<close>

theorem registry_register_witness:
  "\<exists>e'. Register mem_etcd countdown (Inr 1) ex_json [(ROk, RLost ''timeout'', ROk), (ROk, ROk, ROk)] (ex_node 1) mem_empty = Ret (Inr 2, e')
     \<and> map_option fst (ec_get mem_etcd (registry_key ''n1'') e') = Some ''w1'' \<and> (\<forall>i. ec_alive mem_etcd i e' \<longleftrightarrow> i = 2)"
proof -
  let ?r = "Register mem_etcd countdown (Inr 1) ex_json [(ROk, RLost ''timeout'', ROk), (ROk, ROk, ROk)] (ex_node 1) mem_empty"
  have r: "\<exists>e'. ?r = Ret (Inr 2, e')"
    by (simp add: Register_def etcd_Grant_def etcd_Put_def etcd_Revoke_def flatten_call_def refused_def remote_run_def mem_etcd_def
        mem_empty_def ms_alive_def)
  have na: "\<not> ec_alive mem_etcd i mem_empty" for i by (simp add: mem_etcd_def mem_empty_def ms_alive_def)
  note c = registry_register [OF mem_etcd_ok ex_json_simps(1) countdown_gives_up [of 1],
      where attempts = "[(ROk, RLost ''timeout'', ROk), (ROk, ROk, ROk)]" and e = mem_empty]
  from r obtain e1 where e1: "?r = Ret (Inr 2, e1)" by blast
  from c show ?thesis unfolding e1 by (auto simp: na)
qed

text \<open>In an outage \<open>Put\<close> and \<open>Revoke\<close> fail together: the registration fails, and its lease stays (until it expires); when only
  the reply of the \<open>Put\<close> was lost, the record of the node that was told it is not registered stays with it.\<close>

lemma register_outage:
  "\<exists>err e'. Register mem_etcd countdown (Inr 0) ex_json [(ROk, RLost ''timeout'', RRefused ''timeout'')] (ex_node 1) mem_empty = Ret (Inl err, e')
     \<and> ec_alive mem_etcd 1 e' \<and> map_option fst (ec_get mem_etcd (registry_key ''n1'') e') = Some ''w1''"
  by (simp add: Register_def etcd_Grant_def etcd_Put_def etcd_Revoke_def flatten_call_def refused_def remote_run_def mem_etcd_def
        mem_empty_def ms_alive_def ms_find_def)

subsection \<open>Listing the nodes\<close>

text \<open>A successful \<open>GetAvailableNodes\<close> returns exactly the nodes whose record under the prefix can be decoded, without
  the caller itself, whatever their weight; and each once when every record stands under the key of its own id.\<close>

theorem registry_available_nodes:
  assumes "etcd_ok C"
  shows "\<exists>ns. GetAvailableNodes C J ROk selfID e = Inr ns
     \<and> set ns = {n. nd_id n \<noteq> selfID \<and> (\<exists>k v r. is_prefix GatewayRegistryPrefix k \<and> ec_get C k e = Some (v, r) \<and> nj_unmarshal J v = Inr n)}
     \<and> ((\<forall>k v r n. ec_get C k e = Some (v, r) \<and> nj_unmarshal J v = Inr n \<longrightarrow> k = registry_key (nd_id n)) \<longrightarrow> distinct (map nd_id ns))"
proof -
  let ?kvs = "ec_list C GatewayRegistryPrefix e"
  let ?f = "\<lambda>(k, v). case nj_unmarshal J v of Inl err \<Rightarrow> [] | Inr n \<Rightarrow> if nd_id n \<noteq> selfID then [n] else []"
  have l: "(k, v) \<in> set ?kvs \<longleftrightarrow> is_prefix GatewayRegistryPrefix k \<and> (\<exists>r. ec_get C k e = Some (v, r))" for k v
  proof -
    have "(k, v) \<in> set ?kvs \<longleftrightarrow> map_of ?kvs k = Some v"
      using etcd_list [OF assms, of GatewayRegistryPrefix e] by (metis map_of_eq_Some_iff)
    also have "\<dots> \<longleftrightarrow> is_prefix GatewayRegistryPrefix k \<and> (\<exists>r. ec_get C k e = Some (v, r))"
      using etcd_list [OF assms, of GatewayRegistryPrefix e] by auto
    finally show ?thesis .
  qed
  have "set (concat (map ?f ?kvs)) = {n. nd_id n \<noteq> selfID \<and> (\<exists>k v r. is_prefix GatewayRegistryPrefix k \<and> ec_get C k e = Some (v, r) \<and> nj_unmarshal J v = Inr n)}"
  proof (intro subset_antisym subsetI)
    fix n assume "n \<in> {n. nd_id n \<noteq> selfID \<and> (\<exists>k v r. is_prefix GatewayRegistryPrefix k \<and> ec_get C k e = Some (v, r) \<and> nj_unmarshal J v = Inr n)}"
    then obtain k v where "(k, v) \<in> set ?kvs" "nj_unmarshal J v = Inr n" "nd_id n \<noteq> selfID" using l by blast
    then show "n \<in> set (concat (map ?f ?kvs))" by (force intro!: bexI [of _ "(k, v)"])
  qed (force simp: l split: sum.splits if_splits)
  moreover have "distinct (map nd_id (concat (map ?f kvs)))"
    if "distinct (map fst kvs)" and "set kvs \<subseteq> set ?kvs"
      and key: "\<forall>k v r n. ec_get C k e = Some (v, r) \<and> nj_unmarshal J v = Inr n \<longrightarrow> k = registry_key (nd_id n)" for kvs
    using that(1,2)
  proof (induction kvs)
    case (Cons kv kvs)
    obtain k v where kv: "kv = (k, v)" by (cases kv)
    have "k' = registry_key (nd_id n)" if "(k', v') \<in> set (kv # kvs)" "nj_unmarshal J v' = Inr n" for k' v' n
      using Cons.prems(2) key that l by blast
    then show ?case using Cons by (auto simp: kv split: sum.splits) (metis fst_conv image_eqI)+
  qed simp
  ultimately show ?thesis
    using etcd_list [OF assms, of GatewayRegistryPrefix e] by (simp add: GetAvailableNodes_def etcd_List_def)
qed

definition ex_registered :: "string \<Rightarrow> mem_store" where
  "ex_registered v = \<lparr>ms_log = [(registry_key ''n1'', Some (v, Some 1))], ms_granted = 1, ms_revoked = []\<rparr>"

lemma ex_registered_get [simp]:
  "ec_get mem_etcd k (ex_registered v) = (if k = registry_key ''n1'' then Some (v, 1) else None)"
  "ec_attached mem_etcd (registry_key ''n1'') (ex_registered v) = Some 1"
  by (simp_all add: mem_etcd_def ex_registered_def ms_find_def ms_alive_def)

lemma registry_key_prefix [simp]: "is_prefix GatewayRegistryPrefix (registry_key i)"
  by (simp add: is_prefix_def registry_key_def)

theorem registry_available_nodes_witness:
  "\<exists>ns. GetAvailableNodes mem_etcd ex_json ROk ''n2'' (ex_registered ''w0'') = Inr ns \<and> set ns = {ex_node 0} \<and> distinct (map nd_id ns)"
proof -
  have "{n. nd_id n \<noteq> ''n2'' \<and> (\<exists>k v r. is_prefix GatewayRegistryPrefix k \<and> ec_get mem_etcd k (ex_registered ''w0'') = Some (v, r)
       \<and> nj_unmarshal ex_json v = Inr n)} = {ex_node 0}"
    by (auto split: if_splits)
  then show ?thesis
    using registry_available_nodes [OF mem_etcd_ok, where selfID = "''n2''" and J = ex_json and e = "ex_registered ''w0''"]
    by (auto split: if_splits)
qed

subsection \<open>Keeping the lease alive\<close>

lemma keepalive_runs: "2 \<le> maxRetries \<Longrightarrow> keepalive_loop maxRetries 0 evs = (if KaDone \<in> set evs then Some None else None)"
  by (induction maxRetries "0 :: int" evs rule: keepalive_loop.induct) auto

lemma keepalive_one: "keepalive_loop 1 0 evs =
   (case dropWhile (\<lambda>ev. ev \<in> {KaResponse, KaNil, KaClosed None}) evs of
      [] \<Rightarrow> None | KaDone # _ \<Rightarrow> Some None | _ \<Rightarrow> Some (Some (Sen ErrRegistryMaxRetriesExceeded)))"
proof (induction evs)
  case (Cons ev evs)
  then show ?case
  proof (cases ev)
    case (KaClosed restart)
    then show ?thesis using Cons by (cases restart) simp_all
  qed simp_all
qed simp

lemma keepalive_none: "maxRetries \<le> 0 \<Longrightarrow> keepalive_loop maxRetries 0 evs =
   (case dropWhile (\<lambda>ev. ev \<in> {KaResponse, KaNil}) evs of
      [] \<Rightarrow> None | KaDone # _ \<Rightarrow> Some None | _ \<Rightarrow> Some (Some (Sen ErrRegistryMaxRetriesExceeded)))"
proof (induction evs)
  case (Cons ev evs)
  then show ?case by (cases ev) simp_all
qed simp

text \<open>C27. \<open>KeepAlive\<close> gives up only on the first failed start, or with \<open>maxRetries\<close> at most 1: since a restart resets the
  counter, with two retries or more no sequence of closed channels and failed restarts ever ends it; with one, the first
  failed restart does; and it returns nil exactly when it meets a context that is done.\<close>

theorem registry_keepalive:
  "KeepAlive maxRetries start evs =
     (case start of
        Some err \<Rightarrow> Some (Some err)
      | None \<Rightarrow>
          if 2 \<le> maxRetries then (if KaDone \<in> set evs then Some None else None)
          else (case dropWhile (\<lambda>ev. ev \<in> {KaResponse, KaNil} \<union> (if maxRetries = 1 then {KaClosed None} else {})) evs of
                  [] \<Rightarrow> None
                | KaDone # _ \<Rightarrow> Some None
                | _ \<Rightarrow> Some (Some (Sen ErrRegistryMaxRetriesExceeded))))"
  using keepalive_runs [of maxRetries evs] keepalive_one [of evs] keepalive_none [of maxRetries evs]
  by (cases start; cases "2 \<le> maxRetries"; cases "maxRetries = 1") (simp_all add: KeepAlive_def insert_commute)

subsection \<open>Deregistering\<close>

definition holds_node :: "'e etcd \<Rightarrow> node_json \<Rightarrow> string \<Rightarrow> (node \<Rightarrow> bool) \<Rightarrow> 'e \<Rightarrow> bool" where
  "holds_node C J nodeID P e \<longleftrightarrow> (\<exists>v r n. ec_get C (registry_key nodeID) e = Some (v, r) \<and> nj_unmarshal J v = Inr n \<and> nd_id n = nodeID \<and> P n)"

definition reg_init :: "'e etcd \<Rightarrow> node_json \<Rightarrow> int \<Rightarrow> string \<Rightarrow> 'e reg_sys \<Rightarrow> bool" where
  "reg_init C J leaseID nodeID s \<longleftrightarrow> holds_node C J nodeID (\<lambda>n. True) (rg_etcd s)
     \<and> ec_attached C (registry_key nodeID) (rg_etcd s) = Some leaseID
     \<and> rg_graceful s = GdGet \<and> rg_updater s = SuWait \<and> \<not> rg_cancelled s"

text \<open>The record is bound to the lease while the lease lives, and gone when it does not; what is about to be written, and what is
  stored, satisfies \<open>P\<close>.\<close>

definition reg_store :: "'e etcd \<Rightarrow> node_json \<Rightarrow> int \<Rightarrow> string \<Rightarrow> (node \<Rightarrow> bool) \<Rightarrow> 'e \<Rightarrow> bool" where
  "reg_store C J leaseID nodeID P e \<longleftrightarrow>
     (if ec_alive C leaseID e
      then holds_node C J nodeID P e \<and> ec_attached C (registry_key nodeID) e = Some leaseID
      else ec_get C (registry_key nodeID) e = None)"

definition reg_inv :: "'e etcd \<Rightarrow> node_json \<Rightarrow> int \<Rightarrow> string \<Rightarrow> (node \<Rightarrow> bool) \<Rightarrow> 'e reg_sys \<Rightarrow> bool" where
  "reg_inv C J leaseID nodeID P s \<longleftrightarrow> reg_store C J leaseID nodeID P (rg_etcd s)
     \<and> (\<forall>n. rg_graceful s = GdPut n \<longrightarrow> nd_id n = nodeID \<and> P n)
     \<and> (\<forall>n. rg_updater s = SuPut n \<longrightarrow> nd_id n = nodeID \<and> P n)
     \<and> (rg_graceful s = GdDone None \<longrightarrow> \<not> ec_alive C leaseID (rg_etcd s))"

lemma reg_store_put:
  assumes "etcd_ok C" and "node_json_ok J" and st: "reg_store C J leaseID nodeID P e" and n: "nd_id n = nodeID" "P n"
    and up: "UpdateNodeInfo C J c leaseID n e = (r, e')"
  shows "reg_store C J leaseID nodeID P e'" and "ec_alive C i e' = ec_alive C i e"
proof -
  have "reg_store C J leaseID nodeID P e' \<and> ec_alive C i e' = ec_alive C i e"
  proof (cases "e' = e")
    case False
    then obtain v where v: "nj_marshal J n = Inr v" and p: "ec_put C (registry_key nodeID) v (Some leaseID) e = Some e'"
      using up n etcd_Put_cases [of C c "registry_key nodeID" _ "Some leaseID" e]
      by (auto simp: UpdateNodeInfo_def split: sum.splits prod.splits option.splits)
    have d: "nj_unmarshal J v = Inr n" using v assms(2) by (simp add: node_json_ok_def)
    show ?thesis
      using etcd_put [OF assms(1) p] etcd_put_None [OF assms(1), of "registry_key nodeID" v "Some leaseID" e] p d n
      by (simp add: reg_store_def holds_node_def)
  qed (use st in simp)
  then show "reg_store C J leaseID nodeID P e'" "ec_alive C i e' = ec_alive C i e" by blast+
qed

lemma reg_store_revoke:
  assumes "etcd_ok C" and st: "reg_store C J leaseID nodeID P e" and r: "ec_revoke C leaseID e = Some e'"
  shows "reg_store C J leaseID nodeID P e'" and "\<not> ec_alive C leaseID e'"
proof -
  have "ec_alive C leaseID e" using etcd_revoke_None [OF assms(1), of leaseID e] r by simp
  then show "reg_store C J leaseID nodeID P e'" "\<not> ec_alive C leaseID e'"
    using st etcd_revoke [OF assms(1) r] by (simp_all add: reg_store_def)
qed

lemma reg_store_read:
  assumes st: "reg_store C J leaseID nodeID P e"
  shows "getNodeInfo C J c nodeID e = Inr n \<Longrightarrow> nd_id n = nodeID \<and> P n"
    and "getNodeInfo C J c nodeID e = Inl err \<Longrightarrow> errors_is err ErrNodeInfoNotExist \<Longrightarrow> \<not> ec_alive C leaseID e"
  using st by (cases c; auto simp: getNodeInfo_def reg_store_def holds_node_def etcd_Get_def remote_run_def
      split: sum.splits option.splits if_splits)+

lemma reg_inv_graceful:
  assumes ok: "etcd_ok C" "node_json_ok J" and i: "reg_inv C J leaseID nodeID P s"
    and w: "\<And>n. P n \<Longrightarrow> P (n\<lparr>nd_weight := 0\<rparr>)"
    and st: "GracefulDeregister C J leaseID nodeID c (rg_graceful s) (rg_etcd s, rg_cancelled s) = (pc, e, cn)"
  shows "reg_inv C J leaseID nodeID P (s\<lparr>rg_graceful := pc, rg_etcd := e, rg_cancelled := cn\<rparr>)"
proof (cases "rg_graceful s")
  case GdGet
  then show ?thesis using i st w reg_store_read [where C = C and J = J and leaseID = leaseID and nodeID = nodeID and P = P and e = "rg_etcd s" and c = c]
    by (auto simp: GracefulDeregister_def reg_inv_def split: sum.splits if_splits)
next
  case (GdPut n)
  obtain r e1 where u: "UpdateNodeInfo C J c leaseID n (rg_etcd s) = (r, e1)" by fastforce
  have "e = e1" "pc = GdWait \<or> (\<exists>err. pc = GdDone (Some err))" using st GdPut u by (auto simp: GracefulDeregister_def split: option.splits)
  then show ?thesis using i reg_store_put [OF ok _ _ _ u] GdPut by (auto simp: reg_inv_def)
next
  case GdRevoke
  obtain r e1 where u: "etcd_Revoke C c leaseID (rg_etcd s) = (r, e1)" by fastforce
  have e: "e = e1" and pc: "pc = GdDone None \<longleftrightarrow> r = None" "\<exists>r. pc = GdDone r"
    using st GdRevoke u by (auto simp: GracefulDeregister_def Deregister_def split: option.splits)
  from etcd_Revoke_cases [OF u] show ?thesis
    using i reg_store_revoke [OF ok(1), of J leaseID nodeID P "rg_etcd s" e1] pc GdRevoke
    by (auto simp: reg_inv_def e)
qed (use i st in \<open>auto simp: GracefulDeregister_def reg_inv_def\<close>)

lemma reg_inv_updater:
  assumes ok: "etcd_ok C" "node_json_ok J" and i: "reg_inv C J leaseID nodeID P s"
    and u: "\<And>n. P n \<Longrightarrow> P (snd (updateFunc n)) \<and> nd_id (snd (updateFunc n)) = nd_id n"
    and st: "StartNodeStateUpdater C J updateFunc leaseID nodeID stop c (rg_updater s) (rg_etcd s) = (pc, e)"
  shows "reg_inv C J leaseID nodeID P (s\<lparr>rg_updater := pc, rg_etcd := e\<rparr>)"
proof (cases "rg_updater s")
  case SuWait
  then show ?thesis using i st u reg_store_read(1) [where C = C and J = J and leaseID = leaseID and nodeID = nodeID and P = P and e = "rg_etcd s" and c = c]
    by (auto simp: StartNodeStateUpdater_def reg_inv_def split: sum.splits if_splits prod.splits) (metis snd_conv)+
next
  case (SuPut n)
  obtain r e1 where v: "UpdateNodeInfo C J c leaseID n (rg_etcd s) = (r, e1)" by fastforce
  have "e = e1" "pc = SuWait" using st SuPut v by (auto simp: StartNodeStateUpdater_def)
  then show ?thesis using i reg_store_put [OF ok _ _ _ v] SuPut by (auto simp: reg_inv_def)
qed (use i st in \<open>auto simp: StartNodeStateUpdater_def reg_inv_def\<close>)

lemma reg_inv_step:
  assumes ok: "etcd_ok C" "node_json_ok J" and "\<And>n. P n \<Longrightarrow> P (n\<lparr>nd_weight := 0\<rparr>)"
    and "\<And>n. P n \<Longrightarrow> P (snd (updateFunc n)) \<and> nd_id (snd (updateFunc n)) = nd_id n"
    and "reg_step C J updateFunc leaseID nodeID s s'" and i: "reg_inv C J leaseID nodeID P s"
  shows "reg_inv C J leaseID nodeID P s'"
  using assms(5)
proof cases
  case (reg_graceful c pc e cn)
  then show ?thesis using reg_inv_graceful [OF ok i assms(3)] by blast
next
  case (reg_updater stop c pc e)
  then show ?thesis using reg_inv_updater [OF ok i assms(4)] by blast
next
  case (reg_expire e)
  then show ?thesis using i reg_store_revoke [OF ok(1)] by (auto simp: reg_inv_def)
next
  case (reg_others e)
  then show ?thesis using i unfolding reg_inv_def reg_store_def holds_node_def by auto
qed

lemma reg_reach_inv:
  assumes "etcd_ok C" and "node_json_ok J" and "\<forall>n. nd_id (snd (updateFunc n)) = nd_id n"
    and "reach (reg_init C J leaseID nodeID) (reg_step C J updateFunc leaseID nodeID) s"
  shows "reg_inv C J leaseID nodeID (\<lambda>n. True) s"
  using assms(4)
proof (induction rule: reach.induct)
  case (reach_init s)
  then show ?case using etcd_attached [OF assms(1), of "registry_key nodeID" "rg_etcd s" leaseID]
    by (auto simp: reg_init_def reg_inv_def reg_store_def)
next
  case (reach_step s t)
  show ?case by (rule reg_inv_step [OF assms(1,2) _ _ reach_step(2,3)]) (simp_all add: assms(3))
qed

text \<open>C26. Once \<open>GracefulDeregister\<close> has returned nil the node's record is gone from etcd for good: an update of the state
  updater that was under way, or comes later, cannot bring it back, since the lease it writes with is dead.\<close>

theorem registry_stays_gone:
  assumes "etcd_ok C" and "node_json_ok J" and "\<forall>n. nd_id (snd (updateFunc n)) = nd_id n"
    and "reach (reg_init C J leaseID nodeID) (reg_step C J updateFunc leaseID nodeID) s" and "rg_graceful s = GdDone None"
    and "(reg_step C J updateFunc leaseID nodeID)\<^sup>*\<^sup>* s s'"
  shows "ec_get C (registry_key nodeID) (rg_etcd s') = None \<and> rg_graceful s' = GdDone None"
proof -
  have "reg_inv C J leaseID nodeID (\<lambda>n. True) s' \<and> rg_graceful s' = GdDone None" using assms(6)
  proof (induction rule: rtranclp_induct)
    case base
    then show ?case using reg_reach_inv [OF assms(1-4)] assms(5) by simp
  next
    case (step s' s'')
    have "reg_inv C J leaseID nodeID (\<lambda>n. True) s''"
      by (rule reg_inv_step [OF assms(1,2) _ _ step(2)]) (use step.IH assms(3) in simp_all)
    moreover have "rg_graceful s'' = GdDone None"
      using step(2,3) by (cases rule: reg_step.cases) (auto simp: GracefulDeregister_def)
    ultimately show ?case by simp
  qed
  then show ?thesis by (simp add: reg_inv_def reg_store_def)
qed

text \<open>While the node drains its weight stays 0 until its record is gone, if no update of the state updater was under way
  when it was lowered and the update function only touches other fields.\<close>

theorem registry_drains:
  assumes "etcd_ok C" and "node_json_ok J" and u: "\<forall>n. nd_id (snd (updateFunc n)) = nd_id n \<and> nd_weight (snd (updateFunc n)) = nd_weight n"
    and r: "reach (reg_init C J leaseID nodeID) (reg_step C J updateFunc leaseID nodeID) s"
    and w: "rg_graceful s = GdWait" "holds_node C J nodeID (\<lambda>n. nd_weight n = 0) (rg_etcd s)" and idle: "rg_updater s = SuWait"
    and "(reg_step C J updateFunc leaseID nodeID)\<^sup>*\<^sup>* s s'"
  shows "ec_get C (registry_key nodeID) (rg_etcd s') = None \<or> holds_node C J nodeID (\<lambda>n. nd_weight n = 0) (rg_etcd s')"
proof -
  have "reg_inv C J leaseID nodeID (\<lambda>n. True) s" using reg_reach_inv [OF assms(1,2) _ r] u by blast
  then have "reg_inv C J leaseID nodeID (\<lambda>n. nd_weight n = 0) s"
    using w idle by (auto simp: reg_inv_def reg_store_def holds_node_def split: if_splits)
  with assms(8) have "reg_inv C J leaseID nodeID (\<lambda>n. nd_weight n = 0) s'"
  proof (induction rule: rtranclp_induct)
    case (step s' s'')
    show ?case by (rule reg_inv_step [OF assms(1,2) _ _ step(2)]) (use step u in simp_all)
  qed simp
  then show ?thesis by (auto simp: reg_inv_def reg_store_def split: if_splits)
qed

text \<open>A run on the instance: the updater reads the record, the shutdown lowers the weight, and the updater writes back what
  it read, so the weight is up again during the wait; from there the shutdown goes on to revoke the lease.\<close>

definition ex_reg :: "graceful_pc \<Rightarrow> updater_pc \<Rightarrow> mem_store \<Rightarrow> bool \<Rightarrow> mem_store reg_sys" where
  "ex_reg g u e c = \<lparr>rg_etcd = e, rg_graceful = g, rg_updater = u, rg_cancelled = c\<rparr>"

definition ex_puts :: "string list \<Rightarrow> int list \<Rightarrow> mem_store" where
  "ex_puts vs revoked = \<lparr>ms_log = map (\<lambda>v. (registry_key ''n1'', Some (v, Some 1))) vs, ms_granted = 1, ms_revoked = revoked\<rparr>"

lemma ex_puts_simps [simp]:
  "ec_get mem_etcd (registry_key ''n1'') (ex_puts (v # vs) []) = Some (v, int (Suc (length vs)))"
  "ec_get mem_etcd (registry_key ''n1'') (ex_puts vs [1]) = None"
  "ec_attached mem_etcd (registry_key ''n1'') (ex_puts (v # vs) []) = Some 1"
  "ec_put mem_etcd (registry_key ''n1'') w (Some 1) (ex_puts vs []) = Some (ex_puts (w # vs) [])"
  "ec_revoke mem_etcd 1 (ex_puts vs []) = Some (ex_puts vs [1])"
  by (cases vs; simp add: mem_etcd_def ex_puts_def ms_find_def ms_alive_def)+

lemma ex_info [simp]: "getNodeInfo mem_etcd ex_json ROk ''n1'' (ex_puts (v # vs) []) =
   (case nj_unmarshal ex_json v of Inl err \<Rightarrow> Inl (WrapE [err]) | Inr n \<Rightarrow> Inr n)"
  by (simp add: getNodeInfo_def etcd_Get_def)

lemma ex_update [simp]:
  "UpdateNodeInfo mem_etcd ex_json ROk 1 (ex_node 0) (ex_puts vs []) = (None, ex_puts (''w0'' # vs) [])"
  "UpdateNodeInfo mem_etcd ex_json ROk 1 (ex_node 1) (ex_puts vs []) = (None, ex_puts (''w1'' # vs) [])"
  by (simp_all add: UpdateNodeInfo_def etcd_Put_def flatten_call_def refused_def)

lemma ex_reg_init: "reg_init mem_etcd ex_json 1 ''n1'' (ex_reg GdGet SuWait (ex_puts [''w1''] []) False)"
  by (simp add: reg_init_def ex_reg_def holds_node_def)

abbreviation ex_reg_step :: "mem_store reg_sys \<Rightarrow> mem_store reg_sys \<Rightarrow> bool" where
  "ex_reg_step \<equiv> reg_step mem_etcd ex_json (\<lambda>n. (True, n)) 1 ''n1''"

abbreviation ex_reg_reach :: "mem_store reg_sys \<Rightarrow> bool" where
  "ex_reg_reach \<equiv> reach (reg_init mem_etcd ex_json 1 ''n1'') ex_reg_step"

lemma ex_reg_start: "ex_reg_reach (ex_reg GdGet SuWait (ex_puts [''w1''] []) False)"
  by (rule reach_init) (rule ex_reg_init)

lemma ex_graceful_step:
  "GracefulDeregister mem_etcd ex_json 1 ''n1'' ROk g (e, c) = (g', e', c') \<Longrightarrow> ex_reg_step (ex_reg g u e c) (ex_reg g' u e' c')"
  using reg_graceful [where C = mem_etcd and J = ex_json and s = "ex_reg g u e c" and leaseID = 1 and nodeID = "''n1''" and c = ROk and updateFunc = "\<lambda>n. (True, n)"]
  by (simp add: ex_reg_def)

lemma ex_updater_step:
  "StartNodeStateUpdater mem_etcd ex_json (\<lambda>n. (True, n)) 1 ''n1'' False ROk u e = (u', e') \<Longrightarrow> ex_reg_step (ex_reg g u e c) (ex_reg g u' e' c)"
  using reg_updater [where C = mem_etcd and J = ex_json and s = "ex_reg g u e c" and leaseID = 1 and nodeID = "''n1''" and c = ROk and stop = False and updateFunc = "\<lambda>n. (True, n)"]
  by (simp add: ex_reg_def)

lemma ex_reach_graceful:
  "ex_reg_reach (ex_reg g u e c) \<Longrightarrow> GracefulDeregister mem_etcd ex_json 1 ''n1'' ROk g (e, c) = (g', e', c') \<Longrightarrow> ex_reg_reach (ex_reg g' u e' c')"
  by (erule reach_step) (rule ex_graceful_step)

lemma ex_reach_updater:
  "ex_reg_reach (ex_reg g u e c) \<Longrightarrow> StartNodeStateUpdater mem_etcd ex_json (\<lambda>n. (True, n)) 1 ''n1'' False ROk u e = (u', e')
     \<Longrightarrow> ex_reg_reach (ex_reg g u' e' c)"
  by (erule reach_step) (rule ex_updater_step)

lemma ex_drain: "ex_reg_reach (ex_reg GdWait SuWait (ex_puts [''w0'', ''w1''] []) False)"
proof -
  have "ex_reg_reach (ex_reg (GdPut (ex_node 0)) SuWait (ex_puts [''w1''] []) False)"
    by (rule ex_reach_graceful [OF ex_reg_start]) (simp add: GracefulDeregister_def)
  then show ?thesis by (rule ex_reach_graceful) (simp add: GracefulDeregister_def)
qed

lemma ex_drained: "ex_reg_step\<^sup>*\<^sup>* (ex_reg GdWait SuWait (ex_puts vs []) False) (ex_reg (GdDone None) SuWait (ex_puts vs [1]) True)"
proof -
  have "ex_reg_step (ex_reg GdWait SuWait (ex_puts vs []) False) (ex_reg GdRevoke SuWait (ex_puts vs []) False)"
    by (rule ex_graceful_step) (simp add: GracefulDeregister_def)
  moreover have "ex_reg_step (ex_reg GdRevoke SuWait (ex_puts vs []) False) (ex_reg (GdDone None) SuWait (ex_puts vs [1]) True)"
    by (rule ex_graceful_step) (simp add: GracefulDeregister_def Deregister_def etcd_Revoke_def flatten_call_def refused_def)
  ultimately show ?thesis by (blast intro: converse_rtranclp_into_rtranclp)
qed

lemma registry_weight_restored:
  "\<exists>s. ex_reg_reach s \<and> rg_graceful s = GdWait \<and> rg_updater s = SuWait \<and> holds_node mem_etcd ex_json ''n1'' (\<lambda>n. nd_weight n = 1) (rg_etcd s)"
proof -
  have "ex_reg_reach (ex_reg GdGet (SuPut (ex_node 1)) (ex_puts [''w1''] []) False)"
    by (rule ex_reach_updater [OF ex_reg_start]) (simp add: StartNodeStateUpdater_def)
  then have "ex_reg_reach (ex_reg (GdPut (ex_node 0)) (SuPut (ex_node 1)) (ex_puts [''w1''] []) False)"
    by (rule ex_reach_graceful) (simp add: GracefulDeregister_def)
  then have "ex_reg_reach (ex_reg GdWait (SuPut (ex_node 1)) (ex_puts [''w0'', ''w1''] []) False)"
    by (rule ex_reach_graceful) (simp add: GracefulDeregister_def)
  then have "ex_reg_reach (ex_reg GdWait SuWait (ex_puts [''w1'', ''w0'', ''w1''] []) False)"
    by (rule ex_reach_updater) (simp add: StartNodeStateUpdater_def)
  moreover have "holds_node mem_etcd ex_json ''n1'' (\<lambda>n. nd_weight n = 1) (ex_puts [''w1'', ''w0'', ''w1''] [])"
    by (simp add: holds_node_def)
  ultimately show ?thesis by (intro exI [of _ "ex_reg GdWait SuWait (ex_puts [''w1'', ''w0'', ''w1''] []) False"]) (simp add: ex_reg_def)
qed

theorem registry_drains_witness:
  "ec_get mem_etcd (registry_key ''n1'') (ex_puts [''w0'', ''w1''] []) = None
   \<or> holds_node mem_etcd ex_json ''n1'' (\<lambda>n. nd_weight n = 0) (ex_puts [''w0'', ''w1''] [])"
proof -
  have h: "holds_node mem_etcd ex_json ''n1'' (\<lambda>n. nd_weight n = 0) (ex_puts [''w0'', ''w1''] [])" by (simp add: holds_node_def)
  show ?thesis
    using registry_drains [OF mem_etcd_ok ex_json_ok _ ex_drain _ _ _ rtranclp.rtrancl_refl] h by (simp add: ex_reg_def)
qed

theorem registry_stays_gone_witness:
  "ec_get mem_etcd (registry_key ''n1'') (ex_puts [''w0'', ''w1''] [1]) = None"
proof -
  have "ex_reg_reach t" if "ex_reg_step\<^sup>*\<^sup>* s t" "ex_reg_reach s" for s t
    using that by (induction rule: rtranclp_induct) (auto intro: reach_step)
  from this [OF ex_drained ex_drain] show ?thesis
    using registry_stays_gone [OF mem_etcd_ok ex_json_ok _ _ _ rtranclp.rtrancl_refl,
        where updateFunc = "\<lambda>n. (True, n)" and s = "ex_reg (GdDone None) SuWait (ex_puts [''w0'', ''w1''] [1]) True" and leaseID = 1 and nodeID = "''n1''"]
    by (simp add: ex_reg_def)
qed

end
