(* ===== verification/GW_Capacity.thy ===== *)
theory GW_Capacity
  imports GW_Float GW_Types
begin

text \<open>
  The capacity-aware picker of \<open>pkg/grpc/balancer/capacity\<close>, which versions 1 and 2 share: attributes of an address
  (\<open>pkg/grpc/resolver.go\<close> fills them in), the wrapped connections with their growing capacity, \<open>Pick\<close>, and
  \<open>increaseCapacity\<close> with its compare-and-swap. Wrapped connections are objects of a heap, since pickers and their builder
  share them.
\<close>

datatype attr_value = AInt int | AFloat f64 | AStr string

record resolver_address =
  ra_Addr :: string
  ra_ServerName :: string
  ra_Attributes :: "string \<Rightarrow> attr_value option"

definition attrInitCap :: string where "attrInitCap = ''initCapacity''"
definition attrMaxCap :: string where "attrMaxCap = ''maxCapacity''"
definition attrStep :: string where "attrStep = ''increaseStep''"
definition attrRate :: string where "attrRate = ''growthRate''"
definition attrNodeID :: string where "attrNodeID = ''nodeID''"

text \<open>The three instances of \<open>attrAs\<close>: the default unless the attribute is present with the type asked for.\<close>

definition attrAs_int :: "resolver_address \<Rightarrow> string \<Rightarrow> int \<Rightarrow> int" where
  "attrAs_int ra key def = (case ra_Attributes ra key of Some (AInt v) \<Rightarrow> v | _ \<Rightarrow> def)"

definition attrAs_float :: "resolver_address \<Rightarrow> string \<Rightarrow> f64 \<Rightarrow> f64" where
  "attrAs_float ra key def = (case ra_Attributes ra key of Some (AFloat v) \<Rightarrow> v | _ \<Rightarrow> def)"

definition attrAs_string :: "resolver_address \<Rightarrow> string \<Rightarrow> string \<Rightarrow> string" where
  "attrAs_string ra key def = (case ra_Attributes ra key of Some (AStr v) \<Rightarrow> v | _ \<Rightarrow> def)"

definition defaultGrowthRate :: f64 where "defaultGrowthRate = f64_round (1 / 10)"
definition defaultInitCapacity :: int where "defaultInitCapacity = 10"
definition defaultMaxCapacity :: int where "defaultMaxCapacity = 100"
definition maxRetryMultiplier :: nat where "maxRetryMultiplier = 2"

text \<open>\<open>subConn\<close>; gRPC's own connection is a number.\<close>

record sub_conn =
  sc_SubConn :: nat
  sc_addr :: resolver_address
  sc_id :: string
  sc_curCapacity :: int
  sc_maxCapacity :: int
  sc_increaseStep :: int
  sc_growthRate :: f64

record picker =
  pk_conns :: "nat list"
  pk_index :: int
  pk_length :: int

subsection \<open>Pick\<close>

text \<open>Go's \<open>%\<close> has the sign of the dividend; an index out of range panics (\<open>None\<close>).\<close>

definition go_mod :: "int \<Rightarrow> int \<Rightarrow> int" where
  "go_mod a b = (if b = 0 then a else sgn a * (\<bar>a\<bar> mod \<bar>b\<bar>))"

definition pick_conn :: "picker \<Rightarrow> int \<Rightarrow> nat option" where
  "pick_conn p idx =
     (let i = go_mod idx (pk_length p)
      in if 0 \<le> i \<and> i < int (length (pk_conns p)) then Some (pk_conns p ! nat i) else None)"

text \<open>The loop of \<open>Pick\<close>, from \<open>attempts\<close> with \<open>n\<close> attempts left: the connection selected, or none. \<open>rnd\<close> is what
  \<open>rand.Int\<close> returns in an attempt (\<open>None\<close>: its error).\<close>

fun pick_loop :: "(nat \<Rightarrow> int \<Rightarrow> int option) \<Rightarrow> sub_conn list \<Rightarrow> nat \<Rightarrow> nat \<Rightarrow> picker \<Rightarrow> (nat option \<times> picker) exec" where
  "pick_loop rnd h attempts 0 p = Ret (None, p)"
| "pick_loop rnd h attempts (Suc n) p =
     (let idx = i64 (pk_index p + 1); p' = p\<lparr>pk_index := idx\<rparr>
      in case pick_conn p' idx of
           None \<Rightarrow> Panic
         | Some conn \<Rightarrow>
             if sc_curCapacity (h ! conn) = sc_maxCapacity (h ! conn) then Ret (Some conn, p')
             else if 0 < sc_maxCapacity (h ! conn)
               \<and> (case rnd attempts (sc_maxCapacity (h ! conn)) of Some r \<Rightarrow> r < sc_curCapacity (h ! conn) | None \<Rightarrow> False)
             then Ret (Some conn, p')
             else pick_loop rnd h (Suc attempts) n p')"

definition Pick :: "(nat \<Rightarrow> int \<Rightarrow> int option) \<Rightarrow> sub_conn list \<Rightarrow> picker \<Rightarrow> ((gerr + nat) \<times> picker) exec" where
  "Pick rnd h p =
     (if length (pk_conns p) = 0 then Ret (Inl (Sen ErrNoSubConnAvailable), p)
      else exec_bind (pick_loop rnd h 0 (length (pk_conns p) * maxRetryMultiplier) p)
        (\<lambda>(selected, p). case selected of
             Some conn \<Rightarrow> Ret (Inr conn, p)
           | None \<Rightarrow> (let idx = i64 (pk_index p + 1); p' = p\<lparr>pk_index := idx\<rparr>
                     in case pick_conn p' idx of None \<Rightarrow> Panic | Some conn \<Rightarrow> Ret (Inr conn, p'))))"

subsection \<open>Growing a capacity\<close>

text \<open>A call of \<open>increaseCapacity\<close>: before loading the current capacity, before loading the maximum, before its
  compare-and-swap, returned. One step does one atomic operation.\<close>

datatype inc_pc = IcLoad | IcMax int | IcCas int int | IcDone

definition increaseCapacity :: "(f64 \<Rightarrow> int) \<Rightarrow> inc_pc \<Rightarrow> sub_conn \<Rightarrow> inc_pc \<times> sub_conn" where
  "increaseCapacity unspec pc c =
     (case pc of
        IcLoad \<Rightarrow> (IcMax (sc_curCapacity c), c)
      | IcMax oldCap \<Rightarrow>
          let maxCap = sc_maxCapacity c
          in if oldCap \<ge> maxCap then (IcDone, c)
             else let delta = max (sc_increaseStep c) (f64_to_int64 unspec (f64_mul (f64_of_int oldCap) (sc_growthRate c)));
                      newCap = min (i64 (oldCap + delta)) maxCap
                  in (IcCas oldCap newCap, c)
      | IcCas oldCap newCap \<Rightarrow>
          if sc_curCapacity c = oldCap then (IcDone, c\<lparr>sc_curCapacity := newCap\<rparr>) else (IcLoad, c)
      | IcDone \<Rightarrow> (IcDone, c))"

subsection \<open>What Pick returns\<close>

definition picker_ok :: "picker \<Rightarrow> bool" where
  "picker_ok p \<longleftrightarrow> pk_length p = int (length (pk_conns p)) \<and> - 1 \<le> pk_index p"

lemma pick_conn_ok:
  assumes "picker_ok p" and "pk_conns p \<noteq> []" and "0 \<le> idx"
  shows "pick_conn p idx = Some (pk_conns p ! (nat idx mod length (pk_conns p)))"
proof -
  have "go_mod idx (pk_length p) = int (nat idx mod length (pk_conns p))"
    using assms by (cases "idx = 0") (simp_all add: go_mod_def picker_ok_def zmod_int)
  then show ?thesis using assms(2) by (simp add: pick_conn_def)
qed

text \<open>Selected without falling back: at full capacity, or by a draw below its capacity.\<close>

definition pick_wins :: "(nat \<Rightarrow> int \<Rightarrow> int option) \<Rightarrow> sub_conn \<Rightarrow> bool" where
  "pick_wins rnd c \<longleftrightarrow> sc_curCapacity c = sc_maxCapacity c
     \<or> 0 < sc_maxCapacity c \<and> (\<exists>a r. rnd a (sc_maxCapacity c) = Some r \<and> r < sc_curCapacity c)"

lemma pick_loop_returns:
  assumes "picker_ok p" and "pk_conns p \<noteq> []" and "pk_index p + int n < 2 ^ 63"
  shows "\<exists>sel i. pick_loop rnd h a n p = Ret (sel, p\<lparr>pk_index := i\<rparr>) \<and> pk_index p \<le> i \<and> i \<le> pk_index p + int n
     \<and> (\<forall>c. sel = Some c \<longrightarrow> pk_index p < i \<and> c = pk_conns p ! (nat i mod length (pk_conns p)) \<and> pick_wins rnd (h ! c))"
  using assms
proof (induction n arbitrary: a p)
  case 0
  then show ?case by (intro exI [of _ None] exI [of _ "pk_index p"]) simp
next
  case (Suc n)
  let ?i = "pk_index p + 1" and ?p = "p\<lparr>pk_index := pk_index p + 1\<rparr>"
  let ?c = "pk_conns p ! (nat ?i mod length (pk_conns p))"
  have i: "i64 ?i = ?i" using Suc.prems by (intro i64_nonneg) (auto simp: picker_ok_def)
  have ok: "picker_ok ?p" "0 \<le> ?i" using Suc.prems by (auto simp: picker_ok_def)
  note pc = pick_conn_ok [OF ok(1) _ ok(2)]
  have "\<exists>sel i. pick_loop rnd h (Suc a) n ?p = Ret (sel, ?p\<lparr>pk_index := i\<rparr>) \<and> pk_index ?p \<le> i \<and> i \<le> pk_index ?p + int n
     \<and> (\<forall>c. sel = Some c \<longrightarrow> pk_index ?p < i \<and> c = pk_conns ?p ! (nat i mod length (pk_conns ?p)) \<and> pick_wins rnd (h ! c))"
    using Suc.prems ok by (intro Suc.IH) simp_all
  then obtain sel j where IH: "pick_loop rnd h (Suc a) n ?p = Ret (sel, p\<lparr>pk_index := j\<rparr>)" "?i \<le> j" "j \<le> ?i + int n"
    "\<forall>c. sel = Some c \<longrightarrow> ?i < j \<and> c = pk_conns p ! (nat j mod length (pk_conns p)) \<and> pick_wins rnd (h ! c)" by auto
  let ?w = "sc_curCapacity (h ! ?c) = sc_maxCapacity (h ! ?c) \<or> 0 < sc_maxCapacity (h ! ?c)
      \<and> (case rnd a (sc_maxCapacity (h ! ?c)) of Some r \<Rightarrow> r < sc_curCapacity (h ! ?c) | None \<Rightarrow> False)"
  have eq: "pick_loop rnd h a (Suc n) p = (if ?w then Ret (Some ?c, ?p) else pick_loop rnd h (Suc a) n ?p)"
    using Suc.prems pc by (cases ?w) (auto simp: i Let_def split: option.splits)
  show ?case
  proof (cases ?w)
    case True
    then have "pick_wins rnd (h ! ?c)" by (auto simp: pick_wins_def split: option.splits)
    then show ?thesis unfolding eq if_P [OF True] by (intro exI [of _ "Some ?c"] exI [of _ ?i]) simp
  next
    case False
    show ?thesis by (rule exI [of _ sel], rule exI [of _ j]) (unfold eq if_not_P [OF False], use IH in auto)
  qed
qed

text \<open>\<open>Pick\<close> refuses only without connections; otherwise it always selects a connection of the picker, the one at the
  index it advanced to, after at most two rounds and one more step, and does not touch the capacities; it panics only once
  the counter has wrapped around.\<close>

theorem pick_selects:
  assumes "picker_ok p" and "pk_index p + 2 * pk_length p + 1 < 2 ^ 63"
  shows "if pk_conns p = [] then Pick rnd h p = Ret (Inl (Sen ErrNoSubConnAvailable), p)
     else \<exists>i. Pick rnd h p = Ret (Inr (pk_conns p ! (nat i mod length (pk_conns p))), p\<lparr>pk_index := i\<rparr>)
        \<and> pk_index p < i \<and> i \<le> pk_index p + 2 * pk_length p + 1"
proof (cases "pk_conns p = []")
  case False
  let ?n = "length (pk_conns p) * maxRetryMultiplier"
  have n: "int ?n = 2 * pk_length p" using assms by (simp add: picker_ok_def maxRetryMultiplier_def)
  obtain sel j where l: "pick_loop rnd h 0 ?n p = Ret (sel, p\<lparr>pk_index := j\<rparr>)" "pk_index p \<le> j" "j \<le> pk_index p + int ?n"
    "\<forall>c. sel = Some c \<longrightarrow> pk_index p < j \<and> c = pk_conns p ! (nat j mod length (pk_conns p)) \<and> pick_wins rnd (h ! c)"
    using pick_loop_returns [OF assms(1) False, of ?n rnd h 0] assms(2) n by auto
  show ?thesis
  proof (cases sel)
    case None
    have "j \<le> pk_index p + 2 * pk_length p" "0 \<le> j + 1" using l(2,3) n assms(1) by (simp_all add: picker_ok_def)
    then have "i64 (j + 1) = j + 1" using assms(2) by (intro i64_nonneg) linarith+
    moreover have "pick_conn (p\<lparr>pk_index := j + 1\<rparr>) (j + 1) = Some (pk_conns p ! (nat (j + 1) mod length (pk_conns p)))"
      using pick_conn_ok [of "p\<lparr>pk_index := j + 1\<rparr>" "j + 1"] assms(1) False l(2) by (simp add: picker_ok_def)
    ultimately show ?thesis using l n None False by (simp add: Pick_def Let_def) (intro exI [of _ "j + 1"], simp)
  next
    case (Some c)
    then show ?thesis using l n False by (auto simp: Pick_def)
  qed
qed (simp add: Pick_def)

text \<open>A draw is not needed when every connection is at full capacity.\<close>

lemma pick_full:
  assumes "picker_ok p" and "pk_conns p \<noteq> []" and "pk_index p < 2 ^ 63 - 1"
    and full: "\<forall>c \<in> set (pk_conns p). sc_curCapacity (h ! c) = sc_maxCapacity (h ! c)"
  shows "Pick rnd h p = Ret (Inr (pk_conns p ! (nat (pk_index p + 1) mod length (pk_conns p))), p\<lparr>pk_index := pk_index p + 1\<rparr>)"
proof -
  let ?i = "pk_index p + 1" and ?c = "pk_conns p ! (nat (pk_index p + 1) mod length (pk_conns p))"
  have i: "i64 ?i = ?i" using assms by (intro i64_nonneg) (auto simp: picker_ok_def)
  obtain m where m: "length (pk_conns p) * maxRetryMultiplier = Suc m"
    using assms(2) by (cases "length (pk_conns p) * maxRetryMultiplier") (auto simp: maxRetryMultiplier_def)
  have "?c \<in> set (pk_conns p)" using assms(2) by (intro nth_mem) simp
  with full have "sc_curCapacity (h ! ?c) = sc_maxCapacity (h ! ?c)" by blast
  then show ?thesis
    using pick_conn_ok [of "p\<lparr>pk_index := ?i\<rparr>" ?i] assms by (simp add: Pick_def m i picker_ok_def Let_def)
qed

fun pick_seq :: "(nat \<Rightarrow> int \<Rightarrow> int option) \<Rightarrow> sub_conn list \<Rightarrow> nat \<Rightarrow> picker \<Rightarrow> (gerr + nat) list exec" where
  "pick_seq rnd h 0 p = Ret []"
| "pick_seq rnd h (Suc n) p = exec_bind (Pick rnd h p) (\<lambda>(r, p). exec_bind (pick_seq rnd h n p) (\<lambda>rs. Ret (r # rs)))"

lemma pick_seq_full:
  assumes "picker_ok p" and "pk_conns p \<noteq> []" and "pk_index p + int n < 2 ^ 63"
    and "\<forall>c \<in> set (pk_conns p). sc_curCapacity (h ! c) = sc_maxCapacity (h ! c)"
  shows "pick_seq rnd h n p = Ret (map (\<lambda>k. Inr (pk_conns p ! ((nat (pk_index p + 1) + k) mod length (pk_conns p)))) [0..<n])"
  using assms
proof (induction n arbitrary: p)
  case (Suc n)
  let ?p = "p\<lparr>pk_index := pk_index p + 1\<rparr>"
  have ok: "picker_ok ?p" using Suc.prems(1) by (simp add: picker_ok_def)
  have e: "nat (2 + pk_index p) = Suc (nat (pk_index p + 1))" using Suc.prems(1) by (simp add: picker_ok_def) linarith
  have IH: "pick_seq rnd h n ?p = Ret (map (\<lambda>k. Inr (pk_conns p ! (Suc (nat (pk_index p + 1) + k) mod length (pk_conns p)))) [0..<n])"
    using Suc.IH [of ?p] Suc.prems ok by (simp add: e)
  have pk: "Pick rnd h p = Ret (Inr (pk_conns p ! (nat (pk_index p + 1) mod length (pk_conns p))), ?p)"
    using Suc.prems by (intro pick_full) auto
  show ?case by (simp add: pk IH map_upt_Suc del: upt_Suc)
qed simp

text \<open>With every connection at full capacity the picker is a round robin: as many picks as it has connections select each
  of them once, in order, from the one after the last, whatever the random source does.\<close>

theorem pick_round_robin:
  assumes "picker_ok p" and "pk_conns p \<noteq> []" and "pk_index p + pk_length p < 2 ^ 63"
    and "\<forall>c \<in> set (pk_conns p). sc_curCapacity (h ! c) = sc_maxCapacity (h ! c)"
  shows "pick_seq rnd h (length (pk_conns p)) p = Ret (map Inr (rotate (nat (pk_index p + 1)) (pk_conns p)))"
proof -
  have "map (\<lambda>k. pk_conns p ! ((nat (pk_index p + 1) + k) mod length (pk_conns p))) [0..<length (pk_conns p)]
      = rotate (nat (pk_index p + 1)) (pk_conns p)"
    by (rule nth_equalityI) (simp_all add: nth_rotate)
  moreover have "(Inr :: nat \<Rightarrow> gerr + nat) \<circ> (\<lambda>k. pk_conns p ! ((nat (pk_index p + 1) + k) mod length (pk_conns p)))
      = (\<lambda>k. Inr (pk_conns p ! ((nat (pk_index p + 1) + k) mod length (pk_conns p))))" by (simp add: fun_eq_iff)
  ultimately show ?thesis
    using pick_seq_full [OF assms(1,2) _ assms(4), of "length (pk_conns p)" rnd] assms(1,3)
    by (simp add: picker_ok_def) (metis map_map)
qed

definition ex_sub :: "nat \<Rightarrow> int \<Rightarrow> sub_conn" where
  "ex_sub i cur = \<lparr>sc_SubConn = i, sc_addr = \<lparr>ra_Addr = ''a'', ra_ServerName = ''im'', ra_Attributes = Map.empty\<rparr>, sc_id = ''im-1'',
     sc_curCapacity = cur, sc_maxCapacity = 100, sc_increaseStep = 0, sc_growthRate = defaultGrowthRate\<rparr>"

definition ex_picker :: "int \<Rightarrow> picker" where
  "ex_picker i = \<lparr>pk_conns = [0, 1, 2], pk_index = i, pk_length = 3\<rparr>"

theorem pick_selects_witness:
  "\<exists>i. Pick (\<lambda>_ _. None) [ex_sub 7 10, ex_sub 8 10, ex_sub 9 10] (ex_picker 0) = Ret (Inr ([0, 1, 2] ! (nat i mod 3)), (ex_picker i))
     \<and> 0 < i \<and> i \<le> 7"
  using pick_selects [where p = "ex_picker 0" and rnd = "\<lambda>_ _. None" and h = "[ex_sub 7 10, ex_sub 8 10, ex_sub 9 10]"]
  by (simp add: ex_picker_def picker_ok_def)

theorem pick_round_robin_witness:
  "pick_seq (\<lambda>_ _. None) [ex_sub 7 100, ex_sub 8 100, ex_sub 9 100] 3 (ex_picker 0) = Ret [Inr 1, Inr 2, Inr 0]"
proof -
  let ?h = "[ex_sub 7 100, ex_sub 8 100, ex_sub 9 100]"
  have p: "pk_conns (ex_picker 0) = [0, 1, 2]" "pk_index (ex_picker 0) = 0" "pk_length (ex_picker 0) = 3" by (simp_all add: ex_picker_def)
  have "\<forall>c \<in> set (pk_conns (ex_picker 0)). sc_curCapacity (?h ! c) = sc_maxCapacity (?h ! c)" by (simp add: p ex_sub_def)
  from pick_round_robin [OF _ _ _ this, of "\<lambda>_ _. None"]
  have "pick_seq (\<lambda>_ _. None) ?h (length (pk_conns (ex_picker 0))) (ex_picker 0) = Ret (map Inr (rotate 1 [0, 1, 2]))"
    by (simp add: p picker_ok_def del: pick_seq.simps)
  moreover have "length (pk_conns (ex_picker 0)) = 3" by (simp add: p)
  ultimately show ?thesis by (simp del: pick_seq.simps)
qed

text \<open>Once the counter has passed \<open>2 ^ 63 - 1\<close> the remainder is negative and indexing with it panics.\<close>

lemma pick_wraps: "Pick rnd h (ex_picker (2 ^ 63 - 1)) = Panic"
proof -
  have i: "i64 (pk_index (ex_picker (2 ^ 63 - 1)) + 1) = - (2 ^ 63)" by (simp add: ex_picker_def i64_def)
  have "pick_conn ((ex_picker (2 ^ 63 - 1))\<lparr>pk_index := - (2 ^ 63)\<rparr>) (- (2 ^ 63)) = None"
    by (simp add: pick_conn_def go_mod_def ex_picker_def)
  then have "pick_loop rnd h 0 (Suc n) (ex_picker (2 ^ 63 - 1)) = Panic" for n by (simp only: pick_loop.simps i Let_def option.case)
  moreover have "length (pk_conns (ex_picker (2 ^ 63 - 1))) * maxRetryMultiplier = Suc 5" by (simp add: ex_picker_def maxRetryMultiplier_def)
  moreover have "length (pk_conns (ex_picker (2 ^ 63 - 1))) \<noteq> 0" by (simp add: ex_picker_def)
  ultimately show ?thesis by (simp only: Pick_def if_False exec_bind.simps)
qed

subsection \<open>Capacities grow and never pass the maximum\<close>

text \<open>Concurrent calls of \<open>increaseCapacity\<close> on one connection, started at any time, and changes of its configuration. Of the
  configuration: at most 53 bits, and a growth rate between 0 and 1.\<close>

definition config_ok :: "int \<Rightarrow> sub_conn \<Rightarrow> bool" where
  "config_ok M c \<longleftrightarrow> 0 \<le> sc_increaseStep c \<and> sc_increaseStep c < 2 ^ 53 \<and> sc_maxCapacity c \<le> M
     \<and> (\<exists>q. sc_growthRate c = Fin q \<and> 0 \<le> q \<and> q \<le> 1)"

record cap_sys =
  cs_conn :: sub_conn
  cs_calls :: "inc_pc list"

inductive cap_step :: "(f64 \<Rightarrow> int) \<Rightarrow> int \<Rightarrow> cap_sys \<Rightarrow> cap_sys \<Rightarrow> bool" for unspec M where
  cap_done: "cap_step unspec M s (s\<lparr>cs_calls := cs_calls s @ [IcLoad]\<rparr>)"
| cap_run: "i < length (cs_calls s) \<Longrightarrow> increaseCapacity unspec (cs_calls s ! i) (cs_conn s) = (pc, c) \<Longrightarrow>
     cap_step unspec M s (s\<lparr>cs_calls := (cs_calls s)[i := pc], cs_conn := c\<rparr>)"
| cap_config: "sc_curCapacity c = sc_curCapacity (cs_conn s) \<Longrightarrow> config_ok M c \<Longrightarrow> cap_step unspec M s (s\<lparr>cs_conn := c\<rparr>)"

fun inc_ok :: "int \<Rightarrow> inc_pc \<Rightarrow> bool" where
  "inc_ok M (IcMax oldCap) = (0 \<le> oldCap)"
| "inc_ok M (IcCas oldCap newCap) = (oldCap \<le> newCap \<and> newCap \<le> M)"
| "inc_ok M pc = True"

definition cap_inv :: "int \<Rightarrow> cap_sys \<Rightarrow> bool" where
  "cap_inv M s \<longleftrightarrow> config_ok M (cs_conn s) \<and> 0 \<le> sc_curCapacity (cs_conn s) \<and> (\<forall>pc \<in> set (cs_calls s). inc_ok M pc)"

lemma grown_bounds:
  assumes "0 \<le> old" and "old < 2 ^ 53" and "config_ok M c"
  shows "\<exists>d. max (sc_increaseStep c) (f64_to_int64 unspec (f64_mul (f64_of_int old) (sc_growthRate c))) = d
     \<and> sc_increaseStep c \<le> d \<and> 0 \<le> d \<and> d < 2 ^ 53 \<and> i64 (old + d) = old + d"
proof -
  from assms(3) obtain q where q: "sc_growthRate c = Fin q" "0 \<le> q" "q \<le> 1" by (auto simp: config_ok_def)
  from f64_scale_bounds [OF assms(1,2) q(2,3)] obtain r where r: "f64_mul (f64_of_int old) (Fin q) = Fin r" "0 \<le> r" "r \<le> of_int old"
    by blast
  have b: "0 \<le> f64_to_int64 unspec (Fin r) \<and> f64_to_int64 unspec (Fin r) \<le> old"
    using f64_to_int64_bounds [OF r(2,3), of unspec] assms(2) by simp
  let ?d = "max (sc_increaseStep c) (f64_to_int64 unspec (Fin r))"
  have "0 \<le> ?d" "?d < 2 ^ 53" using b assms by (auto simp: config_ok_def)
  moreover from this have "0 \<le> old + ?d" "old + ?d < 2 ^ 53 + 2 ^ 53" using assms(1,2) by linarith+
  then have "i64 (old + ?d) = old + ?d" by (intro i64_nonneg) simp_all
  ultimately show ?thesis by (auto simp: q(1) r(1))
qed

lemma increaseCapacity_step:
  assumes M: "M < 2 ^ 53" and c: "config_ok M c" "0 \<le> sc_curCapacity c" and pc: "inc_ok M pc" and st: "increaseCapacity unspec pc c = (pc', c')"
  shows "inc_ok M pc' \<and> config_ok M c' \<and> sc_curCapacity c \<le> sc_curCapacity c' \<and> sc_curCapacity c' \<le> max (sc_curCapacity c) M"
proof (cases pc)
  case (IcMax old)
  show ?thesis
  proof (cases "old \<ge> sc_maxCapacity c")
    case False
    have "0 \<le> old" "old < 2 ^ 53" using False M c pc IcMax by (auto simp: config_ok_def)
    from grown_bounds [OF this c(1), of unspec] st False IcMax c pc show ?thesis
      by (auto simp: increaseCapacity_def Let_def config_ok_def)
  qed (use st IcMax c in \<open>auto simp: increaseCapacity_def\<close>)
qed (use st c pc in \<open>auto simp: increaseCapacity_def config_ok_def split: if_splits\<close>)

lemma cap_step_inv:
  assumes M: "M < 2 ^ 53" and i: "cap_inv M s" and st: "cap_step unspec M s t"
  shows "cap_inv M t \<and> sc_curCapacity (cs_conn s) \<le> sc_curCapacity (cs_conn t) \<and> sc_curCapacity (cs_conn t) \<le> max (sc_curCapacity (cs_conn s)) M"
  using st
proof cases
  case (cap_run i pc c)
  have "inc_ok M (cs_calls s ! i)" using i cap_run(2) by (simp add: cap_inv_def)
  from increaseCapacity_step [OF M _ _ this cap_run(3)] i cap_run(1,2) set_update_subset_insert [of "cs_calls s" i pc] show ?thesis
    by (auto simp: cap_inv_def)
qed (use i in \<open>auto simp: cap_inv_def\<close>)

text \<open>C31. However many successful calls finish at once and however the configuration is changed meanwhile, no update is lost
  backwards: a capacity never shrinks, and it never exceeds the largest maximum configured (or what it already was).\<close>

theorem capacity_monotone:
  assumes "M < 2 ^ 53" and "config_ok M (cs_conn s)" and "0 \<le> sc_curCapacity (cs_conn s)" and "cs_calls s = []"
    and "(cap_step unspec M)\<^sup>*\<^sup>* s t"
  shows "sc_curCapacity (cs_conn s) \<le> sc_curCapacity (cs_conn t) \<and> sc_curCapacity (cs_conn t) \<le> max (sc_curCapacity (cs_conn s)) M"
proof -
  have "cap_inv M t \<and> sc_curCapacity (cs_conn s) \<le> sc_curCapacity (cs_conn t) \<and> sc_curCapacity (cs_conn t) \<le> max (sc_curCapacity (cs_conn s)) M"
    using assms(5)
  proof (induction rule: rtranclp_induct)
    case base
    then show ?case using assms(2-4) by (simp add: cap_inv_def)
  next
    case (step t u)
    from cap_step_inv [OF assms(1) _ step(2)] step(3) show ?case by fastforce
  qed
  then show ?thesis by blast
qed

text \<open>One undisturbed call adds the larger of the two increments, up to the maximum; nothing at all when both round to 0.\<close>

definition grow :: "(f64 \<Rightarrow> int) \<Rightarrow> sub_conn \<Rightarrow> sub_conn" where
  "grow unspec c = (let (pc1, c1) = increaseCapacity unspec IcLoad c; (pc2, c2) = increaseCapacity unspec pc1 c1 in snd (increaseCapacity unspec pc2 c2))"

lemma grow_adds:
  assumes "0 \<le> sc_curCapacity c" and "sc_curCapacity c < 2 ^ 53" and "config_ok M c"
  shows "sc_curCapacity (grow unspec c) =
     (if sc_curCapacity c \<ge> sc_maxCapacity c then sc_curCapacity c
      else min (sc_curCapacity c + max (sc_increaseStep c) (f64_to_int64 unspec (f64_mul (f64_of_int (sc_curCapacity c)) (sc_growthRate c)))) (sc_maxCapacity c))"
  using grown_bounds [OF assms, of unspec] by (auto simp: grow_def increaseCapacity_def Let_def)

lemma defaultGrowthRate_eq: "defaultGrowthRate = Fin (3602879701896397 / 36028797018963968)"
proof -
  have "\<lfloor>36028797018963968 / 5 :: rat\<rfloor> = 7205759403792793" by (rule floor_unique) simp_all
  moreover have "ilog2 9 = 3" by (simp add: ilog2.simps)
  then have "f64_exponent (1 / 10) = - 4" by (simp add: f64_exponent_def)
  ultimately show ?thesis
    by (simp add: defaultGrowthRate_def f64_round_def f64_round_pos_def pow2_def round_even_def Let_def)
qed

lemma grow_stuck: "grow unspec (ex_sub i 5) = ex_sub i 5"
proof -
  let ?q = "18014398509481985 / 36028797018963968 :: rat"
  have "f64_exponent ?q = - 1"
  proof -
    have "\<lceil>1 / ?q\<rceil> = 2" by (rule ceiling_unique) simp_all
    then show ?thesis by (simp add: f64_exponent_def Let_def ilog2.simps)
  qed
  moreover have "\<lfloor>18014398509481985 / 4 :: rat\<rfloor> = 4503599627370496" by (rule floor_unique) simp_all
  ultimately have "f64_round ?q = Fin (1 / 2)"
    by (simp add: f64_round_def f64_round_pos_def pow2_def round_even_def Let_def)
  moreover have "f64_of_int 5 = Fin 5" using f64_of_int_exact [of 5] by simp
  ultimately have "f64_to_int64 unspec (f64_mul (f64_of_int 5) defaultGrowthRate) = 0"
    using floor_unique [of 0 "1 / 2 :: rat"] by (simp add: defaultGrowthRate_eq f64_to_int64_def rat_trunc_def in64_def)
  then show ?thesis by (simp add: grow_def increaseCapacity_def ex_sub_def Let_def i64_def)
qed

definition ex_growing :: "int \<Rightarrow> sub_conn" where
  "ex_growing cur = (ex_sub 1 cur)\<lparr>sc_increaseStep := 5, sc_growthRate := Fin 0\<rparr>"

lemma ex_growing_run:
  "(cap_step (\<lambda>_. 0) 100)\<^sup>*\<^sup>* \<lparr>cs_conn = ex_growing 10, cs_calls = []\<rparr> \<lparr>cs_conn = ex_growing 15, cs_calls = [IcDone]\<rparr>"
proof -
  have z: "f64_to_int64 (\<lambda>_. 0) (f64_mul (f64_of_int 10) (Fin 0)) = 0"
    using f64_of_int_exact [of 10] by (simp add: f64_round_def f64_to_int64_def rat_trunc_def in64_def)
  let ?s = "\<lambda>n pc. \<lparr>cs_conn = ex_growing n, cs_calls = [pc]\<rparr>"
  have run: "cap_step (\<lambda>_. 0) 100 (?s n pc) (?s n' pc')" if "increaseCapacity (\<lambda>_. 0) pc (ex_growing n) = (pc', ex_growing n')" for n pc n' pc'
    using cap_run [of 0 "?s n pc" "\<lambda>_. 0" pc' "ex_growing n'" 100] that by simp
  have "cap_step (\<lambda>_. 0) 100 \<lparr>cs_conn = ex_growing 10, cs_calls = []\<rparr> (?s 10 IcLoad)"
    using cap_done [of "\<lambda>_. 0" 100 "\<lparr>cs_conn = ex_growing 10, cs_calls = []\<rparr>"] by simp
  moreover have "cap_step (\<lambda>_. 0) 100 (?s 10 IcLoad) (?s 10 (IcMax 10))"
    by (rule run) (simp add: increaseCapacity_def ex_growing_def ex_sub_def)
  moreover have "cap_step (\<lambda>_. 0) 100 (?s 10 (IcMax 10)) (?s 10 (IcCas 10 15))"
    by (rule run) (simp add: increaseCapacity_def ex_growing_def ex_sub_def z i64_def)
  moreover have "cap_step (\<lambda>_. 0) 100 (?s 10 (IcCas 10 15)) (?s 15 IcDone)"
    by (rule run) (simp add: increaseCapacity_def ex_growing_def ex_sub_def)
  ultimately show ?thesis by (blast intro: converse_rtranclp_into_rtranclp)
qed

theorem capacity_monotone_witness:
  "sc_curCapacity (ex_growing 10) \<le> sc_curCapacity (ex_growing 15) \<and> sc_curCapacity (ex_growing 15) \<le> max (sc_curCapacity (ex_growing 10)) 100"
proof -
  have "config_ok 100 (ex_growing 10)" by (simp add: config_ok_def ex_growing_def ex_sub_def)
  then show ?thesis
    using capacity_monotone [OF _ _ _ _ ex_growing_run] by (simp add: ex_growing_def ex_sub_def)
qed

end
