(* ===== verification/GW_Balancer.thy ===== *)
theory GW_Balancer
  imports GW_Capacity "HOL-Library.Multiset"
begin

text \<open>
  The balancer of \<open>pkg/grpc/balancer/capacity/v2\<close>: the picker builder, which remembers the capacity of every node, and the
  balancer, which creates and closes connections for the addresses of the resolver, follows their states and publishes a
  picker. gRPC's \<open>ClientConn\<close> hands out a new connection, numbered, or an error. Go iterates over maps in any order: the
  order in which a picker is built is an argument. Every handler holds the balancer's mutex, so it is one step.
\<close>

subsection \<open>The picker builder\<close>

definition updateAttributes :: "sub_conn \<Rightarrow> resolver_address \<Rightarrow> sub_conn" where
  "updateAttributes sc ra = sc\<lparr>sc_increaseStep := attrAs_int ra attrStep 0, sc_growthRate := attrAs_float ra attrRate defaultGrowthRate,
     sc_maxCapacity := attrAs_int ra attrMaxCap defaultMaxCapacity\<rparr>"

definition createNewSubConn :: "string \<Rightarrow> nat \<Rightarrow> resolver_address \<Rightarrow> sub_conn" where
  "createNewSubConn nodeID con ra =
     \<lparr>sc_SubConn = con, sc_addr = ra, sc_id = nodeID,
      sc_curCapacity = attrAs_int ra attrInitCap defaultInitCapacity, sc_maxCapacity = attrAs_int ra attrMaxCap defaultMaxCapacity,
      sc_increaseStep = attrAs_int ra attrStep 0, sc_growthRate = attrAs_float ra attrRate defaultGrowthRate\<rparr>"

text \<open>The builder's \<open>subConnStates\<close> (a nil map reads as an empty one) and the heap of the wrapped connections.\<close>

record picker_builder =
  pb_subConnStates :: "(string \<times> nat) list"
  pb_heap :: "sub_conn list"

definition node_id :: "resolver_address \<Rightarrow> string" where
  "node_id ra = attrAs_string ra attrNodeID ''''"

text \<open>One iteration of \<open>Build\<close> over the ready connections, and the loop.\<close>

definition build_one :: "nat \<Rightarrow> resolver_address \<Rightarrow> picker_builder \<Rightarrow> nat list \<times> picker_builder" where
  "build_one con ra b =
     (let nodeID = node_id ra;
          new = ([length (pb_heap b)],
            b\<lparr>pb_subConnStates := sm_store nodeID (length (pb_heap b)) (pb_subConnStates b),
              pb_heap := pb_heap b @ [createNewSubConn nodeID con ra]\<rparr>)
      in if nodeID = '''' then ([], b)
         else case sm_load (pb_subConnStates b) nodeID of
             Some oldSc \<Rightarrow>
               if ra_Addr (sc_addr (pb_heap b ! oldSc)) = ra_Addr ra
               then ([oldSc], b\<lparr>pb_heap := (pb_heap b)[oldSc := updateAttributes ((pb_heap b ! oldSc)\<lparr>sc_SubConn := con\<rparr>) ra]\<rparr>)
               else new
           | None \<Rightarrow> new)"

fun build_loop :: "(nat \<times> resolver_address) list \<Rightarrow> picker_builder \<Rightarrow> nat list \<times> picker_builder" where
  "build_loop [] b = ([], b)"
| "build_loop ((con, ra) # ready) b =
     (let (act, b1) = build_one con ra b; (acts, b2) = build_loop ready b1 in (act @ acts, b2))"

definition Build :: "(nat \<times> resolver_address) list \<Rightarrow> picker_builder \<Rightarrow> picker \<times> picker_builder" where
  "Build ready b =
     (let (activeConns, b') = build_loop ready b
      in (\<lparr>pk_conns = activeConns, pk_index = 0, pk_length = int (length activeConns)\<rparr>, b'))"

definition RemoveSubConn :: "string \<Rightarrow> picker_builder \<Rightarrow> picker_builder" where
  "RemoveSubConn nodeID b = b\<lparr>pb_subConnStates := sm_delete nodeID (pb_subConnStates b)\<rparr>"

subsection \<open>The balancer\<close>

datatype conn_state = Idle | Connecting | Ready | TransientFailure | Shutdown

record sub_conn_info =
  si_addr :: resolver_address
  si_state :: conn_state

datatype cc_call = CcConnect nat | CcShutdown nat

text \<open>\<open>cb_subConns\<close>: nil (\<open>None\<close>) after \<open>Close\<close>. Of gRPC: the number of the next connection, the calls on connections, and the
  state last published with \<open>UpdateState\<close>.\<close>

record cap_balancer =
  cb_pickerBuilder :: picker_builder
  cb_subConns :: "(nat, sub_conn_info) smap option"
  cb_next :: nat
  cb_calls :: "cc_call list"
  cb_published :: "(conn_state \<times> (gerr + picker)) option"

definition balancer_Build :: cap_balancer where
  "balancer_Build = \<lparr>cb_pickerBuilder = \<lparr>pb_subConnStates = [], pb_heap = []\<rparr>, cb_subConns = Some [], cb_next = 0, cb_calls = [],
     cb_published = None\<rparr>"

definition conns_of :: "cap_balancer \<Rightarrow> (nat, sub_conn_info) smap" where
  "conns_of b = (case cb_subConns b of None \<Rightarrow> [] | Some m \<Rightarrow> m)"

lemma conns_of_simps [simp]:
  "conns_of (b\<lparr>cb_pickerBuilder := pb\<rparr>) = conns_of b" "conns_of (b\<lparr>cb_next := n\<rparr>) = conns_of b"
  "conns_of (b\<lparr>cb_calls := cs\<rparr>) = conns_of b" "conns_of (b\<lparr>cb_published := p\<rparr>) = conns_of b"
  "conns_of (b\<lparr>cb_subConns := None\<rparr>) = []" "conns_of (b\<lparr>cb_subConns := Some m\<rparr>) = m"
  "conns_of (b\<lparr>cb_subConns := map_option (filter P) (cb_subConns b)\<rparr>) = filter P (conns_of b)"
  by (simp_all add: conns_of_def split: option.split)

lemma conns_of_Some: "cb_subConns b = Some m \<Longrightarrow> conns_of b = m"
  by (simp add: conns_of_def)

definition ready_conns :: "(nat, sub_conn_info) smap \<Rightarrow> (nat \<times> resolver_address) list" where
  "ready_conns m = map (\<lambda>(sc, info). (sc, si_addr info)) (filter (\<lambda>(sc, info). si_state info = Ready) m)"

definition updatePicker :: "((nat \<times> resolver_address) list \<Rightarrow> (nat \<times> resolver_address) list) \<Rightarrow> cap_balancer \<Rightarrow> cap_balancer" where
  "updatePicker order b =
     (let readySCs = ready_conns (conns_of b)
      in if readySCs = [] then b\<lparr>cb_published := Some (TransientFailure, Inl (Sen ErrNoSubConnAvailable))\<rparr>
         else let (p, pb) = Build (order readySCs) (cb_pickerBuilder b)
              in b\<lparr>cb_pickerBuilder := pb, cb_published := Some (Ready, Inr p)\<rparr>)"

text \<open>\<open>UpdateClientConnState\<close>: the connections to addresses that are gone, then one for each address without one. Storing into
  the nil map panics.\<close>

fun removed_states :: "(nat, sub_conn_info) smap \<Rightarrow> picker_builder \<Rightarrow> picker_builder" where
  "removed_states [] pb = pb"
| "removed_states ((sc, info) # m) pb =
     removed_states m (if node_id (si_addr info) \<noteq> '''' then RemoveSubConn (node_id (si_addr info)) pb else pb)"

definition remove_conns :: "resolver_address list \<Rightarrow> cap_balancer \<Rightarrow> cap_balancer" where
  "remove_conns addrs b =
     (let addrsSet = set (map ra_Addr addrs);
          gone = filter (\<lambda>(sc, info). ra_Addr (si_addr info) \<notin> addrsSet) (conns_of b)
      in b\<lparr>cb_subConns := map_option (filter (\<lambda>(sc, info). ra_Addr (si_addr info) \<in> addrsSet)) (cb_subConns b),
           cb_calls := cb_calls b @ map (\<lambda>(sc, info). CcShutdown sc) gone,
           cb_pickerBuilder := removed_states gone (cb_pickerBuilder b)\<rparr>)"

fun add_conns :: "(resolver_address \<Rightarrow> bool) \<Rightarrow> resolver_address list \<Rightarrow> cap_balancer \<Rightarrow> cap_balancer exec" where
  "add_conns accepts [] b = Ret b"
| "add_conns accepts (addr # addrs) b =
     (if \<exists>(sc, info) \<in> set (conns_of b). ra_Addr (si_addr info) = ra_Addr addr then add_conns accepts addrs b
      else if \<not> accepts addr then add_conns accepts addrs b
      else case cb_subConns b of
          None \<Rightarrow> Panic
        | Some m \<Rightarrow> add_conns accepts addrs
            (b\<lparr>cb_subConns := Some (sm_store (cb_next b) \<lparr>si_addr = addr, si_state = Idle\<rparr> m), cb_next := cb_next b + 1,
               cb_calls := cb_calls b @ [CcConnect (cb_next b)]\<rparr>))"

definition UpdateClientConnState ::
  "(resolver_address \<Rightarrow> bool) \<Rightarrow> ((nat \<times> resolver_address) list \<Rightarrow> (nat \<times> resolver_address) list) \<Rightarrow> resolver_address list \<Rightarrow> cap_balancer
     \<Rightarrow> cap_balancer exec" where
  "UpdateClientConnState accepts order addrs b =
     exec_bind (add_conns accepts addrs (remove_conns addrs b)) (\<lambda>b'. Ret (updatePicker order b'))"

definition ResolverError :: "gerr \<Rightarrow> cap_balancer \<Rightarrow> cap_balancer" where
  "ResolverError err b = (if conns_of b = [] then b\<lparr>cb_published := Some (TransientFailure, Inl err)\<rparr> else b)"

definition shouldUpdatePicker :: "conn_state \<Rightarrow> conn_state \<Rightarrow> bool" where
  "shouldUpdatePicker oldState newState =
     (if oldState = newState then False
      else if oldState = Ready \<and> newState \<noteq> Ready then True
      else if oldState \<noteq> Ready \<and> newState = Ready then True
      else if newState = Shutdown then True
      else False)"

definition handleSubConnStateChange ::
  "((nat \<times> resolver_address) list \<Rightarrow> (nat \<times> resolver_address) list) \<Rightarrow> nat \<Rightarrow> conn_state \<Rightarrow> cap_balancer \<Rightarrow> cap_balancer" where
  "handleSubConnStateChange order sc newState b =
     (case sm_load (conns_of b) sc of
        None \<Rightarrow> b
      | Some info \<Rightarrow>
          let oldState = si_state info;
              m = sm_store sc (info\<lparr>si_state := newState\<rparr>) (conns_of b);
              b1 = (case newState of
                      TransientFailure \<Rightarrow> b\<lparr>cb_subConns := Some m, cb_calls := cb_calls b @ [CcConnect sc]\<rparr>
                    | Shutdown \<Rightarrow> b\<lparr>cb_subConns := Some (sm_delete sc m)\<rparr>
                    | _ \<Rightarrow> b\<lparr>cb_subConns := Some m\<rparr>)
          in if shouldUpdatePicker oldState newState then updatePicker order b1 else b1)"

definition UpdateSubConnState ::
  "((nat \<times> resolver_address) list \<Rightarrow> (nat \<times> resolver_address) list) \<Rightarrow> nat \<Rightarrow> conn_state \<Rightarrow> cap_balancer \<Rightarrow> cap_balancer" where
  "UpdateSubConnState order sc newState b = handleSubConnStateChange order sc newState b"

definition balancer_Close :: "cap_balancer \<Rightarrow> cap_balancer" where
  "balancer_Close b = b\<lparr>cb_subConns := None, cb_calls := cb_calls b @ map (\<lambda>(sc, info). CcShutdown sc) (conns_of b)\<rparr>"

subsection \<open>Building a picker\<close>

definition builder_wf :: "picker_builder \<Rightarrow> bool" where
  "builder_wf b \<longleftrightarrow> sm_ok (pb_subConnStates b)
     \<and> (\<forall>n r. sm_load (pb_subConnStates b) n = Some r \<longrightarrow> r < length (pb_heap b) \<and> sc_id (pb_heap b ! r) = n)"

text \<open>What building may change of a heap: objects are added; of those present, neither address nor identity nor current
  capacity changes, and those of other addresses not at all.\<close>

definition heap_kept :: "string set \<Rightarrow> sub_conn list \<Rightarrow> sub_conn list \<Rightarrow> bool" where
  "heap_kept A h h' \<longleftrightarrow> length h \<le> length h' \<and> (\<forall>r < length h. sc_addr (h' ! r) = sc_addr (h ! r) \<and> sc_id (h' ! r) = sc_id (h ! r)
     \<and> sc_curCapacity (h' ! r) = sc_curCapacity (h ! r) \<and> (ra_Addr (sc_addr (h ! r)) \<notin> A \<longrightarrow> h' ! r = h ! r))"

lemma heap_kept_refl [simp]: "heap_kept A h h"
  by (simp add: heap_kept_def)

lemma heap_kept_trans: "heap_kept A h1 h2 \<Longrightarrow> heap_kept B h2 h3 \<Longrightarrow> heap_kept (A \<union> B) h1 h3"
  unfolding heap_kept_def by (intro conjI allI impI) (auto dest: less_le_trans)

lemma updateAttributes_simps [simp]:
  "sc_SubConn (updateAttributes c ra) = sc_SubConn c" "sc_addr (updateAttributes c ra) = sc_addr c" "sc_id (updateAttributes c ra) = sc_id c"
  "sc_curCapacity (updateAttributes c ra) = sc_curCapacity c" "sc_maxCapacity (updateAttributes c ra) = attrAs_int ra attrMaxCap defaultMaxCapacity"
  by (simp_all add: updateAttributes_def)

lemma createNewSubConn_simps [simp]:
  "sc_SubConn (createNewSubConn n con ra) = con" "sc_addr (createNewSubConn n con ra) = ra" "sc_id (createNewSubConn n con ra) = n"
  by (simp_all add: createNewSubConn_def)

lemma build_one_wf:
  assumes wf: "builder_wf b" and one: "build_one con ra b = (act, b')"
  shows "builder_wf b' \<and> heap_kept {ra_Addr ra} (pb_heap b) (pb_heap b')
     \<and> (if node_id ra = '''' then act = []
        else \<exists>r. act = [r] \<and> r < length (pb_heap b') \<and> sc_SubConn (pb_heap b' ! r) = con \<and> ra_Addr (sc_addr (pb_heap b' ! r)) = ra_Addr ra)"
proof (cases "node_id ra = ''''")
  case True
  then show ?thesis using assms by (simp add: build_one_def Let_def)
next
  case False
  let ?h = "pb_heap b"
  show ?thesis
  proof (cases "\<exists>old. sm_load (pb_subConnStates b) (node_id ra) = Some old \<and> ra_Addr (sc_addr (?h ! old)) = ra_Addr ra")
    case True
    then obtain old where o: "sm_load (pb_subConnStates b) (node_id ra) = Some old" "ra_Addr (sc_addr (?h ! old)) = ra_Addr ra" by blast
    have l: "old < length ?h" using wf o by (simp add: builder_wf_def)
    have b': "act = [old]" "b' = b\<lparr>pb_heap := ?h[old := updateAttributes ((?h ! old)\<lparr>sc_SubConn := con\<rparr>) ra]\<rparr>"
      using one False o by (simp_all add: build_one_def Let_def)
    have "builder_wf b'" using wf l by (auto simp: builder_wf_def b' nth_list_update)
    moreover have "heap_kept {ra_Addr ra} ?h (pb_heap b')" using o l by (auto simp: heap_kept_def b' nth_list_update)
    ultimately show ?thesis using False l o by (simp add: b')
  next
    case new: False
    have b': "act = [length ?h]" "b' = b\<lparr>pb_subConnStates := sm_store (node_id ra) (length ?h) (pb_subConnStates b),
        pb_heap := ?h @ [createNewSubConn (node_id ra) con ra]\<rparr>"
      using one False new by (auto simp: build_one_def Let_def split: option.splits)
    have "builder_wf b'" using wf by (auto simp: builder_wf_def b' nth_append less_Suc_eq)
    moreover have "heap_kept {ra_Addr ra} ?h (pb_heap b')" by (simp add: heap_kept_def b' nth_append)
    ultimately show ?thesis using False by (simp add: b')
  qed
qed

lemma build_loop_wf:
  assumes "builder_wf b" and "distinct (map (ra_Addr \<circ> snd) ready)" and "build_loop ready b = (acts, b')"
  shows "builder_wf b' \<and> heap_kept (ra_Addr ` snd ` set ready) (pb_heap b) (pb_heap b')
     \<and> (\<forall>r \<in> set acts. r < length (pb_heap b'))
     \<and> map (\<lambda>r. sc_SubConn (pb_heap b' ! r)) acts = map fst (filter (\<lambda>(con, ra). node_id ra \<noteq> '''') ready)"
  using assms
proof (induction ready arbitrary: b acts)
  case (Cons x ready)
  obtain con ra where x: "x = (con, ra)" by (cases x)
  obtain act b1 where one: "build_one con ra b = (act, b1)" by fastforce
  obtain acts1 where l: "build_loop ready b1 = (acts1, b')" and acts: "acts = act @ acts1"
    using Cons.prems(3) one by (auto simp: x split: prod.splits)
  note w1 = build_one_wf [OF Cons.prems(1) one]
  note w2 = Cons.IH [OF conjunct1 [OF w1] _ l]
  have d: "distinct (map (ra_Addr \<circ> snd) ready)" "ra_Addr ra \<notin> ra_Addr ` snd ` set ready" using Cons.prems(2) by (auto simp: x o_def)
  note w2 = w2 [OF d(1)]
  have k: "heap_kept ({ra_Addr ra} \<union> ra_Addr ` snd ` set ready) (pb_heap b) (pb_heap b')" using heap_kept_trans w1 w2 by blast
  have "r < length (pb_heap b') \<and> pb_heap b' ! r = pb_heap b1 ! r" if "r \<in> set act" for r
    using w1 w2 d(2) that by (auto simp: heap_kept_def split: if_splits)
  then have "(\<forall>r \<in> set acts. r < length (pb_heap b'))
      \<and> map (\<lambda>r. sc_SubConn (pb_heap b' ! r)) acts = map fst (filter (\<lambda>(con, ra). node_id ra \<noteq> '''') (x # ready))"
    using w1 w2 by (auto simp: acts x split: if_splits)
  then show ?case using k w2 by (simp add: x)
qed simp

subsection \<open>The balancer under gRPC's calls\<close>

text \<open>The state: a balancer and the connections gRPC reported as shut down. \<open>U\<close>: the address lists the resolver may send.
  \<open>bal_grow\<close>: a successful call raised the capacity of a connection some picker selected.\<close>

type_synonym bal_sys = "cap_balancer \<times> nat set"

inductive bal_step :: "(resolver_address list \<Rightarrow> bool) \<Rightarrow> bal_sys \<Rightarrow> bal_sys \<Rightarrow> bool" for U where
  bal_update: "(\<And>xs. mset (order xs) = mset xs) \<Longrightarrow> U addrs \<Longrightarrow> UpdateClientConnState accepts order addrs b = Ret b' \<Longrightarrow>
     bal_step U (b, R) (b', R)"
| bal_state: "(\<And>xs. mset (order xs) = mset xs) \<Longrightarrow> sc < cb_next b \<Longrightarrow>
     bal_step U (b, R) (UpdateSubConnState order sc st b, if st = Shutdown then insert sc R else R)"
| bal_error: "bal_step U (b, R) (ResolverError err b, R)"
| bal_close: "bal_step U (b, R) (balancer_Close b, R)"
| bal_grow: "r < length (pb_heap (cb_pickerBuilder b)) \<Longrightarrow> sc_curCapacity (pb_heap (cb_pickerBuilder b) ! r) \<le> cap \<Longrightarrow>
     bal_step U (b, R) (b\<lparr>cb_pickerBuilder := (cb_pickerBuilder b)\<lparr>pb_heap := (pb_heap (cb_pickerBuilder b))
       [r := (pb_heap (cb_pickerBuilder b) ! r)\<lparr>sc_curCapacity := cap\<rparr>]\<rparr>\<rparr>, R)"

definition bal_init :: "bal_sys \<Rightarrow> bool" where
  "bal_init s \<longleftrightarrow> s = (balancer_Build, {})"

text \<open>At most one connection per address; references are valid.\<close>

definition bal_wf :: "cap_balancer \<Rightarrow> bool" where
  "bal_wf b \<longleftrightarrow> sm_ok (conns_of b) \<and> (\<forall>sc \<in> set (map fst (conns_of b)). sc < cb_next b)
     \<and> distinct (map (\<lambda>(sc, info). ra_Addr (si_addr info)) (conns_of b)) \<and> builder_wf (cb_pickerBuilder b)"

text \<open>What is published: a picker over exactly the ready connections with a node id, or an error when none is ready.\<close>

definition published_ok :: "cap_balancer \<Rightarrow> bool" where
  "published_ok b \<longleftrightarrow>
     (if ready_conns (conns_of b) = [] then cb_published b = None \<or> (\<exists>err. cb_published b = Some (TransientFailure, Inl err))
      else \<exists>p. cb_published b = Some (Ready, Inr p) \<and> pk_length p = int (length (pk_conns p))
         \<and> (\<forall>r \<in> set (pk_conns p). r < length (pb_heap (cb_pickerBuilder b)))
         \<and> mset (map (\<lambda>r. sc_SubConn (pb_heap (cb_pickerBuilder b) ! r)) (pk_conns p))
           = mset (map fst (filter (\<lambda>(con, ra). node_id ra \<noteq> '''') (ready_conns (conns_of b)))))"

definition no_leak :: "bal_sys \<Rightarrow> bool" where
  "no_leak s \<longleftrightarrow> (\<forall>sc < cb_next (fst s). sc \<in> fst ` set (conns_of (fst s)) \<or> CcShutdown sc \<in> set (cb_calls (fst s)) \<or> sc \<in> snd s)"

definition bal_inv :: "bal_sys \<Rightarrow> bool" where
  "bal_inv s \<longleftrightarrow> bal_wf (fst s) \<and> no_leak s \<and> (cb_subConns (fst s) \<noteq> None \<longrightarrow> published_ok (fst s))"

lemma ready_addrs: "map (ra_Addr \<circ> snd) (ready_conns m) = map (\<lambda>(sc, info). ra_Addr (si_addr info)) (filter (\<lambda>(sc, info). si_state info = Ready) m)"
  by (induction m) (auto simp: ready_conns_def)

lemma updatePicker_ok:
  assumes wf: "bal_wf b" and perm: "\<And>xs. mset (order xs) = mset xs"
  shows "bal_wf (updatePicker order b) \<and> published_ok (updatePicker order b)"
    and "cb_subConns (updatePicker order b) = cb_subConns b" "cb_next (updatePicker order b) = cb_next b" "cb_calls (updatePicker order b) = cb_calls b"
proof -
  let ?ready = "ready_conns (conns_of b)"
  obtain acts pb where l: "build_loop (order ?ready) (cb_pickerBuilder b) = (acts, pb)" by fastforce
  have u: "updatePicker order b = (if ?ready = [] then b\<lparr>cb_published := Some (TransientFailure, Inl (Sen ErrNoSubConnAvailable))\<rparr>
      else b\<lparr>cb_pickerBuilder := pb, cb_published := Some (Ready, Inr \<lparr>pk_conns = acts, pk_index = 0, pk_length = int (length acts)\<rparr>)\<rparr>)"
    by (simp add: updatePicker_def Build_def l Let_def)
  show "cb_subConns (updatePicker order b) = cb_subConns b" "cb_next (updatePicker order b) = cb_next b" "cb_calls (updatePicker order b) = cb_calls b"
    by (simp_all add: u)
  have "distinct (map (ra_Addr \<circ> snd) ?ready)" unfolding ready_addrs using wf by (simp add: bal_wf_def distinct_map_filter)
  moreover have "mset (map (ra_Addr \<circ> snd) (order ?ready)) = mset (map (ra_Addr \<circ> snd) ?ready)" by (simp add: perm)
  ultimately have "distinct (map (ra_Addr \<circ> snd) (order ?ready))" using mset_eq_imp_distinct_iff by blast
  note bl = build_loop_wf [OF _ this l]
  have "mset (map fst (filter P (order ?ready))) = mset (map fst (filter P ?ready))" for P by (simp add: perm)
  then show "bal_wf (updatePicker order b) \<and> published_ok (updatePicker order b)"
    using bl wf by (simp add: u bal_wf_def published_ok_def del: mset_map mset_filter)
qed

text \<open>Changes of the connections that no ready connection sees leave what is published current.\<close>

lemma published_ok_cong:
  assumes "ready_conns (conns_of b') = ready_conns (conns_of b)" and "cb_published b' = cb_published b"
    and "length (pb_heap (cb_pickerBuilder b')) = length (pb_heap (cb_pickerBuilder b))"
    and "\<And>r. r < length (pb_heap (cb_pickerBuilder b)) \<Longrightarrow> sc_SubConn (pb_heap (cb_pickerBuilder b') ! r) = sc_SubConn (pb_heap (cb_pickerBuilder b) ! r)"
  shows "published_ok b \<Longrightarrow> published_ok b'"
proof -
  have m: "map (\<lambda>r. sc_SubConn (pb_heap (cb_pickerBuilder b') ! r)) rs = map (\<lambda>r. sc_SubConn (pb_heap (cb_pickerBuilder b) ! r)) rs"
    if "\<forall>r \<in> set rs. r < length (pb_heap (cb_pickerBuilder b))" for rs using that assms(4) by auto
  assume "published_ok b"
  then show "published_ok b'" unfolding published_ok_def assms(1-3)
    by (auto simp del: mset_map mset_filter simp: m split: if_splits)
qed

lemma removed_states_wf: "builder_wf pb \<Longrightarrow> builder_wf (removed_states m pb) \<and> pb_heap (removed_states m pb) = pb_heap pb"
proof (induction m pb rule: removed_states.induct)
  case (2 sc info m pb)
  have "builder_wf (RemoveSubConn n pb) \<and> pb_heap (RemoveSubConn n pb) = pb_heap pb" for n
    using "2.prems" by (simp add: RemoveSubConn_def builder_wf_def)
  then show ?case using "2.IH" "2.prems" by (simp del: sm_load_delete)
qed simp

lemma remove_conns_inv:
  assumes "bal_wf b" and "no_leak (b, R)"
  shows "bal_wf (remove_conns addrs b) \<and> no_leak (remove_conns addrs b, R)"
proof -
  let ?P = "\<lambda>(sc, info). ra_Addr (si_addr info) \<in> set (map ra_Addr addrs)"
  have c: "conns_of (remove_conns addrs b) = filter ?P (conns_of b)" by (simp add: remove_conns_def Let_def)
  have "bal_wf (remove_conns addrs b)" using assms(1) removed_states_wf unfolding bal_wf_def c
    by (auto simp: remove_conns_def Let_def sm_ok_def distinct_map_filter)
  moreover have "no_leak (remove_conns addrs b, R)" using assms(2) unfolding no_leak_def fst_conv c
    by (auto simp: remove_conns_def Let_def) fastforce
  ultimately show ?thesis ..
qed

lemma add_conns_inv:
  assumes "bal_wf b" and "no_leak (b, R)" and "add_conns accepts addrs b = Ret b'"
  shows "bal_wf b' \<and> no_leak (b', R)"
  using assms
proof (induction accepts addrs b rule: add_conns.induct)
  case (2 accepts addr addrs b)
  show ?case
  proof (cases "(\<exists>(sc, info) \<in> set (conns_of b). ra_Addr (si_addr info) = ra_Addr addr) \<or> \<not> accepts addr")
    case True
    then show ?thesis using 2 by (auto split: if_splits)
  next
    case False
    then obtain m where m: "cb_subConns b = Some m" using "2.prems"(3) by (cases "cb_subConns b") auto
    let ?b = "b\<lparr>cb_subConns := Some (sm_store (cb_next b) \<lparr>si_addr = addr, si_state = Idle\<rparr> m), cb_next := cb_next b + 1,
               cb_calls := cb_calls b @ [CcConnect (cb_next b)]\<rparr>"
    note c = conns_of_Some [OF m]
    have n: "sm_load m (cb_next b) = None" using "2.prems"(1) by (auto simp: bal_wf_def c map_of_eq_None_iff)
    have wf: "bal_wf ?b" using "2.prems"(1) False by (fastforce simp: bal_wf_def c sm_store_new [OF n] sm_ok_def map_of_eq_None_iff)
    have "no_leak (?b, R)" using "2.prems"(2) by (auto simp: no_leak_def c sm_store_new [OF n] less_Suc_eq)
    then show ?thesis using "2.IH"(3) [OF _ _ m wf] "2.prems"(3) False m by simp
  qed
qed simp

lemma ready_store:
  "sm_load m sc = Some info \<Longrightarrow> (si_state info = Ready) = (si_state info' = Ready) \<Longrightarrow> si_addr info' = si_addr info
     \<Longrightarrow> ready_conns (sm_store sc info' m) = ready_conns m"
  by (induction m) (auto simp: ready_conns_def split: if_splits)

lemma ready_delete: "sm_ok m \<Longrightarrow> sm_load m sc = Some info \<Longrightarrow> si_state info \<noteq> Ready \<Longrightarrow> ready_conns (sm_delete sc m) = ready_conns m"
proof (induction m)
  case (Cons x m)
  have "sm_delete sc m = m" if "fst x = sc" using Cons.prems(1) that by (intro sm_delete_absent) (auto simp: sm_ok_def map_of_eq_None_iff)
  then show ?case using Cons by (cases x) (auto simp: ready_conns_def sm_ok_def split: if_splits)
qed simp

lemma store_addrs:
  "sm_load m sc = Some info \<Longrightarrow> si_addr info' = si_addr info
     \<Longrightarrow> map (\<lambda>(sc, info). ra_Addr (si_addr info)) (sm_store sc info' m) = map (\<lambda>(sc, info). ra_Addr (si_addr info)) m
       \<and> map fst (sm_store sc info' m) = map fst m"
  by (induction m) (auto split: if_splits)

lemma delete_filter: "sm_delete sc m = filter (\<lambda>p. fst p \<noteq> sc) m"
  by (induction m) auto

text \<open>The state between the change of one connection's state and the decision to build a picker.\<close>

lemma handle_mid:
  assumes inv: "bal_inv (b, R)" and ld: "sm_load (conns_of b) sc = Some info"
  shows "\<exists>b1. handleSubConnStateChange order sc st b = (if shouldUpdatePicker (si_state info) st then updatePicker order b1 else b1)
     \<and> conns_of b1 = (if st = Shutdown then sm_delete sc (sm_store sc (info\<lparr>si_state := st\<rparr>) (conns_of b))
                     else sm_store sc (info\<lparr>si_state := st\<rparr>) (conns_of b))
     \<and> cb_pickerBuilder b1 = cb_pickerBuilder b \<and> cb_published b1 = cb_published b \<and> cb_subConns b \<noteq> None
     \<and> bal_wf b1 \<and> no_leak (b1, if st = Shutdown then insert sc R else R)"
proof -
  from ld obtain m where m: "cb_subConns b = Some m" by (cases "cb_subConns b") (auto simp: conns_of_def)
  note c = conns_of_Some [OF m]
  let ?m = "sm_store sc (info\<lparr>si_state := st\<rparr>) m"
  define b1 where "b1 = (case st of
                      TransientFailure \<Rightarrow> b\<lparr>cb_subConns := Some ?m, cb_calls := cb_calls b @ [CcConnect sc]\<rparr>
                    | Shutdown \<Rightarrow> b\<lparr>cb_subConns := Some (sm_delete sc ?m)\<rparr>
                    | _ \<Rightarrow> b\<lparr>cb_subConns := Some ?m\<rparr>)"
  let ?R = "if st = Shutdown then insert sc R else R"
  have h: "handleSubConnStateChange order sc st b = (if shouldUpdatePicker (si_state info) st then updatePicker order b1 else b1)"
    using ld by (simp add: handleSubConnStateChange_def c Let_def b1_def)
  have c1: "conns_of b1 = (if st = Shutdown then sm_delete sc ?m else ?m)" "cb_pickerBuilder b1 = cb_pickerBuilder b" "cb_next b1 = cb_next b"
    "cb_published b1 = cb_published b" "set (cb_calls b) \<subseteq> set (cb_calls b1)" "cb_subConns b1 \<noteq> None"
    unfolding b1_def by (simp_all split: conn_state.split) auto
  note a = store_addrs [OF ld [unfolded c], of "info\<lparr>si_state := st\<rparr>", simplified]
  have keys: "fst ` set ?m = fst ` set m" using a by (metis list.set_map)
  have w: "sm_ok ?m" "\<forall>sc \<in> fst ` set ?m. sc < cb_next b" "distinct (map (\<lambda>(sc, info). ra_Addr (si_addr info)) ?m)"
    using inv a by (simp_all add: bal_inv_def bal_wf_def c sm_ok_def keys)
  then have "sm_ok (sm_delete sc ?m)" "\<forall>sc \<in> fst ` set (sm_delete sc ?m). sc < cb_next b"
    "distinct (map (\<lambda>(sc, info). ra_Addr (si_addr info)) (sm_delete sc ?m))"
    by (auto simp: delete_filter sm_ok_def distinct_map_filter)
  with w have wf: "bal_wf b1" using inv by (cases "st = Shutdown") (simp_all add: bal_wf_def c1 bal_inv_def)
  have del: "fst ` set (sm_delete sc (sm_store sc i m)) = fst ` set m - {sc}" for i by (induction m) auto
  have nl: "no_leak (b1, ?R)" unfolding no_leak_def fst_conv snd_conv
  proof (intro allI impI)
    fix i assume "i < cb_next b1"
    then have "i \<in> fst ` set m \<or> CcShutdown i \<in> set (cb_calls b) \<or> i \<in> R"
      using inv unfolding bal_inv_def no_leak_def fst_conv snd_conv c1(3) c by blast
    then show "i \<in> fst ` set (conns_of b1) \<or> CcShutdown i \<in> set (cb_calls b1) \<or> i \<in> ?R"
      using c1(5) by (cases "st = Shutdown") (auto simp: c1(1) keys del)
  qed
  show ?thesis by (rule exI [of _ b1]) (use h c1 wf nl in \<open>simp add: c m\<close>)
qed

lemma handle_inv:
  assumes inv: "bal_inv (b, R)" and perm: "\<And>xs. mset (order xs) = mset xs"
  shows "bal_inv (handleSubConnStateChange order sc st b, if st = Shutdown then insert sc R else R)"
proof (cases "sm_load (conns_of b) sc")
  case None
  then show ?thesis using inv by (auto simp: handleSubConnStateChange_def bal_inv_def no_leak_def)
next
  case (Some info)
  let ?m = "conns_of b" and ?info = "info\<lparr>si_state := st\<rparr>" and ?R = "if st = Shutdown then insert sc R else R"
  obtain b1 where h: "handleSubConnStateChange order sc st b = (if shouldUpdatePicker (si_state info) st then updatePicker order b1 else b1)"
    and c1: "conns_of b1 = (if st = Shutdown then sm_delete sc (sm_store sc ?info ?m) else sm_store sc ?info ?m)"
      "cb_pickerBuilder b1 = cb_pickerBuilder b" "cb_published b1 = cb_published b" "cb_subConns b \<noteq> None"
    and wf: "bal_wf b1" and nl: "no_leak (b1, ?R)"
    using handle_mid [OF inv Some, of order st] by blast
  show ?thesis
  proof (cases "shouldUpdatePicker (si_state info) st")
    case True
    note u = updatePicker_ok [OF wf perm]
    have "no_leak (updatePicker order b1, ?R)" using nl by (simp add: no_leak_def u conns_of_def)
    then show ?thesis using True u by (simp add: h bal_inv_def)
  next
    case False
    have "ready_conns (conns_of b1) = ready_conns ?m"
    proof (cases "st = Shutdown")
      case True
      then have "si_state info \<noteq> Ready" using False by (auto simp: shouldUpdatePicker_def)
      then have "ready_conns (sm_store sc ?info ?m) = ready_conns ?m" using True by (intro ready_store [OF Some]) simp_all
      moreover have "sm_ok (sm_store sc ?info ?m)" using inv by (simp add: bal_inv_def bal_wf_def)
      then have "ready_conns (sm_delete sc (sm_store sc ?info ?m)) = ready_conns (sm_store sc ?info ?m)"
        using True by (intro ready_delete [where info = ?info]) simp_all
      ultimately show ?thesis by (simp add: c1 True)
    next
      case ns: False
      have "(si_state info = Ready) = (st = Ready)" using False by (auto simp: shouldUpdatePicker_def split: if_splits)
      then show ?thesis using ready_store [OF Some, of ?info] ns by (simp add: c1)
    qed
    then have "published_ok b1" using published_ok_cong [of b1 b] inv c1 by (simp add: bal_inv_def)
    then show ?thesis using False wf nl by (simp add: h bal_inv_def)
  qed
qed

lemma bal_step_inv:
  assumes inv: "bal_inv s" and st: "bal_step U s t"
  shows "bal_inv t"
  using st
proof cases
  case (bal_update order addrs accepts b b' R)
  obtain b1 where b1: "add_conns accepts addrs (remove_conns addrs b) = Ret b1" and b': "b' = updatePicker order b1"
    using bal_update(5) by (auto simp: UpdateClientConnState_def exec_bind_Ret)
  have i: "bal_wf b1 \<and> no_leak (b1, R)"
    using inv bal_update(1) remove_conns_inv [of b R addrs] add_conns_inv [OF _ _ b1] by (auto simp: bal_inv_def)
  note u = updatePicker_ok [OF conjunct1 [OF i] bal_update(3)]
  have "no_leak (b', R)" using i by (simp add: no_leak_def b' u conns_of_def)
  then show ?thesis using u bal_update(2) b' by (simp add: bal_inv_def)
next
  case (bal_state order sc b R st)
  then show ?thesis using handle_inv inv by (simp add: UpdateSubConnState_def)
next
  case (bal_error b R err)
  then show ?thesis using inv
    by (auto simp: ResolverError_def bal_inv_def bal_wf_def no_leak_def published_ok_def ready_conns_def)
next
  case (bal_close b R)
  have s: "\<exists>x \<in> set (conns_of b). (case x of (sc, info) \<Rightarrow> CcShutdown sc) = CcShutdown sc" if "sc \<in> fst ` set (conns_of b)" for sc
    using that by force
  have "no_leak (b, R)" using inv bal_close by (simp add: bal_inv_def)
  then have "no_leak (balancer_Close b, R)" using s
    unfolding no_leak_def by (simp add: balancer_Close_def image_iff) metis
  then show ?thesis using inv unfolding bal_close by (simp add: bal_inv_def bal_wf_def) (simp add: balancer_Close_def)
next
  case (bal_grow r b cap R)
  then show ?thesis using inv published_ok_cong [of "fst t" b]
    by (auto simp: bal_inv_def bal_wf_def no_leak_def builder_wf_def nth_list_update)
qed

lemma bal_reach_inv: "reach bal_init (bal_step U) s \<Longrightarrow> bal_inv s"
proof (induction rule: reach.induct)
  case (reach_init s)
  then show ?case by (simp add: bal_init_def balancer_Build_def bal_inv_def bal_wf_def no_leak_def published_ok_def builder_wf_def conns_of_def ready_conns_def)
qed (rule bal_step_inv)

text \<open>C30. In every reachable state the balancer is well formed: its connections are distinct, have distinct addresses and were
  handed out by gRPC, and every reference of the builder points at a wrapped connection of that node.\<close>

theorem balancer_wf:
  assumes "reach bal_init (bal_step U) (b, R)"
  shows "bal_wf b"
  using bal_reach_inv [OF assms] by (simp add: bal_inv_def)

text \<open>C28. No connection is leaked: each one gRPC handed out is in the balancer's map, or was told to shut down, or was reported
  as shut down by gRPC.\<close>

theorem balancer_no_leak:
  assumes "reach bal_init (bal_step U) (b, R)" and "sc < cb_next b"
  shows "sc \<in> fst ` set (conns_of b) \<or> CcShutdown sc \<in> set (cb_calls b) \<or> sc \<in> R"
  using bal_reach_inv [OF assms(1)] assms(2) by (simp add: bal_inv_def no_leak_def)

text \<open>C29. Until \<open>Close\<close> the picker published last is over exactly the connections that are ready now and have a node id, however
  address updates and state changes interleave; and an error is published exactly when none is ready.\<close>

theorem balancer_picker_current:
  assumes "reach bal_init (bal_step U) (b, R)" and "cb_subConns b \<noteq> None"
  shows "published_ok b"
  using bal_reach_inv [OF assms(1)] assms(2) by (simp add: bal_inv_def)

subsection \<open>Capacities survive a lost connection\<close>

lemma add_conns_frame:
  "add_conns accepts addrs b = Ret b' \<Longrightarrow> cb_pickerBuilder b' = cb_pickerBuilder b \<and> set (conns_of b) \<subseteq> set (conns_of b')
     \<and> (\<forall>(sc, info) \<in> set (conns_of b'). (sc, info) \<in> set (conns_of b) \<or> si_addr info \<in> set addrs)"
  if "bal_wf b"
  using that
proof (induction accepts addrs b rule: add_conns.induct)
  case (2 accepts addr addrs b)
  show ?case
  proof (cases "(\<exists>(sc, info) \<in> set (conns_of b). ra_Addr (si_addr info) = ra_Addr addr) \<or> \<not> accepts addr")
    case True
    then show ?thesis using 2 by (fastforce split: if_splits)
  next
    case False
    then obtain m where m: "cb_subConns b = Some m" using "2.prems"(1) by (cases "cb_subConns b") auto
    let ?b = "b\<lparr>cb_subConns := Some (sm_store (cb_next b) \<lparr>si_addr = addr, si_state = Idle\<rparr> m), cb_next := cb_next b + 1,
               cb_calls := cb_calls b @ [CcConnect (cb_next b)]\<rparr>"
    note c = conns_of_Some [OF m]
    have n: "sm_load m (cb_next b) = None" using "2.prems"(2) by (auto simp: bal_wf_def c map_of_eq_None_iff)
    have wf: "bal_wf ?b" using "2.prems"(2) False by (fastforce simp: bal_wf_def c sm_store_new [OF n] sm_ok_def map_of_eq_None_iff)
    have "add_conns accepts addrs ?b = Ret b'" using "2.prems"(1) False m by simp
    from "2.IH"(3) [OF _ _ m this wf] False show ?thesis by (auto simp: sm_store_new [OF n] c)
  qed
qed simp

text \<open>The resolver goes on listing node \<open>n\<close> at the address \<open>a\<close>, and only there.\<close>

definition lists_node :: "string \<Rightarrow> string \<Rightarrow> resolver_address list \<Rightarrow> bool" where
  "lists_node n a addrs \<longleftrightarrow> a \<in> ra_Addr ` set addrs \<and> (\<forall>ra \<in> set addrs. node_id ra = n \<longrightarrow> ra_Addr ra = a)"

definition remembers :: "string \<Rightarrow> string \<Rightarrow> nat \<Rightarrow> int \<Rightarrow> picker_builder \<Rightarrow> bool" where
  "remembers n a r cap pb \<longleftrightarrow> sm_load (pb_subConnStates pb) n = Some r \<and> r < length (pb_heap pb)
     \<and> ra_Addr (sc_addr (pb_heap pb ! r)) = a \<and> cap \<le> sc_curCapacity (pb_heap pb ! r)"

definition at_address :: "string \<Rightarrow> string \<Rightarrow> (nat, sub_conn_info) smap \<Rightarrow> bool" where
  "at_address n a m \<longleftrightarrow> (\<forall>(sc, info) \<in> set m. node_id (si_addr info) = n \<longrightarrow> ra_Addr (si_addr info) = a)"

lemma build_one_remembers:
  assumes "builder_wf pb" and "remembers n a r cap pb" and "node_id ra = n \<longrightarrow> ra_Addr ra = a" and one: "build_one con ra pb = (act, pb')"
  shows "remembers n a r cap pb'"
proof -
  have k: "heap_kept {ra_Addr ra} (pb_heap pb) (pb_heap pb')" using build_one_wf [OF assms(1) one] by blast
  have "sm_load (pb_subConnStates pb') n = sm_load (pb_subConnStates pb) n"
    using assms(2,3) one by (auto simp: build_one_def remembers_def Let_def split: if_splits option.splits)
  then show ?thesis using assms(2) k by (auto simp: remembers_def heap_kept_def)
qed

lemma build_loop_remembers:
  assumes "builder_wf pb" and "remembers n a r cap pb" and "\<forall>(con, ra) \<in> set ready. node_id ra = n \<longrightarrow> ra_Addr ra = a"
    and "build_loop ready pb = (acts, pb')"
  shows "remembers n a r cap pb'"
  using assms
proof (induction ready arbitrary: pb acts)
  case (Cons x ready)
  obtain con ra where x: "x = (con, ra)" by (cases x)
  obtain act b1 where one: "build_one con ra pb = (act, b1)" by fastforce
  then obtain acts1 where l: "build_loop ready b1 = (acts1, pb')" using Cons.prems(4) by (auto simp: x split: prod.splits)
  have wf: "builder_wf b1" using build_one_wf [OF Cons.prems(1) one] by blast
  have "remembers n a r cap b1" using Cons.prems(3) by (intro build_one_remembers [OF Cons.prems(1,2) _ one]) (auto simp: x)
  from Cons.IH [OF wf this _ l] Cons.prems(3) show ?case by simp
qed simp

lemma updatePicker_remembers:
  assumes "bal_wf b" and "remembers n a r cap (cb_pickerBuilder b)" and "at_address n a (conns_of b)" and perm: "\<And>xs. mset (order xs) = mset xs"
  shows "remembers n a r cap (cb_pickerBuilder (updatePicker order b))"
proof -
  let ?ready = "ready_conns (conns_of b)"
  obtain acts pb where l: "build_loop (order ?ready) (cb_pickerBuilder b) = (acts, pb)" by fastforce
  have "set (order ?ready) = set ?ready" using perm by (metis set_mset_mset)
  moreover have "\<forall>(con, ra) \<in> set ?ready. node_id ra = n \<longrightarrow> ra_Addr ra = a" using assms(3) by (auto simp: at_address_def ready_conns_def)
  ultimately have "remembers n a r cap pb" using assms(1) by (intro build_loop_remembers [OF _ assms(2) _ l]) (simp_all add: bal_wf_def)
  then show ?thesis using assms(2) by (simp add: updatePicker_def Build_def l Let_def)
qed

lemma removed_states_load:
  "\<forall>(sc, info) \<in> set m. node_id (si_addr info) \<noteq> n \<Longrightarrow> sm_load (pb_subConnStates (removed_states m pb)) n = sm_load (pb_subConnStates pb) n"
  by (induction m pb rule: removed_states.induct) (auto simp: RemoveSubConn_def)

lemma set_sm_store: "x \<in> set (sm_store k v m) \<Longrightarrow> x = (k, v) \<or> x \<in> set m"
  by (induction m) (auto split: if_splits)

lemma bal_step_remembers:
  assumes inv: "bal_inv s" and st: "bal_step (lists_node n a) s t"
    and m: "remembers n a r cap (cb_pickerBuilder (fst s))" and at: "at_address n a (conns_of (fst s))"
  shows "remembers n a r cap (cb_pickerBuilder (fst t)) \<and> at_address n a (conns_of (fst t))"
  using st
proof cases
  case (bal_update order addrs accepts b b' R)
  let ?b = "remove_conns addrs b"
  obtain b1 where b1: "add_conns accepts addrs ?b = Ret b1" and b': "b' = updatePicker order b1"
    using bal_update(5) by (auto simp: UpdateClientConnState_def exec_bind_Ret)
  have w: "bal_wf ?b" "bal_wf b1" using inv bal_update(1) remove_conns_inv [of b R addrs] add_conns_inv [OF _ _ b1] by (auto simp: bal_inv_def)
  have c: "conns_of ?b = filter (\<lambda>(sc, info). ra_Addr (si_addr info) \<in> ra_Addr ` set addrs) (conns_of b)"
    by (simp add: remove_conns_def Let_def)
  let ?gone = "filter (\<lambda>(sc, info). ra_Addr (si_addr info) \<notin> set (map ra_Addr addrs)) (conns_of b)"
  have "\<forall>(sc, info) \<in> set ?gone. node_id (si_addr info) \<noteq> n" using at bal_update(1,4) by (auto simp: at_address_def lists_node_def)
  from removed_states_load [OF this, of "cb_pickerBuilder b"] have "remembers n a r cap (cb_pickerBuilder ?b)"
    using m bal_update(1) removed_states_wf [of "cb_pickerBuilder b" ?gone] inv
    by (simp add: remove_conns_def Let_def remembers_def bal_inv_def bal_wf_def)
  then have "remembers n a r cap (cb_pickerBuilder b1)" using add_conns_frame [OF w(1) b1] by simp
  moreover have "at_address n a (conns_of b1)"
    using add_conns_frame [OF w(1) b1] at bal_update(1,4) by (fastforce simp: at_address_def lists_node_def c)
  ultimately show ?thesis using updatePicker_remembers [OF w(2) _ _ bal_update(3)] updatePicker_ok(2) [OF w(2) bal_update(3)]
    by (simp add: bal_update(2) b' conns_of_def)
next
  case (bal_state order sc b R st)
  show ?thesis
  proof (cases "sm_load (conns_of b) sc")
    case None
    then show ?thesis using bal_state m at by (simp add: UpdateSubConnState_def handleSubConnStateChange_def)
  next
    case (Some info)
    let ?m = "conns_of b" and ?info = "info\<lparr>si_state := st\<rparr>"
    have "bal_inv (b, R)" using inv bal_state(1) by simp
    from handle_mid [OF this Some, of order st] obtain b1 where
      h: "handleSubConnStateChange order sc st b = (if shouldUpdatePicker (si_state info) st then updatePicker order b1 else b1)"
      and c1: "conns_of b1 = (if st = Shutdown then sm_delete sc (sm_store sc ?info ?m) else sm_store sc ?info ?m)"
        "cb_pickerBuilder b1 = cb_pickerBuilder b" and wf: "bal_wf b1" by blast
    have "at_address n a (sm_store sc ?info ?m)" "at_address n a (sm_delete sc (sm_store sc ?info ?m))"
      using at bal_state(1) map_of_SomeD [OF Some] by (auto simp: at_address_def delete_filter dest!: set_sm_store)
    then have at1: "at_address n a (conns_of b1)" by (cases "st = Shutdown") (simp_all add: c1)
    have "remembers n a r cap (cb_pickerBuilder (updatePicker order b1))"
      using updatePicker_remembers [OF wf _ at1 bal_state(3)] m bal_state(1) by (simp add: c1)
    then show ?thesis using at1 m updatePicker_ok(2) [OF wf bal_state(3)] bal_state(1)
      by (simp add: bal_state(2) UpdateSubConnState_def h conns_of_def c1)
  qed
next
  case (bal_error b R err)
  then show ?thesis using m at by (simp add: ResolverError_def at_address_def)
next
  case (bal_close b R)
  then show ?thesis using m by (simp add: balancer_Close_def at_address_def)
next
  case (bal_grow r' b c R)
  then show ?thesis using m at by (auto simp: remembers_def nth_list_update)
qed

text \<open>A node that the resolver goes on listing at its address keeps its capacity: however its connection is lost,
  reconnected or replaced meanwhile, the object that carries it stays the same and its capacity never falls.\<close>

theorem balancer_capacity_kept:
  assumes "reach bal_init (bal_step U) s" and "remembers n a r cap (cb_pickerBuilder (fst s))" and "at_address n a (conns_of (fst s))"
    and "(bal_step (lists_node n a))\<^sup>*\<^sup>* s t"
  shows "sm_load (pb_subConnStates (cb_pickerBuilder (fst t))) n = Some r \<and> cap \<le> sc_curCapacity (pb_heap (cb_pickerBuilder (fst t)) ! r)"
proof -
  have "bal_inv t \<and> remembers n a r cap (cb_pickerBuilder (fst t)) \<and> at_address n a (conns_of (fst t))" using assms(4)
  proof (induction rule: rtranclp_induct)
    case base
    then show ?case using bal_reach_inv [OF assms(1)] assms(2,3) by blast
  next
    case (step t u)
    then show ?case using bal_step_inv bal_step_remembers by blast
  qed
  then show ?thesis by (simp add: remembers_def)
qed

text \<open>A change of a listed node's attributes does not reach the balancer: an update keeps the connection it has for an
  address together with the address as it was first reported, and no other connection has that address.\<close>

theorem balancer_stale_attributes:
  assumes "reach bal_init (bal_step U) (b, R)" and "(sc, info) \<in> set (conns_of b)" and "ra_Addr (si_addr info) \<in> ra_Addr ` set addrs"
    and "UpdateClientConnState accepts order addrs b = Ret b'" and "\<And>xs. mset (order xs) = mset xs"
  shows "(sc, info) \<in> set (conns_of b') \<and> (\<forall>(sc', info') \<in> set (conns_of b'). ra_Addr (si_addr info') = ra_Addr (si_addr info) \<longrightarrow> sc' = sc \<and> info' = info)"
proof -
  have i: "bal_inv (b, R)" by (rule bal_reach_inv [OF assms(1)])
  obtain b1 where b1: "add_conns accepts addrs (remove_conns addrs b) = Ret b1" and b': "b' = updatePicker order b1"
    using assms(4) by (auto simp: UpdateClientConnState_def exec_bind_Ret)
  have w: "bal_wf (remove_conns addrs b)" "bal_wf b1" using i remove_conns_inv [of b R addrs] add_conns_inv [OF _ _ b1] by (auto simp: bal_inv_def)
  have "conns_of (remove_conns addrs b) = filter (\<lambda>(sc, info). ra_Addr (si_addr info) \<in> ra_Addr ` set addrs) (conns_of b)"
    by (simp add: remove_conns_def Let_def)
  then have m: "(sc, info) \<in> set (conns_of b1)" using add_conns_frame [OF w(1) b1] assms(2,3) by auto
  have c: "conns_of b' = conns_of b1" using updatePicker_ok(2) [OF w(2) assms(5)] by (simp add: b' conns_of_def)
  have "inj_on (\<lambda>(sc, info). ra_Addr (si_addr info)) (set (conns_of b1))" using w(2) by (simp add: bal_wf_def distinct_map)
  then have u: "sc' = sc \<and> info' = info"
    if "(sc', info') \<in> set (conns_of b1)" "ra_Addr (si_addr info') = ra_Addr (si_addr info)" for sc' info'
    using inj_onD [of "\<lambda>(sc, info). ra_Addr (si_addr info)" "set (conns_of b1)" "(sc', info')" "(sc, info)"] that m by simp
  have "case x of (sc', info') \<Rightarrow> ra_Addr (si_addr info') = ra_Addr (si_addr info) \<longrightarrow> sc' = sc \<and> info' = info"
    if "x \<in> set (conns_of b1)" for x using u that by (cases x) blast
  with m show ?thesis unfolding c by blast
qed

text \<open>An update after \<open>Close\<close> stores into a nil map; gRPC makes no call after \<open>Close\<close>.\<close>

lemma update_after_close: "accepts ra \<Longrightarrow> UpdateClientConnState accepts order [ra] (balancer_Close b) = Panic"
  by (simp add: UpdateClientConnState_def remove_conns_def balancer_Close_def Let_def)

text \<open>A connection that falls back to \<open>Idle\<close> is not asked to connect again.\<close>

lemma idle_not_reconnected: "cb_calls (handleSubConnStateChange order sc Idle b) = cb_calls b"
  by (auto simp: handleSubConnStateChange_def updatePicker_def Build_def Let_def split: option.split prod.split)

subsection \<open>A run\<close>

text \<open>One node is listed, its connection becomes ready, fails, and becomes ready again; then its maximum is changed.\<close>

definition ex_addr :: "int \<Rightarrow> resolver_address" where
  "ex_addr mx = \<lparr>ra_Addr = ''10.0.0.1'', ra_ServerName = ''im'', ra_Attributes = [''nodeID'' \<mapsto> AStr ''im-1'', ''maxCapacity'' \<mapsto> AInt mx]\<rparr>"

definition ex_sub_conn :: sub_conn where
  "ex_sub_conn = \<lparr>sc_SubConn = 0, sc_addr = ex_addr 100, sc_id = ''im-1'', sc_curCapacity = 10, sc_maxCapacity = 100, sc_increaseStep = 0,
     sc_growthRate = defaultGrowthRate\<rparr>"

definition ex_balancer :: "conn_state \<Rightarrow> (string \<times> nat) list \<Rightarrow> sub_conn list \<Rightarrow> cc_call list \<Rightarrow> (conn_state \<times> (gerr + picker)) option \<Rightarrow> cap_balancer" where
  "ex_balancer st states h calls pub = \<lparr>cb_pickerBuilder = \<lparr>pb_subConnStates = states, pb_heap = h\<rparr>,
     cb_subConns = Some [(0, \<lparr>si_addr = ex_addr 100, si_state = st\<rparr>)], cb_next = 1, cb_calls = calls, cb_published = pub\<rparr>"

definition ex_pub :: "(conn_state \<times> (gerr + picker)) option" where
  "ex_pub = Some (Ready, Inr \<lparr>pk_conns = [0], pk_index = 0, pk_length = 1\<rparr>)"

definition ex_idle :: cap_balancer where
  "ex_idle = ex_balancer Idle [] [] [CcConnect 0] (Some (TransientFailure, Inl (Sen ErrNoSubConnAvailable)))"

definition ex_ready :: cap_balancer where
  "ex_ready = ex_balancer Ready [(''im-1'', 0)] [ex_sub_conn] [CcConnect 0] ex_pub"

definition ex_failed :: cap_balancer where
  "ex_failed = ex_balancer TransientFailure [(''im-1'', 0)] [ex_sub_conn] [CcConnect 0, CcConnect 0]
     (Some (TransientFailure, Inl (Sen ErrNoSubConnAvailable)))"

lemma ex_addr_attrs [simp]: "node_id (ex_addr mx) = ''im-1''" "attrAs_int (ex_addr mx) attrMaxCap d = mx"
  "attrAs_int (ex_addr mx) attrInitCap d = d" "attrAs_int (ex_addr mx) attrStep d = d" "attrAs_float (ex_addr mx) attrRate e = e"
  "ra_Addr (ex_addr mx) = ''10.0.0.1''"
  by (simp_all add: ex_addr_def node_id_def attrAs_string_def attrAs_int_def attrAs_float_def attrNodeID_def attrMaxCap_def attrInitCap_def
      attrStep_def attrRate_def)

lemma ex_idle_step: "UpdateClientConnState (\<lambda>_. True) (\<lambda>xs. xs) [ex_addr 100] balancer_Build = Ret ex_idle"
  by (simp add: UpdateClientConnState_def remove_conns_def balancer_Build_def conns_of_def Let_def updatePicker_def ready_conns_def
      ex_idle_def ex_balancer_def)

lemma ex_ready_step: "UpdateSubConnState (\<lambda>xs. xs) 0 Ready ex_idle = ex_ready"
  by (simp add: UpdateSubConnState_def handleSubConnStateChange_def shouldUpdatePicker_def conns_of_def Let_def updatePicker_def ready_conns_def
      ex_idle_def ex_ready_def ex_balancer_def ex_pub_def Build_def build_one_def createNewSubConn_def ex_sub_conn_def defaultInitCapacity_def)

lemma ex_failed_step: "UpdateSubConnState (\<lambda>xs. xs) 0 TransientFailure ex_ready = ex_failed"
  by (simp add: UpdateSubConnState_def handleSubConnStateChange_def shouldUpdatePicker_def conns_of_def Let_def updatePicker_def ready_conns_def
      ex_failed_def ex_ready_def ex_balancer_def)

lemma ex_ready_again_step: "conns_of (UpdateSubConnState (\<lambda>xs. xs) 0 Ready ex_failed) = conns_of ex_ready"
  "cb_pickerBuilder (UpdateSubConnState (\<lambda>xs. xs) 0 Ready ex_failed) = cb_pickerBuilder ex_ready"
  by (simp_all add: UpdateSubConnState_def handleSubConnStateChange_def shouldUpdatePicker_def conns_of_def Let_def updatePicker_def ready_conns_def
      ex_failed_def ex_ready_def ex_balancer_def ex_pub_def Build_def build_one_def ex_sub_conn_def updateAttributes_def)

lemma ex_ready_reach: "reach bal_init (bal_step (\<lambda>_. True)) (ex_ready, {})"
proof -
  have "reach bal_init (bal_step (\<lambda>_. True)) (balancer_Build, {})" by (rule reach_init) (simp add: bal_init_def)
  then have "reach bal_init (bal_step (\<lambda>_. True)) (ex_idle, {})"
    by (rule reach_step) (rule bal_update [OF _ _ ex_idle_step]; simp)
  moreover have "bal_step (\<lambda>_. True) (ex_idle, {}) (ex_ready, {})"
    using bal_state [of "\<lambda>xs. xs" 0 ex_idle "\<lambda>_. True" "{}" Ready] unfolding ex_ready_step by (simp add: ex_idle_def ex_balancer_def)
  ultimately show ?thesis by (rule reach_step)
qed

theorem balancer_wf_witness: "bal_wf ex_ready"
  using balancer_wf [OF ex_ready_reach] .

theorem balancer_no_leak_witness: "0 \<in> fst ` set (conns_of ex_ready) \<or> CcShutdown 0 \<in> set (cb_calls ex_ready)"
  using balancer_no_leak [OF ex_ready_reach, of 0] by (simp add: ex_ready_def ex_balancer_def)

theorem balancer_picker_current_witness: "published_ok ex_ready"
  using balancer_picker_current [OF ex_ready_reach] by (simp add: ex_ready_def ex_balancer_def)

theorem balancer_capacity_kept_witness: "sm_load (pb_subConnStates (cb_pickerBuilder ex_failed)) ''im-1'' = Some 0
   \<and> 10 \<le> sc_curCapacity (pb_heap (cb_pickerBuilder ex_failed) ! 0)"
proof -
  have "bal_step (lists_node ''im-1'' ''10.0.0.1'') (ex_ready, {}) (ex_failed, {})"
    using bal_state [of "\<lambda>xs. xs" 0 ex_ready _ "{}" TransientFailure] unfolding ex_failed_step by (simp add: ex_ready_def ex_balancer_def)
  from balancer_capacity_kept [OF ex_ready_reach _ _ r_into_rtranclp, where r = 0 and cap = 10, OF _ _ this] show ?thesis
    by (simp add: ex_ready_def ex_balancer_def remembers_def at_address_def ex_sub_conn_def conns_of_def)
qed

theorem balancer_stale_attributes_witness:
  "\<exists>b'. UpdateClientConnState (\<lambda>_. True) (\<lambda>xs. xs) [ex_addr 500] ex_ready = Ret b' \<and> (0, \<lparr>si_addr = ex_addr 100, si_state = Ready\<rparr>) \<in> set (conns_of b')"
proof -
  have m: "(0, \<lparr>si_addr = ex_addr 100, si_state = Ready\<rparr>) \<in> set (conns_of ex_ready)" by (simp add: ex_ready_def ex_balancer_def conns_of_def)
  obtain b' where b': "UpdateClientConnState (\<lambda>_. True) (\<lambda>xs. xs) [ex_addr 500] ex_ready = Ret b'"
    by (simp add: UpdateClientConnState_def remove_conns_def conns_of_def Let_def ex_ready_def ex_balancer_def)
  from balancer_stale_attributes [OF ex_ready_reach m _ b'] b' show ?thesis by simp
qed

end
