(* ===== verification/GW_BalancerV1.thy ===== *)
theory GW_BalancerV1
  imports GW_Balancer
begin

text \<open>
  Version 1 of the balancer (\<open>pkg/grpc/balancer/capacity/v1\<close>): gRPC's base balancer drives one picker builder that all
  services share; every build replaces the picker it remembers and closes the connections that are not in the new one.
\<close>

text \<open>The picker keeps its connections by node as well; \<open>pk_conns\<close> is \<open>connSlice\<close>.\<close>

record picker_v1 = picker +
  pk_nodes :: "(string \<times> nat) list"

fun v1_pick_loop :: "(nat \<Rightarrow> int \<Rightarrow> int option) \<Rightarrow> sub_conn list \<Rightarrow> nat \<Rightarrow> nat \<Rightarrow> picker_v1 \<Rightarrow> (nat option \<times> picker_v1) exec" where
  "v1_pick_loop rnd h attempts 0 p = Ret (None, p)"
| "v1_pick_loop rnd h attempts (Suc n) p =
     (let idx = i64 (pk_index p + 1); p' = p\<lparr>pk_index := idx\<rparr>
      in case pick_conn (picker.truncate p') idx of
           None \<Rightarrow> Panic
         | Some conn \<Rightarrow>
             if sc_curCapacity (h ! conn) = sc_maxCapacity (h ! conn) then Ret (Some conn, p')
             else if 0 < sc_maxCapacity (h ! conn)
               \<and> (case rnd attempts (sc_maxCapacity (h ! conn)) of Some r \<Rightarrow> r < sc_curCapacity (h ! conn) | None \<Rightarrow> False)
             then Ret (Some conn, p')
             else v1_pick_loop rnd h (Suc attempts) n p')"

definition v1_Pick :: "(nat \<Rightarrow> int \<Rightarrow> int option) \<Rightarrow> sub_conn list \<Rightarrow> picker_v1 \<Rightarrow> ((gerr + nat) \<times> picker_v1) exec" where
  "v1_Pick rnd h p =
     (if length (pk_conns p) = 0 then Ret (Inl (Sen ErrNoSubConnAvailable), p)
      else exec_bind (v1_pick_loop rnd h 0 (length (pk_conns p) * maxRetryMultiplier) p)
        (\<lambda>(selected, p). case selected of
             Some conn \<Rightarrow> Ret (Inr conn, p)
           | None \<Rightarrow> (let idx = i64 (pk_index p + 1); p' = p\<lparr>pk_index := idx\<rparr>
                     in case pick_conn (picker.truncate p') idx of None \<Rightarrow> Panic | Some conn \<Rightarrow> Ret (Inr conn, p'))))"

definition v1_increaseCapacity :: "(f64 \<Rightarrow> int) \<Rightarrow> inc_pc \<Rightarrow> sub_conn \<Rightarrow> inc_pc \<times> sub_conn" where
  "v1_increaseCapacity unspec pc c =
     (case pc of
        IcLoad \<Rightarrow> (IcMax (sc_curCapacity c), c)
      | IcMax oldCap \<Rightarrow>
          if oldCap \<ge> sc_maxCapacity c then (IcDone, c)
          else (IcCas oldCap (min (i64 (oldCap + max (sc_increaseStep c) (f64_to_int64 unspec (f64_mul (f64_of_int oldCap) (sc_growthRate c)))))
                  (sc_maxCapacity c)), c)
      | IcCas oldCap newCap \<Rightarrow>
          if sc_curCapacity c = oldCap then (IcDone, c\<lparr>sc_curCapacity := newCap\<rparr>) else (IcLoad, c)
      | IcDone \<Rightarrow> (IcDone, c))"

subsection \<open>The builder\<close>

record v1_builder =
  vb_picker :: "picker_v1 option"
  vb_heap :: "sub_conn list"

definition v1_createNewSubConn :: "string \<Rightarrow> nat \<Rightarrow> resolver_address \<Rightarrow> v1_builder \<Rightarrow> nat \<times> v1_builder" where
  "v1_createNewSubConn nodeID con ra b =
     (length (vb_heap b), b\<lparr>vb_heap := vb_heap b @
        [\<lparr>sc_SubConn = con, sc_addr = ra, sc_id = nodeID,
          sc_curCapacity = attrAs_int ra attrInitCap defaultInitCapacity, sc_maxCapacity = attrAs_int ra attrMaxCap defaultMaxCapacity,
          sc_increaseStep = attrAs_int ra attrStep 0, sc_growthRate = attrAs_float ra attrRate defaultGrowthRate\<rparr>]\<rparr>)"

definition v1_reuseSubConn :: "nat \<Rightarrow> nat \<Rightarrow> resolver_address \<Rightarrow> v1_builder \<Rightarrow> nat \<times> v1_builder" where
  "v1_reuseSubConn old con ra b =
     (old, b\<lparr>vb_heap := (vb_heap b)[old := (vb_heap b ! old)\<lparr>sc_SubConn := con, sc_increaseStep := attrAs_int ra attrStep 0,
        sc_growthRate := attrAs_float ra attrRate defaultGrowthRate, sc_maxCapacity := attrAs_int ra attrMaxCap defaultMaxCapacity\<rparr>]\<rparr>)"

definition v1_getSubConn :: "string \<Rightarrow> nat \<Rightarrow> resolver_address \<Rightarrow> v1_builder \<Rightarrow> nat \<times> v1_builder" where
  "v1_getSubConn nodeID con ra b =
     (let old = (case vb_picker b of None \<Rightarrow> None | Some p \<Rightarrow> sm_load (pk_nodes p) nodeID)
      in case old of
           None \<Rightarrow> v1_createNewSubConn nodeID con ra b
         | Some o' \<Rightarrow> if ra_Addr (sc_addr (vb_heap b ! o')) \<noteq> ra_Addr ra then v1_createNewSubConn nodeID con ra b
                     else v1_reuseSubConn o' con ra b)"

fun v1_build_loop :: "(nat \<times> resolver_address) list \<Rightarrow> (string \<times> nat) list \<Rightarrow> nat list \<Rightarrow> v1_builder \<Rightarrow> (string \<times> nat) list \<times> nat list \<times> v1_builder" where
  "v1_build_loop [] newConns connSlice b = (newConns, connSlice, b)"
| "v1_build_loop ((con, ra) # ready) newConns connSlice b =
     (if node_id ra = '''' then v1_build_loop ready newConns connSlice b
      else let (sc, b') = v1_getSubConn (node_id ra) con ra b
           in v1_build_loop ready (sm_store (node_id ra) sc newConns) (connSlice @ [sc]) b')"

definition v1_Build :: "(nat \<times> resolver_address) list \<Rightarrow> v1_builder \<Rightarrow> picker_v1 \<times> v1_builder \<times> cc_call list" where
  "v1_Build ready b =
     (let (newConns, connSlice, b1) = v1_build_loop ready [] [] b;
          shut = (case vb_picker b of
             None \<Rightarrow> []
           | Some old \<Rightarrow> concat (map (\<lambda>(nodeID, oldConn). case sm_load newConns nodeID of
                 None \<Rightarrow> [CcShutdown (sc_SubConn (vb_heap b1 ! oldConn))]
               | Some newSc \<Rightarrow> if newSc \<noteq> oldConn then [CcShutdown (sc_SubConn (vb_heap b1 ! oldConn))] else []) (pk_nodes old)));
          p = \<lparr>pk_conns = connSlice, pk_index = - 1, pk_length = int (length connSlice), pk_nodes = newConns\<rparr>
      in (p, b1\<lparr>vb_picker := Some p\<rparr>, shut))"

definition v1_NewBuilder :: v1_builder where
  "v1_NewBuilder = \<lparr>vb_picker = None, vb_heap = []\<rparr>"

subsection \<open>Picking as in version 2\<close>

lemma truncate_index [simp]: "picker.truncate (p\<lparr>pk_index := i\<rparr>) = (picker.truncate p)\<lparr>pk_index := i\<rparr>"
  by (simp add: picker.truncate_def)

lemma truncate_fields [simp]: "pk_index (picker.truncate p) = pk_index p" "pk_conns (picker.truncate p) = pk_conns p"
  by (simp_all add: picker.truncate_def)

lemma v1_pick_loop_eq:
  "pick_loop rnd h a n (picker.truncate p) = exec_bind (v1_pick_loop rnd h a n p) (\<lambda>(sel, p'). Ret (sel, picker.truncate p'))"
proof (induction n arbitrary: a p)
  case (Suc n)
  show ?case using Suc.IH [of "Suc a" "p\<lparr>pk_index := i64 (pk_index p + 1)\<rparr>"]
    by (simp add: Let_def split: option.split)
qed simp

text \<open>Version 1 picks as version 2 does, and grows capacities as version 2 does.\<close>

theorem v1_pick_equivalent:
  "exec_bind (v1_Pick rnd h p) (\<lambda>(r, p'). Ret (r, picker.truncate p')) = Pick rnd h (picker.truncate p)
   \<and> v1_increaseCapacity unspec pc c = increaseCapacity unspec pc c"
proof
  show "exec_bind (v1_Pick rnd h p) (\<lambda>(r, p'). Ret (r, picker.truncate p')) = Pick rnd h (picker.truncate p)"
    by (cases "v1_pick_loop rnd h 0 (length (pk_conns p) * maxRetryMultiplier) p")
      (auto simp: v1_Pick_def Pick_def v1_pick_loop_eq Let_def split: option.split)
  show "v1_increaseCapacity unspec pc c = increaseCapacity unspec pc c"
    by (cases pc) (simp_all add: v1_increaseCapacity_def increaseCapacity_def Let_def)
qed

subsection \<open>Services interfere\<close>

lemma v1_build_loop_foreign:
  assumes "vb_picker b = Some old" and "\<forall>(con, ra) \<in> set ready. sm_load (pk_nodes old) (node_id ra) = None"
    and "v1_build_loop ready nc cs b = (nc', cs', b')"
  shows "length (vb_heap b) \<le> length (vb_heap b') \<and> (\<forall>r < length (vb_heap b). vb_heap b' ! r = vb_heap b ! r)
     \<and> fst ` set nc' \<subseteq> fst ` set nc \<union> node_id ` snd ` set ready"
  using assms
proof (induction ready arbitrary: nc cs b)
  case (Cons x ready)
  obtain con ra where x: "x = (con, ra)" by (cases x)
  show ?case
  proof (cases "node_id ra = ''''")
    case True
    then show ?thesis using Cons.IH [of b nc cs] Cons.prems by (auto simp: x)
  next
    case False
    obtain sc b1 where g: "v1_getSubConn (node_id ra) con ra b = (sc, b1)" by fastforce
    have b1: "vb_picker b1 = Some old" "length (vb_heap b) \<le> length (vb_heap b1)" "\<forall>r < length (vb_heap b). vb_heap b1 ! r = vb_heap b ! r"
      using g Cons.prems(1,2) by (auto simp: x v1_getSubConn_def v1_createNewSubConn_def nth_append)
    have "v1_build_loop ready (sm_store (node_id ra) sc nc) (cs @ [sc]) b1 = (nc', cs', b')" using Cons.prems(3) False g by (simp add: x)
    from Cons.IH [OF b1(1) _ this] Cons.prems(2) b1(2,3) show ?thesis
      by (auto simp: x dest!: set_sm_store)
  qed
qed auto

text \<open>Since all services share the builder, a build for one service closes every connection of the service built before,
  if their nodes differ, and forgets its capacities.\<close>

theorem v1_services_interfere:
  assumes "vb_picker b = Some old" and "\<forall>(n, r) \<in> set (pk_nodes old). r < length (vb_heap b)"
    and "\<forall>(con, ra) \<in> set ready. sm_load (pk_nodes old) (node_id ra) = None" and "v1_Build ready b = (p, b', shut)"
  shows "shut = map (\<lambda>(n, r). CcShutdown (sc_SubConn (vb_heap b ! r))) (pk_nodes old)
     \<and> vb_picker b' = Some p \<and> (\<forall>(n, r) \<in> set (pk_nodes old). sm_load (pk_nodes p) n = None)"
proof -
  obtain nc cs b1 where l: "v1_build_loop ready [] [] b = (nc, cs, b1)" by (cases "v1_build_loop ready [] [] b") auto
  note f = v1_build_loop_foreign [OF assms(1,3) l]
  have nc: "sm_load nc n = None" if "(n, r) \<in> set (pk_nodes old)" for n r
  proof -
    have "sm_load (pk_nodes old) n \<noteq> None" using that by (metis map_of_eq_None_iff fst_conv image_eqI)
    then have "n \<notin> node_id ` snd ` set ready" using assms(3) by auto
    then show ?thesis using f by (auto simp: map_of_eq_None_iff)
  qed
  have "concat (map (\<lambda>(nodeID, oldConn). case sm_load nc nodeID of
                 None \<Rightarrow> [CcShutdown (sc_SubConn (vb_heap b1 ! oldConn))]
               | Some newSc \<Rightarrow> if newSc \<noteq> oldConn then [CcShutdown (sc_SubConn (vb_heap b1 ! oldConn))] else []) ns)
      = map (\<lambda>(n, r). CcShutdown (sc_SubConn (vb_heap b ! r))) ns" if "set ns \<subseteq> set (pk_nodes old)" for ns
    using that
  proof (induction ns)
    case (Cons y ns)
    then show ?case using nc f assms(2) by (cases y) fastforce
  qed simp
  then show ?thesis using assms(1,4) l nc by (auto simp: v1_Build_def Let_def)
qed

definition ex_v1_addr :: "string \<Rightarrow> resolver_address" where
  "ex_v1_addr n = \<lparr>ra_Addr = n, ra_ServerName = n, ra_Attributes = [''nodeID'' \<mapsto> AStr n]\<rparr>"

theorem v1_services_interfere_witness:
  "\<exists>p b p' b'. v1_Build [(0, ex_v1_addr ''a'')] v1_NewBuilder = (p, b, []) \<and> v1_Build [(1, ex_v1_addr ''b'')] b = (p', b', [CcShutdown 0])"
proof -
  have n [simp]: "node_id (ex_v1_addr n) = n" for n by (simp add: node_id_def attrAs_string_def ex_v1_addr_def attrNodeID_def)
  obtain p b where b: "v1_Build [(0, ex_v1_addr ''a'')] v1_NewBuilder = (p, b, [])"
    and p: "vb_picker b = Some p" "pk_nodes p = [(''a'', 0)]" "length (vb_heap b) = 1" "sc_SubConn (vb_heap b ! 0) = 0"
    by (simp add: v1_Build_def v1_NewBuilder_def v1_getSubConn_def v1_createNewSubConn_def Let_def)
  obtain p' b' shut where b': "v1_Build [(1, ex_v1_addr ''b'')] b = (p', b', shut)" by (cases "v1_Build [(1, ex_v1_addr ''b'')] b") auto
  have "shut = [CcShutdown 0]" using v1_services_interfere [OF p(1) _ _ b'] p by simp
  with b b' show ?thesis by blast
qed

end
