(* ===== verification/GW_Discovery.thy ===== *)
theory GW_Discovery
  imports GW_Balancer GW_Etcd
begin

text \<open>
  Finding the backends: the service registry in etcd (\<open>pkg/grpc/registry\<close>), the resolver that turns its instances into
  addresses for the balancer (\<open>pkg/grpc/resolver.go\<close>), and the clients cached by service name (\<open>clients.go\<close>,
  \<open>clients_v2.go\<close>).
\<close>

subsection \<open>The service registry\<close>

record service_instance =
  si_Name :: string
  si_Address :: string
  si_ID :: string
  si_InitCapacity :: int
  si_MaxCapacity :: int
  si_IncreaseStep :: int
  si_GrowthRate :: f64

datatype event_type = EventTypeUnknown | EventTypeAdd | EventTypeDelete

definition IsAdd :: "event_type \<Rightarrow> bool" where
  "IsAdd t \<longleftrightarrow> t = EventTypeAdd"

definition IsDelete :: "event_type \<Rightarrow> bool" where
  "IsDelete t \<longleftrightarrow> t = EventTypeDelete"

text \<open>\<open>json.Marshal\<close> and \<open>json.Unmarshal\<close> of an instance; \<open>svc_json_ok\<close>: decoding inverts encoding.\<close>

record svc_json =
  sj_marshal :: "service_instance \<Rightarrow> gerr + string"
  sj_unmarshal :: "string \<Rightarrow> gerr + service_instance"

definition svc_json_ok :: "svc_json \<Rightarrow> bool" where
  "svc_json_ok J \<longleftrightarrow> (\<forall>si s. sj_marshal J si = Inr s \<longrightarrow> sj_unmarshal J s = Inr si)"

definition defaultPrefix :: string where
  "defaultPrefix = ''/services/gateway/backend''"

definition instanceKey :: "service_instance \<Rightarrow> string" where
  "instanceKey s = defaultPrefix @ ''/'' @ si_Name s @ ''/'' @ si_Address s"

definition serviceKey :: "string \<Rightarrow> string" where
  "serviceKey name = defaultPrefix @ ''/'' @ name"

text \<open>\<open>lease\<close>: the lease of the registry's session.\<close>

definition svc_Register :: "'e etcd \<Rightarrow> svc_json \<Rightarrow> remote_call \<Rightarrow> int \<Rightarrow> service_instance \<Rightarrow> 'e \<Rightarrow> gerr option \<times> 'e" where
  "svc_Register C J c lease si e =
     (case sj_marshal J si of
        Inl err \<Rightarrow> (Some err, e)
      | Inr val \<Rightarrow> etcd_Put C c (instanceKey si) val (Some lease) e)"

definition svc_UnRegister :: "'e etcd \<Rightarrow> remote_call \<Rightarrow> service_instance \<Rightarrow> 'e \<Rightarrow> gerr option \<times> 'e" where
  "svc_UnRegister C c si e = etcd_Delete C c (instanceKey si) e"

fun decode_instances :: "svc_json \<Rightarrow> (string \<times> string) list \<Rightarrow> gerr + service_instance list" where
  "decode_instances J [] = Inr []"
| "decode_instances J ((k, v) # kvs) =
     (case sj_unmarshal J v of
        Inl err \<Rightarrow> Inl err
      | Inr si \<Rightarrow> (case decode_instances J kvs of Inl err \<Rightarrow> Inl err | Inr sis \<Rightarrow> Inr (si # sis)))"

definition ListServices :: "'e etcd \<Rightarrow> svc_json \<Rightarrow> remote_call \<Rightarrow> string \<Rightarrow> 'e \<Rightarrow> gerr + service_instance list" where
  "ListServices C J c name e =
     (case etcd_List C c (serviceKey name) e of Inl err \<Rightarrow> Inl err | Inr kvs \<Rightarrow> decode_instances J kvs)"

text \<open>The goroutine of \<open>Subscribe\<close>: what its select meets (a response: cancelled, an error, events; the closed watch
  channel, which yields zero responses; the context done), the events it passes on, and whether it has returned.\<close>

datatype mvcc_event = PUT | DELETE

definition typesMap :: "mvcc_event \<Rightarrow> event_type" where
  "typesMap t = (case t of PUT \<Rightarrow> EventTypeAdd | DELETE \<Rightarrow> EventTypeDelete)"

datatype watch_event = WatchResponse bool "gerr option" "mvcc_event list" | WatchChanClosed | WatchCtxDone

fun Subscribe_loop :: "watch_event list \<Rightarrow> event_type list \<times> bool" where
  "Subscribe_loop [] = ([], False)"
| "Subscribe_loop (WatchResponse canceled err evs # ws) =
     (if canceled then ([], True)
      else if err \<noteq> None then Subscribe_loop ws
      else let (out, r) = Subscribe_loop ws in (map typesMap evs @ out, r))"
| "Subscribe_loop (WatchChanClosed # ws) = Subscribe_loop ws"
| "Subscribe_loop (WatchCtxDone # ws) = ([], True)"

text \<open>Closing cancels the watches (the second result: how many) and closes the session, which revokes its lease.\<close>

definition svc_Close :: "'e etcd \<Rightarrow> remote_call \<Rightarrow> int \<Rightarrow> nat \<Rightarrow> 'e \<Rightarrow> gerr option \<times> nat \<times> 'e" where
  "svc_Close C c lease watchCancel e = (let (err, e') = etcd_Revoke C c lease e in (err, watchCancel, e'))"

subsection \<open>The resolver\<close>

datatype resolver_call = RcUpdateState "resolver_address list" | RcReportError gerr

definition instance_address :: "service_instance \<Rightarrow> resolver_address" where
  "instance_address ins =
     \<lparr>ra_Addr = si_Address ins, ra_ServerName = si_Name ins,
      ra_Attributes = [''initCapacity'' \<mapsto> AInt (si_InitCapacity ins), ''maxCapacity'' \<mapsto> AInt (si_MaxCapacity ins),
        ''increaseStep'' \<mapsto> AInt (si_IncreaseStep ins), ''growthRate'' \<mapsto> AFloat (si_GrowthRate ins),
        ''nodeID'' \<mapsto> AStr (si_Name ins @ ''-'' @ si_ID ins)]\<rparr>"

text \<open>One \<open>resolve\<close>: the calls on gRPC's \<open>ClientConn\<close>, given what \<open>ListServices\<close> and \<open>UpdateState\<close> return.\<close>

definition resolve :: "gerr + service_instance list \<Rightarrow> gerr option \<Rightarrow> resolver_call list" where
  "resolve instances upd =
     (case instances of Inl err \<Rightarrow> [RcReportError err] | Inr _ \<Rightarrow> [])
     @ [RcUpdateState (map instance_address (case instances of Inl err \<Rightarrow> [] | Inr ins \<Rightarrow> ins))]
     @ (case upd of None \<Rightarrow> [] | Some err \<Rightarrow> [RcReportError err])"

text \<open>The resolver after \<open>Build\<close>: it resolves once, then for each event until \<open>Close\<close>. Of its buffered channel: whether a close
  is pending; of its goroutine: whether it runs.\<close>

record backend_resolver =
  br_calls :: "resolver_call list"
  br_closing :: bool
  br_watching :: bool

definition resolver_Build :: "gerr + service_instance list \<Rightarrow> gerr option \<Rightarrow> backend_resolver" where
  "resolver_Build instances upd = \<lparr>br_calls = resolve instances upd, br_closing = False, br_watching = True\<rparr>"

definition ResolveNow :: "gerr + service_instance list \<Rightarrow> gerr option \<Rightarrow> backend_resolver \<Rightarrow> backend_resolver" where
  "ResolveNow instances upd g = g\<lparr>br_calls := br_calls g @ resolve instances upd\<rparr>"

text \<open>One round of \<open>watch\<close>, for an event (\<open>True\<close>) or the close message.\<close>

definition watch_round :: "bool \<Rightarrow> gerr + service_instance list \<Rightarrow> gerr option \<Rightarrow> backend_resolver \<Rightarrow> backend_resolver" where
  "watch_round ev instances upd g =
     (if \<not> br_watching g then g
      else if ev then g\<lparr>br_calls := br_calls g @ resolve instances upd\<rparr>
      else if br_closing g then g\<lparr>br_closing := False, br_watching := False\<rparr>
      else g)"

definition resolver_Close :: "backend_resolver \<Rightarrow> backend_resolver exec" where
  "resolver_Close g = (if br_closing g then Block else Ret (g\<lparr>br_closing := True\<rparr>))"

subsection \<open>Clients\<close>

text \<open>\<open>Get\<close> of both kinds of clients: loading, then building a connection for the target and the client, then storing it. One
  step makes one access to the shared map; \<open>dial\<close> builds the client, or panics.\<close>

datatype 'c get_pc = CgLoad | CgBuild | CgStore 'c | CgDone 'c | CgPanic

definition clients_Get :: "(string \<Rightarrow> 'c exec) \<Rightarrow> string \<Rightarrow> 'c get_pc \<Rightarrow> (string, 'c) smap \<Rightarrow> 'c get_pc \<times> (string, 'c) smap" where
  "clients_Get dial serviceName pc m =
     (case pc of
        CgLoad \<Rightarrow> (case sm_load m serviceName of Some client \<Rightarrow> (CgDone client, m) | None \<Rightarrow> (CgBuild, m))
      | CgBuild \<Rightarrow> (case dial (''etcd:///'' @ serviceName) of Ret client \<Rightarrow> (CgStore client, m) | _ \<Rightarrow> (CgPanic, m))
      | CgStore client \<Rightarrow> (CgDone client, sm_store serviceName client m)
      | CgDone client \<Rightarrow> (CgDone client, m)
      | CgPanic \<Rightarrow> (CgPanic, m))"

definition clientsV2_Get :: "(string \<Rightarrow> 'c exec) \<Rightarrow> string \<Rightarrow> 'c get_pc \<Rightarrow> (string, 'c) smap \<Rightarrow> 'c get_pc \<times> (string, 'c) smap" where
  "clientsV2_Get dial serviceName pc m =
     (case pc of
        CgLoad \<Rightarrow> (case sm_load m serviceName of Some client \<Rightarrow> (CgDone client, m) | None \<Rightarrow> (CgBuild, m))
      | CgBuild \<Rightarrow> (case dial (''backend:///'' @ serviceName) of Ret client \<Rightarrow> (CgStore client, m) | _ \<Rightarrow> (CgPanic, m))
      | CgStore client \<Rightarrow> (CgDone client, sm_store serviceName client m)
      | CgDone client \<Rightarrow> (CgDone client, m)
      | CgPanic \<Rightarrow> (CgPanic, m))"

subsection \<open>What is listed\<close>

text \<open>Every record under the prefix is an instance that stands under its own key.\<close>

definition svc_keyed :: "'e etcd \<Rightarrow> svc_json \<Rightarrow> 'e \<Rightarrow> bool" where
  "svc_keyed C J e \<longleftrightarrow> (\<forall>k v r. ec_get C k e = Some (v, r) \<and> is_prefix (serviceKey '''') k
     \<longrightarrow> (\<exists>si. sj_unmarshal J v = Inr si \<and> k = instanceKey si))"

definition registered :: "'e etcd \<Rightarrow> svc_json \<Rightarrow> 'e \<Rightarrow> service_instance \<Rightarrow> bool" where
  "registered C J e si \<longleftrightarrow> (\<exists>v r. ec_get C (instanceKey si) e = Some (v, r) \<and> sj_unmarshal J v = Inr si)"

lemma is_prefix_append: "is_prefix p k \<longleftrightarrow> (\<exists>s. k = p @ s)"
  unfolding is_prefix_def by (metis append_take_drop_id append_eq_conv_conj)

lemma serviceKey_instanceKey: "is_prefix (serviceKey name) (instanceKey si) \<longleftrightarrow> is_prefix name (si_Name si @ ''/'' @ si_Address si)"
  by (auto simp: is_prefix_append serviceKey_def instanceKey_def)

lemma decode_all:
  "(\<forall>(k, v) \<in> set kvs. \<exists>si. sj_unmarshal J v = Inr si) \<Longrightarrow>
     \<exists>sis. decode_instances J kvs = Inr sis \<and> set sis = {si. \<exists>(k, v) \<in> set kvs. sj_unmarshal J v = Inr si}"
proof (induction J kvs rule: decode_instances.induct)
  case (2 J k v kvs)
  then obtain si where si: "sj_unmarshal J v = Inr si" by auto
  from "2.IH" [OF si] "2.prems" obtain sis where "decode_instances J kvs = Inr sis" "set sis = {si. \<exists>(k, v) \<in> set kvs. sj_unmarshal J v = Inr si}"
    by auto
  then show ?case by (auto simp: si)
qed simp

lemma list_keyed:
  assumes ok: "etcd_ok C" and k: "svc_keyed C J e"
  shows "\<exists>sis. ListServices C J ROk name e = Inr sis
     \<and> set sis = {si. registered C J e si \<and> is_prefix name (si_Name si @ ''/'' @ si_Address si)}"
proof -
  let ?kvs = "ec_list C (serviceKey name) e"
  have l: "(k, v) \<in> set ?kvs \<longleftrightarrow> is_prefix (serviceKey name) k \<and> (\<exists>r. ec_get C k e = Some (v, r))" for k v
  proof -
    have "(k, v) \<in> set ?kvs \<longleftrightarrow> map_of ?kvs k = Some v" using etcd_list [OF ok, of "serviceKey name" e] by (metis map_of_eq_Some_iff)
    also have "\<dots> \<longleftrightarrow> is_prefix (serviceKey name) k \<and> (\<exists>r. ec_get C k e = Some (v, r))"
      using etcd_list [OF ok, of "serviceKey name" e] by auto
    finally show ?thesis .
  qed
  have p: "is_prefix (serviceKey '''') k" if "is_prefix (serviceKey name) k" for k
    using that by (auto simp: is_prefix_append serviceKey_def)
  have u: "\<exists>si. sj_unmarshal J v = Inr si \<and> k = instanceKey si \<and> registered C J e si" if "(k, v) \<in> set ?kvs" for k v
    using that k p unfolding l svc_keyed_def registered_def by blast
  then obtain sis where sis: "decode_instances J ?kvs = Inr sis" "set sis = {si. \<exists>(k, v) \<in> set ?kvs. sj_unmarshal J v = Inr si}"
    using decode_all [of ?kvs J] by blast
  have "si \<in> set sis \<longleftrightarrow> registered C J e si \<and> is_prefix name (si_Name si @ ''/'' @ si_Address si)" for si
  proof
    assume "si \<in> set sis"
    then obtain k v where kv: "(k, v) \<in> set ?kvs" "sj_unmarshal J v = Inr si" using sis(2) by blast
    from u [OF kv(1)] kv(2) have "k = instanceKey si" "registered C J e si" by auto
    then show "registered C J e si \<and> is_prefix name (si_Name si @ ''/'' @ si_Address si)" using kv(1) l serviceKey_instanceKey by blast
  next
    assume "registered C J e si \<and> is_prefix name (si_Name si @ ''/'' @ si_Address si)"
    then obtain v where "(instanceKey si, v) \<in> set ?kvs" "sj_unmarshal J v = Inr si" unfolding l registered_def serviceKey_instanceKey by blast
    then show "si \<in> set sis" using sis(2) by blast
  qed
  then show ?thesis using sis(1) by (auto simp: ListServices_def etcd_List_def)
qed

text \<open>\<open>ListServices\<close> returns every registered instance of the service, and with them those of any other service whose name
  or address path merely begins with the name asked for: the prefix does not end in a separator.\<close>

theorem svc_list_prefix:
  assumes "etcd_ok C" and "svc_keyed C J e" and "ListServices C J ROk name e = Inr sis"
  shows "si \<in> set sis \<longleftrightarrow> registered C J e si \<and> is_prefix name (si_Name si @ ''/'' @ si_Address si)"
  using list_keyed [OF assms(1,2), of name] assms(3) by auto

text \<open>The life of an instance: registered it is listed; unregistered, or its session closed, it is not; other instances are
  listed as before, until their own session closes.\<close>

theorem svc_lifecycle:
  assumes ok: "etcd_ok C" and j: "svc_json_ok J" and k: "svc_keyed C J e" and r: "svc_Register C J ROk lease si e = (None, e1)"
  shows "svc_keyed C J e1 \<and> registered C J e1 si
     \<and> (\<forall>si'. instanceKey si' \<noteq> instanceKey si \<longrightarrow> registered C J e1 si' = registered C J e si')
     \<and> (\<forall>e2. svc_UnRegister C ROk si e1 = (None, e2) \<longrightarrow> \<not> registered C J e2 si)
     \<and> (\<forall>n e2. svc_Close C ROk lease n e1 = (None, n, e2) \<longrightarrow> \<not> registered C J e2 si)"
proof -
  obtain v where v: "sj_marshal J si = Inr v" and p: "ec_put C (instanceKey si) v (Some lease) e = Some e1"
    using r by (auto simp: svc_Register_def etcd_Put_ok split: sum.splits)
  note l = etcd_put [OF ok p]
  have d: "sj_unmarshal J v = Inr si" using v j by (simp add: svc_json_ok_def)
  have "svc_keyed C J e1" unfolding svc_keyed_def
  proof (intro allI impI)
    fix k v' r assume a: "ec_get C k e1 = Some (v', r) \<and> is_prefix (serviceKey '''') k"
    show "\<exists>si. sj_unmarshal J v' = Inr si \<and> k = instanceKey si"
    proof (cases "k = instanceKey si")
      case True
      then show ?thesis using a l d by auto
    next
      case False
      then show ?thesis using a l k unfolding svc_keyed_def by metis
    qed
  qed
  moreover have "registered C J e1 si" using l d by (simp add: registered_def)
  moreover have "registered C J e1 si' = registered C J e si'" if "instanceKey si' \<noteq> instanceKey si" for si'
    using l that by (simp add: registered_def)
  moreover have "\<not> registered C J e2 si" if "svc_UnRegister C ROk si e1 = (None, e2)" for e2
    using that etcd_delete [OF ok, of e1 "instanceKey si"] by (simp add: svc_UnRegister_def etcd_Delete_def flatten_call_def registered_def)
  moreover have "\<not> registered C J e2 si" if "svc_Close C ROk lease n e1 = (None, n, e2)" for n e2
  proof -
    have "ec_revoke C lease e1 = Some e2" using that by (auto simp: svc_Close_def Let_def etcd_Revoke_ok split: prod.splits)
    from etcd_revoke [OF ok this] l show ?thesis by (simp add: registered_def)
  qed
  ultimately show ?thesis by blast
qed

subsection \<open>From the registry to the balancer\<close>

lemma instance_address_attrs [simp]:
  "ra_Addr (instance_address si) = si_Address si" "node_id (instance_address si) = si_Name si @ ''-'' @ si_ID si"
  "attrAs_int (instance_address si) attrInitCap d = si_InitCapacity si" "attrAs_int (instance_address si) attrMaxCap d = si_MaxCapacity si"
  "attrAs_int (instance_address si) attrStep d = si_IncreaseStep si" "attrAs_float (instance_address si) attrRate f = si_GrowthRate si"
  by (simp_all add: instance_address_def node_id_def attrAs_string_def attrAs_int_def attrAs_float_def attrNodeID_def attrMaxCap_def
      attrInitCap_def attrStep_def attrRate_def)

text \<open>gRPC forwards an \<open>UpdateState\<close> of the resolver to the balancer.\<close>

fun forward :: "(resolver_address \<Rightarrow> bool) \<Rightarrow> ((nat \<times> resolver_address) list \<Rightarrow> (nat \<times> resolver_address) list) \<Rightarrow> resolver_call list
     \<Rightarrow> cap_balancer \<Rightarrow> cap_balancer exec" where
  "forward accepts order [] b = Ret b"
| "forward accepts order (RcUpdateState addrs # cs) b = exec_bind (UpdateClientConnState accepts order addrs b) (forward accepts order cs)"
| "forward accepts order (RcReportError err # cs) b = forward accepts order cs (ResolverError err b)"

lemma add_conns_covers:
  assumes "bal_wf b" and "cb_subConns b \<noteq> None" and "\<forall>a \<in> set addrs. accepts a"
  shows "\<exists>b'. add_conns accepts addrs b = Ret b' \<and> cb_subConns b' \<noteq> None
     \<and> (\<forall>x. x \<in> (\<lambda>(sc, info). ra_Addr (si_addr info)) ` set (conns_of b')
          \<longleftrightarrow> x \<in> (\<lambda>(sc, info). ra_Addr (si_addr info)) ` set (conns_of b) \<or> x \<in> ra_Addr ` set addrs)"
  using assms
proof (induction accepts addrs b rule: add_conns.induct)
  case (2 accepts addr addrs b)
  let ?A = "\<lambda>b. (\<lambda>(sc, info). ra_Addr (si_addr info)) ` set (conns_of b)"
  show ?case
  proof (cases "\<exists>(sc, info) \<in> set (conns_of b). ra_Addr (si_addr info) = ra_Addr addr")
    case True
    then have "ra_Addr addr \<in> ?A b" by force
    with "2.IH"(1) [OF True "2.prems"(1,2)] "2.prems"(3) True show ?thesis by auto
  next
    case False
    obtain m where m: "cb_subConns b = Some m" using "2.prems"(2) by blast
    let ?b = "b\<lparr>cb_subConns := Some (sm_store (cb_next b) \<lparr>si_addr = addr, si_state = Idle\<rparr> m), cb_next := cb_next b + 1,
               cb_calls := cb_calls b @ [CcConnect (cb_next b)]\<rparr>"
    note c = conns_of_Some [OF m]
    have n: "sm_load m (cb_next b) = None" using "2.prems"(1) by (auto simp: bal_wf_def c map_of_eq_None_iff)
    have wf: "bal_wf ?b" using "2.prems"(1) False by (fastforce simp: bal_wf_def c sm_store_new [OF n] sm_ok_def map_of_eq_None_iff)
    have A: "x \<in> ?A ?b \<longleftrightarrow> x \<in> ?A b \<or> x = ra_Addr addr" for x by (auto simp: sm_store_new [OF n] c)
    have "\<exists>b'. add_conns accepts addrs ?b = Ret b' \<and> cb_subConns b' \<noteq> None \<and> (\<forall>x. x \<in> ?A b' \<longleftrightarrow> x \<in> ?A ?b \<or> x \<in> ra_Addr ` set addrs)"
      using "2.IH"(3) [OF False _ m wf] "2.prems"(3) by auto
    then obtain b' where "add_conns accepts addrs ?b = Ret b'" "cb_subConns b' \<noteq> None" "\<forall>x. x \<in> ?A b' \<longleftrightarrow> x \<in> ?A ?b \<or> x \<in> ra_Addr ` set addrs"
      by blast
    moreover from this have "add_conns accepts (addr # addrs) b = Ret b'" using False m "2.prems"(3) by simp
    ultimately show ?thesis using A by auto
  qed
qed simp

lemma update_covers:
  assumes i: "bal_inv (b, R)" and "cb_subConns b \<noteq> None" and "\<forall>a \<in> set addrs. accepts a" and perm: "\<And>xs. mset (order xs) = mset xs"
  shows "\<exists>b'. UpdateClientConnState accepts order addrs b = Ret b' \<and> bal_inv (b', R) \<and> cb_subConns b' \<noteq> None
     \<and> (\<lambda>(sc, info). ra_Addr (si_addr info)) ` set (conns_of b') = ra_Addr ` set addrs"
proof -
  let ?b = "remove_conns addrs b" and ?A = "\<lambda>b. (\<lambda>(sc, info). ra_Addr (si_addr info)) ` set (conns_of b)"
  have c: "conns_of ?b = filter (\<lambda>(sc, info). ra_Addr (si_addr info) \<in> ra_Addr ` set addrs) (conns_of b)"
    by (simp add: remove_conns_def Let_def)
  have wf: "bal_wf ?b" "cb_subConns ?b \<noteq> None"
    using i assms(2) remove_conns_inv [of b R addrs] by (auto simp: bal_inv_def remove_conns_def Let_def)
  from add_conns_covers [OF wf assms(3)] obtain b1 where b1: "add_conns accepts addrs ?b = Ret b1" "cb_subConns b1 \<noteq> None"
    "\<forall>x. x \<in> ?A b1 \<longleftrightarrow> x \<in> ?A ?b \<or> x \<in> ra_Addr ` set addrs" by blast
  have u: "UpdateClientConnState accepts order addrs b = Ret (updatePicker order b1)" using b1 by (simp add: UpdateClientConnState_def)
  have inv: "bal_inv (updatePicker order b1, R)" by (rule bal_step_inv [OF i bal_update [of order "\<lambda>_. True", OF perm _ u]]) simp
  have "bal_wf b1" using add_conns_inv [OF wf(1) _ b1(1)] i remove_conns_inv [of b R addrs] by (auto simp: bal_inv_def)
  note up = updatePicker_ok(2) [OF this perm]
  have "?A ?b \<subseteq> ra_Addr ` set addrs" by (auto simp: c)
  with b1(3) have "?A b1 = ra_Addr ` set addrs" by blast
  then show ?thesis using u inv b1(2) up by (auto simp: conns_of_def)
qed

text \<open>The connections of a balancer that serves what is registered: one for the address of every registered instance whose key
  begins with the service's, none else, and each is either as it was before the resolve or created from a registered
  instance: with its node id and all four of its capacity attributes.\<close>

definition instance_capacity :: "service_instance \<Rightarrow> nat \<Rightarrow> sub_conn" where
  "instance_capacity si sc =
     \<lparr>sc_SubConn = sc, sc_addr = instance_address si, sc_id = si_Name si @ ''-'' @ si_ID si, sc_curCapacity = si_InitCapacity si,
      sc_maxCapacity = si_MaxCapacity si, sc_increaseStep = si_IncreaseStep si, sc_growthRate = si_GrowthRate si\<rparr>"

definition listed :: "'e etcd \<Rightarrow> svc_json \<Rightarrow> string \<Rightarrow> 'e \<Rightarrow> service_instance set" where
  "listed C J name e = {si. registered C J e si \<and> is_prefix name (si_Name si @ ''/'' @ si_Address si)}"

definition conn_addrs :: "cap_balancer \<Rightarrow> string list" where
  "conn_addrs b = map (\<lambda>(sc, info). ra_Addr (si_addr info)) (conns_of b)"

definition serves :: "service_instance set \<Rightarrow> cap_balancer \<Rightarrow> cap_balancer \<Rightarrow> bool" where
  "serves L b b' \<longleftrightarrow> set (conn_addrs b') = si_Address ` L \<and> distinct (conn_addrs b')
     \<and> (\<forall>(sc, info) \<in> set (conns_of b'). (sc, info) \<in> set (conns_of b)
          \<or> (\<exists>si \<in> L. createNewSubConn (node_id (si_addr info)) sc (si_addr info) = instance_capacity si sc))"

lemma instance_capacity:
  "createNewSubConn (node_id (instance_address si)) sc (instance_address si) = instance_capacity si sc"
  by (simp add: createNewSubConn_def instance_capacity_def)

lemma resolve_connects:
  assumes i: "bal_inv (b, R)" and s: "cb_subConns b \<noteq> None" and p: "\<And>xs. mset (order xs) = mset xs"
  shows "\<exists>b'. forward (\<lambda>_. True) order (resolve (Inr sis) None) b = Ret b' \<and> bal_inv (b', R) \<and> cb_subConns b' \<noteq> None
     \<and> serves (set sis) b b'"
proof -
  let ?as = "map instance_address sis"
  from update_covers [OF i s _ p, of ?as "\<lambda>_. True"] obtain b' where b': "UpdateClientConnState (\<lambda>_. True) order ?as b = Ret b'"
    "bal_inv (b', R)" "cb_subConns b' \<noteq> None" "(\<lambda>(sc, info). ra_Addr (si_addr info)) ` set (conns_of b') = ra_Addr ` set ?as" by blast
  obtain b1 where b1: "add_conns (\<lambda>_. True) ?as (remove_conns ?as b) = Ret b1" "b' = updatePicker order b1"
    using b'(1) by (auto simp: UpdateClientConnState_def exec_bind_Ret)
  have w: "bal_wf (remove_conns ?as b)" "bal_wf b1" using i remove_conns_inv [of b R ?as] add_conns_inv [OF _ _ b1(1)] by (auto simp: bal_inv_def)
  have "conns_of b' = conns_of b1" using updatePicker_ok(2) [OF w(2) p] by (simp add: b1 conns_of_def)
  moreover have "set (conns_of (remove_conns ?as b)) \<subseteq> set (conns_of b)" by (auto simp: remove_conns_def Let_def)
  ultimately have "(sc, info) \<in> set (conns_of b) \<or> si_addr info \<in> instance_address ` set sis" if "(sc, info) \<in> set (conns_of b')" for sc info
    using add_conns_frame [OF w(1) b1(1)] that by fastforce
  moreover have "\<exists>si \<in> set sis. createNewSubConn (node_id a) sc a = instance_capacity si sc" if "a \<in> instance_address ` set sis" for a sc
    using that instance_capacity by blast
  ultimately have "\<forall>(sc, info) \<in> set (conns_of b'). (sc, info) \<in> set (conns_of b)
      \<or> (\<exists>si \<in> set sis. createNewSubConn (node_id (si_addr info)) sc (si_addr info) = instance_capacity si sc)"
    by blast
  moreover have "forward (\<lambda>_. True) order (resolve (Inr sis) None) b = Ret b'" using b'(1) by (simp add: resolve_def)
  moreover have "ra_Addr ` set ?as = si_Address ` set sis" by (simp add: image_image)
  ultimately show ?thesis using b'(2-4) by (auto simp: bal_inv_def bal_wf_def serves_def conn_addrs_def)
qed

lemma list_serves:
  assumes ok: "etcd_ok C" and k: "svc_keyed C J e" and i: "bal_inv (b, R)" and s: "cb_subConns b \<noteq> None" and p: "\<And>xs. mset (order xs) = mset xs"
  shows "\<exists>b'. forward (\<lambda>_. True) order (resolve (ListServices C J ROk name e) None) b = Ret b' \<and> bal_inv (b', R) \<and> cb_subConns b' \<noteq> None
     \<and> serves (listed C J name e) b b'"
  using list_keyed [OF ok k, of name] resolve_connects [OF i s p] unfolding listed_def by metis

lemma unregister_keyed:
  assumes ok: "etcd_ok C" and k: "svc_keyed C J e" and u: "svc_UnRegister C ROk si e = (None, e2)"
  shows "svc_keyed C J e2" and "registered C J e2 si' \<longleftrightarrow> instanceKey si' \<noteq> instanceKey si \<and> registered C J e si'"
proof -
  have e2: "e2 = ec_delete C (instanceKey si) e" using u by (simp add: svc_UnRegister_def etcd_Delete_def flatten_call_def)
  note d = etcd_delete [OF ok, of e "instanceKey si", folded e2]
  have g: "ec_get C k' e2 = (if k' = instanceKey si then None else ec_get C k' e)" for k' using d by simp
  show "svc_keyed C J e2" using k unfolding svc_keyed_def g by (metis option.distinct(1))
  show "registered C J e2 si' \<longleftrightarrow> instanceKey si' \<noteq> instanceKey si \<and> registered C J e si'" by (simp add: registered_def g)
qed

text \<open>C32. From the registry to the connections. Once an instance of a service is registered, a resolve of the service (its
  \<open>ListServices\<close>, whose answer gRPC hands to the balancer and whose new connections gRPC creates) leaves the balancer, in any
  state it can reach before \<open>Close\<close>, with one connection for the address of each instance registered under the service's key
  prefix, the new one among them, and none else. A connection the resolve created has the node id and the capacities of a
  registered instance, never the picker's defaults; one whose address was known is kept as it was, attributes included. After
  \<open>UnRegister\<close> the instance is gone from what the next resolve lists, and every connection left is one of another registered
  instance: the instance's own is shut down unless another instance has its address.\<close>

theorem discovery_connects:
  assumes ok: "etcd_ok C" and j: "svc_json_ok J" and k: "svc_keyed C J e"
    and r: "svc_Register C J ROk lease si e = (None, e1)" and u: "svc_UnRegister C ROk si e1 = (None, e2)"
    and b: "reach bal_init (bal_step U) (b, R)" "cb_subConns b \<noteq> None" and p: "\<And>xs. mset (order xs) = mset xs"
  shows "\<exists>b1 b2. forward (\<lambda>_. True) order (resolve (ListServices C J ROk (si_Name si) e1) None) b = Ret b1
     \<and> serves (listed C J (si_Name si) e1) b b1 \<and> si_Address si \<in> set (conn_addrs b1)
     \<and> forward (\<lambda>_. True) order (resolve (ListServices C J ROk (si_Name si) e2) None) b1 = Ret b2
     \<and> serves (listed C J (si_Name si) e1 - {si'. instanceKey si' = instanceKey si}) b1 b2"
proof -
  note l = svc_lifecycle [OF ok j k r] and v = unregister_keyed [OF ok _ u]
  have k1: "svc_keyed C J e1" and r1: "registered C J e1 si" using l by blast+
  obtain b1 where b1: "forward (\<lambda>_. True) order (resolve (ListServices C J ROk (si_Name si) e1) None) b = Ret b1" "bal_inv (b1, R)"
    "cb_subConns b1 \<noteq> None" "serves (listed C J (si_Name si) e1) b b1"
    using list_serves [OF ok k1 bal_reach_inv [OF b(1)] b(2) p, where name = "si_Name si"] by blast
  have "si \<in> listed C J (si_Name si) e1" using r1 by (auto simp: listed_def is_prefix_append)
  then have a: "si_Address si \<in> set (conn_addrs b1)" using b1(4) unfolding serves_def by blast
  have "listed C J (si_Name si) e2 = listed C J (si_Name si) e1 - {si'. instanceKey si' = instanceKey si}"
    by (auto simp: listed_def v(2) [OF k1])
  with b1 a list_serves [OF ok v(1) [OF k1] b1(2,3) p, where name = "si_Name si"] show ?thesis by metis
qed

text \<open>A resolve whose \<open>ListServices\<close> fails does not leave things as they are: it reports the error and then publishes the empty
  list, so the balancer closes every connection it has and publishes an error picker, although no backend is gone.\<close>

theorem resolver_error_drops:
  assumes "reach bal_init (bal_step U) (b, R)" and "cb_subConns b \<noteq> None" and "ListServices C J c name e = Inl err"
  shows "\<exists>b'. forward accepts order (resolve (ListServices C J c name e) None) b = Ret b' \<and> cb_subConns b' = Some []
     \<and> cb_published b' = Some (TransientFailure, Inl (Sen ErrNoSubConnAvailable))
     \<and> (\<forall>(sc, info) \<in> set (conns_of b). CcShutdown sc \<in> set (cb_calls b'))"
proof -
  obtain m where m: "cb_subConns b = Some m" using assms(2) by blast
  let ?b = "ResolverError err b"
  have c: "cb_subConns ?b = Some m" "conns_of ?b = conns_of b" "cb_calls ?b = cb_calls b" by (simp_all add: ResolverError_def m)
  have "forward accepts order (resolve (ListServices C J c name e) None) b = Ret (updatePicker order (remove_conns [] ?b))"
    by (simp add: resolve_def assms(3) UpdateClientConnState_def)
  moreover have "cb_subConns (remove_conns [] ?b) = Some []" "cb_calls (remove_conns [] ?b) = cb_calls b @ map (\<lambda>(sc, info). CcShutdown sc) (conns_of b)"
    by (simp_all add: remove_conns_def c Let_def)
  ultimately show ?thesis by (force simp: updatePicker_def ready_conns_def conns_of_def)
qed

subsection \<open>Clients are shared\<close>

definition get_steps :: "nat \<Rightarrow> (string \<Rightarrow> 'c exec) \<Rightarrow> string \<Rightarrow> 'c get_pc \<times> (string, 'c) smap \<Rightarrow> 'c get_pc \<times> (string, 'c) smap" where
  "get_steps n dial serviceName = ((\<lambda>(pc, m). clientsV2_Get dial serviceName pc m) ^^ n)"

text \<open>\<open>Get\<close> returns the cached client of a service, or builds one, caches it and returns it, after three steps; a later \<open>Get\<close>
  that does not overlap it returns the same client and dials nothing; other services are not touched.\<close>

theorem clientsV2_get_cached:
  assumes "dial (''backend:///'' @ name) = Ret client"
  shows "\<exists>cl m'. get_steps 3 dial name (CgLoad, m) = (CgDone cl, m') \<and> sm_load m' name = Some cl
     \<and> cl = (case sm_load m name of Some cl0 \<Rightarrow> cl0 | None \<Rightarrow> client)
     \<and> (\<forall>dial'. clientsV2_Get dial' name CgLoad m' = (CgDone cl, m')) \<and> (\<forall>k. k \<noteq> name \<longrightarrow> sm_load m' k = sm_load m k)"
  by (cases "sm_load m name") (auto simp: get_steps_def clientsV2_Get_def assms [simplified] numeral_3_eq_3)

text \<open>Two calls that overlap both dial, and the one that stores last wins: the other's client is used once and lost.\<close>

lemma clientsV2_race:
  "clientsV2_Get dial name CgLoad [] = (CgBuild, []) \<and> clientsV2_Get (\<lambda>_. Ret c1) name CgBuild [] = (CgStore c1, [])
   \<and> clientsV2_Get (\<lambda>_. Ret c2) name CgBuild [] = (CgStore c2, [])
   \<and> clientsV2_Get dial name (CgStore c2) (snd (clientsV2_Get dial name (CgStore c1) [])) = (CgDone c2, [(name, c2)])"
  by (simp add: clientsV2_Get_def)

text \<open>Both kinds of clients differ only in the scheme of the target.\<close>

lemma clients_Get_V2:
  "clients_Get dial name pc m = clientsV2_Get (\<lambda>t. dial (''etcd:///'' @ drop (length ''backend:///'') t)) name pc m"
  by (cases pc) (simp_all add: clients_Get_def clientsV2_Get_def)

subsection \<open>Instances\<close>

definition ex_instance :: "string \<Rightarrow> service_instance" where
  "ex_instance name = \<lparr>si_Name = name, si_Address = ''10.0.0.1'', si_ID = ''1'', si_InitCapacity = 10, si_MaxCapacity = 100,
     si_IncreaseStep = 1, si_GrowthRate = Fin 0\<rparr>"

definition ex_svc_json :: svc_json where
  "ex_svc_json = \<lparr>sj_marshal = (\<lambda>si. if si = ex_instance (si_Name si) then Inr (si_Name si) else Inl (Ext ''marshal'')),
     sj_unmarshal = (\<lambda>s. Inr (ex_instance s))\<rparr>"

definition ex_services :: "string \<Rightarrow> int list \<Rightarrow> mem_store" where
  "ex_services name revoked = \<lparr>ms_log = [(instanceKey (ex_instance name), Some (name, Some 1))], ms_granted = 1, ms_revoked = revoked\<rparr>"

lemma ex_svc_json_ok: "svc_json_ok ex_svc_json"
  by (simp add: svc_json_ok_def ex_svc_json_def)

lemma ex_services_get: "ec_get mem_etcd k (ex_services name []) = (if k = instanceKey (ex_instance name) then Some (name, 1) else None)"
  by (simp add: mem_etcd_def ex_services_def ms_find_def ms_alive_def)

lemma ex_services_keyed: "svc_keyed mem_etcd ex_svc_json (ex_services name [])"
  by (auto simp: svc_keyed_def ex_services_get ex_svc_json_def split: if_splits)

theorem svc_list_prefix_witness:
  "\<exists>sis. ListServices mem_etcd ex_svc_json ROk ''im'' (ex_services ''im-push'' []) = Inr sis \<and> ex_instance ''im-push'' \<in> set sis"
proof -
  let ?e = "ex_services ''im-push'' []"
  obtain sis where l: "ListServices mem_etcd ex_svc_json ROk ''im'' ?e = Inr sis"
    using list_keyed [OF mem_etcd_ok ex_services_keyed] by blast
  have "registered mem_etcd ex_svc_json ?e (ex_instance ''im-push'')" by (simp add: registered_def ex_services_get ex_svc_json_def)
  moreover have "is_prefix ''im'' (si_Name (ex_instance ''im-push'') @ ''/'' @ si_Address (ex_instance ''im-push''))"
    by (simp add: is_prefix_def ex_instance_def)
  ultimately show ?thesis using svc_list_prefix [OF mem_etcd_ok ex_services_keyed l] l by blast
qed

lemma ex_register:
  "svc_Register mem_etcd ex_svc_json ROk 1 (ex_instance ''im'') \<lparr>ms_log = [], ms_granted = 1, ms_revoked = []\<rparr>
     = (None, ex_services ''im'' [])"
  by (simp add: svc_Register_def ex_svc_json_def etcd_Put_def flatten_call_def refused_def mem_etcd_def ms_alive_def ex_services_def)
    (simp add: ex_instance_def)

lemma ex_nothing_keyed: "svc_keyed mem_etcd ex_svc_json \<lparr>ms_log = [], ms_granted = 1, ms_revoked = []\<rparr>"
  by (simp add: svc_keyed_def mem_etcd_def ms_find_def)

theorem svc_lifecycle_witness:
  "registered mem_etcd ex_svc_json (ex_services ''im'' []) (ex_instance ''im'')"
  using svc_lifecycle [OF mem_etcd_ok ex_svc_json_ok ex_nothing_keyed ex_register] by blast

theorem discovery_connects_witness:
  "\<exists>b1 b2. forward (\<lambda>_. True) (\<lambda>xs. xs) (resolve (ListServices mem_etcd ex_svc_json ROk ''im'' (ex_services ''im'' [])) None) ex_ready = Ret b1
     \<and> ''10.0.0.1'' \<in> set (conn_addrs b1)"
proof -
  have u: "\<exists>e2. svc_UnRegister mem_etcd ROk (ex_instance ''im'') (ex_services ''im'' []) = (None, e2)"
    by (simp add: svc_UnRegister_def etcd_Delete_def flatten_call_def)
  then obtain e2 where u: "svc_UnRegister mem_etcd ROk (ex_instance ''im'') (ex_services ''im'' []) = (None, e2)" by blast
  have "cb_subConns ex_ready \<noteq> None" by (simp add: ex_ready_def ex_balancer_def)
  from discovery_connects [OF mem_etcd_ok ex_svc_json_ok ex_nothing_keyed ex_register u ex_ready_reach this, of "\<lambda>xs. xs"] show ?thesis
    by (auto simp: ex_instance_def)
qed

theorem resolver_error_drops_witness:
  "\<exists>b'. forward (\<lambda>_. True) (\<lambda>xs. xs) (resolve (ListServices mem_etcd ex_svc_json (RLost ''timeout'') ''im'' (ex_services ''im'' [])) None) ex_ready = Ret b'
     \<and> cb_subConns b' = Some [] \<and> CcShutdown 0 \<in> set (cb_calls b')"
proof -
  have c: "cb_subConns ex_ready = Some [(0, \<lparr>si_addr = ex_addr 100, si_state = Ready\<rparr>)]" by (simp add: ex_ready_def ex_balancer_def)
  have l: "ListServices mem_etcd ex_svc_json (RLost ''timeout'') ''im'' (ex_services ''im'' []) = Inl (Ext ''timeout'')"
    by (simp add: ListServices_def etcd_List_def remote_run_def)
  have "cb_subConns ex_ready \<noteq> None" by (simp add: c)
  from resolver_error_drops [OF ex_ready_reach this l, of "\<lambda>_. True" "\<lambda>xs. xs"] show ?thesis
    by (auto simp: conns_of_Some [OF c])
qed

theorem clientsV2_get_cached_witness:
  "\<exists>cl m'. get_steps 3 (\<lambda>_. Ret (1::nat)) ''im'' (CgLoad, []) = (CgDone cl, m') \<and> sm_load m' ''im'' = Some cl \<and> cl = 1"
  using clientsV2_get_cached [of "\<lambda>_. Ret (1::nat)" "''im''" 1 "[]"] by auto

end
