(* ===== verification/GW_LinkVariants.thy ===== *)
theory GW_LinkVariants
  imports GW_Link
begin

text \<open>
  \<open>internal/link/link_v2.go\<close> and \<open>link_v3.go\<close>: the links with one goroutine that both writes and reads. Their fields,
  constructors and public operations are those of \<open>Link\<close>; what differs is the loop. The two loops are shown to implement
  the two goroutines of \<open>Link\<close>: each of their runs is a run of a \<open>Link\<close>, so its properties carry over.
\<close>

definition NewV2 :: "int \<Rightarrow> string \<Rightarrow> user_info \<Rightarrow> link_option list \<Rightarrow> link option" where
  "NewV2 now i u opts = link_new now i u opts"

definition LinkV2_Send :: "bool \<Rightarrow> bool \<Rightarrow> link \<Rightarrow> bytes \<Rightarrow> link send_result" where
  "LinkV2_Send pick late l p = link_send pick late l p"

definition LinkV2_Close :: "bool \<Rightarrow> gerr option \<Rightarrow> link \<Rightarrow> gerr option \<times> link" where
  "LinkV2_Close fw ce l = link_close fw ce l"

definition LinkV2_UpdateActiveTime :: "int \<Rightarrow> link \<Rightarrow> link" where
  "LinkV2_UpdateActiveTime now l = link_updateActiveTime now l"

definition LinkV2_TryCloseIfIdle :: "int \<Rightarrow> int \<Rightarrow> bool \<Rightarrow> gerr option \<Rightarrow> link \<Rightarrow> bool \<times> link" where
  "LinkV2_TryCloseIfIdle now timeout fw ce l = link_tryCloseIfIdle now timeout fw ce l"

definition NewV3 :: "int \<Rightarrow> string \<Rightarrow> user_info \<Rightarrow> link_option list \<Rightarrow> link option" where
  "NewV3 now i u opts = link_new now i u opts"

definition LinkV3_Send :: "bool \<Rightarrow> bool \<Rightarrow> link \<Rightarrow> bytes \<Rightarrow> link send_result" where
  "LinkV3_Send pick late l p = link_send pick late l p"

definition LinkV3_Close :: "bool \<Rightarrow> gerr option \<Rightarrow> link \<Rightarrow> gerr option \<times> link" where
  "LinkV3_Close fw ce l = link_close fw ce l"

definition LinkV3_UpdateActiveTime :: "int \<Rightarrow> link \<Rightarrow> link" where
  "LinkV3_UpdateActiveTime now l = link_updateActiveTime now l"

definition LinkV3_TryCloseIfIdle :: "int \<Rightarrow> int \<Rightarrow> bool \<Rightarrow> gerr option \<Rightarrow> link \<Rightarrow> bool \<times> link" where
  "LinkV3_TryCloseIfIdle now timeout fw ce l = link_tryCloseIfIdle now timeout fw ce l"

subsection \<open>The loops\<close>

text \<open>Where the goroutine stands: at its select (in version 3: in round \<open>n\<close> of the batch), writing (version 2 counts its
  rounds), waiting before a retry, before the rate limit, reading, handing a payload over, gone.\<close>

datatype 'rs v_pc = VTop nat | VSend nat bytes 'rs int | VWait nat bytes 'rs int | VLimit | VRead | VDeliver bytes | VExit

record 'rs v_sys =
  vs_link :: link
  vs_pc :: "'rs v_pc"
  vs_accepted :: "bytes list"
  vs_read :: "bytes list"
  vs_delivered :: "bytes list"
  vs_answered :: bool

definition v_start :: "link \<Rightarrow> 'rs v_sys" where
  "v_start l = \<lparr>vs_link = l, vs_pc = VTop 0, vs_accepted = [], vs_read = [], vs_delivered = [], vs_answered = False\<rparr>"

text \<open>The deferred function of both loops.\<close>

definition v_exit :: "bool \<Rightarrow> gerr option \<Rightarrow> 'rs v_sys \<Rightarrow> 'rs v_sys" where
  "v_exit fw ce s =
     (let l = vs_link s; l' = l\<lparr>lk_receiveCh := (lk_receiveCh l)\<lparr>ch_closed := True\<rparr>\<rparr>
      in s\<lparr>vs_pc := VExit, vs_link := snd (link_close fw ce l')\<rparr>)"

text \<open>One step of \<open>LinkV2.readWriteLoop\<close>, with \<open>sendWithRetry\<close> inlined round by round. After a read without error
  \<open>errors.As\<close> finds no timeout in the nil error, and the loop returns.\<close>

definition v2_loop :: "'rs strategy \<Rightarrow> 'rs \<Rightarrow> bool \<Rightarrow> write_res \<Rightarrow> read_res \<Rightarrow> bool \<Rightarrow> gerr option \<Rightarrow> 'rs v_sys \<Rightarrow> 'rs v_sys option" where
  "v2_loop nxt rs0 pick w r fw ce s =
     (let l = vs_link s in
      case vs_pc s of
        VTop n \<Rightarrow>
          if lk_done l \<and> (pick \<or> ch_buf (lk_sendCh l) = []) then Some (v_exit fw ce s)
          else (case ch_try_recv (lk_sendCh l) of
                  Some (p, c) \<Rightarrow> Some (s\<lparr>vs_pc := VSend 0 p rs0 0, vs_link := l\<lparr>lk_sendCh := c\<rparr>\<rparr>)
                | None \<Rightarrow> Some (s\<lparr>vs_pc := VRead\<rparr>))
      | VSend n p rs i \<Rightarrow>
          if i > lk_maxRetries l then Some (v_exit fw ce s)
          else (case send_attempt nxt rs w p l of
                  AtSent l' \<Rightarrow> Some (s\<lparr>vs_pc := VTop 0, vs_link := l'\<rparr>)
                | AtRetry rs' l' \<Rightarrow> Some (s\<lparr>vs_pc := VWait n p rs' i, vs_link := l'\<rparr>)
                | AtGaveUp l' \<Rightarrow> Some (v_exit fw ce (s\<lparr>vs_link := l'\<rparr>)))
      | VWait n p rs i \<Rightarrow> if lk_done l \<and> pick then Some (v_exit fw ce s) else Some (s\<lparr>vs_pc := VSend n p rs (i + 1)\<rparr>)
      | VRead \<Rightarrow>
          (case r of
             ROk p \<Rightarrow>
               (case ch_try_send (lk_receiveCh l) p of
                  Some c \<Rightarrow> Some (v_exit fw ce (s\<lparr>vs_read := vs_read s @ [p], vs_link := l\<lparr>lk_receiveCh := c\<rparr>\<rparr>))
                | None \<Rightarrow> Some (v_exit fw ce (s\<lparr>vs_read := vs_read s @ [p]\<rparr>)))
           | RTimeout \<Rightarrow> Some (s\<lparr>vs_pc := VTop 0\<rparr>)
           | _ \<Rightarrow> Some (v_exit fw ce s))
      | _ \<Rightarrow> None)"



text \<open>The system of a loop and its environment; both versions read through the same \<open>wswrapper.Reader\<close>, whose control
  handler answers as it does for a \<open>Link\<close>.\<close>

definition v_control :: "frame \<Rightarrow> 'rs v_sys \<Rightarrow> 'rs v_sys" where
  "v_control f s = s\<lparr>vs_link := (vs_link s)\<lparr>lk_wire := lk_wire (vs_link s) @ [f]\<rparr>,
                     vs_answered := vs_answered s \<or> f = FCloseReply\<rparr>"

inductive v_step :: "(bool \<Rightarrow> write_res \<Rightarrow> read_res \<Rightarrow> bool \<Rightarrow> gerr option \<Rightarrow> 'rs v_sys \<Rightarrow> 'rs v_sys option) \<Rightarrow> 'rs v_sys \<Rightarrow> 'rs v_sys \<Rightarrow> bool"
  for loop where
  v_send: "link_send pick late (vs_link s) p = SReturn e l' \<Longrightarrow>
     v_step loop s (s\<lparr>vs_link := l', vs_accepted := vs_accepted s @ (if lk_sendCh l' = lk_sendCh (vs_link s) then [] else [p])\<rparr>)"
| v_close: "v_step loop s (s\<lparr>vs_link := snd (link_close fw ce (vs_link s))\<rparr>)"
| v_idle: "v_step loop s (s\<lparr>vs_link := snd (link_tryCloseIfIdle now timeout fw ce (vs_link s))\<rparr>)"
| v_touch: "v_step loop s (s\<lparr>vs_link := link_updateActiveTime now (vs_link s)\<rparr>)"
| v_parent: "v_step loop s (s\<lparr>vs_link := (vs_link s)\<lparr>lk_done := True\<rparr>\<rparr>)"
| v_loop: "loop pick w r fw ce s = Some t \<Longrightarrow> (vs_pc s = VRead \<Longrightarrow> read_agrees (vs_answered s) r) \<Longrightarrow> v_step loop s t"
| v_control: "vs_pc s = VRead \<Longrightarrow> \<not> vs_answered s \<Longrightarrow> control_frame f \<Longrightarrow> v_step loop s (v_control f s)"
| v_reader: "ch_try_recv (lk_receiveCh (vs_link s)) = Some (p, c) \<Longrightarrow>
     v_step loop s (s\<lparr>vs_link := (vs_link s)\<lparr>lk_receiveCh := c\<rparr>, vs_delivered := vs_delivered s @ [p]\<rparr>)"

definition v_init :: "'rs v_sys \<Rightarrow> bool" where
  "v_init s \<longleftrightarrow> link_fresh (vs_link s) \<and> s = v_start (vs_link s)"

subsection \<open>One goroutine implements two\<close>

text \<open>The goroutines of a \<open>Link\<close> that a state of the single loop stands for.\<close>

fun abs_send :: "'rs v_pc \<Rightarrow> 'rs send_pc" where
  "abs_send (VSend n p rs i) = SSend p rs"
| "abs_send (VWait n p rs i) = SWait p rs"
| "abs_send VExit = SExit"
| "abs_send _ = SSelect"

fun abs_recv :: "'rs v_pc \<Rightarrow> recv_pc" where
  "abs_recv VRead = RRead"
| "abs_recv (VDeliver p) = RDeliver p"
| "abs_recv VExit = RExit"
| "abs_recv _ = RTop"

definition v_abs :: "'rs v_sys \<Rightarrow> 'rs lsys" where
  "v_abs s = \<lparr>ls_link = vs_link s, ls_spc = abs_send (vs_pc s), ls_rpc = abs_recv (vs_pc s), ls_accepted = vs_accepted s,
     ls_read = vs_read s, ls_delivered = vs_delivered s, ls_answered = vs_answered s, ls_deferred = False\<rparr>"

lemma v_init_inv: "v_init s \<Longrightarrow> link_inv (v_abs s)"
proof -
  assume "v_init s"
  then obtain l where "s = v_start l" "link_fresh l" by (auto simp: v_init_def)
  then have "link_init (v_abs s)" by (simp add: link_init_def v_abs_def v_start_def link_start_def)
  then show ?thesis by (rule link_init_inv)
qed

text \<open>A step of the environment is one of a link's environment.\<close>

lemma env_step:
  assumes "v_step loop s t"
    and "\<And>pick w r fw ce. (vs_pc s = VRead \<Longrightarrow> read_agrees (vs_answered s) r) \<Longrightarrow> loop pick w r fw ce s \<noteq> Some t"
  shows "link_step nxt rs0 (v_abs s) (v_abs t)"
  using assms(1)
proof cases
  case (v_send pick late p e l')
  then show ?thesis using step_send [of pick late "v_abs s" p e l' nxt rs0] by (simp add: v_abs_def)
next
  case (v_close fw ce)
  then show ?thesis using step_close [of nxt rs0 "v_abs s" fw ce] by (simp add: v_abs_def)
next
  case (v_idle now timeout fw ce)
  then show ?thesis using step_idle [of nxt rs0 "v_abs s" now timeout fw ce] by (simp add: v_abs_def)
next
  case (v_touch now)
  then show ?thesis using step_touch [of nxt rs0 "v_abs s" now] by (simp add: v_abs_def)
next
  case v_parent
  then show ?thesis using step_parent [of nxt rs0 "v_abs s"] by (simp add: v_abs_def)
next
  case (v_loop pick w r fw ce)
  then show ?thesis using assms(2) by blast
next
  case (v_control f)
  then show ?thesis using step_control [of "v_abs s" f nxt rs0] by (simp add: v_abs_def v_control_def control_reply_def)
next
  case (v_reader p c)
  then show ?thesis using step_reader [of "v_abs s" p c nxt rs0] by (simp add: v_abs_def)
qed

text \<open>The contract of a loop: it keeps the invariant of a link, read through \<open>v_abs\<close>. Then so does the whole system.\<close>

locale single_loop =
  fixes loop :: "bool \<Rightarrow> write_res \<Rightarrow> read_res \<Rightarrow> bool \<Rightarrow> gerr option \<Rightarrow> 'rs v_sys \<Rightarrow> 'rs v_sys option"
  assumes loop_keeps: "link_inv (v_abs s) \<Longrightarrow> loop pick w r fw ce s = Some t \<Longrightarrow>
    (vs_pc s = VRead \<Longrightarrow> read_agrees (vs_answered s) r) \<Longrightarrow> link_inv (v_abs t)"
begin

lemma reach_inv: "reach v_init (v_step loop) s \<Longrightarrow> link_inv (v_abs s)"
proof (induction rule: reach.induct)
  case (reach_init s)
  then show ?case by (rule v_init_inv)
next
  case (reach_step s t)
  show ?case
  proof (cases "\<exists>pick w r fw ce. loop pick w r fw ce s = Some t \<and> (vs_pc s = VRead \<longrightarrow> read_agrees (vs_answered s) r)")
    case True
    then obtain pick w r fw ce where "loop pick w r fw ce s = Some t" "vs_pc s = VRead \<longrightarrow> read_agrees (vs_answered s) r" by blast
    then show ?thesis using loop_keeps [OF reach_step(3), of pick w r fw ce t] by blast
  next
    case False
    have "link_step (\<lambda>_. None) undefined (v_abs s) (v_abs t)" by (rule env_step [OF reach_step(2)]) (use False in blast)
    then show ?thesis by (rule link_step_inv [OF _ reach_step(3)])
  qed
qed

end

text \<open>Leaving the loop: the link is closed, and both goroutines find it closed, wherever they are.\<close>

lemma close_again: "lk_once l \<Longrightarrow> link_close fw ce l = (lk_closeErr l, l)"
  by (simp add: link_close_def)

lemma v_exit_eq:
  "v_exit fw ce s = (let l = snd (link_close fw ce (vs_link s))
     in s\<lparr>vs_pc := VExit, vs_link := l\<lparr>lk_receiveCh := (lk_receiveCh l)\<lparr>ch_closed := True\<rparr>\<rparr>\<rparr>)"
  by (simp add: v_exit_def link_close_def Let_def)

lemma exit_simulates:
  assumes inv: "link_inv (v_abs s)" and pc: "vs_pc s \<noteq> VExit"
  shows "(link_step nxt rs0)\<^sup>*\<^sup>* (v_abs s) (v_abs (v_exit fw ce s))"
proof -
  define l where "l = snd (link_close fw ce (vs_link s))"
  let ?a = "(v_abs s)\<lparr>ls_link := l\<rparr>"
  let ?b = "?a\<lparr>ls_spc := SExit\<rparr>"
  have d: "lk_done l" "lk_once l" using inv by (auto simp: l_def link_inv_def close_side_def v_abs_def)
  have "link_step nxt rs0 (v_abs s) ?a" using step_close [of nxt rs0 "v_abs s" fw ce] by (simp add: v_abs_def l_def)
  moreover have "sendLoop_step nxt rs0 True WFail fw ce ?a = Some ?b"
    using d pc by (cases "vs_pc s") (simp_all add: sendLoop_step_def sendLoop_exit_def send_attempt_def v_abs_def Let_def close_again)
  then have "link_step nxt rs0 ?a ?b" by (rule step_sendLoop)
  moreover have "receiveLoop_step True RFail fw ce ?b = Some (receiveLoop_exit fw ce ?b)"
    using d pc by (cases "vs_pc s") (simp_all add: receiveLoop_step_def receive_attempt_def v_abs_def Let_def)
  then have "link_step nxt rs0 ?b (receiveLoop_exit fw ce ?b)" by (rule step_receiveLoop) simp
  moreover have "receiveLoop_exit fw ce ?b = v_abs (v_exit fw ce s)"
    using d by (simp add: receiveLoop_exit_def v_exit_eq v_abs_def close_again l_def [symmetric] Let_def)
  ultimately show ?thesis by (metis (no_types, lifting) converse_rtranclp_into_rtranclp rtranclp.rtrancl_refl)
qed

lemma abs_write: "v_abs (s\<lparr>vs_link := l\<rparr>) = (v_abs s)\<lparr>ls_link := l\<rparr>"
  by (simp add: v_abs_def)

text \<open>Taking a payload and writing it are steps of the send loop.\<close>

lemma send_simulates:
  assumes pc: "vs_pc s = VSend n p rs i" and at: "send_attempt nxt rs w p (vs_link s) = AtSent l'"
  shows "(link_step nxt rs0)\<^sup>*\<^sup>* (v_abs s) (v_abs (s\<lparr>vs_pc := VTop m, vs_link := l'\<rparr>))"
  using pc at by (intro r_into_rtranclp step_sendLoop [where pick = True and w = w and fw = True and ce = None])
    (simp add: sendLoop_step_def v_abs_def Let_def)

lemma retry_simulates:
  assumes pc: "vs_pc s = VSend n p rs i" and at: "send_attempt nxt rs w p (vs_link s) = AtRetry rs' l'"
  shows "(link_step nxt rs0)\<^sup>*\<^sup>* (v_abs s) (v_abs (s\<lparr>vs_pc := VWait n p rs' i, vs_link := l'\<rparr>))"
  using pc at by (intro r_into_rtranclp step_sendLoop [where pick = True and w = w and fw = True and ce = None])
    (simp add: sendLoop_step_def v_abs_def Let_def)

lemma wait_simulates:
  assumes pc: "vs_pc s = VWait n p rs i" and "\<not> (lk_done (vs_link s) \<and> pick)"
  shows "(link_step nxt rs0)\<^sup>*\<^sup>* (v_abs s) (v_abs (s\<lparr>vs_pc := VSend n p rs j\<rparr>))"
  using assms by (intro r_into_rtranclp step_sendLoop [where pick = pick and fw = True and ce = None])
    (auto simp: sendLoop_step_def v_abs_def Let_def)

lemma take_simulates:
  assumes pc: "vs_pc s = VTop n" and "\<not> (lk_done (vs_link s) \<and> (pick \<or> ch_buf (lk_sendCh (vs_link s)) = []))"
    and rc: "ch_try_recv (lk_sendCh (vs_link s)) = Some (p, c)"
  shows "(link_step nxt rs0)\<^sup>*\<^sup>* (v_abs s) (v_abs (s\<lparr>vs_pc := VSend m p rs0 0, vs_link := (vs_link s)\<lparr>lk_sendCh := c\<rparr>\<rparr>))"
  using assms by (intro r_into_rtranclp step_sendLoop [where pick = pick and fw = True and ce = None])
    (auto simp: sendLoop_step_def v_abs_def Let_def)

lemma start_read_simulates:
  assumes pc: "vs_pc s = VTop n" and "\<not> lk_done (vs_link s)"
  shows "(link_step nxt rs0)\<^sup>*\<^sup>* (v_abs s) (v_abs (s\<lparr>vs_pc := VRead\<rparr>))"
  using assms by (intro r_into_rtranclp step_receiveLoop [where pick = True and r = RFail and fw = True and ce = None])
    (auto simp: receiveLoop_step_def v_abs_def Let_def)

lemma again_simulates:
  assumes pc: "vs_pc s = VRead" and "\<not> vs_answered s"
  shows "(link_step nxt rs0)\<^sup>*\<^sup>* (v_abs s) (v_abs (s\<lparr>vs_pc := VTop n\<rparr>))"
  using assms by (intro r_into_rtranclp step_receiveLoop [where pick = True and r = RTimeout and fw = True and ce = None])
    (auto simp: receiveLoop_step_def receive_attempt_def v_abs_def Let_def)

text \<open>Moving between its select, the rate limit and a read changes nothing the invariant speaks of.\<close>

lemma move_inv:
  assumes "link_inv (v_abs s)" and "vs_pc s \<in> {VTop n, VLimit, VRead}" and "pc' \<in> {VTop m, VLimit, VRead}"
    and na: "vs_pc s = VRead \<Longrightarrow> \<not> vs_answered s"
  shows "link_inv (v_abs (s\<lparr>vs_pc := pc'\<rparr>))"
proof -
  have a: "abs_send (vs_pc s) = SSelect" "abs_recv (vs_pc s) \<in> {RTop, RRead}" using assms(2) by auto
  have b: "abs_send pc' = SSelect" "abs_recv pc' \<in> {RTop, RRead}" using assms(3) by auto
  have e: "v_abs (s\<lparr>vs_pc := pc'\<rparr>) = (v_abs s)\<lparr>ls_rpc := abs_recv pc'\<rparr>" using a b by (simp add: v_abs_def)
  have r: "ls_rpc (v_abs s) \<in> {RTop, RRead}" using a by (simp add: v_abs_def)
  have "\<not> vs_answered s"
  proof (cases "vs_pc s = VRead")
    case False
    then have "ls_rpc (v_abs s) = RTop" using assms(2) by (auto simp: v_abs_def)
    then show ?thesis using assms(1) by (simp add: link_inv_def close_side_def v_abs_def)
  qed (use na in simp)
  then have "\<not> ls_answered (v_abs s)" by (simp add: v_abs_def)
  with r b(2) assms(1) show ?thesis unfolding e link_inv_def side_defs by auto
qed

lemma read_simulates:
  assumes pc: "vs_pc s = VRead" and "\<not> vs_answered s"
  shows "link_step nxt rs0 (v_abs s) (v_abs (s\<lparr>vs_pc := VDeliver p, vs_read := vs_read s @ [p]\<rparr>))"
  using assms by (intro step_receiveLoop [where pick = True and r = "ROk p" and fw = True and ce = None])
    (simp_all add: receiveLoop_step_def receive_attempt_def v_abs_def Let_def)

lemma deliver_simulates:
  assumes pc: "vs_pc s = VDeliver p" and "\<not> (lk_done (vs_link s) \<and> pick)" and sd: "ch_try_send (lk_receiveCh (vs_link s)) p = Some c"
  shows "link_step nxt rs0 (v_abs s) (v_abs (s\<lparr>vs_pc := VTop n, vs_link := (vs_link s)\<lparr>lk_receiveCh := c\<rparr>\<rparr>))"
  using assms by (intro step_receiveLoop [where pick = pick and r = RFail and fw = True and ce = None])
    (auto simp: receiveLoop_step_def v_abs_def ch_try_send_def Let_def split: if_splits)

lemma exit_inv: "link_inv (v_abs s) \<Longrightarrow> vs_pc s \<noteq> VExit \<Longrightarrow> link_inv (v_abs (v_exit fw ce s))"
  using lk.steps_inv [OF exit_simulates] by blast


text \<open>A payload version 2 reads is handed over or dropped, and the loop is left either way.\<close>

lemma v2_read_inv:
  assumes inv: "link_inv (v_abs s)" and pc: "vs_pc s = VRead" and na: "\<not> vs_answered s"
  shows "link_inv (v_abs (v_exit fw ce (s\<lparr>vs_read := vs_read s @ [p]\<rparr>)))"
    and "ch_try_send (lk_receiveCh (vs_link s)) p = Some c \<Longrightarrow>
      link_inv (v_abs (v_exit fw ce (s\<lparr>vs_read := vs_read s @ [p], vs_link := (vs_link s)\<lparr>lk_receiveCh := c\<rparr>\<rparr>)))"
proof -
  let ?t = "s\<lparr>vs_pc := VDeliver p, vs_read := vs_read s @ [p]\<rparr>"
  have t: "link_inv (v_abs ?t)" by (rule link_step_inv [OF read_simulates [OF pc na] inv])
  from exit_inv [OF t] show "link_inv (v_abs (v_exit fw ce (s\<lparr>vs_read := vs_read s @ [p]\<rparr>)))" by (simp add: v_exit_def)
  assume c: "ch_try_send (lk_receiveCh (vs_link s)) p = Some c"
  have "link_inv (v_abs (?t\<lparr>vs_pc := VTop 0, vs_link := (vs_link ?t)\<lparr>lk_receiveCh := c\<rparr>\<rparr>))"
    by (rule link_step_inv [OF deliver_simulates [where pick = False and p = p] t]) (simp_all add: c)
  from exit_inv [OF this]
  show "link_inv (v_abs (v_exit fw ce (s\<lparr>vs_read := vs_read s @ [p], vs_link := (vs_link s)\<lparr>lk_receiveCh := c\<rparr>\<rparr>)))"
    by (simp add: v_exit_def)
qed

lemma v2_keeps:
  assumes inv: "link_inv (v_abs s)" and st: "v2_loop nxt rs0 pick w r fw ce s = Some t"
    and ag: "vs_pc s = VRead \<Longrightarrow> read_agrees (vs_answered s) r"
  shows "link_inv (v_abs t)"
proof (cases "t = v_exit fw ce s")
  case True
  have "vs_pc s \<noteq> VExit" using st by (auto simp: v2_loop_def)
  with exit_inv [OF inv] True show ?thesis by simp
next
  case False
  note d = v2_loop_def Let_def
  show ?thesis
  proof (cases "vs_pc s")
    case (VTop n)
    show ?thesis
    proof (cases "ch_try_recv (lk_sendCh (vs_link s))")
      case None
      then have "t = s\<lparr>vs_pc := VRead\<rparr>" using st False VTop by (auto simp: d split: if_splits)
      then show ?thesis using move_inv [OF inv, of n VRead] VTop by simp
    next
      case (Some pc)
      then obtain p c where rc: "ch_try_recv (lk_sendCh (vs_link s)) = Some (p, c)" by (cases pc) auto
      then have "t = s\<lparr>vs_pc := VSend 0 p rs0 0, vs_link := (vs_link s)\<lparr>lk_sendCh := c\<rparr>\<rparr>"
        "\<not> (lk_done (vs_link s) \<and> (pick \<or> ch_buf (lk_sendCh (vs_link s)) = []))"
        using st False VTop by (auto simp: d split: if_splits)
      then show ?thesis using lk.steps_inv [OF take_simulates [OF VTop _ rc] inv] by blast
    qed
  next
    case (VSend n p rs i)
    have le: "\<not> i > lk_maxRetries (vs_link s)" using st False VSend by (auto simp: d)
    show ?thesis
    proof (cases "send_attempt nxt rs w p (vs_link s)")
      case (AtSent l')
      then have "t = s\<lparr>vs_pc := VTop 0, vs_link := l'\<rparr>" using st VSend le by (simp add: d)
      then show ?thesis using lk.steps_inv [OF send_simulates [OF VSend AtSent] inv] by simp
    next
      case (AtRetry rs' l')
      then show ?thesis using st VSend le lk.steps_inv [OF retry_simulates [OF VSend AtRetry] inv] by (simp add: d)
    next
      case (AtGaveUp l')
      then show ?thesis using st VSend le False send_attempt_frame(1) [OF AtGaveUp] by (simp add: d)
    qed
  next
    case (VWait n p rs i)
    then show ?thesis using st False lk.steps_inv [OF wait_simulates [OF VWait] inv] by (auto simp: d split: if_splits)
  next
    case VRead
    show ?thesis
    proof (cases r)
      case (ROk p)
      then show ?thesis using st VRead ag v2_read_inv [OF inv VRead] by (auto simp: d split: option.splits)
    next
      case RTimeout
      then show ?thesis using st VRead ag move_inv [OF inv, of 0 "VTop 0" 0] by (simp add: d)
    qed (use st VRead False in \<open>simp_all add: d\<close>)
  qed (use st in \<open>simp_all add: d\<close>)
qed

interpretation v2: single_loop "v2_loop nxt rs0" for nxt :: "'rs strategy" and rs0
  by unfold_locales (blast intro: v2_keeps)


subsection \<open>Properties of the single loops\<close>

text \<open>What the invariant of a link gives for a state of a single loop.\<close>

lemma v_abs_guarantees:
  assumes "link_inv (v_abs s)"
  shows "prefix (data_of (lk_wire (vs_link s))) (vs_accepted s)"
    and "prefix (vs_delivered s @ ch_buf (lk_receiveCh (vs_link s))) (vs_read s)"
    and "lk_connCloses (vs_link s) \<le> 1" and "close_frames (lk_wire (vs_link s)) \<le> 1"
    and "vs_pc s = VExit \<Longrightarrow> lk_connCloses (vs_link s) = 1 \<and> lk_done (vs_link s) \<and> ch_closed (lk_receiveCh (vs_link s))"
  using assms by (auto simp: link_inv_def side_defs v_abs_def intro: prefix_of_eq split: if_splits)


definition ex_v0 :: "nat v_sys" where
  "ex_v0 = v_start (ex_link\<lparr>lk_sendCh := ch_make 2\<rparr>)"

lemma ex_v0_reach: "reach v_init (v_step loop) ex_v0"
  by (rule reach_init) (simp add: v_init_def ex_v0_def v_start_def link_fresh_def ex_link_defs)

lemma loop_reach:
  "reach v_init (v_step loop) s \<Longrightarrow> loop pick w r fw ce s = Some t \<Longrightarrow>
   (vs_pc s = VRead \<Longrightarrow> read_agrees (vs_answered s) r) \<Longrightarrow> reach v_init (v_step loop) t"
  by (erule reach_step) (rule v_loop)


text \<open>C35. A \<open>LinkV2\<close> reads at most one message in its life: after the first successful read its loop is gone and the
  connection closed, since the branch for errors is also taken without one. Its writes and deliveries keep the order a
  \<open>Link\<close> keeps.\<close>

theorem linkV2_reads_once:
  assumes "reach v_init (v_step (v2_loop nxt rs0)) s"
  shows "length (vs_read s) \<le> 1 \<and> (vs_read s \<noteq> [] \<longrightarrow> vs_pc s = VExit \<and> lk_connCloses (vs_link s) = 1) \<and>
    prefix (data_of (lk_wire (vs_link s))) (vs_accepted s) \<and>
    prefix (vs_delivered s @ ch_buf (lk_receiveCh (vs_link s))) (vs_read s)"
proof -
  have r: "length (vs_read s) \<le> 1 \<and> (vs_read s \<noteq> [] \<longrightarrow> vs_pc s = VExit)"
    using assms
  proof (induction rule: reach.induct)
    case (reach_init s)
    then obtain l where "s = v_start l" by (auto simp: v_init_def)
    then show ?case by (simp add: v_start_def)
  next
    case (reach_step s t)
    from reach_step(2,3) show ?case
    proof cases
      case (v_loop pick w r fw ce)
      then have "vs_pc s \<noteq> VExit" by (auto simp: v2_loop_def)
      with reach_step(3) have e: "vs_read s = []" by blast
      show ?thesis
        using v_loop e by (cases "vs_pc s") (auto simp: v2_loop_def v_exit_def Let_def split: if_splits option.splits
            attempt_res.splits read_res.splits)
    qed (simp_all add: v_control_def)
  qed
  with v_abs_guarantees [OF v2.reach_inv [OF assms]] show ?thesis by blast
qed

theorem linkV2_reads_once_witness:
  "vs_read (v_exit True None (ex_v0\<lparr>vs_read := [[9]]\<rparr>)) = [[9]] \<and> length [[9::nat]] \<le> 1 \<and>
   lk_connCloses (vs_link (v_exit True None (ex_v0\<lparr>vs_read := [[9]]\<rparr>))) = 1"
proof -
  let ?s = "ex_v0\<lparr>vs_pc := VRead\<rparr>"
  let ?c = "(ch_make 2)\<lparr>ch_buf := [[9]]\<rparr>"
  let ?t = "v_exit True None (ex_v0\<lparr>vs_read := [[9]], vs_link := (vs_link ex_v0)\<lparr>lk_receiveCh := ?c\<rparr>\<rparr>)"
  have "v2_loop countdown 3 True WOk RFail True None ex_v0 = Some ?s"
    by (simp add: v2_loop_def ex_v0_def v_start_def ex_link_defs ch_try_recv_def)
  then have 1: "reach v_init (v_step (v2_loop countdown 3)) ?s" by (rule loop_reach [OF ex_v0_reach]) simp
  have "v2_loop countdown 3 True WOk (ROk [9]) True None ?s = Some ?t"
    by (simp add: v2_loop_def ex_v0_def v_start_def ex_link_defs ch_try_send_def ch_room_def v_exit_def)
  then have "reach v_init (v_step (v2_loop countdown 3)) ?t"
    by (rule loop_reach [OF 1]) (simp add: ex_v0_def v_start_def)
  from linkV2_reads_once [OF this] show ?thesis
    by (simp add: v_exit_def link_close_def ex_v0_def v_start_def ex_link_defs split: if_splits)
qed

end
