(* ===== verification/GW_LinkV4.thy ===== *)
theory GW_LinkV4
  imports GW_Link "HOL-Library.Sublist"
begin

text \<open>
  \<open>internal/link/link_v4.go\<close>: one goroutine that serves two links through one receive channel. A sub link is a \<open>link\<close>
  of \<open>GW_Link\<close>; its own goroutines and callers keep running beside the loop and appear as steps that keep its id and
  never reopen it. Two different links are assumed at the two places.
\<close>

subsection \<open>State\<close>

record link_message =
  LinkID :: string
  Payload :: bytes

text \<open>Where the goroutine stands: at the top of its loop, between the writes and the reads of a round (with the activity
  seen so far), waiting for the ticker, gone, or stopped by a nil pointer.\<close>

datatype v4_pc = V4Top | V4Read bool | V4Idle | V4Gone | V4Panic

text \<open>\<open>v4_reads\<close> and \<open>v4_out\<close> record the messages read from the sub links and those a reader of \<open>Receive()\<close> took.\<close>

record link_v4 =
  v4_A :: "link option"
  v4_B :: "link option"
  v4_ch :: "link_message chan"
  v4_done :: bool
  v4_aAlive :: bool
  v4_bAlive :: bool
  v4_pc :: v4_pc
  v4_reads :: "link_message list"
  v4_out :: "link_message list"

definition NewLinkV4 :: "link option \<Rightarrow> link option \<Rightarrow> link_v4" where
  "NewLinkV4 a b = \<lparr>v4_A = a, v4_B = b, v4_ch = ch_make 128, v4_done = False,
     v4_aAlive = (a \<noteq> None), v4_bAlive = (b \<noteq> None), v4_pc = V4Top, v4_reads = [], v4_out = []\<rparr>"

definition SetLinkB :: "link option \<Rightarrow> link_v4 \<Rightarrow> link_v4" where
  "SetLinkB l s = s\<lparr>v4_B := l\<rparr>"

definition LinkV4_Close :: "link_v4 \<Rightarrow> link_v4" where
  "LinkV4_Close s = s\<lparr>v4_done := True\<rparr>"

subsection \<open>Send\<close>

text \<open>\<open>lost\<close>: the sub link died between the two loads of its flag. \<open>pick\<close> resolves the select when both cases are
  ready. A flag that is set beside a nil link would be a nil dereference (\<open>V4SPanic\<close>).\<close>

datatype v4_send = V4SBlocked | V4SPanic | V4SReturn "gerr option" link_v4

definition v4_enqueue :: "bool \<Rightarrow> link_v4 \<Rightarrow> link \<Rightarrow> bytes \<Rightarrow> (link \<Rightarrow> link_v4) \<Rightarrow> v4_send" where
  "v4_enqueue pick s l p upd =
     (if v4_done s \<and> (pick \<or> \<not> ch_room (lk_sendCh l)) then V4SReturn (Some (Sen ErrLinkV4Closed)) s
      else (case ch_try_send (lk_sendCh l) p of
              None \<Rightarrow> V4SBlocked
            | Some c \<Rightarrow> V4SReturn None (upd (l\<lparr>lk_sendCh := c\<rparr>))))"

definition LinkV4_Send :: "bool \<Rightarrow> bool \<Rightarrow> link_v4 \<Rightarrow> link_message \<Rightarrow> v4_send" where
  "LinkV4_Send lost pick s m =
     (if v4_aAlive s \<and> v4_A s = None then V4SPanic
      else if v4_aAlive s \<and> LinkID m = lk_id (the (v4_A s)) then
        (if lost then V4SReturn (Some (Sen ErrSubLinkInV5Closed)) s
         else v4_enqueue pick s (the (v4_A s)) (Payload m) (\<lambda>l. s\<lparr>v4_A := Some l\<rparr>))
      else if v4_bAlive s \<and> v4_B s = None then V4SPanic
      else if v4_bAlive s \<and> LinkID m = lk_id (the (v4_B s)) then
        (if lost then V4SReturn (Some (Sen ErrSubLinkInV5Closed)) s
         else v4_enqueue pick s (the (v4_B s)) (Payload m) (\<lambda>l. s\<lparr>v4_B := Some l\<rparr>))
      else V4SReturn (Some (Sen ErrTargetLinkNotFound)) s)"

subsection \<open>The loop\<close>

definition markLinkClosed :: "bool \<Rightarrow> gerr option \<Rightarrow> link \<Rightarrow> bool \<Rightarrow> link \<times> bool" where
  "markLinkClosed fw ce l alive = (if alive then (snd (link_close fw ce l), False) else (l, alive))"

text \<open>What one read or write of a sub link does to it: the activity, the link, its flag. \<open>None\<close>: a nil dereference.\<close>

type_synonym try_res = "bool \<times> link option \<times> bool"

definition tryWrite :: "write_res \<Rightarrow> int \<Rightarrow> bool \<Rightarrow> gerr option \<Rightarrow> link option \<Rightarrow> bool \<Rightarrow> try_res option" where
  "tryWrite w now fw ce lo alive =
     (if \<not> alive then Some (False, lo, alive)
      else (case lo of
              None \<Rightarrow> None
            | Some l \<Rightarrow>
                (case ch_try_recv (lk_sendCh l) of
                   Some (p, c) \<Rightarrow>
                     let l1 = l\<lparr>lk_sendCh := c\<rparr>
                     in if w = WOk
                        then Some (True, Some (link_updateActiveTime now (l1\<lparr>lk_wire := lk_wire l1 @ [FData p]\<rparr>)), alive)
                        else let (l2, al) = markLinkClosed fw ce l1 alive in Some (True, Some l2, al)
                 | None \<Rightarrow>
                     if ch_closed (lk_sendCh l)
                     then let (l2, al) = markLinkClosed fw ce l alive in Some (True, Some l2, al)
                     else Some (False, lo, alive))))"

definition tryRead ::
  "read_res \<Rightarrow> int \<Rightarrow> bool \<Rightarrow> gerr option \<Rightarrow> link option \<Rightarrow> bool \<Rightarrow> link_v4 \<Rightarrow> (try_res \<times> link_v4) option" where
  "tryRead r now fw ce lo alive s =
     (if \<not> alive then Some ((False, lo, alive), s)
      else (case lo of
              None \<Rightarrow> None
            | Some l \<Rightarrow>
                (case r of
                   read_res.ROk p \<Rightarrow>
                     let m = \<lparr>LinkID = lk_id l, Payload = p\<rparr>; s1 = s\<lparr>v4_reads := v4_reads s @ [m]\<rparr>
                     in Some ((True, Some (link_updateActiveTime now l), alive),
                              (case ch_try_send (v4_ch s) m of Some c \<Rightarrow> s1\<lparr>v4_ch := c\<rparr> | None \<Rightarrow> s1))
                 | RTimeout \<Rightarrow> Some ((False, lo, alive), s)
                 | _ \<Rightarrow> let (l2, al) = markLinkClosed fw ce l alive in Some ((True, Some l2, al), s))))"

definition performWrite :: "write_res \<Rightarrow> write_res \<Rightarrow> int \<Rightarrow> bool \<Rightarrow> gerr option \<Rightarrow> link_v4 \<Rightarrow> (bool \<times> link_v4) option" where
  "performWrite w1 w2 now fw ce s =
     (case tryWrite w1 now fw ce (v4_A s) (v4_aAlive s) of
        None \<Rightarrow> None
      | Some (b1, a, aa) \<Rightarrow>
          (case tryWrite w2 now fw ce (v4_B s) (v4_bAlive s) of
             None \<Rightarrow> None
           | Some (b2, b, ba) \<Rightarrow> Some (b1 \<or> b2, s\<lparr>v4_A := a, v4_aAlive := aa, v4_B := b, v4_bAlive := ba\<rparr>)))"

definition performRead :: "read_res \<Rightarrow> read_res \<Rightarrow> int \<Rightarrow> bool \<Rightarrow> gerr option \<Rightarrow> link_v4 \<Rightarrow> (bool \<times> link_v4) option" where
  "performRead r1 r2 now fw ce s =
     (case tryRead r1 now fw ce (v4_A s) (v4_aAlive s) s of
        None \<Rightarrow> None
      | Some ((b1, a, aa), s1) \<Rightarrow>
          (case tryRead r2 now fw ce (v4_B s1) (v4_bAlive s1) (s1\<lparr>v4_A := a, v4_aAlive := aa\<rparr>) of
             None \<Rightarrow> None
           | Some ((b2, b, ba), s2) \<Rightarrow> Some (b1 \<or> b2, s2\<lparr>v4_B := b, v4_bAlive := ba\<rparr>)))"

text \<open>The deferred function: \<open>Close\<close> on a nil link is a nil dereference, and ends the process before the rest runs.\<close>

definition v4_exit :: "bool \<Rightarrow> gerr option \<Rightarrow> link_v4 \<Rightarrow> link_v4" where
  "v4_exit fw ce s =
     (case v4_A s of
        None \<Rightarrow> s\<lparr>v4_pc := V4Panic\<rparr>
      | Some a \<Rightarrow>
          let s1 = s\<lparr>v4_A := Some (snd (link_close fw ce a))\<rparr>
          in (case v4_B s1 of
                None \<Rightarrow> s1\<lparr>v4_pc := V4Panic\<rparr>
              | Some b \<Rightarrow> s1\<lparr>v4_B := Some (snd (link_close fw ce b)), v4_ch := (v4_ch s1)\<lparr>ch_closed := True\<rparr>, v4_pc := V4Gone\<rparr>))"

definition v4_loop ::
  "write_res \<Rightarrow> write_res \<Rightarrow> read_res \<Rightarrow> read_res \<Rightarrow> int \<Rightarrow> bool \<Rightarrow> bool \<Rightarrow> gerr option \<Rightarrow> link_v4 \<Rightarrow> link_v4 option" where
  "v4_loop w1 w2 r1 r2 now pick fw ce s =
     (case v4_pc s of
        V4Top \<Rightarrow>
          if v4_done s then Some (v4_exit fw ce s)
          else if \<not> v4_aAlive s \<and> \<not> v4_bAlive s then Some (v4_exit fw ce s)
          else (case performWrite w1 w2 now fw ce s of
                  None \<Rightarrow> Some (s\<lparr>v4_pc := V4Panic\<rparr>)
                | Some (b, t) \<Rightarrow> Some (t\<lparr>v4_pc := V4Read b\<rparr>))
      | V4Read b \<Rightarrow>
          (case performRead r1 r2 now fw ce s of
             None \<Rightarrow> Some (s\<lparr>v4_pc := V4Panic\<rparr>)
           | Some (b', t) \<Rightarrow> Some (t\<lparr>v4_pc := (if b' \<or> b then V4Top else V4Idle)\<rparr>))
      | V4Idle \<Rightarrow> if v4_done s \<and> pick then Some (v4_exit fw ce s) else Some (s\<lparr>v4_pc := V4Top\<rparr>)
      | V4Gone \<Rightarrow> None
      | V4Panic \<Rightarrow> None)"

subsection \<open>The system\<close>

text \<open>What the goroutines and callers of a sub link do to it behind the loop's back; the frames its reader's control
  handler writes are among it.\<close>

definition link_env :: "link \<Rightarrow> link \<Rightarrow> bool" where
  "link_env l l' \<longleftrightarrow> lk_id l' = lk_id l \<and> (lk_done l \<longrightarrow> lk_done l') \<and> (lk_once l \<longrightarrow> lk_once l')"

inductive v4_step :: "link_v4 \<Rightarrow> link_v4 \<Rightarrow> bool" where
  v4_send: "LinkV4_Send lost pick s m = V4SReturn e t \<Longrightarrow> v4_step s t"
| v4_close: "v4_step s (LinkV4_Close s)"
| v4_setB: "v4_step s (SetLinkB l s)"
| v4_loop: "v4_loop w1 w2 r1 r2 now pick fw ce s = Some t \<Longrightarrow> v4_step s t"
| v4_reader: "ch_try_recv (v4_ch s) = Some (m, c) \<Longrightarrow> v4_step s (s\<lparr>v4_ch := c, v4_out := v4_out s @ [m]\<rparr>)"
| v4_linkA: "v4_A s = Some l \<Longrightarrow> link_env l l' \<Longrightarrow> v4_step s (s\<lparr>v4_A := Some l'\<rparr>)"
| v4_linkB: "v4_B s = Some l \<Longrightarrow> link_env l l' \<Longrightarrow> v4_step s (s\<lparr>v4_B := Some l'\<rparr>)"

text \<open>Every step of a link's own system is such a change.\<close>

lemma link_step_env: "link_step nxt rs0 s t \<Longrightarrow> link_env (ls_link s) (ls_link t)"
proof (induction rule: link_step.induct)
  case (step_send pick late s p e l')
  then show ?case using link_send_ids [OF step_send] by (auto simp: link_env_def link_send_def Let_def split: if_splits option.splits)
next
  case (step_sendLoop pick w fw ce s t)
  then show ?case
    by (auto simp: link_env_def sendLoop_step_def sendLoop_exit_def send_attempt_def link_close_def Let_def
        split: send_pc.splits if_splits option.splits write_res.splits)
next
  case (step_receiveLoop pick r fw ce s t)
  then show ?case
    by (auto simp: link_env_def receiveLoop_step_def receiveLoop_exit_def link_close_def Let_def
        split: recv_pc.splits recv_res.splits if_splits option.splits)
qed (auto simp: link_env_def link_tryCloseIfIdle_def control_reply_def)

subsection \<open>What a try does\<close>

text \<open>The link keeps its id, stays closed if it was, and its flag falls only together with \<open>Close\<close>.\<close>

definition side_step :: "link option \<Rightarrow> bool \<Rightarrow> link option \<Rightarrow> bool \<Rightarrow> bool" where
  "side_step lo al lo' al' \<longleftrightarrow>
     (al' \<longrightarrow> al) \<and>
     (case lo of None \<Rightarrow> lo' = None | Some l \<Rightarrow> \<exists>l'. lo' = Some l' \<and> link_env l l' \<and> (al \<and> \<not> al' \<longrightarrow> lk_once l'))"

lemma link_env_refl [simp]: "link_env l l"
  by (simp add: link_env_def)

lemma link_env_ops [simp]:
  "link_env l (snd (link_close fw ce l))" "link_env l (link_updateActiveTime now l)"
  by (auto simp: link_env_def)

lemma side_step_refl [simp]: "side_step lo al lo al"
  by (auto simp: side_step_def split: option.splits)

lemma tryWrite_side:
  assumes "tryWrite w now fw ce lo al = Some (b, lo', al')"
  shows "side_step lo al lo' al'"
proof (cases lo)
  case None
  with assms show ?thesis by (auto simp: tryWrite_def split: if_splits)
next
  case (Some l)
  have "link_env l (link_updateActiveTime now (l\<lparr>lk_sendCh := c, lk_wire := w\<rparr>))"
    "link_env l (snd (link_close fw ce (l\<lparr>lk_sendCh := c\<rparr>)))" for c w
    by (auto simp: link_env_def)
  with assms Some show ?thesis
    by (auto simp: tryWrite_def side_step_def markLinkClosed_def Let_def split: if_splits option.splits prod.splits)
qed

text \<open>A read can only append a message of its own link to what was read, and to the channel if there is room.\<close>

definition v4_queue :: "link_v4 \<Rightarrow> bool" where
  "v4_queue s \<longleftrightarrow> subseq (v4_out s @ ch_buf (v4_ch s)) (v4_reads s)"

lemma tryRead_frame:
  assumes "tryRead r now fw ce lo al s = Some ((b, lo', al'), t)"
  obtains c :: "link_message chan" and xs where "t = s\<lparr>v4_ch := c, v4_reads := v4_reads s @ xs\<rparr>" "ch_closed c = ch_closed (v4_ch s)"
    "v4_queue s \<Longrightarrow> v4_queue t" "\<And>m. m \<in> set xs \<Longrightarrow> al \<and> (\<exists>l. lo = Some l \<and> LinkID m = lk_id l)"
    "side_step lo al lo' al'"
proof (cases "\<exists>p l. r = read_res.ROk p \<and> al \<and> lo = Some l")
  case True
  then obtain p l where r: "r = read_res.ROk p" "al" "lo = Some l" by blast
  let ?m = "\<lparr>LinkID = lk_id l, Payload = p\<rparr>"
  let ?c = "case ch_try_send (v4_ch s) ?m of Some c \<Rightarrow> c | None \<Rightarrow> v4_ch s"
  have t: "t = s\<lparr>v4_ch := ?c, v4_reads := v4_reads s @ [?m]\<rparr>" and lo': "lo' = Some (link_updateActiveTime now l)" "al' = al"
    using assms r by (auto simp: tryRead_def Let_def split: option.splits)
  have q: "subseq ((out @ buf) @ [?m]) (rd @ [?m])" "subseq (out @ buf) (rd @ [?m])" if "subseq (out @ buf) rd" for out buf rd
    using that by (simp only: subseq_append, rule subseq_rev_drop_many)
  have "v4_queue t" if "v4_queue s"
    using that q [of "v4_out s" "ch_buf (v4_ch s)" "v4_reads s"] unfolding t v4_queue_def
    by (auto simp: ch_try_send_def)
  moreover have "ch_closed ?c = ch_closed (v4_ch s)" by (auto simp: ch_try_send_def split: option.splits if_splits)
  ultimately show ?thesis
    by (intro that [where c = ?c and xs = "[?m]"]) (use t r lo' in \<open>auto simp: side_step_def\<close>)
next
  case False
  then have "t = s" using assms by (auto simp: tryRead_def markLinkClosed_def Let_def split: if_splits option.splits read_res.splits)
  moreover have "side_step lo al lo' al'"
    using assms False
    by (auto simp: tryRead_def side_step_def markLinkClosed_def split: if_splits option.splits read_res.splits)
  ultimately show ?thesis by (intro that [where c = "v4_ch s" and xs = "[]"]) auto
qed

text \<open>A whole half round: both sides move, and the queue keeps its messages.\<close>

definition round_ok :: "link_v4 \<Rightarrow> link_v4 \<Rightarrow> bool" where
  "round_ok s t \<longleftrightarrow>
     side_step (v4_A s) (v4_aAlive s) (v4_A t) (v4_aAlive t) \<and> side_step (v4_B s) (v4_bAlive s) (v4_B t) (v4_bAlive t) \<and>
     (v4_queue s \<longrightarrow> v4_queue t) \<and> v4_pc t = v4_pc s \<and> ch_closed (v4_ch t) = ch_closed (v4_ch s) \<and>
     (\<forall>m \<in> set (v4_reads t). m \<in> set (v4_reads s) \<or>
        (\<exists>l. v4_aAlive s \<and> v4_A s = Some l \<and> LinkID m = lk_id l) \<or> (\<exists>l. v4_bAlive s \<and> v4_B s = Some l \<and> LinkID m = lk_id l))"

lemma performWrite_ok: "performWrite w1 w2 now fw ce s = Some (b, t) \<Longrightarrow> round_ok s t"
  by (auto simp: performWrite_def round_ok_def v4_queue_def split: option.splits prod.splits dest: tryWrite_side)

lemma performRead_ok:
  assumes "performRead r1 r2 now fw ce s = Some (b, t)"
  shows "round_ok s t"
proof -
  from assms obtain x where x: "tryRead r1 now fw ce (v4_A s) (v4_aAlive s) s = Some x"
    by (cases "tryRead r1 now fw ce (v4_A s) (v4_aAlive s) s") (simp_all add: performRead_def)
  obtain b1 a aa s1 where xe: "x = ((b1, a, aa), s1)" by (metis prod.collapse)
  from assms obtain y where y: "tryRead r2 now fw ce (v4_B s1) (v4_bAlive s1) (s1\<lparr>v4_A := a, v4_aAlive := aa\<rparr>) = Some y"
    by (cases "tryRead r2 now fw ce (v4_B s1) (v4_bAlive s1) (s1\<lparr>v4_A := a, v4_aAlive := aa\<rparr>)")
      (simp_all add: performRead_def x xe)
  obtain b2 lb ba s2 where ye: "y = ((b2, lb, ba), s2)" by (metis prod.collapse)
  have t: "t = s2\<lparr>v4_B := lb, v4_bAlive := ba\<rparr>" using assms by (simp add: performRead_def x xe y ye)
  note 1 = x [unfolded xe] and 2 = y [unfolded ye]
  let ?m = "s1\<lparr>v4_A := a, v4_aAlive := aa\<rparr>"
  obtain c1 xs1 where s1: "s1 = s\<lparr>v4_ch := c1, v4_reads := v4_reads s @ xs1\<rparr>"
    "ch_closed c1 = ch_closed (v4_ch s)" "v4_queue s \<Longrightarrow> v4_queue s1"
    "\<And>m. m \<in> set xs1 \<Longrightarrow> v4_aAlive s \<and> (\<exists>l. v4_A s = Some l \<and> LinkID m = lk_id l)"
    "side_step (v4_A s) (v4_aAlive s) a aa" by (rule tryRead_frame [OF 1]) (rule that; blast)
  obtain c2 xs2 where s2: "s2 = ?m\<lparr>v4_ch := c2, v4_reads := v4_reads ?m @ xs2\<rparr>"
    "ch_closed c2 = ch_closed (v4_ch ?m)" "v4_queue ?m \<Longrightarrow> v4_queue s2"
    "\<And>m. m \<in> set xs2 \<Longrightarrow> v4_bAlive s1 \<and> (\<exists>l. v4_B s1 = Some l \<and> LinkID m = lk_id l)"
    "side_step (v4_B s1) (v4_bAlive s1) lb ba" by (rule tryRead_frame [OF 2]) (rule that; blast)
  have "v4_queue s \<Longrightarrow> v4_queue t" using s1(3) s2(3) by (simp add: t v4_queue_def)
  then show ?thesis using s1(1,2,4,5) s2(1,2,4,5) by (auto simp: t round_ok_def)
qed

subsection \<open>Properties\<close>

text \<open>The invariant: nothing is delivered that was not read; the channel is closed with the goroutine; link A is there while
  its flag is up, and closed once it is down.\<close>

definition v4_inv :: "link_v4 \<Rightarrow> bool" where
  "v4_inv s \<longleftrightarrow> v4_queue s \<and> (ch_closed (v4_ch s) \<longleftrightarrow> v4_pc s = V4Gone) \<and>
     (v4_aAlive s \<longrightarrow> v4_A s \<noteq> None) \<and>
     (\<forall>a. v4_A s = Some a \<and> (\<not> v4_aAlive s \<or> v4_pc s = V4Gone) \<longrightarrow> lk_once a)"

definition v4_init :: "link_v4 \<Rightarrow> bool" where
  "v4_init s \<longleftrightarrow> (\<exists>a b. s = NewLinkV4 a b)"

lemma side_step_A:
  assumes "side_step lo al lo' al'" and "al \<longrightarrow> lo \<noteq> None" and "\<forall>a. lo = Some a \<and> \<not> al \<longrightarrow> lk_once a"
  shows "(al' \<longrightarrow> lo' \<noteq> None) \<and> (\<forall>a. lo' = Some a \<and> \<not> al' \<longrightarrow> lk_once a)"
  using assms by (auto simp: side_step_def link_env_def split: option.splits)

lemma round_inv:
  assumes "round_ok s t" and "v4_inv s" and "v4_pc s \<noteq> V4Gone" and "pc \<noteq> V4Gone"
  shows "v4_inv (t\<lparr>v4_pc := pc\<rparr>)"
  using assms side_step_A [of "v4_A s" "v4_aAlive s" "v4_A t" "v4_aAlive t"]
  by (auto simp: v4_inv_def round_ok_def v4_queue_def)

lemma exit_v4_inv: "v4_inv s \<Longrightarrow> v4_pc s \<noteq> V4Gone \<Longrightarrow> v4_inv (v4_exit fw ce s)"
  by (auto simp: v4_inv_def v4_exit_def v4_queue_def Let_def split: option.splits)

lemma move_v4_inv: "v4_inv s \<Longrightarrow> v4_pc s \<noteq> V4Gone \<Longrightarrow> pc \<noteq> V4Gone \<Longrightarrow> v4_inv (s\<lparr>v4_pc := pc\<rparr>)"
  by (auto simp: v4_inv_def v4_queue_def)

lemma loop_v4_inv:
  assumes "v4_loop w1 w2 r1 r2 now pick fw ce s = Some t" and "v4_inv s"
  shows "v4_inv t"
proof -
  have "v4_pc s \<noteq> V4Gone" using assms(1) by (auto simp: v4_loop_def)
  then show ?thesis
    using assms(1) exit_v4_inv [OF assms(2)] move_v4_inv [OF assms(2)] round_inv [OF performWrite_ok assms(2)]
      round_inv [OF performRead_ok assms(2)]
    by (auto simp: v4_loop_def split: v4_pc.splits if_splits option.splits)
qed

lemma Send_cases:
  assumes "LinkV4_Send lost pick s m = V4SReturn e t"
  shows "t = s \<or> (\<exists>l c. v4_A s = Some l \<and> t = s\<lparr>v4_A := Some (l\<lparr>lk_sendCh := c\<rparr>)\<rparr>) \<or>
    (\<exists>l c. v4_B s = Some l \<and> t = s\<lparr>v4_B := Some (l\<lparr>lk_sendCh := c\<rparr>)\<rparr>)"
  using assms by (auto simp: LinkV4_Send_def v4_enqueue_def split: if_splits option.splits)

lemma v4_step_inv: "v4_step s t \<Longrightarrow> v4_inv s \<Longrightarrow> v4_inv t"
proof (induction rule: v4_step.induct)
  case (v4_send lost pick s m e t)
  then show ?case using Send_cases [OF v4_send(1)] by (auto simp: v4_inv_def v4_queue_def)
next
  case (v4_loop w1 w2 r1 r2 now pick fw ce s t)
  then show ?case by (rule loop_v4_inv)
next
  case (v4_reader s m c)
  then show ?case by (auto simp: v4_inv_def v4_queue_def ch_try_recv_Some)
next
  case (v4_linkA s l l')
  then show ?case by (auto simp: v4_inv_def v4_queue_def link_env_def)
qed (auto simp: v4_inv_def v4_queue_def LinkV4_Close_def SetLinkB_def)

lemma v4_init_inv: "v4_init s \<Longrightarrow> v4_inv s"
  by (auto simp: v4_init_def v4_inv_def NewLinkV4_def v4_queue_def ch_make_def)

interpretation v4: inv_system v4_init v4_step v4_inv
  by unfold_locales (blast intro: v4_init_inv v4_step_inv)+

text \<open>C34. Whatever the interleaving of senders, readers, closers, the two links' own goroutines and the network: what is
  delivered and buffered is a subsequence of what was read (messages are dropped when the channel is full, never
  duplicated or reordered); the channel is closed exactly when the loop, its only writer, is gone; and a first link whose
  flag is down, or whose loop is gone, has been closed.\<close>

theorem linkV4_delivers:
  assumes "reach v4_init v4_step s"
  shows "subseq (v4_out s @ ch_buf (v4_ch s)) (v4_reads s) \<and>
    (ch_closed (v4_ch s) \<longleftrightarrow> v4_pc s = V4Gone) \<and> (v4_aAlive s \<longrightarrow> v4_A s \<noteq> None) \<and>
    (\<forall>a. v4_A s = Some a \<and> (\<not> v4_aAlive s \<or> v4_pc s = V4Gone) \<longrightarrow> lk_once a)"
  using v4.reach_inv [OF assms] by (simp add: v4_inv_def v4_queue_def)

definition ex_v4 :: link_v4 where
  "ex_v4 = NewLinkV4 (Some ex_link) None"

definition ex_v4_read :: link_v4 where
  "ex_v4_read = ex_v4\<lparr>v4_pc := V4Top, v4_reads := [\<lparr>LinkID = ''1-7'', Payload = [3]\<rparr>],
     v4_ch := (ch_make 128)\<lparr>ch_buf := [\<lparr>LinkID = ''1-7'', Payload = [3]\<rparr>]\<rparr>\<rparr>"

lemma ex_v4_read_reach:
  assumes "init ex_v4"
  shows "reach init v4_step ex_v4_read"
proof -
  let ?s = "ex_v4\<lparr>v4_pc := V4Read False\<rparr>"
  have "v4_loop WOk WOk (read_res.ROk [3]) RFail 0 False True None ex_v4 = Some ?s"
    by (simp add: v4_loop_def performWrite_def tryWrite_def ex_v4_def NewLinkV4_def ex_link_defs ch_try_recv_def)
  then have 1: "reach init v4_step ?s" using assms by (blast intro: reach_init reach_step v4_loop)
  have "v4_loop WOk WOk (read_res.ROk [3]) RFail 0 False True None ?s = Some ex_v4_read"
    by (simp add: v4_loop_def performRead_def tryRead_def ex_v4_def ex_v4_read_def NewLinkV4_def ex_link_defs
        ch_try_send_def ch_room_def link_updateActiveTime_def Let_def)
  with 1 show ?thesis by (blast intro: reach_step v4_loop)
qed

theorem linkV4_delivers_witness:
  "subseq (ch_buf (v4_ch ex_v4_read)) (v4_reads ex_v4_read) \<and> length (v4_reads ex_v4_read) = 1 \<and>
   \<not> ch_closed (v4_ch ex_v4_read)"
proof -
  have "v4_init ex_v4" by (auto simp: v4_init_def ex_v4_def)
  from linkV4_delivers [OF ex_v4_read_reach [where init = v4_init, OF this]] show ?thesis
    by (simp add: ex_v4_read_def ex_v4_def NewLinkV4_def)
qed

text \<open>Starting with one link only.\<close>

definition v4_single :: "link \<Rightarrow> link_v4 \<Rightarrow> bool" where
  "v4_single l s \<longleftrightarrow> s = NewLinkV4 (Some l) None"

definition v4_one :: "string \<Rightarrow> link_v4 \<Rightarrow> bool" where
  "v4_one i s \<longleftrightarrow> \<not> v4_bAlive s \<and> (\<exists>a. v4_A s = Some a \<and> lk_id a = i) \<and> (\<forall>m \<in> set (v4_reads s). LinkID m = i)"

lemma round_one: "round_ok s t \<Longrightarrow> v4_one i s \<Longrightarrow> v4_one i (t\<lparr>v4_pc := pc\<rparr>)"
  by (fastforce simp: v4_one_def round_ok_def side_step_def link_env_def)

lemma exit_one: "v4_one i s \<Longrightarrow> v4_one i (v4_exit fw ce s)"
  by (auto simp: v4_one_def v4_exit_def Let_def split: option.splits)

lemma v4_step_one: "v4_step s t \<Longrightarrow> v4_one i s \<Longrightarrow> v4_one i t"
proof (induction rule: v4_step.induct)
  case (v4_send lost pick s m e t)
  then show ?case using Send_cases [OF v4_send(1)] by (auto simp: v4_one_def)
next
  case (v4_loop w1 w2 r1 r2 now pick fw ce s t)
  from v4_loop(2) have "v4_one i (s\<lparr>v4_pc := pc\<rparr>)" for pc by (simp add: v4_one_def)
  then show ?case
    using v4_loop(1) exit_one [OF v4_loop(2)] round_one [OF performWrite_ok v4_loop(2)] round_one [OF performRead_ok v4_loop(2)]
    by (auto simp: v4_loop_def split: v4_pc.splits if_splits option.splits)
qed (auto simp: v4_one_def link_env_def LinkV4_Close_def SetLinkB_def)

lemma v4_single_inv: "v4_single l s \<Longrightarrow> v4_one (lk_id l) s \<and> v4_inv s"
  using v4_init_inv [of s] by (auto simp: v4_single_def v4_init_def v4_one_def NewLinkV4_def)

interpretation v4_single: inv_system "v4_single l" v4_step "\<lambda>s. v4_one (lk_id l) s \<and> v4_inv s" for l
  by unfold_locales (auto dest: v4_single_inv v4_step_inv v4_step_one)

text \<open>A second link given later through \<open>SetLinkB\<close> is never served, since only the constructor raises its flag: a
  \<open>Send\<close> to any id but the first link's answers \<open>ErrTargetLinkNotFound\<close>, and everything that is delivered comes from the
  first link, in every state the group can reach.\<close>

theorem linkV4_second_link:
  assumes "reach (v4_single l) v4_step s" and "LinkID m \<noteq> lk_id l"
  shows "LinkV4_Send lost pick s m = V4SReturn (Some (Sen ErrTargetLinkNotFound)) s \<and> \<not> v4_bAlive s \<and>
    (\<forall>x \<in> set (v4_out s @ ch_buf (v4_ch s)). LinkID x = lk_id l)"
proof -
  have i: "v4_one (lk_id l) s" and q: "v4_queue s" using v4_single.reach_inv [OF assms(1)] by (auto simp: v4_inv_def)
  have "set (v4_out s @ ch_buf (v4_ch s)) \<subseteq> set (v4_reads s)"
    using q list_emb_set [of "(=)" _ "v4_reads s"] unfolding v4_queue_def by blast
  then show ?thesis using i assms(2) by (auto simp: v4_one_def LinkV4_Send_def)
qed

theorem linkV4_second_link_witness:
  "LinkV4_Send False False (SetLinkB (Some (ex_link\<lparr>lk_id := ''1-8''\<rparr>)) ex_v4_read) \<lparr>LinkID = ''1-8'', Payload = [7]\<rparr> =
     V4SReturn (Some (Sen ErrTargetLinkNotFound)) (SetLinkB (Some (ex_link\<lparr>lk_id := ''1-8''\<rparr>)) ex_v4_read)"
proof -
  have "v4_single ex_link ex_v4" by (simp add: v4_single_def ex_v4_def)
  then have r: "reach (v4_single ex_link) v4_step (SetLinkB (Some (ex_link\<lparr>lk_id := ''1-8''\<rparr>)) ex_v4_read)"
    by (blast intro: reach_step v4_setB ex_v4_read_reach)
  show ?thesis
    using linkV4_second_link [OF r, of "\<lparr>LinkID = ''1-8'', Payload = [7]\<rparr>"] by (simp add: ex_link_defs)
qed

text \<open>A group that loses its links before a second one was given dies of a nil dereference in the deferred function, and
  its channel stays open.\<close>

lemma v4_exit_nil:
  "v4_A s = None \<or> v4_B s = None \<Longrightarrow>
     v4_pc (v4_exit fw ce s) = V4Panic \<and> ch_closed (v4_ch (v4_exit fw ce s)) = ch_closed (v4_ch s)"
  by (auto simp: v4_exit_def Let_def split: option.splits)

end
