(* ===== verification/GW_EventBus.thy ===== *)
theory GW_EventBus
  imports GW_Node "HOL-Library.Sublist"
begin

text \<open>
  \<open>internal/event\<close>: the producers of the three events the gateway publishes, the producer that batches upstream messages,
  and the consumer that runs one goroutine per partition. The message queue is outside the repository: its answers are
  arguments, and what it accepted is the list the producers append to. The encoders (\<open>encoding/json\<close>, \<open>protojson\<close>) are
  arguments too.
\<close>

subsection \<open>The event producers\<close>

record mq_message =
  mq_key :: string
  mq_value :: bytes
  mq_topic :: string

type_synonym 'e encoder = "'e \<Rightarrow> gerr + bytes"

text \<open>\<open>mq.Producer.Produce\<close>, of which the code uses the error only.\<close>

definition mq_Produce :: "remote_call \<Rightarrow> mq_message \<Rightarrow> mq_message list \<Rightarrow> gerr option \<times> mq_message list" where
  "mq_Produce c m sent =
     (case remote_run c (\<lambda>sent. ((), sent @ [m])) sent of (Inl e, sent') \<Rightarrow> (Some e, sent') | (Inr _, sent') \<Rightarrow> (None, sent'))"

definition scaleUp_Produce ::
  "scale_up_event encoder \<Rightarrow> string \<Rightarrow> remote_call \<Rightarrow> scale_up_event \<Rightarrow> mq_message list \<Rightarrow> gerr option \<times> mq_message list" where
  "scaleUp_Produce enc topic c evt sent =
     (case enc evt of
        Inl e \<Rightarrow> (Some e, sent)
      | Inr b \<Rightarrow> mq_Produce c \<lparr>mq_key = [], mq_value = b, mq_topic = topic\<rparr> sent)"

definition sendToBackend_Produce ::
  "message encoder \<Rightarrow> string \<Rightarrow> remote_call \<Rightarrow> message \<Rightarrow> mq_message list \<Rightarrow> gerr option \<times> mq_message list" where
  "sendToBackend_Produce enc topic c msg sent =
     (case enc msg of
        Inl e \<Rightarrow> (Some e, sent)
      | Inr b \<Rightarrow> mq_Produce c \<lparr>mq_key = msg_key msg, mq_value = b, mq_topic = topic\<rparr> sent)"

definition userAction_Produce ::
  "user_action_event encoder \<Rightarrow> string \<Rightarrow> remote_call \<Rightarrow> user_action_event \<Rightarrow> mq_message list \<Rightarrow> gerr option \<times> mq_message list" where
  "userAction_Produce enc topic c evt sent =
     (case enc evt of
        Inl e \<Rightarrow> (Some e, sent)
      | Inr b \<Rightarrow> mq_Produce c \<lparr>mq_key = fmt_d (ua_BizID evt) @ ''-'' @ fmt_d (ua_UserID evt), mq_value = b, mq_topic = topic\<rparr> sent)"

lemma mq_Produce_log: "mq_Produce c m sent = (e, sent') \<Longrightarrow> sent' = sent \<or> sent' = sent @ [m]"
  by (auto simp: mq_Produce_def remote_run_def split: remote_call.splits)

lemma mq_Produce_ok: "mq_Produce c m sent = (None, sent') \<longleftrightarrow> c = remote_call.ROk \<and> sent' = sent @ [m]"
  by (auto simp: mq_Produce_def remote_run_def split: remote_call.splits)

text \<open>The events of one user carry one key, and no two users share one: the queue keeps the order of a user's events.\<close>

lemma userAction_key:
  assumes "userAction_Produce enc topic c evt [] = (None, [m])" and "userAction_Produce enc topic c' evt' [] = (None, [m'])"
  shows "mq_key m = mq_key m' \<longleftrightarrow> ua_BizID evt = ua_BizID evt' \<and> ua_UserID evt = ua_UserID evt'"
  using assms by (auto simp: userAction_Produce_def mq_Produce_ok dest: fmt_d_dash_inject fmt_d_inject split: sum.splits)

subsection \<open>The batching producer\<close>

text \<open>\<open>br_err\<close> is the index of the request's \<open>ErrChan\<close> among the channels made so far.\<close>

record batch_req =
  br_msg :: message
  br_err :: nat

text \<open>Where the goroutine stands: at the select of \<open>oneLoop\<close>, in the deferred loop of \<open>process\<close> that answers the requests,
  back in \<open>Start\<close> with the error, panicked (which ends the whole program).\<close>

datatype bp_pc = BPTop | BPReply nat "gerr option" | BPReturned | BPPanicked

text \<open>\<open>bp_reqs\<close> is the local of \<open>oneLoop\<close>, \<open>bp_passes\<close> records the batches given to \<open>process\<close>, \<open>bp_got\<close> the callers that
  got their answer; \<open>bp_logger\<close>: whether the field \<open>logger\<close> points to a component or is nil.\<close>

record batch_producer =
  bp_req :: "batch_req chan"
  bp_batchSize :: nat
  bp_reqs :: "batch_req list"
  bp_pc :: bp_pc
  bp_errs :: "gerr option chan list"
  bp_done :: bool
  bp_log :: "mq_message list"
  bp_passes :: "message list list"
  bp_got :: "nat list"
  bp_logger :: bool

definition defaultBatchSize :: nat where
  "defaultBatchSize = 10"

definition NewBatchSendToBackendEventProducer :: batch_producer where
  "NewBatchSendToBackendEventProducer =
     \<lparr>bp_req = ch_make defaultBatchSize, bp_batchSize = defaultBatchSize, bp_reqs = [], bp_pc = BPTop, bp_errs = [],
      bp_done = False, bp_log = [], bp_passes = [], bp_got = [], bp_logger = False\<rparr>"

text \<open>\<open>Produce\<close>: hand over a request with a fresh \<open>ErrChan\<close> (\<open>None\<close>: the channel is full and the caller waits, whatever its
  context), then take one answer.\<close>

definition batch_Produce :: "message \<Rightarrow> batch_producer \<Rightarrow> batch_producer option" where
  "batch_Produce m s =
     (case ch_try_send (bp_req s) \<lparr>br_msg = m, br_err = length (bp_errs s)\<rparr> of
        None \<Rightarrow> None
      | Some c \<Rightarrow> Some (s\<lparr>bp_req := c, bp_errs := bp_errs s @ [ch_make 1]\<rparr>))"

definition batch_await :: "nat \<Rightarrow> batch_producer \<Rightarrow> (gerr option \<times> batch_producer) option" where
  "batch_await r s =
     (if r < length (bp_errs s) \<and> r \<notin> set (bp_got s) then
        (case ch_try_recv (bp_errs s ! r) of
           None \<Rightarrow> None
         | Some (e, c) \<Rightarrow> Some (e, s\<lparr>bp_errs := (bp_errs s)[r := c], bp_got := r # bp_got s\<rparr>))
      else None)"

text \<open>\<open>process\<close> up to its deferred loop.\<close>

definition batch_process :: "message list encoder \<Rightarrow> string \<Rightarrow> remote_call \<Rightarrow> batch_producer \<Rightarrow> batch_producer" where
  "batch_process enc topic c s =
     (let msgs = map br_msg (bp_reqs s); s1 = s\<lparr>bp_passes := bp_passes s @ [msgs]\<rparr>
      in case enc msgs of
           Inl e \<Rightarrow> s1\<lparr>bp_pc := BPReply 0 (Some e)\<rparr>
         | Inr b \<Rightarrow>
             let (e, sent) = mq_Produce c \<lparr>mq_key = [], mq_value = b, mq_topic = topic\<rparr> (bp_log s)
             in s1\<lparr>bp_log := sent, bp_pc := BPReply 0 e\<rparr>)"

text \<open>One step of \<open>oneLoop\<close>. Whether the batch is full makes no difference: the loop goes on either way.\<close>

definition oneLoop_step :: "message list encoder \<Rightarrow> string \<Rightarrow> remote_call \<Rightarrow> bool \<Rightarrow> batch_producer \<Rightarrow> batch_producer option" where
  "oneLoop_step enc topic c pick s =
     (case bp_pc s of
        BPTop \<Rightarrow>
          if bp_done s \<and> (pick \<or> ch_buf (bp_req s) = []) then Some (s\<lparr>bp_pc := BPReturned\<rparr>)
          else (case ch_try_recv (bp_req s) of
                  Some (q, ch) \<Rightarrow> Some (s\<lparr>bp_req := ch, bp_reqs := bp_reqs s @ [q]\<rparr>)
                | None \<Rightarrow> Some (batch_process enc topic c s))
      | BPReply i e \<Rightarrow>
          if i \<ge> length (bp_reqs s) then Some (s\<lparr>bp_pc := BPTop\<rparr>)
          else let r = br_err (bp_reqs s ! i)
               in (case ch_try_send (bp_errs s ! r) e of
                     None \<Rightarrow> None
                   | Some ch \<Rightarrow> Some (s\<lparr>bp_errs := (bp_errs s)[r := ch], bp_pc := BPReply (Suc i) e\<rparr>))
      | BPReturned \<Rightarrow> None
      | BPPanicked \<Rightarrow> None)"

text \<open>\<open>Start\<close> when \<open>oneLoop\<close> has returned, which it does only with an error: it logs the error, which dereferences the logger,
  and calls \<open>oneLoop\<close> again with a new local. The constructor leaves the logger nil.\<close>

definition batch_Start :: "batch_producer \<Rightarrow> batch_producer exec" where
  "batch_Start s =
     (if bp_pc s \<noteq> BPReturned then Block
      else if bp_logger s then Ret (s\<lparr>bp_pc := BPTop, bp_reqs := []\<rparr>)
      else Panic)"

inductive bp_step :: "message list encoder \<Rightarrow> string \<Rightarrow> batch_producer \<Rightarrow> batch_producer \<Rightarrow> bool" for enc topic where
  bp_call: "batch_Produce m s = Some t \<Longrightarrow> bp_pc s \<noteq> BPPanicked \<Longrightarrow> bp_step enc topic s t"
| bp_answer: "batch_await r s = Some (e, t) \<Longrightarrow> bp_pc s \<noteq> BPPanicked \<Longrightarrow> bp_step enc topic s t"
| bp_cancel: "bp_pc s \<noteq> BPPanicked \<Longrightarrow> bp_step enc topic s (s\<lparr>bp_done := True\<rparr>)"
| bp_loop: "oneLoop_step enc topic c pick s = Some t \<Longrightarrow> bp_step enc topic s t"
| bp_restart: "batch_Start s = Ret t \<Longrightarrow> bp_step enc topic s t"
| bp_panic: "batch_Start s = Panic \<Longrightarrow> bp_step enc topic s (s\<lparr>bp_pc := BPPanicked\<rparr>)"

definition bp_init :: "batch_producer \<Rightarrow> bool" where
  "bp_init s \<longleftrightarrow> s = NewBatchSendToBackendEventProducer"

subsection \<open>What the batching producer does to a batch\<close>

text \<open>The number of answers sent to a request so far, and of batches with something in them.\<close>

definition bp_sent :: "batch_producer \<Rightarrow> nat \<Rightarrow> nat" where
  "bp_sent s r = (if r \<in> set (bp_got s) then 1 else 0) + length (ch_buf (bp_errs s ! r))"

definition bp_full :: "batch_producer \<Rightarrow> nat" where
  "bp_full s = length (filter (\<lambda>ms. ms \<noteq> []) (bp_passes s))"

definition bp_refs :: "batch_producer \<Rightarrow> bool" where
  "bp_refs s \<longleftrightarrow> distinct (map br_err (bp_reqs s @ ch_buf (bp_req s))) \<and>
     (\<forall>q \<in> set (bp_reqs s @ ch_buf (bp_req s)). br_err q < length (bp_errs s)) \<and>
     (\<forall>r \<in> set (bp_got s). r < length (bp_errs s)) \<and>
     (\<forall>q \<in> set (ch_buf (bp_req s)). bp_sent s (br_err q) = 0) \<and>
     (\<forall>c \<in> set (bp_errs s). ch_cap c = 1 \<and> length (ch_buf c) \<le> 1)"

definition replying0 :: "bp_pc \<Rightarrow> nat" where
  "replying0 pc = (case pc of BPReply 0 _ \<Rightarrow> 1 | _ \<Rightarrow> 0)"

definition bp_count :: "batch_producer \<Rightarrow> bool" where
  "bp_count s \<longleftrightarrow> \<not> bp_logger s \<and>
     (if bp_pc s = BPReturned \<or> bp_pc s = BPPanicked
      then bp_done s \<and> bp_full s \<le> 2
      else bp_full s = (case bp_reqs s of [] \<Rightarrow> 0 | q # _ \<Rightarrow> bp_sent s (br_err q) + replying0 (bp_pc s)))"

lemma bp_sent_le: "bp_refs s \<Longrightarrow> r < length (bp_errs s) \<Longrightarrow> bp_sent s r \<le> 2"
  by (auto simp: bp_refs_def bp_sent_def dest!: nth_mem)

lemma bp_errs_ok: "bp_refs s \<Longrightarrow> r < length (bp_errs s) \<Longrightarrow> ch_cap (bp_errs s ! r) = 1 \<and> length (ch_buf (bp_errs s ! r)) \<le> 1"
  by (simp add: bp_refs_def)

text \<open>No step of a caller changes how many answers a pending request was sent.\<close>

lemma call_sent:
  assumes "batch_Produce m s = Some t" and "bp_refs s"
  shows "r < length (bp_errs s) \<Longrightarrow> bp_sent t r = bp_sent s r" and "bp_sent t (length (bp_errs s)) = 0"
  using assms by (auto simp: batch_Produce_def bp_sent_def bp_refs_def nth_append ch_make_def split: option.splits)

lemma answer_sent:
  assumes "batch_await r s = Some (e, t)"
  shows "bp_sent t r' = bp_sent s r'"
  using assms
  by (cases "r' = r") (auto simp: batch_await_def bp_sent_def ch_try_recv_Some split: if_splits option.splits)

lemma call_refs:
  assumes "batch_Produce m s = Some t" and "bp_refs s"
  shows "bp_refs t"
proof -
  have t: "bp_reqs t = bp_reqs s" "bp_got t = bp_got s" "bp_errs t = bp_errs s @ [ch_make 1]"
    "ch_buf (bp_req t) = ch_buf (bp_req s) @ [\<lparr>br_msg = m, br_err = length (bp_errs s)\<rparr>]"
    using assms(1) by (auto simp: batch_Produce_def ch_try_send_Some split: option.splits)
  have fresh: "br_err q \<noteq> length (bp_errs s)" if "q \<in> set (bp_reqs s @ ch_buf (bp_req s))" for q
    using assms(2) that unfolding bp_refs_def by (metis less_irrefl)
  have sent: "bp_sent t (br_err q) = 0" if "q \<in> set (ch_buf (bp_req t))" for q
    using that assms call_sent [OF assms] by (auto simp: t bp_refs_def)
  have "length (bp_errs s) \<notin> set (map br_err (bp_reqs s @ ch_buf (bp_req s)))" using fresh by fastforce
  then show ?thesis
    using assms(2) sent unfolding bp_refs_def t by (auto simp: ch_make_def less_Suc_eq)
qed

lemma errs_update:
  assumes "bp_refs s" and "ch_cap c' = 1 \<and> length (ch_buf c') \<le> 1"
  shows "\<forall>c \<in> set ((bp_errs s)[r := c']). ch_cap c = 1 \<and> length (ch_buf c) \<le> 1"
proof -
  have "\<forall>c \<in> insert c' (set (bp_errs s)). ch_cap c = 1 \<and> length (ch_buf c) \<le> 1" using assms by (simp add: bp_refs_def)
  then show ?thesis using set_update_subset_insert [of "bp_errs s" r c'] by blast
qed

lemma answer_refs:
  assumes "batch_await r s = Some (e, t)" and "bp_refs s"
  shows "bp_refs t"
proof -
  obtain c where c: "ch_try_recv (bp_errs s ! r) = Some (e, c)" and r: "r < length (bp_errs s)"
    and t: "t = s\<lparr>bp_errs := (bp_errs s)[r := c], bp_got := r # bp_got s\<rparr>"
    using assms(1) by (auto simp: batch_await_def split: if_splits option.splits)
  have "ch_cap c = 1 \<and> length (ch_buf c) \<le> 1" using c bp_errs_ok [OF assms(2) r] by (auto simp: ch_try_recv_Some)
  from errs_update [OF assms(2) this, of r]
  have "\<forall>c \<in> set (bp_errs t). ch_cap c = 1 \<and> length (ch_buf c) \<le> 1" by (simp add: t)
  moreover have "\<forall>q \<in> set (ch_buf (bp_req t)). bp_sent t (br_err q) = 0"
    using assms(2) answer_sent [OF assms(1)] by (simp add: t bp_refs_def)
  ultimately show ?thesis using assms(2) r by (simp add: t bp_refs_def)
qed

text \<open>Answering request \<open>i\<close> of the batch: one answer more for it, none for the others.\<close>

lemma reply_sent:
  assumes "bp_refs s" and "i < length (bp_reqs s)" and sd: "ch_try_send (bp_errs s ! br_err (bp_reqs s ! i)) e = Some ch"
    and t: "t = s\<lparr>bp_errs := (bp_errs s)[br_err (bp_reqs s ! i) := ch], bp_pc := pc\<rparr>"
  shows "bp_sent t r = (if r = br_err (bp_reqs s ! i) then Suc (bp_sent s r) else bp_sent s r)" and "bp_refs t"
proof -
  let ?r = "br_err (bp_reqs s ! i)"
  have i: "bp_reqs s ! i \<in> set (bp_reqs s)" using assms(2) by simp
  have lt: "?r < length (bp_errs s)" using assms(1) i by (auto simp: bp_refs_def)
  show s: "bp_sent t r = (if r = ?r then Suc (bp_sent s r) else bp_sent s r)" for r
    using sd lt by (auto simp: t bp_sent_def ch_try_send_Some)
  have disj: "br_err ` set (bp_reqs s) \<inter> br_err ` set (ch_buf (bp_req s)) = {}" using assms(1) by (simp add: bp_refs_def)
  have ne: "br_err q \<noteq> ?r" if "q \<in> set (ch_buf (bp_req s))" for q using disj i that by blast
  have "\<forall>q \<in> set (ch_buf (bp_req s)). bp_sent s (br_err q) = 0" using assms(1) by (simp add: bp_refs_def)
  then have "\<forall>q \<in> set (ch_buf (bp_req t)). bp_sent t (br_err q) = 0" using ne s by (simp add: t)
  moreover have "ch_cap ch = 1 \<and> length (ch_buf ch) \<le> 1"
    using sd bp_errs_ok [OF assms(1) lt] by (auto simp: ch_try_send_Some ch_room_def)
  from errs_update [OF assms(1) this, of ?r]
  have "\<forall>c \<in> set (bp_errs t). ch_cap c = 1 \<and> length (ch_buf c) \<le> 1" by (simp add: t)
  ultimately show "bp_refs t" using assms(1) by (simp add: t bp_refs_def)
qed

lemma process_frame:
  "bp_reqs (batch_process enc topic c s) = bp_reqs s" "bp_errs (batch_process enc topic c s) = bp_errs s"
  "bp_got (batch_process enc topic c s) = bp_got s" "bp_req (batch_process enc topic c s) = bp_req s"
  "bp_done (batch_process enc topic c s) = bp_done s" "bp_logger (batch_process enc topic c s) = bp_logger s"
  "bp_passes (batch_process enc topic c s) = bp_passes s @ [map br_msg (bp_reqs s)]"
  "\<exists>e. bp_pc (batch_process enc topic c s) = BPReply 0 e"
  by (auto simp: batch_process_def Let_def split: sum.splits prod.splits)

lemma sent_cong: "bp_got t = bp_got s \<Longrightarrow> bp_errs t = bp_errs s \<Longrightarrow> bp_sent t r = bp_sent s r"
  by (simp add: bp_sent_def)

lemma loop_inv:
  assumes st: "oneLoop_step enc topic c pick s = Some t" and refs: "bp_refs s" and count: "bp_count s"
  shows "bp_refs t \<and> bp_count t"
proof (cases "bp_pc s")
  case BPTop
  show ?thesis
  proof (cases "bp_done s \<and> (pick \<or> ch_buf (bp_req s) = [])")
    case True
    then have t: "t = s\<lparr>bp_pc := BPReturned\<rparr>" using st BPTop by (simp add: oneLoop_step_def)
    have "bp_full s \<le> 2"
    proof (cases "bp_reqs s")
      case Nil
      then show ?thesis using count BPTop by (auto simp: bp_count_def split: if_splits)
    next
      case (Cons q qs)
      then have "bp_sent s (br_err q) \<le> 2" using refs bp_sent_le [OF refs] by (auto simp: bp_refs_def)
      then show ?thesis using count BPTop Cons by (auto simp: bp_count_def replying0_def split: if_splits)
    qed
    moreover have "\<not> bp_logger s" using count by (simp add: bp_count_def)
    ultimately show ?thesis using refs True by (auto simp: t bp_count_def bp_refs_def bp_full_def bp_sent_def)
  next
    case False
    show ?thesis
    proof (cases "ch_try_recv (bp_req s)")
      case None
      then have t: "t = batch_process enc topic c s" using st BPTop False by (auto simp: oneLoop_step_def)
      obtain e where pc: "bp_pc t = BPReply 0 e" using process_frame(8) t by blast
      have "bp_refs t" using refs unfolding t bp_refs_def by (simp add: process_frame bp_sent_def)
      moreover have "bp_full t = bp_full s + (if bp_reqs s = [] then 0 else 1)" by (simp add: t bp_full_def process_frame)
      then have "bp_count t"
        using count pc BPTop unfolding bp_count_def
        by (simp add: t process_frame(1,6) sent_cong [OF process_frame(3,2)] replying0_def split: list.splits)
      ultimately show ?thesis by blast
    next
      case (Some qc)
      then obtain q ch where rc: "ch_try_recv (bp_req s) = Some (q, ch)" by (cases qc) auto
      then have t: "t = s\<lparr>bp_req := ch, bp_reqs := bp_reqs s @ [q]\<rparr>" using st BPTop False by (auto simp: oneLoop_step_def)
      obtain qs where b: "ch_buf (bp_req s) = q # qs" "ch_buf ch = qs" using rc by (auto simp: ch_try_recv_Some)
      have "bp_refs t" using refs b by (auto simp: t bp_refs_def bp_sent_def)
      moreover have "bp_sent s (br_err q) = 0" using refs b by (simp add: bp_refs_def)
      then have "bp_count t" using count BPTop
        by (cases "bp_reqs s") (auto simp: t bp_count_def bp_full_def bp_sent_def replying0_def)
      ultimately show ?thesis by blast
    qed
  qed
next
  case (BPReply i e)
  then have nr: "\<not> bp_logger s" using count by (simp add: bp_count_def)
  have full: "bp_full s = (case bp_reqs s of [] \<Rightarrow> 0 | q # _ \<Rightarrow> bp_sent s (br_err q) + replying0 (BPReply i e))"
    using count nr BPReply by (simp add: bp_count_def split: list.splits)
  show ?thesis
  proof (cases "i \<ge> length (bp_reqs s)")
    case True
    then have t: "t = s\<lparr>bp_pc := BPTop\<rparr>" using st BPReply by (simp add: oneLoop_step_def)
    have "bp_refs t" using refs by (simp add: t bp_refs_def bp_sent_def)
    moreover have "bp_count t" using full nr True
      by (auto simp: t bp_count_def bp_full_def bp_sent_def replying0_def split: list.splits nat.splits)
    ultimately show ?thesis by blast
  next
    case False
    let ?r = "br_err (bp_reqs s ! i)"
    obtain ch where sd: "ch_try_send (bp_errs s ! ?r) e = Some ch"
      and t: "t = s\<lparr>bp_errs := (bp_errs s)[?r := ch], bp_pc := BPReply (Suc i) e\<rparr>"
      using st BPReply False by (auto simp: oneLoop_step_def Let_def split: option.splits)
    have i: "i < length (bp_reqs s)" using False by simp
    note sent = reply_sent(1) [OF refs i sd t]
    obtain q qs where q: "bp_reqs s = q # qs" using i by (cases "bp_reqs s") auto
    have "(br_err q = ?r) = (i = 0)"
    proof (cases i)
      case (Suc j)
      then have "bp_reqs s ! i \<in> set qs" using i q by simp
      then show ?thesis using refs q Suc by (force simp: bp_refs_def)
    qed (simp add: q)
    then have "bp_count t" using full nr q sent
      by (auto simp: t bp_count_def bp_full_def replying0_def split: nat.splits if_splits)
    then show ?thesis using reply_sent(2) [OF refs i sd t] by blast
  qed
qed (use st in \<open>simp_all add: oneLoop_step_def\<close>)

lemma count_cong:
  assumes "bp_logger t = bp_logger s" "bp_pc t = bp_pc s" "bp_passes t = bp_passes s" "bp_reqs t = bp_reqs s"
    and "bp_done s \<longrightarrow> bp_done t" and "\<And>q. q \<in> set (bp_reqs s) \<Longrightarrow> bp_sent t (br_err q) = bp_sent s (br_err q)"
  shows "bp_count s \<Longrightarrow> bp_count t"
  using assms by (auto simp: bp_count_def bp_full_def split: list.splits if_splits)

lemma bp_step_inv: "bp_step enc topic s t \<Longrightarrow> bp_refs s \<and> bp_count s \<Longrightarrow> bp_refs t \<and> bp_count t"
proof (induction rule: bp_step.induct)
  case (bp_call m s t)
  then have r: "bp_refs s" and c: "bp_count s" by auto
  have lt: "br_err q < length (bp_errs s)" if "q \<in> set (bp_reqs s)" for q using r that by (auto simp: bp_refs_def)
  have "bp_count t"
    by (rule count_cong [OF _ _ _ _ _ _ c])
      (use bp_call(1) call_sent(1) [OF bp_call(1) r lt] in \<open>auto simp: batch_Produce_def split: option.splits\<close>)
  then show ?case using call_refs [OF bp_call(1) r] by blast
next
  case (bp_answer r s e t)
  have f: "bp_logger t = bp_logger s" "bp_pc t = bp_pc s" "bp_passes t = bp_passes s" "bp_reqs t = bp_reqs s" "bp_done t = bp_done s"
    using bp_answer(1) by (auto simp: batch_await_def split: option.splits if_splits)
  have "bp_count t" by (rule count_cong [of _ s]) (use bp_answer(3) f answer_sent [OF bp_answer(1)] in simp_all)
  then show ?case using answer_refs [OF bp_answer(1)] bp_answer(3) by blast
next
  case (bp_cancel s)
  from bp_cancel(2) have "bp_count (s\<lparr>bp_done := True\<rparr>)" by (intro count_cong [of "s\<lparr>bp_done := True\<rparr>" s]) (simp_all add: bp_sent_def)
  then show ?case using bp_cancel by (simp add: bp_refs_def bp_sent_def)
next
  case (bp_loop c pick s t)
  then show ?case using loop_inv by blast
next
  case (bp_restart s t)
  then show ?case by (auto simp: batch_Start_def bp_count_def split: if_splits)
next
  case (bp_panic s)
  then have "bp_pc s = BPReturned" by (auto simp: batch_Start_def split: if_splits)
  with bp_panic show ?case by (simp add: bp_refs_def bp_sent_def bp_count_def bp_full_def)
qed

lemma bp_init_inv: "bp_init s \<Longrightarrow> bp_refs s \<and> bp_count s"
  by (simp add: bp_init_def NewBatchSendToBackendEventProducer_def bp_refs_def bp_count_def bp_full_def ch_make_def)

interpretation bp: inv_system bp_init "bp_step enc topic" "\<lambda>s. bp_refs s \<and> bp_count s" for enc topic
  by unfold_locales (auto dest: bp_init_inv bp_step_inv)

subsection \<open>Properties\<close>

inductive_cases bp_stepE: "bp_step enc topic s t"

lemma panicked_ends: "bp_pc s = BPPanicked \<Longrightarrow> \<not> bp_step enc topic s t"
  by (auto elim!: bp_stepE simp: oneLoop_step_def batch_Start_def)

text \<open>C36. The local batch of \<open>oneLoop\<close> is never emptied, so the same messages are published again and again, until the
  answers no longer fit into the channel of capacity one of the first caller: at most three batches with something in
  them are ever processed by a producer, and after the third its goroutine waits for ever. The only other end is the
  cancelled context: then \<open>Start\<close> logs the error on the logger the constructor left nil, and the program panics.\<close>

theorem batch_producer_stuck:
  assumes "reach bp_init (bp_step enc topic) s"
  shows "bp_full s \<le> 3 \<and> (bp_full s = 3 \<longrightarrow> (\<forall>c pick. oneLoop_step enc topic c pick s = None) \<and> batch_Start s = Block)
     \<and> (bp_pc s = BPReturned \<longrightarrow> bp_done s \<and> batch_Start s = Panic)
     \<and> (bp_pc s = BPPanicked \<longrightarrow> bp_done s \<and> (\<forall>t. \<not> bp_step enc topic s t))"
proof -
  from bp.reach_inv [OF assms] have refs: "bp_refs s" and count: "bp_count s" by auto
  show ?thesis
  proof (cases "bp_pc s = BPReturned \<or> bp_pc s = BPPanicked \<or> bp_reqs s = []")
    case True
    then show ?thesis using count panicked_ends by (auto simp: bp_count_def batch_Start_def split: if_splits)
  next
    case False
    then obtain q qs where q: "bp_reqs s = q # qs" by (cases "bp_reqs s") auto
    have full: "bp_full s = bp_sent s (br_err q) + replying0 (bp_pc s)" using count False q by (auto simp: bp_count_def)
    have lt: "br_err q < length (bp_errs s)" using refs q by (simp add: bp_refs_def)
    note le = bp_sent_le [OF refs lt]
    have le1: "replying0 (bp_pc s) \<le> 1" by (auto simp: replying0_def split: bp_pc.splits nat.splits)
    show ?thesis
    proof (cases "bp_full s = 3")
      case True
      then have "replying0 (bp_pc s) = 1" and two: "bp_sent s (br_err q) = 2" using full le le1 by linarith+
      then obtain e where pc: "bp_pc s = BPReply 0 e" by (auto simp: replying0_def split: bp_pc.splits nat.splits)
      have "\<not> ch_room (bp_errs s ! br_err q)"
        using two bp_errs_ok [OF refs lt] by (auto simp: bp_sent_def ch_room_def split: if_splits)
      then show ?thesis using True pc q by (simp add: oneLoop_step_def ch_try_send_def batch_Start_def)
    next
      case False
      then show ?thesis using \<open>\<not> (bp_pc s = BPReturned \<or> bp_pc s = BPPanicked \<or> bp_reqs s = [])\<close> full le le1 by force
    qed
  qed
qed

text \<open>A run given by what happens next: a caller, its wait, or the goroutine.\<close>

datatype bp_act = ACall message | AAwait nat | ALoop

fun bp_acts :: "message list encoder \<Rightarrow> string \<Rightarrow> bp_act list \<Rightarrow> batch_producer \<Rightarrow> batch_producer option" where
  "bp_acts enc topic [] s = Some s"
| "bp_acts enc topic (ACall m # as) s =
     (if bp_pc s = BPPanicked then None else case batch_Produce m s of None \<Rightarrow> None | Some t \<Rightarrow> bp_acts enc topic as t)"
| "bp_acts enc topic (AAwait r # as) s =
     (if bp_pc s = BPPanicked then None else case batch_await r s of None \<Rightarrow> None | Some (_, t) \<Rightarrow> bp_acts enc topic as t)"
| "bp_acts enc topic (ALoop # as) s = (case oneLoop_step enc topic remote_call.ROk False s of None \<Rightarrow> None | Some t \<Rightarrow> bp_acts enc topic as t)"

lemma bp_acts_reach:
  "bp_acts enc topic as s = Some t \<Longrightarrow> reach bp_init (bp_step enc topic) s \<Longrightarrow> reach bp_init (bp_step enc topic) t"
proof (induction enc topic as s rule: bp_acts.induct)
  case (2 enc topic m as s)
  then obtain u where u: "batch_Produce m s = Some u" "bp_acts enc topic as u = Some t" and p: "bp_pc s \<noteq> BPPanicked"
    by (auto split: option.splits if_splits)
  show ?case by (rule 2(1) [OF p u(1) u(2) reach_step [OF 2(3) bp_call [OF u(1) p]]])
next
  case (3 enc topic r as s)
  then obtain e u where u: "batch_await r s = Some (e, u)" "bp_acts enc topic as u = Some t" and p: "bp_pc s \<noteq> BPPanicked"
    by (auto split: option.splits if_splits)
  show ?case by (rule 3(1) [OF p u(1) refl u(2) reach_step [OF 3(3) bp_answer [OF u(1) p]]])
next
  case (4 enc topic as s)
  then show ?case by (auto split: option.splits intro: reach_step bp_loop)
qed simp

definition ex_bp_acts :: "bp_act list" where
  "ex_bp_acts = [ACall \<lparr>msg_cmd = UPSTREAM_MESSAGE, msg_key = ''k'', msg_body = []\<rparr>, ALoop, ALoop, ALoop, ALoop, AAwait 0,
     ALoop, ALoop, ALoop, ALoop]"

theorem batch_producer_stuck_witness:
  "\<exists>t. bp_acts (\<lambda>_. Inr [1]) ''up'' ex_bp_acts NewBatchSendToBackendEventProducer = Some t \<and>
     length (bp_log t) = 3 \<and> (\<forall>c pick. oneLoop_step (\<lambda>_. Inr [1]) ''up'' c pick t = None)"
proof -
  let ?e = "\<lambda>_. Inr [1]"
  obtain t where t: "bp_acts ?e ''up'' ex_bp_acts NewBatchSendToBackendEventProducer = Some t"
    "bp_full t = 3" "length (bp_log t) = 3"
    by (simp add: ex_bp_acts_def NewBatchSendToBackendEventProducer_def batch_Produce_def oneLoop_step_def batch_await_def
        batch_process_def ch_try_send_def ch_try_recv_def ch_make_def ch_room_def mq_Produce_def defaultBatchSize_def
        bp_full_def Let_def)
  have "reach bp_init (bp_step ?e ''up'') NewBatchSendToBackendEventProducer" by (rule reach_init) (simp add: bp_init_def)
  from batch_producer_stuck [OF bp_acts_reach [OF t(1) this]] t show ?thesis by blast
qed

text \<open>An idle producer publishes an empty batch in every pass.\<close>

lemma batch_producer_idle:
  assumes "bp_pc s = BPTop" and "\<not> bp_done s" and "ch_buf (bp_req s) = []" and "bp_reqs s = []" and "enc [] = Inr b"
  shows "\<exists>t. oneLoop_step enc topic remote_call.ROk pick s = Some t \<and>
    bp_log t = bp_log s @ [\<lparr>mq_key = [], mq_value = b, mq_topic = topic\<rparr>]"
  using assms by (simp add: oneLoop_step_def ch_try_recv_def batch_process_def mq_Produce_def)

subsection \<open>The consumer\<close>

text \<open>One partition's goroutine: its channel, whether it runs, the messages it handled with the callback's result, and
  those the queue put into the channel.\<close>

record 'm partition_loop =
  pl_ch :: "'m chan"
  pl_running :: bool
  pl_handled :: "('m \<times> gerr option) list"
  pl_sent :: "'m list"

record 'm consumer =
  cs_name :: string
  cs_partitions :: int
  cs_inner :: bool
  cs_ctx :: bool
  cs_loops :: "'m partition_loop list"

definition NewConsumer :: "string \<Rightarrow> int \<Rightarrow> 'm consumer" where
  "NewConsumer n parts = \<lparr>cs_name = n, cs_partitions = parts, cs_inner = False, cs_ctx = False, cs_loops = []\<rparr>"

definition step_name :: "'m consumer \<Rightarrow> int \<Rightarrow> string" where
  "step_name c part = cs_name c @ ''-'' @ fmt_d part"

definition consumer_Stop :: "'m consumer \<Rightarrow> gerr option \<times> 'm consumer" where
  "consumer_Stop c = (None, c\<lparr>cs_inner := True\<rparr>)"

text \<open>\<open>Start\<close>: \<open>mqc i\<close> and \<open>mqch i\<close> are the queue's answers for partition \<open>i\<close>. The partitions started before an error run on.\<close>

function start_partitions ::
  "(int \<Rightarrow> gerr option) \<Rightarrow> (int \<Rightarrow> gerr + 'm chan) \<Rightarrow> int \<Rightarrow> 'm consumer \<Rightarrow> gerr option \<times> 'm consumer" where
  "start_partitions mqc mqch i c =
     (if i < cs_partitions c then
        (case mqc i of
           Some e \<Rightarrow> (Some e, c)
         | None \<Rightarrow>
             (case mqch i of
                Inl e \<Rightarrow> (Some e, c)
              | Inr ch \<Rightarrow>
                  start_partitions mqc mqch (i + 1)
                    (c\<lparr>cs_loops := cs_loops c @ [\<lparr>pl_ch = ch, pl_running = True, pl_handled = [], pl_sent = ch_buf ch\<rparr>]\<rparr>)))
      else (None, c))"
  by pat_completeness auto

termination by (relation "measure (\<lambda>(mqc, mqch, i, c). nat (cs_partitions c - i))") auto

declare start_partitions.simps [simp del]

definition consumer_Start ::
  "(int \<Rightarrow> gerr option) \<Rightarrow> (int \<Rightarrow> gerr + 'm chan) \<Rightarrow> 'm consumer \<Rightarrow> gerr option \<times> 'm consumer" where
  "consumer_Start mqc mqch c = start_partitions mqc mqch 0 c"

text \<open>One step of \<open>consume\<close>; \<open>r\<close> is what the callback returns, which is only logged. \<open>None\<close>: it waits or is gone.\<close>

definition consume_step :: "bool \<Rightarrow> gerr option \<Rightarrow> 'm consumer \<Rightarrow> 'm partition_loop \<Rightarrow> 'm partition_loop option" where
  "consume_step pick r c p =
     (if \<not> pl_running p then None
      else if (cs_inner c \<or> cs_ctx c) \<and> (pick \<or> ch_buf (pl_ch p) = [] \<and> \<not> ch_closed (pl_ch p)) then
        Some (p\<lparr>pl_running := False\<rparr>)
      else (case ch_try_recv (pl_ch p) of
              Some (m, ch) \<Rightarrow> Some (p\<lparr>pl_ch := ch, pl_handled := pl_handled p @ [(m, r)]\<rparr>)
            | None \<Rightarrow> if ch_closed (pl_ch p) then Some (p\<lparr>pl_running := False\<rparr>) else None))"

inductive cs_step :: "'m consumer \<Rightarrow> 'm consumer \<Rightarrow> bool" where
  cs_start: "cs_loops c = [] \<Longrightarrow> consumer_Start mqc mqch c = (e, c') \<Longrightarrow> cs_step c c'"
| cs_consume: "i < length (cs_loops c) \<Longrightarrow> consume_step pick r c (cs_loops c ! i) = Some p \<Longrightarrow>
     cs_step c (c\<lparr>cs_loops := (cs_loops c)[i := p]\<rparr>)"
| cs_message: "i < length (cs_loops c) \<Longrightarrow> p = cs_loops c ! i \<Longrightarrow> ch_try_send (pl_ch p) m = Some ch \<Longrightarrow>
     cs_step c (c\<lparr>cs_loops := (cs_loops c)[i := p\<lparr>pl_ch := ch, pl_sent := pl_sent p @ [m]\<rparr>]\<rparr>)"
| cs_close: "i < length (cs_loops c) \<Longrightarrow> p = cs_loops c ! i \<Longrightarrow>
     cs_step c (c\<lparr>cs_loops := (cs_loops c)[i := p\<lparr>pl_ch := (pl_ch p)\<lparr>ch_closed := True\<rparr>\<rparr>]\<rparr>)"
| cs_stop: "cs_step c (snd (consumer_Stop c))"
| cs_cancel: "cs_step c (c\<lparr>cs_ctx := True\<rparr>)"

definition cs_init :: "'m consumer \<Rightarrow> bool" where
  "cs_init c \<longleftrightarrow> (\<exists>n parts. c = NewConsumer n parts)"

text \<open>The loops handled what they were sent, in order, and nothing more.\<close>

definition cs_inv :: "'m consumer \<Rightarrow> bool" where
  "cs_inv c \<longleftrightarrow> (\<forall>p \<in> set (cs_loops c). map fst (pl_handled p) @ ch_buf (pl_ch p) = pl_sent p)"

lemma start_partitions_loops:
  "cs_inv c \<Longrightarrow> start_partitions mqc mqch i c = (e, c') \<Longrightarrow>
     cs_inv c' \<and> (\<exists>ls. cs_loops c' = cs_loops c @ ls \<and> (e = None \<longrightarrow> int (length ls) = max 0 (cs_partitions c - i)) \<and>
       (e \<noteq> None \<longrightarrow> int (length ls) < cs_partitions c - i))"
proof (induction mqc mqch i c rule: start_partitions.induct)
  case (1 mqc mqch i c)
  show ?case
  proof (cases "i < cs_partitions c \<and> mqc i = None \<and> (\<exists>ch. mqch i = Inr ch)")
    case True
    then obtain ch where ch: "i < cs_partitions c" "mqc i = None" "mqch i = Inr ch" by auto
    let ?c = "c\<lparr>cs_loops := cs_loops c @ [\<lparr>pl_ch = ch, pl_running = True, pl_handled = [], pl_sent = ch_buf ch\<rparr>]\<rparr>"
    have "cs_inv ?c" using 1(2) by (auto simp: cs_inv_def)
    moreover have "start_partitions mqc mqch (i + 1) ?c = (e, c')" using 1(3) ch by (simp add: start_partitions.simps [of mqc mqch i])
    ultimately obtain ls where "cs_inv c'" "cs_loops c' = cs_loops ?c @ ls"
      "e = None \<longrightarrow> int (length ls) = max 0 (cs_partitions c - (i + 1))" "e \<noteq> None \<longrightarrow> int (length ls) < cs_partitions c - (i + 1)"
      using 1(1) [OF ch] by auto
    with ch(1) show ?thesis
      by (intro conjI exI [of _ "\<lparr>pl_ch = ch, pl_running = True, pl_handled = [], pl_sent = ch_buf ch\<rparr> # ls"]) auto
  next
    case False
    show ?thesis
    proof (cases "i < cs_partitions c")
      case True
      let ?e = "Some (case mqc i of Some x \<Rightarrow> x | None \<Rightarrow> projl (mqch i))"
      have "start_partitions mqc mqch i c = (?e, c)" using False True
        by (cases "mqc i"; cases "mqch i") (simp_all add: start_partitions.simps [of mqc mqch i])
      then have "e = ?e" "c' = c" using 1(3) by simp_all
      then show ?thesis using 1(2) True by simp
    next
      case False
      then show ?thesis using 1(2,3) by (auto simp: start_partitions.simps [of mqc mqch i])
    qed
  qed
qed

lemma loops_update_inv:
  assumes "cs_inv c" and "i < length (cs_loops c)"
    and "map fst (pl_handled (cs_loops c ! i)) @ ch_buf (pl_ch (cs_loops c ! i)) = pl_sent (cs_loops c ! i) \<Longrightarrow>
      map fst (pl_handled p) @ ch_buf (pl_ch p) = pl_sent p"
  shows "cs_inv (c\<lparr>cs_loops := (cs_loops c)[i := p]\<rparr>)"
proof -
  have "map fst (pl_handled p) @ ch_buf (pl_ch p) = pl_sent p" using assms by (simp add: cs_inv_def)
  then have "\<forall>q \<in> insert p (set (cs_loops c)). map fst (pl_handled q) @ ch_buf (pl_ch q) = pl_sent q"
    using assms(1) by (simp add: cs_inv_def)
  then show ?thesis using set_update_subset_insert [of "cs_loops c" i p] by (simp add: cs_inv_def) blast
qed

lemma consume_step_keeps:
  assumes "consume_step pick r c p = Some q" and "map fst (pl_handled p) @ ch_buf (pl_ch p) = pl_sent p"
  shows "map fst (pl_handled q) @ ch_buf (pl_ch q) = pl_sent q"
  using assms by (auto simp: consume_step_def ch_try_recv_Some split: if_splits option.splits)

lemma cs_step_inv: "cs_step c c' \<Longrightarrow> cs_inv c \<Longrightarrow> cs_inv c'"
proof (induction rule: cs_step.induct)
  case (cs_start c mqc mqch e c')
  then show ?case using start_partitions_loops [of c mqc mqch 0] by (auto simp: consumer_Start_def)
next
  case (cs_consume i c pick r p)
  then show ?case using loops_update_inv consume_step_keeps by blast
next
  case (cs_message i c p m ch)
  show ?case by (rule loops_update_inv) (use cs_message in \<open>auto simp: ch_try_send_Some\<close>)
next
  case (cs_close i c p)
  show ?case by (rule loops_update_inv) (use cs_close in auto)
qed (simp_all add: cs_inv_def consumer_Stop_def)

lemma cs_init_inv: "cs_init c \<Longrightarrow> cs_inv c"
  by (auto simp: cs_init_def NewConsumer_def cs_inv_def)

interpretation cs: inv_system cs_init cs_step cs_inv
  by unfold_locales (auto dest: cs_init_inv cs_step_inv)

text \<open>A consumer hands every message of a partition to its callback at most once and in the order the queue delivered
  them, whatever the callback answers: nothing is skipped, repeated or retried. A goroutine that runs can stop as soon as
  \<open>Stop\<close> was called or the context cancelled, whatever is still buffered, and a stopped one handles nothing more.\<close>

theorem consumer_in_order:
  assumes "reach cs_init cs_step c" and "p \<in> set (cs_loops c)"
  shows "prefix (map fst (pl_handled p)) (pl_sent p) \<and>
    (pl_running p \<longrightarrow> consume_step True r (snd (consumer_Stop c)) p = Some (p\<lparr>pl_running := False\<rparr>)) \<and>
    consume_step pick r c (p\<lparr>pl_running := False\<rparr>) = None"
proof -
  have "map fst (pl_handled p) @ ch_buf (pl_ch p) = pl_sent p"
    using cs.reach_inv [OF assms(1)] assms(2) by (simp add: cs_inv_def)
  then have "prefix (map fst (pl_handled p)) (pl_sent p)" by (metis prefixI)
  then show ?thesis by (simp add: consume_step_def consumer_Stop_def)
qed

definition ex_cs :: "nat consumer" where
  "ex_cs = snd (consumer_Start (\<lambda>_. None) (\<lambda>_. Inr ((ch_make 2)\<lparr>ch_buf := [8]\<rparr>)) (NewConsumer ''up'' 1))"

theorem consumer_in_order_witness:
  "\<exists>p. cs_loops ex_cs = [p] \<and> prefix (map fst (pl_handled p)) [8] \<and>
     consume_step True None (snd (consumer_Stop ex_cs)) p = Some (p\<lparr>pl_running := False\<rparr>)"
proof -
  let ?p = "\<lparr>pl_ch = (ch_make 2)\<lparr>ch_buf := [8]\<rparr>, pl_running = True, pl_handled = [], pl_sent = [8 :: nat]\<rparr>"
  have e: "ex_cs = (NewConsumer ''up'' 1)\<lparr>cs_loops := [?p]\<rparr>"
    by (simp add: ex_cs_def consumer_Start_def start_partitions.simps NewConsumer_def)
  have "reach cs_init cs_step (NewConsumer ''up'' 1 :: nat consumer)" by (rule reach_init) (auto simp: cs_init_def)
  moreover have "cs_step (NewConsumer ''up'' 1) ex_cs"
    by (rule cs_start [where e = None and mqc = "\<lambda>_. None" and mqch = "\<lambda>_. Inr ((ch_make 2)\<lparr>ch_buf := [8]\<rparr>)"])
      (simp_all add: NewConsumer_def ex_cs_def consumer_Start_def start_partitions.simps)
  ultimately have "reach cs_init cs_step ex_cs" by (rule reach_step)
  from consumer_in_order [OF this, of ?p None] show ?thesis by (simp add: e)
qed

end
