(* ===== verification/GW_Scaler.thy ===== *)
theory GW_Scaler
  imports GW_Registry GW_Node
begin

text \<open>
  \<open>pkg/scaler/docker.go\<close>: starting new gateway nodes as Docker containers under a distributed lock. The Docker daemon and
  the lock of etcd's \<open>concurrency\<close> package are outside the repository: the daemon is a state with two operations, the
  lock's answers are arguments and the calls on it are recorded. The registry's answers are those of \<open>GetAvailableNodes\<close>
  in \<open>GW_Registry\<close>, one for each time the code asks.
\<close>

subsection \<open>Names, ports and addresses\<close>

definition DefaultNodeCapacity :: int where "DefaultNodeCapacity = 10"
definition DefaultStopTimeout :: int where "DefaultStopTimeout = 30"
definition DefaultStartNodeID :: int where "DefaultStartNodeID = 1"
definition DefaultStartPort :: int where "DefaultStartPort = 9002"

text \<open>The conversion to \<open>int32\<close>.\<close>

definition i32 :: "int \<Rightarrow> int" where
  "i32 x = (x + 2 ^ 31) mod 2 ^ 32 - 2 ^ 31"

definition extractNodeIDNumber :: "string \<Rightarrow> int" where
  "extractNodeIDNumber nodeID =
     (if length nodeID > 3 \<and> take 3 nodeID = ''gw-''
      then (case parse_int64 (drop 3 nodeID) of Some num \<Rightarrow> num | None \<Rightarrow> 0)
      else 0)"

fun max_loop :: "node list \<Rightarrow> int \<Rightarrow> int \<Rightarrow> int \<times> int" where
  "max_loop [] maxNodeID maxPort = (maxNodeID, maxPort)"
| "max_loop (n # ns) maxNodeID maxPort =
     max_loop ns (if extractNodeIDNumber (nd_id n) > maxNodeID then extractNodeIDNumber (nd_id n) else maxNodeID)
       (if nd_port n > maxPort then nd_port n else maxPort)"

definition getNextAvailableNodeIDAndPort :: "gerr + node list \<Rightarrow> gerr + (int \<times> int)" where
  "getNextAvailableNodeIDAndPort available =
     (case available of
        Inl err \<Rightarrow> Inl (WrapE [err])
      | Inr nodes \<Rightarrow>
          let (maxNodeID, maxPort) = max_loop nodes DefaultStartNodeID DefaultStartPort
          in Inr (i64 (maxNodeID + 1), i64 (maxPort + 1)))"

text \<open>\<open>net.ParseIP\<close> with \<open>IsLoopback\<close> and \<open>IsUnspecified\<close> is the argument: \<open>None\<close> if the text is no address, else
  the two answers.\<close>

definition getBindingIP :: "(string \<Rightarrow> (bool \<times> bool) option) \<Rightarrow> string \<Rightarrow> string" where
  "getBindingIP parseIP hostIP =
     (if hostIP = ''localhost'' \<or> (case parseIP hostIP of None \<Rightarrow> False | Some (loopback, unspecified) \<Rightarrow> loopback \<or> unspecified)
      then [] else hostIP)"

subsection \<open>Images\<close>

record docker_image =
  im_Created :: int
  im_RepoTags :: "string list"

text \<open>The loop keeps the newest image so far, and its time; a time of zero or before is never taken.\<close>

fun latest_image :: "docker_image list \<Rightarrow> int \<Rightarrow> docker_image option \<Rightarrow> docker_image option" where
  "latest_image [] latestTime best = best"
| "latest_image (i # is) latestTime best =
     (if im_Created i > latestTime then latest_image is (im_Created i) (Some i) else latest_image is latestTime best)"

definition findLatestImage :: "gerr + docker_image list \<Rightarrow> gerr + string" where
  "findLatestImage answer =
     (case answer of
        Inl err \<Rightarrow> Inl (WrapE [err])
      | Inr images \<Rightarrow>
          if images = [] then Inl (Txt ''no image matches'')
          else (case latest_image images 0 None of
                  None \<Rightarrow> Inl (Txt ''no valid image'')
                | Some i \<Rightarrow> (case im_RepoTags i of [] \<Rightarrow> Inl (Txt ''no tag'') | t # _ \<Rightarrow> Inr t)))"

subsection \<open>Containers\<close>

record container_spec =
  co_name :: string
  co_image :: string
  co_env :: "string list"
  co_labels :: "(string \<times> string) list"
  co_port :: string
  co_bindIP :: string
  co_hostPort :: string
  co_network :: string
  co_aliases :: "string list"
  co_extraHosts :: "string list"
  co_binds :: "string list"

record 'd docker =
  dk_create :: "container_spec \<Rightarrow> 'd \<Rightarrow> (gerr + string) \<times> 'd"
  dk_start :: "string \<Rightarrow> 'd \<Rightarrow> gerr option \<times> 'd"

record scaler =
  sl_currentNodeID :: string
  sl_internalPort :: string
  sl_project :: string
  sl_parseIP :: "string \<Rightarrow> (bool \<times> bool) option"

definition containerConfig :: "scaler \<Rightarrow> string \<Rightarrow> string \<Rightarrow> string \<Rightarrow> string \<Rightarrow> int \<Rightarrow> container_spec" where
  "containerConfig d containerName nodeID imageName hostIP hostPort =
     \<lparr>co_name = containerName, co_image = imageName,
      co_env = [''GATEWAY_NODE_ID='' @ nodeID, ''GATEWAY_NODE_HOST_IP='' @ hostIP,
                ''GATEWAY_NODE_HOST_PORT='' @ fmt_d hostPort, ''GATEWAY_STOP_TIMEOUT='' @ fmt_d DefaultStopTimeout,
                ''EGO_DEBUG=true''],
      co_labels = [(''job'', ''ws-gateway''), (''node_id'', nodeID), (''metrics_port'', ''9003''),
                   (''com.docker.compose.project'', sl_project d), (''dynamic-scaling'', ''true'')],
      co_port = sl_internalPort d @ ''/tcp'', co_bindIP = getBindingIP (sl_parseIP d) hostIP, co_hostPort = fmt_d hostPort,
      co_network = sl_project d @ ''_default'',
      co_aliases = [''gateway-'' @ fmt_d (extractNodeIDNumber nodeID), containerName],
      co_extraHosts = [''host.docker.internal:host-gateway''],
      co_binds = [''/var/run/docker.sock:/var/run/docker.sock:rw'']\<rparr>"

text \<open>A container that was created and does not start stays behind.\<close>

definition createAndStartContainer ::
  "'d docker \<Rightarrow> scaler \<Rightarrow> string \<Rightarrow> string \<Rightarrow> string \<Rightarrow> string \<Rightarrow> int \<Rightarrow> 'd \<Rightarrow> (gerr + string) \<times> 'd" where
  "createAndStartContainer D d containerName nodeID imageName hostIP hostPort w =
     (case dk_create D (containerConfig d containerName nodeID imageName hostIP hostPort) w of
        (Inl err, w1) \<Rightarrow> (Inl (WrapE [err]), w1)
      | (Inr cid, w1) \<Rightarrow>
          (case dk_start D cid w1 of
             (Some err, w2) \<Rightarrow> (Inl (WrapE [err]), w2)
           | (None, w2) \<Rightarrow> (Inr cid, w2)))"

definition createSingleNode ::
  "'d docker \<Rightarrow> scaler \<Rightarrow> gerr + node list \<Rightarrow> string \<Rightarrow> string \<Rightarrow> 'd \<Rightarrow> (gerr + node) \<times> 'd" where
  "createSingleNode D d available imageName hostIP w =
     (case getNextAvailableNodeIDAndPort available of
        Inl err \<Rightarrow> (Inl (WrapE [err]), w)
      | Inr (nodeID, hostPort) \<Rightarrow>
          let newNodeID = ''gw-'' @ fmt_d nodeID; containerName = sl_project d @ ''-gateway-'' @ fmt_d nodeID @ ''-1''
          in (case createAndStartContainer D d containerName newNodeID imageName hostIP hostPort w of
                (Inl err, w1) \<Rightarrow> (Inl err, w1)
              | (Inr cid, w1) \<Rightarrow>
                  (Inr \<lparr>nd_id = newNodeID, nd_ip = hostIP, nd_port = i32 hostPort, nd_weight = 0, nd_location = [],
                        nd_labels = [], nd_capacity = DefaultNodeCapacity, nd_load = 0\<rparr>, w1)))"

text \<open>\<open>avail i\<close> is the registry's answer to the \<open>i\<close>-th question. An error only skips the node.\<close>

fun create_loop ::
  "'d docker \<Rightarrow> scaler \<Rightarrow> (nat \<Rightarrow> gerr + node list) \<Rightarrow> nat \<Rightarrow> nat \<Rightarrow> string \<Rightarrow> string \<Rightarrow> 'd \<Rightarrow> node list \<times> 'd" where
  "create_loop D d avail i 0 imageName hostIP w = ([], w)"
| "create_loop D d avail i (Suc n) imageName hostIP w =
     (case createSingleNode D d (avail i) imageName hostIP w of
        (Inl err, w1) \<Rightarrow> create_loop D d avail (Suc i) n imageName hostIP w1
      | (Inr nodeInfo, w1) \<Rightarrow>
          let (ns, w2) = create_loop D d avail (Suc i) n imageName hostIP w1 in (nodeInfo # ns, w2))"

text \<open>\<open>make\<close> with a negative capacity panics.\<close>

definition createNewNodes ::
  "'d docker \<Rightarrow> scaler \<Rightarrow> (nat \<Rightarrow> gerr + node list) \<Rightarrow> gerr + string \<Rightarrow> int \<Rightarrow> string \<Rightarrow> 'd \<Rightarrow> ((gerr + node list) \<times> 'd) exec" where
  "createNewNodes D d avail host cnt imageName w =
     (if cnt < 0 then Panic
      else (case host of
              Inl err \<Rightarrow> Ret (Inl (WrapE [err]), w)
            | Inr hostIP \<Rightarrow> let (ns, w1) = create_loop D d avail 0 (nat cnt) imageName hostIP w in Ret (Inr ns, w1)))"

subsection \<open>Waiting for the nodes\<close>

definition findRegisteredNodes :: "node list \<Rightarrow> node list \<Rightarrow> node list" where
  "findRegisteredNodes expectedNodes availableNodes =
     concat (map (\<lambda>e. case find (\<lambda>a. nd_id e = nd_id a) availableNodes of None \<Rightarrow> [] | Some a \<Rightarrow> [a]) expectedNodes)"

text \<open>One element of the list for each tick before the timeout.\<close>

fun waitForNodesRegistration :: "(gerr + node list) list \<Rightarrow> node list \<Rightarrow> gerr + node list" where
  "waitForNodesRegistration [] expectedNodes = Inl (Txt ''timeout'')"
| "waitForNodesRegistration (answer # ticks) expectedNodes =
     (case answer of
        Inl err \<Rightarrow> waitForNodesRegistration ticks expectedNodes
      | Inr availableNodes \<Rightarrow>
          let registeredNodes = findRegisteredNodes expectedNodes availableNodes
          in if length registeredNodes = length expectedNodes then Inr registeredNodes
             else waitForNodesRegistration ticks expectedNodes)"

subsection \<open>Scaling up\<close>

datatype lock_op = LNewSession bool | LTryLock bool | LUnlock | LCloseSession

text \<open>The answers one \<open>ScaleUp\<close> gets: the session and the lock (\<open>None\<close>: success), the image list, the host's address,
  the registry while creating and while waiting.\<close>

record scale_env =
  se_session :: "gerr option"
  se_trylock :: "gerr option"
  se_images :: "gerr + docker_image list"
  se_host :: "gerr + string"
  se_avail :: "nat \<Rightarrow> gerr + node list"
  se_ticks :: "(gerr + node list) list"

text \<open>\<open>acquireScalingLock\<close>: \<open>Inr False\<close> when the lock is taken.\<close>

definition acquireScalingLock :: "scale_env \<Rightarrow> (gerr + bool) \<times> lock_op list" where
  "acquireScalingLock E =
     (case se_session E of
        Some err \<Rightarrow> (Inl (WrapE [err]), [LNewSession False])
      | None \<Rightarrow>
          (case se_trylock E of
             Some err \<Rightarrow> (Inr False, [LNewSession True, LTryLock False, LCloseSession])
           | None \<Rightarrow> (Inr True, [LNewSession True, LTryLock True])))"

definition releaseScalingLock :: "lock_op list \<Rightarrow> lock_op list" where
  "releaseScalingLock ops = ops @ [LUnlock]"

definition scale_body :: "'d docker \<Rightarrow> scaler \<Rightarrow> scale_env \<Rightarrow> int \<Rightarrow> 'd \<Rightarrow> ((gerr + node list) \<times> 'd) exec" where
  "scale_body D d E cnt w =
     (case findLatestImage (se_images E) of
        Inl err \<Rightarrow> Ret (Inl (WrapE [err]), w)
      | Inr imageName \<Rightarrow>
          exec_bind (createNewNodes D d (se_avail E) (se_host E) cnt imageName w)
            (\<lambda>(r, w1). case r of
               Inl err \<Rightarrow> Ret (Inl (WrapE [err]), w1)
             | Inr created \<Rightarrow>
                 if created = [] then Ret (Inr [], w1)
                 else (case waitForNodesRegistration (se_ticks E) created of
                         Inl err \<Rightarrow> Ret (Inl (WrapE [err]), w1)
                       | Inr ns \<Rightarrow> Ret (Inr ns, w1))))"

text \<open>\<open>ScaleUp\<close>; the deferred calls run on every way out, the panic included.\<close>

definition scaler_ScaleUp ::
  "'d docker \<Rightarrow> scaler \<Rightarrow> scale_env \<Rightarrow> int \<Rightarrow> 'd \<Rightarrow> ((gerr + node list) \<times> 'd) exec \<times> lock_op list" where
  "scaler_ScaleUp D d E cnt w =
     (case acquireScalingLock E of
        (Inl err, ops) \<Rightarrow> (Ret (Inl err, w), ops)
      | (Inr False, ops) \<Rightarrow> (Ret (Inr [], w), ops)
      | (Inr True, ops) \<Rightarrow> (scale_body D d E cnt w, releaseScalingLock ops @ [LCloseSession]))"

subsection \<open>Facts about the parts\<close>

lemma max_loop_bounds:
  assumes "max_loop ns i p = (a, b)"
  shows "i \<le> a" and "p \<le> b" and "\<And>n. n \<in> set ns \<Longrightarrow> extractNodeIDNumber (nd_id n) \<le> a \<and> nd_port n \<le> b"
    and "a \<in> insert i ((\<lambda>n. extractNodeIDNumber (nd_id n)) ` set ns)" and "b \<in> insert p (nd_port ` set ns)"
proof -
  have "i \<le> a \<and> p \<le> b \<and> (\<forall>n \<in> set ns. extractNodeIDNumber (nd_id n) \<le> a \<and> nd_port n \<le> b) \<and>
      a \<in> insert i ((\<lambda>n. extractNodeIDNumber (nd_id n)) ` set ns) \<and> b \<in> insert p (nd_port ` set ns)"
    using assms
  proof (induction ns arbitrary: i p)
    case (Cons n ns)
    let ?i = "if extractNodeIDNumber (nd_id n) > i then extractNodeIDNumber (nd_id n) else i"
    let ?p = "if nd_port n > p then nd_port n else p"
    have "max_loop ns ?i ?p = (a, b)" using Cons.prems by simp
    from Cons.IH [OF this] show ?case by (auto split: if_splits)
  qed simp
  then show "i \<le> a" and "p \<le> b" and "\<And>n. n \<in> set ns \<Longrightarrow> extractNodeIDNumber (nd_id n) \<le> a \<and> nd_port n \<le> b"
    and "a \<in> insert i ((\<lambda>n. extractNodeIDNumber (nd_id n)) ` set ns)" and "b \<in> insert p (nd_port ` set ns)" by auto
qed

lemma parse_int64_range: "parse_int64 s = Some x \<Longrightarrow> in64 x"
  by (auto simp: parse_int64_def in64_def split: list.splits option.splits if_splits)

lemma extract_range: "in64 (extractNodeIDNumber s)"
  by (auto simp: extractNodeIDNumber_def in64_def dest: parse_int64_range [unfolded in64_def] split: option.splits)

lemma extract_gw: "in64 x \<Longrightarrow> extractNodeIDNumber (''gw-'' @ fmt_d x) = x"
proof -
  assume x: "in64 x"
  have "fmt_d x \<noteq> []" using parse_fmt_d [OF x] by (auto simp: parse_int64_def)
  then show ?thesis using parse_fmt_d [OF x] by (cases "fmt_d x") (simp_all add: extractNodeIDNumber_def)
qed

text \<open>The image that is picked is the first of the newest ones.\<close>

lemma latest_image_spec:
  "latest_image is t best = Some i \<longleftrightarrow>
     (best = Some i \<and> (\<forall>j \<in> set is. im_Created j \<le> t)) \<or>
     (\<exists>pre post. is = pre @ i # post \<and> t < im_Created i \<and> (\<forall>j \<in> set pre. im_Created j < im_Created i) \<and>
        (\<forall>j \<in> set post. im_Created j \<le> im_Created i))"
proof (induction "is" t best rule: latest_image.induct)
  case (2 k "is" t best)
  have split: "(\<exists>pre post. k # is = pre @ i # post \<and> P pre post) \<longleftrightarrow>
      (k = i \<and> P [] is) \<or> (\<exists>pre post. is = pre @ i # post \<and> P (k # pre) post)" for P
    by (auto simp: Cons_eq_append_conv)
  show ?case
  proof (cases "im_Created k > t")
    case True
    then have "latest_image (k # is) t best = latest_image is (im_Created k) (Some k)" by simp
    moreover have "\<not> (\<forall>j \<in> set (k # is). im_Created j \<le> t)" using True by simp
    moreover have "t < im_Created i \<and> (\<forall>j \<in> set (k # pre). im_Created j < im_Created i) \<and> R \<longleftrightarrow>
        im_Created k < im_Created i \<and> (\<forall>j \<in> set pre. im_Created j < im_Created i) \<and> R" for pre R using True by auto
    moreover have "Some k = Some i \<and> (\<forall>j \<in> set is. im_Created j \<le> im_Created k) \<longleftrightarrow>
        k = i \<and> t < im_Created i \<and> (\<forall>j \<in> set []. im_Created j < im_Created i) \<and> (\<forall>j \<in> set is. im_Created j \<le> im_Created i)"
      using True by auto
    ultimately show ?thesis unfolding split by (simp only: 2(1) [OF True]) blast
  next
    case False
    then have "latest_image (k # is) t best = latest_image is t best" by simp
    moreover have "(\<forall>j \<in> set (k # is). im_Created j \<le> t) \<longleftrightarrow> (\<forall>j \<in> set is. im_Created j \<le> t)" using False by simp
    moreover have "t < im_Created i \<and> (\<forall>j \<in> set (k # pre). im_Created j < im_Created i) \<and> R \<longleftrightarrow>
        t < im_Created i \<and> (\<forall>j \<in> set pre. im_Created j < im_Created i) \<and> R" for pre R using False by auto
    moreover have "\<not> (k = i \<and> t < im_Created i)" using False by auto
    ultimately show ?thesis unfolding split by (simp only: 2(2) [OF False]) blast
  qed
qed auto

lemma scaler_image:
  "findLatestImage (Inr images) = Inr t \<longleftrightarrow>
     (\<exists>pre i post ts. images = pre @ i # post \<and> im_RepoTags i = t # ts \<and> 0 < im_Created i \<and>
        (\<forall>j \<in> set pre. im_Created j < im_Created i) \<and> (\<forall>j \<in> set post. im_Created j \<le> im_Created i))"
proof -
  have "findLatestImage (Inr images) = Inr t \<longleftrightarrow> (\<exists>i ts. latest_image images 0 None = Some i \<and> im_RepoTags i = t # ts)"
    by (auto simp: findLatestImage_def split: option.splits list.splits)
  then show ?thesis by (auto simp: latest_image_spec)
qed

lemma createSingleNode_node:
  assumes "createSingleNode D d available imageName hostIP w = (Inr n, w1)"
  shows "\<exists>i p. getNextAvailableNodeIDAndPort available = Inr (i, p) \<and>
    n = \<lparr>nd_id = ''gw-'' @ fmt_d i, nd_ip = hostIP, nd_port = i32 p, nd_weight = 0, nd_location = [],
         nd_labels = [], nd_capacity = DefaultNodeCapacity, nd_load = 0\<rparr>"
  using assms by (auto simp: createSingleNode_def Let_def split: sum.splits prod.splits)

lemma create_loop_nodes:
  assumes "create_loop D d avail i k imageName hostIP w = (ns, w1)"
  shows "length ns \<le> k" and "n \<in> set ns \<Longrightarrow> \<exists>j < k. \<exists>w w'. createSingleNode D d (avail (i + j)) imageName hostIP w = (Inr n, w')"
proof -
  have "length ns \<le> k \<and> (\<forall>n \<in> set ns. \<exists>j < k. \<exists>w w'. createSingleNode D d (avail (i + j)) imageName hostIP w = (Inr n, w'))"
    using assms
  proof (induction k arbitrary: i w ns w1)
    case (Suc k)
    obtain r w2 where c: "createSingleNode D d (avail i) imageName hostIP w = (r, w2)" by (metis prod.collapse)
    obtain ms w3 where l: "create_loop D d avail (Suc i) k imageName hostIP w2 = (ms, w3)" by (metis prod.collapse)
    have s: "\<exists>j < Suc k. \<exists>w w'. createSingleNode D d (avail (i + j)) imageName hostIP w = (Inr n, w')"
      if "\<exists>j < k. \<exists>w w'. createSingleNode D d (avail (Suc i + j)) imageName hostIP w = (Inr n, w')" for n
      using that by (metis Suc_less_eq add_Suc add_Suc_right)
    have ms: "length ms \<le> k" "\<forall>n \<in> set ms. \<exists>j < Suc k. \<exists>w w'. createSingleNode D d (avail (i + j)) imageName hostIP w = (Inr n, w')"
      using Suc.IH [OF l] s by blast+
    show ?case
    proof (cases r)
      case (Inl err)
      then show ?thesis using Suc.prems c l ms by simp
    next
      case (Inr n)
      then have "ns = n # ms" using Suc.prems c l by simp
      moreover have "\<exists>j < Suc k. \<exists>w w'. createSingleNode D d (avail (i + j)) imageName hostIP w = (Inr n, w')"
        using c Inr by (intro exI [of _ 0]) auto
      ultimately show ?thesis using ms by auto
    qed
  qed simp
  then show "length ns \<le> k" and "n \<in> set ns \<Longrightarrow> \<exists>j < k. \<exists>w w'. createSingleNode D d (avail (i + j)) imageName hostIP w = (Inr n, w')"
    by auto
qed

lemma findRegistered_ids:
  "length (findRegisteredNodes es as) = length es \<Longrightarrow>
     map nd_id (findRegisteredNodes es as) = map nd_id es \<and> set (findRegisteredNodes es as) \<subseteq> set as"
proof (induction es)
  case (Cons e es)
  have le: "length (findRegisteredNodes es as) \<le> length es"
    by (induction es) (auto simp: findRegisteredNodes_def split: option.splits)
  show ?case
  proof (cases "find (\<lambda>a. nd_id e = nd_id a) as")
    case None
    then show ?thesis using Cons.prems le by (simp add: findRegisteredNodes_def)
  next
    case (Some a)
    then have "nd_id e = nd_id a" "a \<in> set as" by (auto simp: find_Some_iff)
    then show ?thesis using Cons Some by (simp add: findRegisteredNodes_def)
  qed
qed (simp add: findRegisteredNodes_def)

lemma wait_result:
  "waitForNodesRegistration ticks es = Inr ns \<Longrightarrow>
     map nd_id ns = map nd_id es \<and> (\<exists>as. Inr as \<in> set ticks \<and> set ns \<subseteq> set as)"
proof (induction ticks es rule: waitForNodesRegistration.induct)
  case (2 answer ticks es)
  show ?case
  proof (cases answer)
    case (Inr as)
    show ?thesis
    proof (cases "length (findRegisteredNodes es as) = length es")
      case True
      then show ?thesis using 2 Inr findRegistered_ids [OF True] by auto
    next
      case False
      then have "waitForNodesRegistration ticks es = Inr ns" using 2(3) Inr by simp
      from 2(2) [OF Inr refl False this] show ?thesis by auto
    qed
  qed (use 2 in auto)
qed simp

subsection \<open>Properties\<close>

text \<open>The id and the port chosen for a new node are above those of every node the registry lists, so the node's name
  and port are new to it, and never below \<open>gw-2\<close> and 9003.\<close>

theorem scaler_fresh_id:
  assumes "getNextAvailableNodeIDAndPort (Inr nodes) = Inr (i, p)"
    and "\<And>n. n \<in> set nodes \<Longrightarrow> extractNodeIDNumber (nd_id n) < 2 ^ 63 - 1 \<and> nd_port n < 2 ^ 31"
  shows "2 \<le> i \<and> 9003 \<le> p \<and> (\<forall>n \<in> set nodes. nd_id n \<noteq> ''gw-'' @ fmt_d i \<and> extractNodeIDNumber (nd_id n) < i \<and> nd_port n < p)"
proof -
  obtain a b where m: "max_loop nodes DefaultStartNodeID DefaultStartPort = (a, b)" by (metis prod.collapse)
  have a: "1 \<le> a" "a < 2 ^ 63 - 1" using max_loop_bounds(1,4) [OF m] assms(2) by (auto simp: DefaultStartNodeID_def)
  have b: "9002 \<le> b" "b < 2 ^ 31" using max_loop_bounds(2,5) [OF m] assms(2) by (auto simp: DefaultStartPort_def)
  have "i64 (a + 1) = a + 1" "i64 (b + 1) = b + 1" using a b by (auto intro!: i64_id simp: in64_def)
  then have ip: "i = a + 1" "p = b + 1" using assms(1) m by (auto simp: getNextAvailableNodeIDAndPort_def)
  have lt: "extractNodeIDNumber (nd_id n) < i \<and> nd_port n < p" if "n \<in> set nodes" for n
    using max_loop_bounds(3) [OF m that] by (simp add: ip)
  have "nd_id n \<noteq> ''gw-'' @ fmt_d i" if "n \<in> set nodes" for n
  proof
    assume e: "nd_id n = ''gw-'' @ fmt_d i"
    have "in64 i" using a by (simp add: ip in64_def)
    with e have "extractNodeIDNumber (nd_id n) = i" by (metis extract_gw)
    with lt [OF that] show False by simp
  qed
  then show ?thesis using a b lt by (simp add: ip)
qed

definition ex_gw :: "int \<Rightarrow> int \<Rightarrow> node" where
  "ex_gw i p = \<lparr>nd_id = ''gw-'' @ fmt_d i, nd_ip = ''localhost'', nd_port = p, nd_weight = 0, nd_location = [], nd_labels = [],
     nd_capacity = 10, nd_load = 0\<rparr>"

lemma extract_ex_gw [simp]: "in64 x \<Longrightarrow> extractNodeIDNumber (nd_id (ex_gw x p)) = x"
  using extract_gw [of x] by (simp add: ex_gw_def)

theorem scaler_fresh_id_witness:
  "getNextAvailableNodeIDAndPort (Inr [ex_gw 3 9005, ex_gw 1 9004]) = Inr (4, 9006) \<and>
   nd_id (ex_gw 3 9005) \<noteq> ''gw-'' @ fmt_d 4"
proof -
  have g: "getNextAvailableNodeIDAndPort (Inr [ex_gw 3 9005, ex_gw 1 9004]) = Inr (4, 9006)"
    by (simp add: getNextAvailableNodeIDAndPort_def DefaultStartNodeID_def DefaultStartPort_def in64_def i64_def)
      (simp add: ex_gw_def)
  have h: "extractNodeIDNumber (nd_id n) < 2 ^ 63 - 1 \<and> nd_port n < 2 ^ 31"
    if "n \<in> set [ex_gw 3 9005, ex_gw 1 9004]" for n
    using that by (auto simp: in64_def) (auto simp: ex_gw_def)
  show ?thesis using scaler_fresh_id [OF g h] g by simp
qed

text \<open>What a run that reports nodes went through.\<close>

lemma scaler_reported:
  assumes "scaler_ScaleUp D d E cnt w = (Ret (Inr ns, w'), ops)" and "ns \<noteq> []"
  shows "\<exists>imageName hostIP created. findLatestImage (se_images E) = Inr imageName \<and> se_host E = Inr hostIP \<and> 0 \<le> cnt
    \<and> create_loop D d (se_avail E) 0 (nat cnt) imageName hostIP w = (created, w') \<and> map nd_id ns = map nd_id created
    \<and> LTryLock True \<in> set ops \<and> (\<exists>as. Inr as \<in> set (se_ticks E) \<and> set ns \<subseteq> set as)"
proof -
  have lock: "se_session E = None" "se_trylock E = None"
    and body: "scale_body D d E cnt w = Ret (Inr ns, w')" and ops: "LTryLock True \<in> set ops"
    using assms
    by (auto simp: scaler_ScaleUp_def acquireScalingLock_def releaseScalingLock_def split: option.splits sum.splits bool.splits)
  obtain imageName where im: "findLatestImage (se_images E) = Inr imageName"
    using body by (cases "findLatestImage (se_images E)") (simp_all add: scale_body_def)
  obtain r w1 where c: "createNewNodes D d (se_avail E) (se_host E) cnt imageName w = Ret (r, w1)"
    using body by (cases "createNewNodes D d (se_avail E) (se_host E) cnt imageName w") (auto simp: scale_body_def im)
  obtain created where r: "r = Inr created" "w1 = w'" and wait: "waitForNodesRegistration (se_ticks E) created = Inr ns"
    using body assms(2) by (auto simp: scale_body_def im c split: sum.splits if_splits)
  obtain hostIP where "0 \<le> cnt" "se_host E = Inr hostIP" "create_loop D d (se_avail E) 0 (nat cnt) imageName hostIP w = (created, w')"
    using c r by (auto simp: createNewNodes_def split: if_splits sum.splits prod.splits)
  with im ops wait_result [OF wait] show ?thesis by blast
qed

lemma scaler_reported_length:
  assumes "scaler_ScaleUp D d E cnt w = (Ret (Inr ns, w'), ops)" and "ns \<noteq> []"
  shows "int (length ns) \<le> cnt"
proof -
  obtain imageName hostIP created where l: "create_loop D d (se_avail E) 0 (nat cnt) imageName hostIP w = (created, w')"
    and e: "map nd_id ns = map nd_id created" "0 \<le> cnt" using scaler_reported [OF assms] by blast
  then show ?thesis using map_eq_imp_length_eq [OF e(1)] create_loop_nodes(1) [OF l] by linarith
qed

text \<open>The daemon with every call on it and its answer written down, and what a list of calls started: the containers whose
  creation succeeded and whose start, which follows it, succeeded too.\<close>

datatype docker_call = DkCreate container_spec "gerr + string" | DkStart string "gerr option"

definition traced :: "'d docker \<Rightarrow> ('d \<times> docker_call list) docker" where
  "traced D = \<lparr>dk_create = (\<lambda>c (w, calls). let (r, w1) = dk_create D c w in (r, w1, calls @ [DkCreate c r])),
               dk_start = (\<lambda>cid (w, calls). let (e, w1) = dk_start D cid w in (e, w1, calls @ [DkStart cid e]))\<rparr>"

fun started :: "docker_call list \<Rightarrow> container_spec list" where
  "started (DkCreate c (Inr cid) # DkStart cid' None # calls) = (if cid = cid' then [c] else []) @ started calls"
| "started (call # calls) = started calls"
| "started [] = []"

definition spec_node :: "container_spec \<Rightarrow> string option" where
  "spec_node c = map_of (co_labels c) ''node_id''"

definition node_spec :: "scaler \<Rightarrow> string \<Rightarrow> string \<Rightarrow> int \<Rightarrow> int \<Rightarrow> container_spec" where
  "node_spec d imageName hostIP i p =
     containerConfig d (sl_project d @ ''-gateway-'' @ fmt_d i @ ''-1'') (''gw-'' @ fmt_d i) imageName hostIP p"

lemma spec_node [simp]: "spec_node (node_spec d imageName hostIP i p) = Some (''gw-'' @ fmt_d i)"
  by (simp add: spec_node_def node_spec_def containerConfig_def)

lemma started_Start [simp]: "started (DkStart cid e # calls) = started calls"
  by (cases e) simp_all

text \<open>One node: what its calls started is its own container if it is returned, and nothing otherwise.\<close>

lemma single_started:
  assumes "createSingleNode (traced D) d available imageName hostIP (w, calls) = (r, (w', calls'))"
  shows "\<exists>new. calls' = calls @ new \<and>
     (case r of Inl err \<Rightarrow> \<forall>more. started (new @ more) = started more
      | Inr n \<Rightarrow> \<exists>i p. getNextAvailableNodeIDAndPort available = Inr (i, p) \<and> nd_id n = ''gw-'' @ fmt_d i
                  \<and> (\<forall>more. started (new @ more) = node_spec d imageName hostIP i p # started more))"
proof (cases "getNextAvailableNodeIDAndPort available")
  case (Inl err)
  then show ?thesis using assms by (auto simp: createSingleNode_def)
next
  case (Inr ip')
  then obtain i p where ip: "getNextAvailableNodeIDAndPort available = Inr (i, p)" by (cases ip') simp
  let ?c = "node_spec d imageName hostIP i p"
  obtain q w1 where c: "dk_create D ?c w = (q, w1)" by fastforce
  note eval = createSingleNode_def createAndStartContainer_def traced_def Let_def node_spec_def
  show ?thesis
  proof (cases q)
    case (Inl err)
    then have "calls' = calls @ [DkCreate ?c (Inl err)] \<and> (\<exists>e. r = Inl e)" using assms c Inl ip by (auto simp: eval)
    then show ?thesis by auto
  next
    case (Inr cid)
    obtain e w2 where e: "dk_start D cid w1 = (e, w2)" by fastforce
    show ?thesis
    proof (cases e)
      case None
      then have "calls' = calls @ [DkCreate ?c (Inr cid), DkStart cid None] \<and> (\<exists>n. r = Inr n \<and> nd_id n = ''gw-'' @ fmt_d i)"
        using assms c e ip Inr None by (auto simp: eval)
      then show ?thesis using ip by auto
    next
      case (Some err)
      then have "calls' = calls @ [DkCreate ?c (Inr cid), DkStart cid (Some err)] \<and> (\<exists>e. r = Inl e)"
        using assms c e ip Inr Some by (auto simp: eval)
      then show ?thesis by auto
    qed
  qed
qed

lemma loop_started:
  assumes "create_loop (traced D) d avail k n imageName hostIP (w, calls) = (ns, (w', calls'))"
  shows "\<exists>new. calls' = calls @ new \<and> map (\<lambda>n. Some (nd_id n)) ns = map spec_node (started new) \<and> length ns \<le> n
     \<and> (\<forall>c \<in> set (started new). \<exists>j < n. \<exists>i p. getNextAvailableNodeIDAndPort (avail (k + j)) = Inr (i, p) \<and> c = node_spec d imageName hostIP i p)"
  using assms
proof (induction n arbitrary: k w calls ns)
  case (Suc n)
  obtain r w1 calls1 where c: "createSingleNode (traced D) d (avail k) imageName hostIP (w, calls) = (r, (w1, calls1))" by (metis prod.collapse)
  obtain ms v where "create_loop (traced D) d avail (Suc k) n imageName hostIP (w1, calls1) = (ms, v)" by (metis prod.collapse)
  then have l: "create_loop (traced D) d avail (Suc k) n imageName hostIP (w1, calls1) = (ms, (w', calls'))"
    using Suc.prems c by (auto split: sum.splits)
  have ns: "ns = (case r of Inl _ \<Rightarrow> ms | Inr x \<Rightarrow> x # ms)" using Suc.prems c l by (auto split: sum.splits)
  obtain new1 where one: "calls1 = calls @ new1"
     "case r of Inl err \<Rightarrow> \<forall>more. started (new1 @ more) = started more
      | Inr x \<Rightarrow> \<exists>i p. getNextAvailableNodeIDAndPort (avail k) = Inr (i, p) \<and> nd_id x = ''gw-'' @ fmt_d i
                  \<and> (\<forall>more. started (new1 @ more) = node_spec d imageName hostIP i p # started more)"
    using single_started [OF c] by blast
  obtain new2 where rest: "calls' = calls1 @ new2" "map (\<lambda>n. Some (nd_id n)) ms = map spec_node (started new2)" "length ms \<le> n"
     "\<forall>c \<in> set (started new2). \<exists>j < n. \<exists>i p. getNextAvailableNodeIDAndPort (avail (Suc k + j)) = Inr (i, p) \<and> c = node_spec d imageName hostIP i p"
    using Suc.IH [OF l] by blast
  let ?P = "\<lambda>c. \<exists>j < Suc n. \<exists>i p. getNextAvailableNodeIDAndPort (avail (k + j)) = Inr (i, p) \<and> c = node_spec d imageName hostIP i p"
  have later: "\<forall>c \<in> set (started new2). ?P c" using rest(4) by (metis Suc_less_eq add_Suc add_Suc_right)
  have now: "?P (node_spec d imageName hostIP i p)" if "getNextAvailableNodeIDAndPort (avail k) = Inr (i, p)" for i p
    using that by (intro exI [of _ 0]) auto
  have "map (\<lambda>n. Some (nd_id n)) ns = map spec_node (started (new1 @ new2)) \<and> length ns \<le> Suc n \<and> (\<forall>c \<in> set (started (new1 @ new2)). ?P c)"
  proof (cases r)
    case (Inl err)
    then show ?thesis using one(2) rest(2,3) later by (simp add: ns)
  next
    case (Inr x)
    then obtain i p where "getNextAvailableNodeIDAndPort (avail k) = Inr (i, p)" "nd_id x = ''gw-'' @ fmt_d i"
      "started (new1 @ new2) = node_spec d imageName hostIP i p # started new2" using one(2) by auto
    then show ?thesis using Inr rest(2,3) later now by (simp add: ns)
  qed
  then show ?case using one(1) rest(1) by (intro exI [of _ "new1 @ new2"]) simp
qed simp

text \<open>C37. A successful \<open>ScaleUp\<close> that reports nodes held the lock, and reports what the registry listed at one moment: in
  their order, the nodes of exactly the containers it created and whose start succeeded, no more than were asked for, each
  made from the newest image with an id and a port computed from an answer of the registry to this call.\<close>

theorem scaler_reports_registered:
  assumes "scaler_ScaleUp (traced D) d E cnt (w, []) = (Ret (Inr ns, (w', calls)), ops)" and "ns \<noteq> []"
  shows "LTryLock True \<in> set ops \<and> int (length ns) \<le> cnt
    \<and> (\<exists>as. Inr as \<in> set (se_ticks E) \<and> set ns \<subseteq> set as)
    \<and> map (\<lambda>n. Some (nd_id n)) ns = map spec_node (started calls)
    \<and> (\<forall>c \<in> set (started calls). \<exists>j imageName hostIP i p. int j < cnt \<and> findLatestImage (se_images E) = Inr imageName \<and> se_host E = Inr hostIP
         \<and> getNextAvailableNodeIDAndPort (se_avail E j) = Inr (i, p) \<and> c = node_spec d imageName hostIP i p)"
proof -
  obtain imageName hostIP created where im: "findLatestImage (se_images E) = Inr imageName" "se_host E = Inr hostIP" "0 \<le> cnt"
    and l: "create_loop (traced D) d (se_avail E) 0 (nat cnt) imageName hostIP (w, []) = (created, (w', calls))"
    and ids: "map nd_id ns = map nd_id created" and lock: "LTryLock True \<in> set ops"
    and snap: "\<exists>as. Inr as \<in> set (se_ticks E) \<and> set ns \<subseteq> set as"
    using scaler_reported [OF assms] by blast
  have "map (\<lambda>n. Some (nd_id n)) ns = map (\<lambda>n. Some (nd_id n)) created" using ids by (metis (no_types, lifting) map_eq_conv map_map comp_def list.map_comp)
  moreover have "int (length ns) \<le> cnt" using scaler_reported_length [OF assms] .
  moreover obtain new where "calls = new" "map (\<lambda>n. Some (nd_id n)) created = map spec_node (started new)"
    "\<forall>c \<in> set (started new). \<exists>j < nat cnt. \<exists>i p. getNextAvailableNodeIDAndPort (se_avail E (0 + j)) = Inr (i, p) \<and> c = node_spec d imageName hostIP i p"
    using loop_started [OF l] by auto
  moreover have "int j < cnt" if "j < nat cnt" for j using that by simp
  ultimately show ?thesis using im lock snap by (simp, blast)
qed

text \<open>A daemon that starts every container, and what a run on it meets.\<close>

definition ex_docker :: "container_spec list docker" where
  "ex_docker = \<lparr>dk_create = (\<lambda>c w. (Inr (co_name c), w @ [c])), dk_start = (\<lambda>_ w. (None, w))\<rparr>"

definition ex_scaler :: scaler where
  "ex_scaler = \<lparr>sl_currentNodeID = ''gw-1'', sl_internalPort = ''9002'', sl_project = ''im'', sl_parseIP = (\<lambda>_. None)\<rparr>"

definition ex_scale_env :: scale_env where
  "ex_scale_env = \<lparr>se_session = None, se_trylock = None, se_images = Inr [\<lparr>im_Created = 5, im_RepoTags = [''ws-gateway-1'']\<rparr>],
     se_host = Inr ''localhost'', se_avail = (\<lambda>_. Inr [ex_gw 1 9002]), se_ticks = [Inr [], Inr [ex_gw 2 9003]]\<rparr>"

lemma ex_gw_id: "nd_id (ex_gw i p) = ''gw-'' @ fmt_d i" "nd_port (ex_gw i p) = p"
  by (simp_all add: ex_gw_def)

lemma ex_next [simp]: "getNextAvailableNodeIDAndPort (Inr [ex_gw 1 9002]) = Inr (2, 9003)"
  by (simp add: getNextAvailableNodeIDAndPort_def DefaultStartNodeID_def DefaultStartPort_def in64_def i64_def) (simp add: ex_gw_def)

lemma ex_scale_run:
  "\<exists>w'. scaler_ScaleUp ex_docker ex_scaler ex_scale_env 1 [] =
     (Ret (Inr [ex_gw 2 9003], w'), [LNewSession True, LTryLock True, LUnlock, LCloseSession])"
  by (simp add: scaler_ScaleUp_def acquireScalingLock_def releaseScalingLock_def scale_body_def findLatestImage_def
      createNewNodes_def createSingleNode_def createAndStartContainer_def ex_docker_def ex_scale_env_def Let_def
      findRegisteredNodes_def ex_gw_id)

lemma ex_traced_run:
  "\<exists>w' calls. scaler_ScaleUp (traced ex_docker) ex_scaler ex_scale_env 1 ([], []) =
     (Ret (Inr [ex_gw 2 9003], (w', calls)), [LNewSession True, LTryLock True, LUnlock, LCloseSession])"
  by (simp add: scaler_ScaleUp_def acquireScalingLock_def releaseScalingLock_def scale_body_def findLatestImage_def
      createNewNodes_def createSingleNode_def createAndStartContainer_def ex_docker_def ex_scale_env_def Let_def
      findRegisteredNodes_def ex_gw_id traced_def)

theorem scaler_reports_registered_witness:
  "\<exists>w' calls ops. scaler_ScaleUp (traced ex_docker) ex_scaler ex_scale_env 1 ([], []) = (Ret (Inr [ex_gw 2 9003], (w', calls)), ops)
     \<and> map spec_node (started calls) = [Some (''gw-'' @ fmt_d 2)]"
proof -
  obtain w' calls where r: "scaler_ScaleUp (traced ex_docker) ex_scaler ex_scale_env 1 ([], []) =
     (Ret (Inr [ex_gw 2 9003], (w', calls)), [LNewSession True, LTryLock True, LUnlock, LCloseSession])" using ex_traced_run by blast
  from scaler_reports_registered [OF r] have "map spec_node (started calls) = [Some (''gw-'' @ fmt_d 2)]" by (auto simp: ex_gw_id)
  with r show ?thesis by (intro exI conjI)
qed

text \<open>The distributed lock: a session that was opened is closed, a lock that was taken is released before that, on every
  way out of \<open>ScaleUp\<close>, the panic on a negative count included; without the lock no container is touched, and losing
  the race for it is answered with an empty list of nodes and no error.\<close>

theorem scaler_releases_lock:
  assumes "scaler_ScaleUp D d E cnt w = (out, ops)"
  shows "ops \<in> {[LNewSession False], [LNewSession True, LTryLock False, LCloseSession],
      [LNewSession True, LTryLock True, LUnlock, LCloseSession]}
    \<and> (LTryLock True \<notin> set ops \<longrightarrow> (\<exists>r. out = Ret (r, w) \<and> (LTryLock False \<in> set ops \<longrightarrow> r = Inr [])))
    \<and> (out = Panic \<longrightarrow> cnt < 0 \<and> LUnlock \<in> set ops)"
proof -
  have p: "cnt < 0" if "scale_body D d E cnt w = Panic"
    using that
    by (auto simp: scale_body_def createNewNodes_def split: sum.splits if_splits prod.splits)
  show ?thesis using assms p
    by (auto simp: scaler_ScaleUp_def acquireScalingLock_def releaseScalingLock_def split: option.splits sum.splits bool.splits)
qed

theorem scaler_releases_lock_witness:
  "snd (scaler_ScaleUp ex_docker ex_scaler ex_scale_env 1 []) = [LNewSession True, LTryLock True, LUnlock, LCloseSession]"
proof -
  obtain w' where r: "scaler_ScaleUp ex_docker ex_scaler ex_scale_env 1 [] =
     (Ret (Inr [ex_gw 2 9003], w'), [LNewSession True, LTryLock True, LUnlock, LCloseSession])" using ex_scale_run by blast
  from scaler_releases_lock [OF r] show ?thesis by (simp add: r)
qed

text \<open>The number of a new node is computed from the registry alone, and a container takes longer to register than the
  loop takes to start the next: as long as the registry's answer does not change, all the nodes of one call get the same
  id and the same port.\<close>

theorem scaler_same_id:
  assumes "\<And>j. se_avail E j = Inr nodes" and "createNewNodes D d (se_avail E) (se_host E) cnt imageName w = Ret (Inr created, w')"
    and "a \<in> set created" and "b \<in> set created"
  shows "a = b"
proof -
  obtain hostIP where l: "create_loop D d (se_avail E) 0 (nat cnt) imageName hostIP w = (created, w')"
    using assms(2) by (auto simp: createNewNodes_def split: if_splits sum.splits prod.splits)
  have "\<exists>v v'. createSingleNode D d (Inr nodes) imageName hostIP v = (Inr x, v')" if "x \<in> set created" for x
    using create_loop_nodes(2) [OF l that] assms(1) by auto
  then obtain v1 v1' v2 v2' where "createSingleNode D d (Inr nodes) imageName hostIP v1 = (Inr a, v1')"
    "createSingleNode D d (Inr nodes) imageName hostIP v2 = (Inr b, v2')" using assms(3,4) by blast
  from createSingleNode_node [OF this(1)] createSingleNode_node [OF this(2)] show ?thesis by auto
qed

theorem scaler_same_id_witness:
  "\<exists>a b w'. createNewNodes ex_docker ex_scaler (se_avail ex_scale_env) (se_host ex_scale_env) 2 ''img'' [] = Ret (Inr [a, b], w') \<and> a = b"
proof -
  obtain a b w' where c: "createNewNodes ex_docker ex_scaler (se_avail ex_scale_env) (se_host ex_scale_env) 2 ''img'' [] = Ret (Inr [a, b], w')"
    by (simp add: createNewNodes_def createSingleNode_def createAndStartContainer_def ex_docker_def ex_scale_env_def Let_def
        numeral_2_eq_2)
  have "a = b" by (rule scaler_same_id [OF _ c, of "[ex_gw 1 9002]"]) (simp_all add: ex_scale_env_def)
  with c show ?thesis by blast
qed

end
