(* ===== verification/GW_Webhook.thy ===== *)
theory GW_Webhook
  imports GW_Scaler GW_EventBus
begin

text \<open>
  \<open>internal/webhook\<close>: the HTTP callbacks that make a node rebalance its connections or scale the cluster up. They are the
  clients of the scaler, the registry, the link manager and the event producer; the last section follows a scale-up
  from the alert to the redirection on another node. Parsing the JSON payload is done by the web framework.
\<close>

subsection \<open>The payload\<close>

text \<open>The fields of an alert the code reads; times are in nanoseconds, a zero \<open>time.Time\<close> is \<open>None\<close>.\<close>

record alert =
  al_Status :: string
  al_Labels :: "(string \<times> string) list"
  al_Annotations :: "(string \<times> string) list"
  al_StartsAt :: int
  al_EndsAt :: "int option"

record grafana_payload =
  gp_Status :: string
  gp_Alerts :: "alert list"

definition go_lookup :: "(string \<times> string) list \<Rightarrow> string \<Rightarrow> string" where
  "go_lookup m k = (case map_of m k of Some v \<Rightarrow> v | None \<Rightarrow> [])"

definition AlertName :: "alert \<Rightarrow> string" where
  "AlertName a = go_lookup (al_Labels a) ''alertname''"

definition alert_Description :: "alert \<Rightarrow> string" where
  "alert_Description a = go_lookup (al_Annotations a) ''description''"

definition alert_Summary :: "alert \<Rightarrow> string" where
  "alert_Summary a = go_lookup (al_Annotations a) ''summary''"

definition IsFiring :: "alert \<Rightarrow> bool" where
  "IsFiring a \<longleftrightarrow> al_Status a = ''firing''"

definition IsResolved :: "alert \<Rightarrow> bool" where
  "IsResolved a \<longleftrightarrow> al_Status a = ''resolved''"

text \<open>Differences of times saturate.\<close>

definition time_sub :: "int \<Rightarrow> int \<Rightarrow> int" where
  "time_sub t u = max (- (2 ^ 63)) (min (2 ^ 63 - 1) (t - u))"

definition alert_Duration :: "int \<Rightarrow> alert \<Rightarrow> int" where
  "alert_Duration now a = (case al_EndsAt a of None \<Rightarrow> time_sub now (al_StartsAt a) | Some e \<Rightarrow> time_sub e (al_StartsAt a))"

definition isDatasourceNoDataAlert :: "grafana_payload \<Rightarrow> bool" where
  "isDatasourceNoDataAlert req = list_ex (\<lambda>a. AlertName a = ''DatasourceNoData'') (gp_Alerts req)"

subsection \<open>The service\<close>

text \<open>\<open>avail\<close> is the registry's answer to \<open>GetAvailableNodes\<close> without the node itself.\<close>

definition svc_Rebalance ::
  "gerr + node list \<Rightarrow> (node list \<Rightarrow> gerr + bytes) \<Rightarrow> (message \<Rightarrow> gerr + bytes) \<Rightarrow> int \<Rightarrow> (nat \<Rightarrow> bool \<times> bool)
     \<Rightarrow> (nat list \<Rightarrow> nat list option) \<Rightarrow> manager \<Rightarrow> (gerr option \<times> manager) exec" where
  "svc_Rebalance avail marshalNodes marshal now sc selector m =
     (case avail of
        Inl err \<Rightarrow> Ret (Some (WrapE [err]), m)
      | Inr availableNodes \<Rightarrow> RedirectLinks marshalNodes marshal now sc selector availableNodes m)"

text \<open>\<open>scale\<close> is the scaler's \<open>ScaleUp\<close> on the state of the outside world.\<close>

definition svc_ScaleUp ::
  "(int \<Rightarrow> 'w \<Rightarrow> ((gerr + node list) \<times> 'w) exec) \<Rightarrow> gerr + node list \<Rightarrow> scale_up_event encoder \<Rightarrow> string \<Rightarrow> remote_call
     \<Rightarrow> 'w \<Rightarrow> mq_message list \<Rightarrow> (gerr option \<times> 'w \<times> mq_message list) exec" where
  "svc_ScaleUp scale avail enc topic c w sent =
     exec_bind (scale 1 w) (\<lambda>(r, w1).
       case r of
         Inl err \<Rightarrow> Ret (Some (WrapE [err]), w1, sent)
       | Inr newNodes \<Rightarrow>
           if newNodes = [] then Ret (None, w1, sent)
           else (case avail of
                   Inl err \<Rightarrow> Ret (Some (WrapE [err]), w1, sent)
                 | Inr availableNodes \<Rightarrow>
                     let totalNodes = int (length availableNodes) + 1
                     in (case scaleUp_Produce enc topic c \<lparr>su_TotalNodeCount = totalNodes, su_NewNodeList = Some newNodes\<rparr> sent of
                           (Some err, sent') \<Rightarrow> Ret (Some (WrapE [err]), w1, sent')
                         | (None, sent') \<Rightarrow> Ret (None, w1, sent'))))"

subsection \<open>The handlers\<close>

definition handler_Rebalance ::
  "f64 \<Rightarrow> (f64 \<Rightarrow> int) \<Rightarrow> (nat \<Rightarrow> nat) \<Rightarrow> gerr + node list \<Rightarrow> (node list \<Rightarrow> gerr + bytes) \<Rightarrow> (message \<Rightarrow> gerr + bytes) \<Rightarrow> int
     \<Rightarrow> (nat \<Rightarrow> bool \<times> bool) \<Rightarrow> grafana_payload \<Rightarrow> manager \<Rightarrow> ((gerr + string) \<times> manager) exec" where
  "handler_Rebalance rebalancePercent unspec rnd avail marshalNodes marshal now sc req m =
     (if isDatasourceNoDataAlert req then Ret (Inr ''OK'', m)
      else exec_bind (svc_Rebalance avail marshalNodes marshal now sc
                        (PercentLinks_Select unspec (NewPercentLinksSelector rebalancePercent) rnd) m)
             (\<lambda>(err, m'). Ret (case err of Some e \<Rightarrow> Inl (WrapE [e]) | None \<Rightarrow> Inr ''OK'', m')))"

definition handler_ScaleUp ::
  "(int \<Rightarrow> 'w \<Rightarrow> ((gerr + node list) \<times> 'w) exec) \<Rightarrow> gerr + node list \<Rightarrow> scale_up_event encoder \<Rightarrow> string \<Rightarrow> remote_call
     \<Rightarrow> grafana_payload \<Rightarrow> 'w \<Rightarrow> mq_message list \<Rightarrow> ((gerr + string) \<times> 'w \<times> mq_message list) exec" where
  "handler_ScaleUp scale avail enc topic c req w sent =
     (if isDatasourceNoDataAlert req then Ret (Inr ''OK'', w, sent)
      else exec_bind (svc_ScaleUp scale avail enc topic c w sent)
             (\<lambda>(err, w', sent'). Ret (case err of Some e \<Rightarrow> Inl (WrapE [e]) | None \<Rightarrow> Inr ''OK'', w', sent')))"

subsection \<open>The service as a client of a scaler\<close>

text \<open>The contract of \<open>Scaler\<close> the service relies on: no more nodes are reported than were asked for.\<close>

locale node_scaler =
  fixes scale :: "int \<Rightarrow> 'w \<Rightarrow> ((gerr + node list) \<times> 'w) exec"
  assumes scale_bounded: "scale cnt w = Ret (Inr ns, w') \<Longrightarrow> ns \<noteq> [] \<Longrightarrow> int (length ns) \<le> cnt"
begin

text \<open>An event that is published lists one new node, and counts at least it and this node's view of the cluster.\<close>

lemma svc_event:
  assumes "svc_ScaleUp scale avail enc topic c w sent = Ret (None, w', sent')" and "sent' \<noteq> sent"
  shows "\<exists>n availableNodes b. scale 1 w = Ret (Inr [n], w') \<and> avail = Inr availableNodes \<and>
    enc \<lparr>su_TotalNodeCount = int (length availableNodes) + 1, su_NewNodeList = Some [n]\<rparr> = Inr b \<and>
    sent' = sent @ [\<lparr>mq_key = [], mq_value = b, mq_topic = topic\<rparr>]"
proof -
  obtain r w1 where s: "scale 1 w = Ret (r, w1)"
    using assms(1) by (auto simp: svc_ScaleUp_def exec_bind_Ret)
  obtain ns where r: "r = Inr ns" "ns \<noteq> []" using assms s by (auto simp: svc_ScaleUp_def split: sum.splits if_splits)
  have "int (length ns) \<le> 1" using scale_bounded s r by blast
  then obtain n where ns: "ns = [n]" using r(2) by (cases ns) auto
  show ?thesis using assms s r ns
    by (auto simp: svc_ScaleUp_def scaleUp_Produce_def Let_def dest: mq_Produce_log split: sum.splits prod.splits option.splits)
qed

end

interpretation docker: node_scaler "\<lambda>cnt w. fst (scaler_ScaleUp D d E cnt w)" for D :: "'d docker" and d E
proof
  fix cnt w ns and w' :: 'd
  assume "fst (scaler_ScaleUp D d E cnt w) = Ret (Inr ns, w')" and "ns \<noteq> []"
  then have "scaler_ScaleUp D d E cnt w = (Ret (Inr ns, w'), snd (scaler_ScaleUp D d E cnt w))" by (metis prod.collapse)
  then show "int (length ns) \<le> cnt" using \<open>ns \<noteq> []\<close> by (rule scaler_reported_length)
qed

subsection \<open>From the alert to the redirection\<close>

text \<open>C23. A scale-up on one node, followed to another: when the callback published an event, the node was started and
  registered, and every other node that reads the event goes on to redirect, whatever the total (the new node itself
  ignores it): of its \<open>m\<close> connections it
  redirects \<open>\<lceil>m / t\<rceil>\<close> to the new node, \<open>t\<close> being one more than the nodes the registry listed.\<close>

theorem webhook_scale_up:
  assumes run: "handler_ScaleUp (\<lambda>cnt w. fst (scaler_ScaleUp D d E cnt w)) avail enc topic c req w sent = Ret (Inr ok, w', sent')"
    and new: "sent' \<noteq> sent"
    and json: "\<And>evt b. enc evt = Inr b \<Longrightarrow> dec b = Inr evt"
    and len: "0 \<le> Len (sv_mgr s)" "Len (sv_mgr s) < 2 ^ 31" "\<And>ns. avail = Inr ns \<Longrightarrow> int (length ns) < 2 ^ 31 - 1"
  shows "\<exists>n ns cnt m. avail = Inr ns \<and> sent' = sent @ [m] \<and> (\<exists>as. Inr as \<in> set (se_ticks E) \<and> n \<in> set as) \<and>
    consumeScaleUpEvent dec marshalNodes marshal now sc rnd (mq_value m) s =
      (if nd_id (sv_nodeInfo s) = nd_id n then Ret (None, s)
       else exec_bind (RedirectLinks marshalNodes marshal now sc (RandomLinks_Select cnt rnd) [n] (sv_mgr s))
         (\<lambda>(err, mg). Ret (err, s\<lparr>sv_mgr := mg\<rparr>))) \<and>
    0 \<le> cnt \<and> cnt \<le> Len (sv_mgr s) \<and> Len (sv_mgr s) \<le> cnt * (int (length ns) + 1) \<and>
    cnt * (int (length ns) + 1) < Len (sv_mgr s) + (int (length ns) + 1)"
proof -
  let ?scale = "\<lambda>cnt w. fst (scaler_ScaleUp D d E cnt w)"
  have "\<not> isDatasourceNoDataAlert req" using run new by (auto simp: handler_ScaleUp_def)
  then obtain err where "svc_ScaleUp ?scale avail enc topic c w sent = Ret (err, w', sent')" "err = None"
    using run by (auto simp: handler_ScaleUp_def exec_bind_Ret split: option.splits)
  then have svc: "svc_ScaleUp ?scale avail enc topic c w sent = Ret (None, w', sent')" by simp
  from docker.svc_event [OF svc new] obtain n ns b where
    sc1: "fst (scaler_ScaleUp D d E 1 w) = Ret (Inr [n], w')" and ns: "avail = Inr ns" and
    enc: "enc \<lparr>su_TotalNodeCount = int (length ns) + 1, su_NewNodeList = Some [n]\<rparr> = Inr b" and
    sent: "sent' = sent @ [\<lparr>mq_key = [], mq_value = b, mq_topic = topic\<rparr>]" by blast
  obtain ops where "scaler_ScaleUp D d E 1 w = (Ret (Inr [n], w'), ops)" using sc1 by (cases "scaler_ScaleUp D d E 1 w") simp
  from scaler_reported [OF this] obtain as where as: "Inr as \<in> set (se_ticks E)" "n \<in> set as" by auto
  let ?t = "int (length ns) + 1"
  let ?L = "Len (sv_mgr s)"
  have t: "1 \<le> ?t" "0 < ?t" "?t < 2 ^ 31" using len(3) [OF ns] by simp_all
  obtain cnt where cnt: "scale_up_count ?L ?t 1 = Some cnt" "0 \<le> cnt" "cnt \<le> ?L" "?L * 1 \<le> cnt * ?t" "cnt * ?t < ?L * 1 + ?t"
    using scale_up_count_bounds [OF len(1,2), of 1 ?t] t by auto
  have "consumeScaleUpEvent dec marshalNodes marshal now sc rnd b s =
      (if nd_id (sv_nodeInfo s) = nd_id n then Ret (None, s)
       else exec_bind (RedirectLinks marshalNodes marshal now sc (RandomLinks_Select cnt rnd) [n] (sv_mgr s))
         (\<lambda>(err, mg). Ret (err, s\<lparr>sv_mgr := mg\<rparr>)))"
    using json [OF enc] cnt(1) by (simp add: consumeScaleUpEvent_def)
  then show ?thesis using ns sent as cnt by (intro exI [of _ n] exI [of _ ns] exI [of _ cnt]) auto
qed

definition ex_event :: scale_up_event where
  "ex_event = \<lparr>su_TotalNodeCount = 2, su_NewNodeList = Some [ex_gw 2 9003]\<rparr>"

definition ex_enc :: "scale_up_event encoder" where
  "ex_enc evt = (if evt = ex_event then Inr [1] else Inl (Txt ''unused''))"

definition ex_alert :: grafana_payload where
  "ex_alert = \<lparr>gp_Status = ''firing'', gp_Alerts = [\<lparr>al_Status = ''firing'', al_Labels = [(''alertname'', ''TooManyLinks'')],
     al_Annotations = [], al_StartsAt = 0, al_EndsAt = None\<rparr>]\<rparr>"

theorem webhook_scale_up_witness:
  "\<exists>w' m cnt. handler_ScaleUp (\<lambda>cnt w. fst (scaler_ScaleUp ex_docker ex_scaler ex_scale_env cnt w)) (Inr [ex_gw 2 9003]) ex_enc ''up''
       remote_call.ROk ex_alert [] [] = Ret (Inr ''OK'', w', [m]) \<and>
     consumeScaleUpEvent (\<lambda>_. Inr ex_event) (\<lambda>_. Inr []) (\<lambda>_. Inr []) 0 (\<lambda>_. (False, False)) id (mq_value m) (ss_srv ex_node) \<noteq> Panic \<and>
     0 \<le> cnt \<and> cnt \<le> Len (sv_mgr (ss_srv ex_node))"
proof -
  let ?run = "handler_ScaleUp (\<lambda>cnt w. fst (scaler_ScaleUp ex_docker ex_scaler ex_scale_env cnt w)) (Inr [ex_gw 2 9003]) ex_enc ''up''
    remote_call.ROk ex_alert [] []"
  let ?m = "\<lparr>mq_key = [], mq_value = [1], mq_topic = ''up''\<rparr>"
  have l: "Len (sv_mgr (ss_srv ex_node)) = 0" "Links (sv_mgr (ss_srv ex_node)) = []" by code_simp+
  obtain w' where "scaler_ScaleUp ex_docker ex_scaler ex_scale_env 1 [] =
     (Ret (Inr [ex_gw 2 9003], w'), [LNewSession True, LTryLock True, LUnlock, LCloseSession])" using ex_scale_run by blast
  then have run: "?run = Ret (Inr ''OK'', w', [?m])"
    by (simp add: handler_ScaleUp_def isDatasourceNoDataAlert_def ex_alert_def AlertName_def go_lookup_def svc_ScaleUp_def
        scaleUp_Produce_def ex_enc_def ex_event_def mq_Produce_def)
  have "\<exists>n ns cnt m. (Inr [ex_gw 2 9003] :: gerr + node list) = Inr ns \<and> [?m] = [] @ [m] \<and> (\<exists>as. Inr as \<in> set (se_ticks ex_scale_env) \<and> n \<in> set as) \<and>
    consumeScaleUpEvent (\<lambda>_. Inr ex_event) (\<lambda>_. Inr []) (\<lambda>_. Inr []) 0 (\<lambda>_. (False, False)) id (mq_value m) (ss_srv ex_node) =
      (if nd_id (sv_nodeInfo (ss_srv ex_node)) = nd_id n then Ret (None, ss_srv ex_node)
       else exec_bind (RedirectLinks (\<lambda>_. Inr []) (\<lambda>_. Inr []) 0 (\<lambda>_. (False, False)) (RandomLinks_Select cnt id) [n] (sv_mgr (ss_srv ex_node)))
         (\<lambda>(err, mg). Ret (err, (ss_srv ex_node)\<lparr>sv_mgr := mg\<rparr>))) \<and>
    0 \<le> cnt \<and> cnt \<le> Len (sv_mgr (ss_srv ex_node)) \<and> Len (sv_mgr (ss_srv ex_node)) \<le> cnt * (int (length ns) + 1) \<and>
    cnt * (int (length ns) + 1) < Len (sv_mgr (ss_srv ex_node)) + (int (length ns) + 1)"
    by (rule webhook_scale_up [OF run]) (auto simp: ex_enc_def l split: if_splits)
  then obtain n cnt where c: "consumeScaleUpEvent (\<lambda>_. Inr ex_event) (\<lambda>_. Inr []) (\<lambda>_. Inr []) 0 (\<lambda>_. (False, False)) id [1] (ss_srv ex_node) =
      (if nd_id (sv_nodeInfo (ss_srv ex_node)) = nd_id n then Ret (None, ss_srv ex_node)
       else exec_bind (RedirectLinks (\<lambda>_. Inr []) (\<lambda>_. Inr []) 0 (\<lambda>_. (False, False)) (RandomLinks_Select cnt id) [n] (sv_mgr (ss_srv ex_node)))
         (\<lambda>(err, mg). Ret (err, (ss_srv ex_node)\<lparr>sv_mgr := mg\<rparr>)))" "0 \<le> cnt" "cnt \<le> Len (sv_mgr (ss_srv ex_node))" by auto
  have "consumeScaleUpEvent (\<lambda>_. Inr ex_event) (\<lambda>_. Inr []) (\<lambda>_. Inr []) 0 (\<lambda>_. (False, False)) id [1] (ss_srv ex_node) \<noteq> Panic"
    by (simp add: c(1) RedirectLinks_def PushMessage_def l(2))
  with run c(2,3) show ?thesis by auto
qed

text \<open>A rebalancing callback: alerts about missing data are answered without doing anything, an error of the registry and
  an empty list of other nodes are errors, and none of these touches a connection.\<close>

lemma handler_Rebalance_quiet:
  "isDatasourceNoDataAlert req \<Longrightarrow> handler_Rebalance p u rnd avail mn marshal now sc req m = Ret (Inr ''OK'', m)"
  "\<not> isDatasourceNoDataAlert req \<Longrightarrow> handler_Rebalance p u rnd (Inl err) mn marshal now sc req m = Ret (Inl (WrapE [WrapE [err]]), m)"
  "\<not> isDatasourceNoDataAlert req \<Longrightarrow> \<exists>err. handler_Rebalance p u rnd (Inr []) mn marshal now sc req m = Ret (Inl err, m)"
  by (simp_all add: handler_Rebalance_def svc_Rebalance_def RedirectLinks_def)

end
