(* ===== verification/GW_Wire.thy ===== *)
theory GW_Wire
  imports GW_Types
begin

text \<open>
  From a message to the connection and back: the codecs of \<open>pkg/codec/codec.go\<close>, their choice by configuration
  (\<open>ioc/serializer.go\<close>), and the reader and writer of WebSocket messages, \<open>pkg/wswrapper\<close>. Protobuf and its JSON
  mapping, and the frame layer \<open>gobwas/ws\<close> with its compression, are outside the repository: they are arguments, with
  \<open>proto_ok\<close> and \<open>frames_ok\<close> for what their documentation promises.
\<close>

subsection \<open>Codecs\<close>

text \<open>A value of type \<open>any\<close>: a protobuf message, or something else of the named type. \<open>Unmarshal\<close> replaces the message its
  second argument points to, whatever it held; on an error it leaves what it had decoded.\<close>

datatype 'm go_any = ProtoMessage 'm | OtherType string

record 'm proto_lib =
  pl_Marshal :: "'m \<Rightarrow> gerr + bytes"
  pl_Unmarshal :: "bytes \<Rightarrow> 'm \<Rightarrow> gerr option \<times> 'm"

definition proto_ok :: "'m proto_lib \<Rightarrow> bool" where
  "proto_ok P \<longleftrightarrow> (\<forall>m b m0. pl_Marshal P m = Inr b \<longrightarrow> pl_Unmarshal P b m0 = (None, m))"

record 'm codec =
  cd_Name :: string
  cd_Marshal :: "'m go_any \<Rightarrow> gerr + bytes"
  cd_Unmarshal :: "bytes \<Rightarrow> 'm go_any \<Rightarrow> gerr option \<times> 'm go_any"

definition protoCodec_Name :: string where
  "protoCodec_Name = ''proto''"

definition protoCodec_Marshal :: "'m proto_lib \<Rightarrow> 'm go_any \<Rightarrow> gerr + bytes" where
  "protoCodec_Marshal P v =
     (case v of OtherType t \<Rightarrow> Inl (Txt ''not a proto.Message'') | ProtoMessage vv \<Rightarrow> pl_Marshal P vv)"

definition protoCodec_Unmarshal :: "'m proto_lib \<Rightarrow> bytes \<Rightarrow> 'm go_any \<Rightarrow> gerr option \<times> 'm go_any" where
  "protoCodec_Unmarshal P data v =
     (case v of OtherType t \<Rightarrow> (Some (Txt ''not a proto.Message''), v)
      | ProtoMessage vv \<Rightarrow> let (err, m) = pl_Unmarshal P data vv in (err, ProtoMessage m))"

definition NewProtoCodec :: "'m proto_lib \<Rightarrow> 'm codec" where
  "NewProtoCodec P = \<lparr>cd_Name = protoCodec_Name, cd_Marshal = protoCodec_Marshal P, cd_Unmarshal = protoCodec_Unmarshal P\<rparr>"

definition jsonCodec_Name :: string where
  "jsonCodec_Name = ''json''"

definition jsonCodec_Marshal :: "'m proto_lib \<Rightarrow> 'm go_any \<Rightarrow> gerr + bytes" where
  "jsonCodec_Marshal J v =
     (case v of OtherType t \<Rightarrow> Inl (Txt ''not a proto.Message'') | ProtoMessage vv \<Rightarrow> pl_Marshal J vv)"

definition jsonCodec_Unmarshal :: "'m proto_lib \<Rightarrow> bytes \<Rightarrow> 'm go_any \<Rightarrow> gerr option \<times> 'm go_any" where
  "jsonCodec_Unmarshal J data v =
     (case v of OtherType t \<Rightarrow> (Some (Txt ''not a proto.Message''), v)
      | ProtoMessage vv \<Rightarrow> let (err, m) = pl_Unmarshal J data vv in (err, ProtoMessage m))"

definition NewJSONCodec :: "'m proto_lib \<Rightarrow> 'm codec" where
  "NewJSONCodec J = \<lparr>cd_Name = jsonCodec_Name, cd_Marshal = jsonCodec_Marshal J, cd_Unmarshal = jsonCodec_Unmarshal J\<rparr>"

text \<open>\<open>InitSerializer\<close> on the configuration section \<open>server.websocket\<close>; the codec and the section without the entry. A name
  that is not in the table gives a nil codec (\<open>None\<close>), not an error.\<close>

datatype config_value = CfgString string | CfgOther

definition InitSerializer ::
  "'m proto_lib \<Rightarrow> 'm proto_lib \<Rightarrow> (string, config_value) smap \<Rightarrow> ('m codec option \<times> (string, config_value) smap) exec" where
  "InitSerializer P J config =
     (case sm_load config ''serializer'' of
        Some (CfgString serializer) \<Rightarrow>
          Ret (map_of [(''json'', NewJSONCodec J), (''proto'', NewProtoCodec P)] serializer, sm_delete ''serializer'' config)
      | _ \<Rightarrow> Panic)"

subsection \<open>Writing\<close>

text \<open>The frame layer. \<open>fl_NewWriter\<close>: server side?, compressed?, the connection. Writing and compressing return the number of
  bytes taken; what is written becomes a message when it is flushed. \<open>fl_wire\<close> observes the messages written so far, \<open>fl_idle\<close> that
  none is begun. A message is what the peer sees of it: whether it is marked as compressed, and its payload.\<close>

record ('d, 'w) frame_layer =
  fl_NewWriter :: "bool \<Rightarrow> bool \<Rightarrow> 'd \<Rightarrow> 'w"
  fl_Write :: "bytes \<Rightarrow> 'w \<Rightarrow> (int \<times> gerr option) \<times> 'w"
  fl_Flush :: "'w \<Rightarrow> gerr option \<times> 'w"
  fl_flateReset :: "'w \<Rightarrow> 'w"
  fl_flateWrite :: "bytes \<Rightarrow> 'w \<Rightarrow> (int \<times> gerr option) \<times> 'w"
  fl_flateClose :: "'w \<Rightarrow> gerr option \<times> 'w"
  fl_inflate :: "bytes \<Rightarrow> gerr + bytes"
  fl_marks :: "'w \<Rightarrow> bool"
  fl_wire :: "'w \<Rightarrow> (bool \<times> bytes) list"
  fl_idle :: "'w \<Rightarrow> bool"

definition frames_ok :: "('d, 'w) frame_layer \<Rightarrow> bool" where
  "frames_ok F \<longleftrightarrow>
     (\<forall>sv c d. fl_idle F (fl_NewWriter F sv c d) \<and> fl_marks F (fl_NewWriter F sv c d) = c)
     \<and> (\<forall>w p n w1 w2. fl_idle F w \<longrightarrow> \<not> fl_marks F w \<longrightarrow> fl_Write F p w = ((n, None), w1) \<longrightarrow> fl_Flush F w1 = (None, w2) \<longrightarrow>
          n = int (length p) \<and> fl_idle F w2 \<and> \<not> fl_marks F w2 \<and> fl_wire F w2 = fl_wire F w @ [(False, p)])
     \<and> (\<forall>w p n w1 w2 w3. fl_idle F w \<longrightarrow> fl_marks F w \<longrightarrow> fl_flateWrite F p (fl_flateReset F w) = ((n, None), w1) \<longrightarrow>
          fl_flateClose F w1 = (None, w2) \<longrightarrow> fl_Flush F w2 = (None, w3) \<longrightarrow>
          n = int (length p) \<and> fl_idle F w3 \<and> fl_marks F w3
          \<and> (\<exists>z. fl_inflate F z = Inr p \<and> fl_wire F w3 = fl_wire F w @ [(True, z)]))"

lemma frames_laws:
  assumes "frames_ok F"
  shows frames_new: "fl_idle F (fl_NewWriter F sv c d)" "fl_marks F (fl_NewWriter F sv c d) = c"
    and frames_plain: "fl_idle F w \<Longrightarrow> \<not> fl_marks F w \<Longrightarrow> fl_Write F p w = ((n, None), w1) \<Longrightarrow> fl_Flush F w1 = (None, w2) \<Longrightarrow>
      n = int (length p) \<and> fl_idle F w2 \<and> \<not> fl_marks F w2 \<and> fl_wire F w2 = fl_wire F w @ [(False, p)]"
    and frames_flate: "fl_idle F w \<Longrightarrow> fl_marks F w \<Longrightarrow> fl_flateWrite F p (fl_flateReset F w) = ((n, None), w1) \<Longrightarrow>
      fl_flateClose F w1 = (None, w2) \<Longrightarrow> fl_Flush F w2 = (None, w3) \<Longrightarrow>
      n = int (length p) \<and> fl_idle F w3 \<and> fl_marks F w3 \<and> (\<exists>z. fl_inflate F z = Inr p \<and> fl_wire F w3 = fl_wire F w @ [(True, z)])"
  using assms unfolding frames_ok_def by blast+

text \<open>\<open>Writer\<close>: \<open>wr_flate\<close> tells whether \<open>flateWriter\<close> was built; using it when it was not is a nil dereference.\<close>

record 'w ws_writer =
  wr_writer :: 'w
  wr_flate :: bool

definition NewServerSideWriter :: "('d, 'w) frame_layer \<Rightarrow> 'd \<Rightarrow> bool \<Rightarrow> 'w ws_writer" where
  "NewServerSideWriter F dest compressed = \<lparr>wr_writer = fl_NewWriter F True compressed dest, wr_flate = compressed\<rparr>"

definition writeUncompressed :: "('d, 'w) frame_layer \<Rightarrow> bytes \<Rightarrow> 'w ws_writer \<Rightarrow> ((int \<times> gerr option) \<times> 'w ws_writer) exec" where
  "writeUncompressed F p w =
     (case fl_Write F p (wr_writer w) of
        ((n, Some err), w1) \<Rightarrow> Ret ((0, Some err), w\<lparr>wr_writer := w1\<rparr>)
      | ((n, None), w1) \<Rightarrow> let (err, w2) = fl_Flush F w1 in Ret ((n, err), w\<lparr>wr_writer := w2\<rparr>))"

definition writeCompressed :: "('d, 'w) frame_layer \<Rightarrow> bytes \<Rightarrow> 'w ws_writer \<Rightarrow> ((int \<times> gerr option) \<times> 'w ws_writer) exec" where
  "writeCompressed F p w =
     (if \<not> wr_flate w then Panic
      else (case fl_flateWrite F p (fl_flateReset F (wr_writer w)) of
              ((n, Some err), w1) \<Rightarrow> Ret ((0, Some err), w\<lparr>wr_writer := w1\<rparr>)
            | ((n, None), w1) \<Rightarrow>
                (case fl_flateClose F w1 of
                   (Some err, w2) \<Rightarrow> Ret ((0, Some err), w\<lparr>wr_writer := w2\<rparr>)
                 | (None, w2) \<Rightarrow> let (err, w3) = fl_Flush F w2 in Ret ((n, err), w\<lparr>wr_writer := w3\<rparr>))))"

definition Writer_Write :: "('d, 'w) frame_layer \<Rightarrow> bytes \<Rightarrow> 'w ws_writer \<Rightarrow> ((int \<times> gerr option) \<times> 'w ws_writer) exec" where
  "Writer_Write F p w = (if fl_marks F (wr_writer w) then writeCompressed F p w else writeUncompressed F p w)"

subsection \<open>Reading\<close>

text \<open>What \<open>NextFrame\<close> reports, in order: an error; a control frame, with the result of the handler that answers it; the
  first frame of a data message, with its compression mark and what reading its payload to the end gives (control frames between
  its fragments are answered by the library). \<open>None\<close>: \<open>Read\<close> waits for more.\<close>

datatype ws_event = EvError gerr | EvControl "gerr option" | EvData bool "gerr + bytes"

fun Reader_Read :: "(bytes \<Rightarrow> gerr + bytes) \<Rightarrow> ws_event list \<Rightarrow> ((gerr + bytes) \<times> ws_event list) option" where
  "Reader_Read inflate [] = None"
| "Reader_Read inflate (EvError err1 # evs) = Some (Inl err1, evs)"
| "Reader_Read inflate (EvControl handled # evs) =
     (case handled of Some err2 \<Rightarrow> Some (Inl err2, evs) | None \<Rightarrow> Reader_Read inflate evs)"
| "Reader_Read inflate (EvData compressed payload # evs) =
     Some (if compressed then (case payload of Inl err \<Rightarrow> Inl err | Inr z \<Rightarrow> inflate z) else payload, evs)"

subsection \<open>What arrives is what was written\<close>

text \<open>Messages written one after the other, each successfully.\<close>

fun write_all :: "('d, 'w) frame_layer \<Rightarrow> bytes list \<Rightarrow> 'w ws_writer \<Rightarrow> 'w ws_writer option" where
  "write_all F [] w = Some w"
| "write_all F (p # ps) w =
     (case Writer_Write F p w of Ret ((n, None), w') \<Rightarrow> write_all F ps w' | _ \<Rightarrow> None)"

fun read_all :: "(bytes \<Rightarrow> gerr + bytes) \<Rightarrow> nat \<Rightarrow> ws_event list \<Rightarrow> bytes list option" where
  "read_all inflate 0 evs = Some []"
| "read_all inflate (Suc n) evs =
     (case Reader_Read inflate evs of
        Some (Inr p, evs') \<Rightarrow> map_option ((#) p) (read_all inflate n evs')
      | _ \<Rightarrow> None)"

text \<open>The peer meets the messages of the wire, with control frames it can answer anywhere between them.\<close>

inductive carries :: "(bool \<times> bytes) list \<Rightarrow> ws_event list \<Rightarrow> bool" where
  carries_Nil: "carries [] []"
| carries_data: "carries ms evs \<Longrightarrow> carries ((c, z) # ms) (EvData c (Inr z) # evs)"
| carries_control: "carries ms evs \<Longrightarrow> carries ms (EvControl None # evs)"

definition decodes :: "('d, 'w) frame_layer \<Rightarrow> bool \<times> bytes \<Rightarrow> bytes \<Rightarrow> bool" where
  "decodes F m p \<longleftrightarrow> (if fst m then fl_inflate F (snd m) = Inr p else snd m = p)"

lemma Writer_Write_once:
  assumes ok: "frames_ok F" and idle: "fl_idle F (wr_writer w)" and flate: "fl_marks F (wr_writer w) \<longrightarrow> wr_flate w"
  shows "Writer_Write F p w \<noteq> Panic"
    and "Writer_Write F p w = Ret ((n, None), w') \<Longrightarrow>
      n = int (length p) \<and> fl_idle F (wr_writer w') \<and> (fl_marks F (wr_writer w') \<longrightarrow> wr_flate w')
      \<and> (\<exists>m. decodes F m p \<and> fl_wire F (wr_writer w') = fl_wire F (wr_writer w) @ [m])"
proof -
  show "Writer_Write F p w \<noteq> Panic" using flate
    by (auto simp: Writer_Write_def writeCompressed_def writeUncompressed_def Let_def split: prod.splits option.splits)
next
  assume w: "Writer_Write F p w = Ret ((n, None), w')"
  show "n = int (length p) \<and> fl_idle F (wr_writer w') \<and> (fl_marks F (wr_writer w') \<longrightarrow> wr_flate w')
      \<and> (\<exists>m. decodes F m p \<and> fl_wire F (wr_writer w') = fl_wire F (wr_writer w) @ [m])"
  proof (cases "fl_marks F (wr_writer w)")
    case True
    then obtain w1 w2 w3 where c: "fl_flateWrite F p (fl_flateReset F (wr_writer w)) = ((n, None), w1)"
      "fl_flateClose F w1 = (None, w2)" "fl_Flush F w2 = (None, w3)" "w' = w\<lparr>wr_writer := w3\<rparr>"
      using w by (auto simp: Writer_Write_def writeCompressed_def Let_def split: prod.splits option.splits if_splits)
    from frames_flate [OF ok idle True c(1-3)] obtain z where "n = int (length p)" "fl_idle F w3" "fl_marks F w3"
      "fl_inflate F z = Inr p" "fl_wire F w3 = fl_wire F (wr_writer w) @ [(True, z)]" by blast
    then show ?thesis using c(4) flate True by (auto simp: decodes_def intro!: exI [of _ "(True, z)"])
  next
    case False
    then obtain w1 w2 where c: "fl_Write F p (wr_writer w) = ((n, None), w1)" "fl_Flush F w1 = (None, w2)" "w' = w\<lparr>wr_writer := w2\<rparr>"
      using w by (auto simp: Writer_Write_def writeUncompressed_def Let_def split: prod.splits option.splits)
    from frames_plain [OF ok idle False c(1,2)] show ?thesis
      using c(3) by (auto simp: decodes_def intro!: exI [of _ "(False, p)"])
  qed
qed

lemma write_all_wire:
  assumes ok: "frames_ok F"
  shows "fl_idle F (wr_writer w) \<Longrightarrow> fl_marks F (wr_writer w) \<longrightarrow> wr_flate w \<Longrightarrow> write_all F ps w = Some w' \<Longrightarrow>
    \<exists>ms. fl_wire F (wr_writer w') = fl_wire F (wr_writer w) @ ms \<and> list_all2 (decodes F) ms ps"
proof (induction ps arbitrary: w)
  case Nil
  then show ?case by simp
next
  case (Cons p ps)
  obtain n w1 where w1: "Writer_Write F p w = Ret ((n, None), w1)" "write_all F ps w1 = Some w'"
    using Cons.prems(3) by (auto split: exec.splits prod.splits option.splits)
  obtain m where m: "fl_idle F (wr_writer w1)" "fl_marks F (wr_writer w1) \<longrightarrow> wr_flate w1" "decodes F m p"
    "fl_wire F (wr_writer w1) = fl_wire F (wr_writer w) @ [m]"
    using Writer_Write_once(2) [OF ok Cons.prems(1,2) w1(1)] by blast
  obtain ms where "fl_wire F (wr_writer w') = fl_wire F (wr_writer w1) @ ms" "list_all2 (decodes F) ms ps"
    using Cons.IH [OF m(1,2) w1(2)] by blast
  then show ?case using m(3,4) by (intro exI [of _ "m # ms"]) simp
qed

lemma Reader_Read_carries:
  assumes "carries (m # ms) evs" and "decodes F m p"
  shows "\<exists>evs'. Reader_Read (fl_inflate F) evs = Some (Inr p, evs') \<and> carries ms evs'"
  using assms by (induction "m # ms" evs rule: carries.induct) (auto simp: decodes_def split: if_splits)

lemma read_all_carries:
  "list_all2 (decodes F) ms ps \<Longrightarrow> carries ms evs \<Longrightarrow> read_all (fl_inflate F) (length ps) evs = Some ps"
proof (induction ps arbitrary: ms evs)
  case Nil
  then show ?case by simp
next
  case (Cons p ps)
  then obtain m ms' where m: "ms = m # ms'" "decodes F m p" "list_all2 (decodes F) ms' ps" by (auto simp: list_all2_Cons2)
  obtain evs' where "Reader_Read (fl_inflate F) evs = Some (Inr p, evs')" "carries ms' evs'"
    using Reader_Read_carries [OF Cons.prems(2) [unfolded m(1)] m(2)] by blast
  then show ?case using Cons.IH [OF m(3)] by simp
qed

subsection \<open>A frame layer in memory\<close>

text \<open>The connection is the list of messages written; compressing puts a byte in front. Between \<open>Write\<close> and \<open>Flush\<close> the
  bytes are held.\<close>

definition mem_frames :: "(unit, bool \<times> bytes option \<times> (bool \<times> bytes) list) frame_layer" where
  "mem_frames = \<lparr>fl_NewWriter = \<lambda>sv c d. (c, None, []),
     fl_Write = \<lambda>p (c, held, ms). ((int (length p), None), (c, Some p, ms)),
     fl_Flush = \<lambda>(c, held, ms). (None, (c, None, case held of None \<Rightarrow> ms | Some p \<Rightarrow> ms @ [(c, p)])),
     fl_flateReset = id,
     fl_flateWrite = \<lambda>p (c, held, ms). ((int (length p), None), (c, Some (42 # p), ms)),
     fl_flateClose = \<lambda>w. (None, w),
     fl_inflate = \<lambda>z. case z of [] \<Rightarrow> Inl (Ext ''unexpected EOF'') | b # p \<Rightarrow> Inr p,
     fl_marks = \<lambda>(c, held, ms). c, fl_wire = \<lambda>(c, held, ms). ms, fl_idle = \<lambda>(c, held, ms). held = None\<rparr>"

lemma mem_frames_ok: "frames_ok mem_frames"
  by (auto simp: frames_ok_def mem_frames_def)

definition ex_proto :: "message proto_lib" where
  "ex_proto = \<lparr>pl_Marshal = \<lambda>m. if msg_cmd m = HEARTBEAT \<and> msg_key m = '''' then Inr (msg_body m) else Inl (Ext ''unused''),
     pl_Unmarshal = \<lambda>b m. (None, \<lparr>msg_cmd = HEARTBEAT, msg_key = '''', msg_body = b\<rparr>)\<rparr>"

lemma ex_proto_ok: "proto_ok ex_proto"
  by (auto simp: proto_ok_def ex_proto_def split: if_splits)

subsection \<open>Properties\<close>

text \<open>C20. Messages survive the way to the peer: any number of messages serialised by the configured codec and written, with
  or without compression, without an error are read by the other side in the same order and with the same content, whatever control
  frames come between them; the writer the constructor builds never uses a compressor it does not have.\<close>

theorem wire_roundtrip:
  assumes "frames_ok F" and "proto_ok P" and "proto_ok J"
    and "InitSerializer P J config = Ret (Some c, config')"
    and "list_all2 (\<lambda>m p. cd_Marshal c (ProtoMessage m) = Inr p) ms ps"
    and "write_all F ps (NewServerSideWriter F dest compressed) = Some w"
    and "fl_wire F (wr_writer w) = fl_wire F (wr_writer (NewServerSideWriter F dest compressed)) @ sent" and "carries sent evs"
  shows "\<exists>qs. read_all (fl_inflate F) (length ms) evs = Some qs
      \<and> list_all2 (\<lambda>m q. \<forall>m0. cd_Unmarshal c q (ProtoMessage m0) = (None, ProtoMessage m)) ms qs
      \<and> Writer_Write F p (NewServerSideWriter F dest compressed) \<noteq> Panic"
proof -
  let ?w0 = "NewServerSideWriter F dest compressed"
  have w0: "fl_idle F (wr_writer ?w0)" "fl_marks F (wr_writer ?w0) \<longrightarrow> wr_flate ?w0"
    using frames_new [OF assms(1)] by (simp_all add: NewServerSideWriter_def)
  have safe: "Writer_Write F p ?w0 \<noteq> Panic" by (rule Writer_Write_once(1) [OF assms(1) w0])
  have len: "length ps = length ms" using assms(5) by (simp add: list_all2_lengthD)
  have "list_all2 (decodes F) sent ps" using write_all_wire [OF assms(1) w0 assms(6)] assms(7) by auto
  then have "read_all (fl_inflate F) (length ms) evs = Some ps" using read_all_carries [OF _ assms(8)] len by metis
  moreover have "c = NewJSONCodec J \<or> c = NewProtoCodec P"
    using assms(4) by (auto simp: InitSerializer_def split: option.splits config_value.splits if_splits)
  then have "cd_Unmarshal c q (ProtoMessage m0) = (None, ProtoMessage m)" if "cd_Marshal c (ProtoMessage m) = Inr q" for m q m0
    using that assms(2,3) by (auto simp: NewJSONCodec_def NewProtoCodec_def jsonCodec_Marshal_def protoCodec_Marshal_def
        jsonCodec_Unmarshal_def protoCodec_Unmarshal_def proto_ok_def)
  then have "list_all2 (\<lambda>m q. \<forall>m0. cd_Unmarshal c q (ProtoMessage m0) = (None, ProtoMessage m)) ms ps"
    using assms(5) by (auto elim!: list_all2_mono)
  ultimately show "\<exists>qs. read_all (fl_inflate F) (length ms) evs = Some qs
      \<and> list_all2 (\<lambda>m q. \<forall>m0. cd_Unmarshal c q (ProtoMessage m0) = (None, ProtoMessage m)) ms qs
      \<and> Writer_Write F p ?w0 \<noteq> Panic" using safe by blast
qed

definition ex_beat :: "bytes \<Rightarrow> message" where
  "ex_beat b = \<lparr>msg_cmd = HEARTBEAT, msg_key = '''', msg_body = b\<rparr>"

theorem wire_roundtrip_witness:
  "\<exists>qs. read_all (fl_inflate mem_frames) 2 [EvControl None, EvData True (Inr [42, 1]), EvControl None, EvData True (Inr [42, 2, 3])] = Some qs
     \<and> list_all2 (\<lambda>m q. \<forall>m0. cd_Unmarshal (NewJSONCodec ex_proto) q (ProtoMessage m0) = (None, ProtoMessage m)) [ex_beat [1], ex_beat [2, 3]] qs
     \<and> Writer_Write mem_frames [1] (NewServerSideWriter mem_frames () True) \<noteq> Panic"
proof -
  have c: "InitSerializer ex_proto ex_proto [(''serializer'', CfgString ''json'')] = Ret (Some (NewJSONCodec ex_proto), [])"
    by (simp add: InitSerializer_def)
  have m: "list_all2 (\<lambda>m p. cd_Marshal (NewJSONCodec ex_proto) (ProtoMessage m) = Inr p) [ex_beat [1], ex_beat [2, 3]] [[1], [2, 3]]"
    by (simp add: NewJSONCodec_def jsonCodec_Marshal_def ex_proto_def ex_beat_def)
  have w: "write_all mem_frames [[1], [2, 3]] (NewServerSideWriter mem_frames () True)
      = Some \<lparr>wr_writer = (True, None, [(True, [42, 1]), (True, [42, 2, 3])]), wr_flate = True\<rparr>"
    by (simp add: NewServerSideWriter_def Writer_Write_def writeCompressed_def mem_frames_def)
  have e: "carries [(True, [42, 1]), (True, [42, 2, 3])]
      [EvControl None, EvData True (Inr [42, 1]), EvControl None, EvData True (Inr [42, 2, 3])]"
    by (intro carries.intros)
  show ?thesis using wire_roundtrip [OF mem_frames_ok ex_proto_ok ex_proto_ok c m w _ e, of "[1]"]
    by (simp add: NewServerSideWriter_def mem_frames_def numeral_2_eq_2)
qed

text \<open>A name that is not in the table yields a nil codec: the process starts, and fails at the first message.\<close>

lemma serializer_unknown_name:
  "\<exists>config'. InitSerializer P J [(''serializer'', CfgString ''xml'')] = Ret (None, config')"
  by (simp add: InitSerializer_def)

end
