(* ===== verification/GW_Backend.thy ===== *)
theory GW_Backend
  imports GW_Discovery GW_Handler
begin

text \<open>
  Which backend serves which business. The list of backend services is a key in etcd; the three loaders of \<open>ioc\<close>
  (\<open>backend_client_loader.go\<close>, \<open>batch_backend_client_loader.go\<close>, \<open>backend_client_loader_v2.go\<close>) follow that key and turn the
  list into a table of clients, which the link event handler asks for when it meets an unknown business. Backends enter
  themselves into the list (\<open>joinConfigPlatform\<close> of \<open>demo/ws/backend/wsgrpc/server.go\<close>). The JSON codec, etcd and
  the dialling of a client are arguments.
\<close>

subsection \<open>The loaders\<close>

record backend_service_info =
  bs_BizID :: int
  bs_Name :: string

record backend_loader =
  svcInfoPtr :: "backend_service_info list"

type_synonym services_decoder = "string \<Rightarrow> gerr + backend_service_info list"

definition NewBackendClientLoader :: "backend_service_info list \<Rightarrow> backend_loader" where
  "NewBackendClientLoader services = \<lparr>svcInfoPtr = services\<rparr>"

text \<open>A call of \<open>Get\<close> that nobody else overlaps, since \<open>Load\<close> has just made its clients: at most three steps. That \<open>Load\<close> hands the
  etcd client to ego's own registry is a call of that library, and not modelled.\<close>

definition finish_get :: "('c get_pc \<Rightarrow> (string, 'c) smap \<Rightarrow> 'c get_pc \<times> (string, 'c) smap) \<Rightarrow> (string, 'c) smap \<Rightarrow> ('c \<times> (string, 'c) smap) exec" where
  "finish_get get m = (case ((\<lambda>(pc, m). get pc m) ^^ 3) (CgLoad, m) of (CgDone client, m') \<Rightarrow> Ret (client, m') | _ \<Rightarrow> Panic)"

fun load_loop ::
  "(string \<Rightarrow> 'c get_pc \<Rightarrow> (string, 'c) smap \<Rightarrow> 'c get_pc \<times> (string, 'c) smap) \<Rightarrow> backend_service_info list \<Rightarrow> (string, 'c) smap
     \<Rightarrow> (int, 'c) smap \<Rightarrow> (int, 'c) smap exec" where
  "load_loop get [] grpcClients clients = Ret clients"
| "load_loop get (i # infos) grpcClients clients =
     exec_bind (finish_get (get (bs_Name i)) grpcClients)
       (\<lambda>(grpcClient, grpcClients'). load_loop get infos grpcClients' (sm_store (bs_BizID i) grpcClient clients))"

definition loader_Load :: "(string \<Rightarrow> 'c exec) \<Rightarrow> backend_loader \<Rightarrow> (int, 'c) smap exec" where
  "loader_Load dial b = load_loop (clients_Get dial) (svcInfoPtr b) [] []"

definition UpdateBackendServiceInfo :: "services_decoder \<Rightarrow> string \<Rightarrow> backend_loader \<Rightarrow> gerr option \<times> backend_loader" where
  "UpdateBackendServiceInfo dec val b =
     (case dec val of Inl err \<Rightarrow> (Some err, b) | Inr svcs \<Rightarrow> (None, b\<lparr>svcInfoPtr := svcs\<rparr>))"

text \<open>The loader of the batch clients differs in the client it creates only, the second version in how it dials.\<close>

definition NewBatchBackendClientLoader :: "backend_service_info list \<Rightarrow> backend_loader" where
  "NewBatchBackendClientLoader services = \<lparr>svcInfoPtr = services\<rparr>"

definition batch_Load :: "(string \<Rightarrow> 'c exec) \<Rightarrow> backend_loader \<Rightarrow> (int, 'c) smap exec" where
  "batch_Load dial b = load_loop (clients_Get dial) (svcInfoPtr b) [] []"

definition batch_UpdateBackendServiceInfo :: "services_decoder \<Rightarrow> string \<Rightarrow> backend_loader \<Rightarrow> gerr option \<times> backend_loader" where
  "batch_UpdateBackendServiceInfo dec val b =
     (case dec val of Inl err \<Rightarrow> (Some err, b) | Inr svcs \<Rightarrow> (None, b\<lparr>svcInfoPtr := svcs\<rparr>))"

definition NewBackendClientLoaderV2 :: "backend_service_info list \<Rightarrow> backend_loader" where
  "NewBackendClientLoaderV2 services = \<lparr>svcInfoPtr = services\<rparr>"

definition loaderV2_Load :: "(string \<Rightarrow> 'c exec) \<Rightarrow> backend_loader \<Rightarrow> (int, 'c) smap exec" where
  "loaderV2_Load dial b = load_loop (clientsV2_Get dial) (svcInfoPtr b) [] []"

definition loaderV2_UpdateBackendServiceInfo :: "services_decoder \<Rightarrow> string \<Rightarrow> backend_loader \<Rightarrow> gerr option \<times> backend_loader" where
  "loaderV2_UpdateBackendServiceInfo dec val b =
     (case dec val of Inl err \<Rightarrow> (Some err, b) | Inr svcs \<Rightarrow> (None, b\<lparr>svcInfoPtr := svcs\<rparr>))"

subsection \<open>Following the key\<close>

text \<open>The history of the key: what was put, or \<open>None\<close> for a deletion, oldest first. etcd's \<open>Version\<close> counts the puts since
  the last deletion.\<close>

type_synonym key_history = "string option list"

definition key_value :: "key_history \<Rightarrow> string option" where
  "key_value h = (if h = [] then None else last h)"

definition key_version :: "key_history \<Rightarrow> nat" where
  "key_version h = length (takeWhile (\<lambda>w. w \<noteq> None) (rev h))"

text \<open>The goroutine that watches (before its watch is established, at the next event, after the channel was closed) and the
  function that starts it and then reads the key once.\<close>

datatype watch_pc = WStarting | WAt nat | WEnded
datatype init_pc = InGet | InLoad "string list" | InReturned

record init_sys =
  is_loader :: backend_loader
  is_hist :: key_history
  is_watch :: watch_pc
  is_main :: init_pc

text \<open>\<open>InitBackendClientLoader\<close>: an unreadable configuration panics, in the second version also a registry that cannot be
  made.\<close>

definition InitBackendClientLoader :: "gerr option \<Rightarrow> key_history \<Rightarrow> init_sys exec" where
  "InitBackendClientLoader cfgErr h =
     (case cfgErr of Some err \<Rightarrow> Panic
      | None \<Rightarrow> Ret \<lparr>is_loader = NewBackendClientLoader [], is_hist = h, is_watch = WStarting, is_main = InGet\<rparr>)"

definition InitBatchBackendClientLoader :: "gerr option \<Rightarrow> key_history \<Rightarrow> init_sys exec" where
  "InitBatchBackendClientLoader cfgErr h =
     (case cfgErr of Some err \<Rightarrow> Panic
      | None \<Rightarrow> Ret \<lparr>is_loader = NewBatchBackendClientLoader [], is_hist = h, is_watch = WStarting, is_main = InGet\<rparr>)"

definition InitBackendClientLoaderV2 :: "gerr option \<Rightarrow> gerr option \<Rightarrow> key_history \<Rightarrow> init_sys exec" where
  "InitBackendClientLoaderV2 cfgErr regErr h =
     (case cfgErr of Some err \<Rightarrow> Panic
      | None \<Rightarrow> (case regErr of Some err \<Rightarrow> Panic
          | None \<Rightarrow> Ret \<lparr>is_loader = NewBackendClientLoaderV2 [], is_hist = h, is_watch = WStarting, is_main = InGet\<rparr>))"

text \<open>One step of the watching goroutine: the watch begins with the events after the moment it is established; only puts are
  looked at.\<close>

definition watch_step :: "services_decoder \<Rightarrow> bool \<Rightarrow> init_sys \<Rightarrow> init_sys option" where
  "watch_step dec chClosed s =
     (case is_watch s of
        WStarting \<Rightarrow> Some (s\<lparr>is_watch := WAt (length (is_hist s))\<rparr>)
      | WAt i \<Rightarrow>
          if chClosed then Some (s\<lparr>is_watch := WEnded\<rparr>)
          else if i < length (is_hist s) then
            Some (s\<lparr>is_watch := WAt (Suc i),
              is_loader := (case is_hist s ! i of
                 Some v \<Rightarrow> snd (UpdateBackendServiceInfo dec v (is_loader s)) | None \<Rightarrow> is_loader s)\<rparr>)
          else None
      | WEnded \<Rightarrow> None)"

text \<open>One step of the initial read.\<close>

definition main_step :: "services_decoder \<Rightarrow> gerr option \<Rightarrow> init_sys \<Rightarrow> init_sys option" where
  "main_step dec getErr s =
     (case is_main s of
        InGet \<Rightarrow>
          Some (s\<lparr>is_main := (case getErr of
             Some err \<Rightarrow> InReturned
           | None \<Rightarrow> InLoad (case key_value (is_hist s) of Some v \<Rightarrow> [v] | None \<Rightarrow> []))\<rparr>)
      | InLoad [] \<Rightarrow> Some (s\<lparr>is_main := InReturned\<rparr>)
      | InLoad (v # vs) \<Rightarrow>
          Some (s\<lparr>is_main := InLoad vs, is_loader := snd (UpdateBackendServiceInfo dec v (is_loader s))\<rparr>)
      | InReturned \<Rightarrow> None)"

inductive init_step :: "services_decoder \<Rightarrow> init_sys \<Rightarrow> init_sys \<Rightarrow> bool" for dec where
  in_write: "init_step dec s (s\<lparr>is_hist := is_hist s @ [w]\<rparr>)"
| in_watch: "watch_step dec chClosed s = Some t \<Longrightarrow> init_step dec s t"
| in_main: "main_step dec getErr s = Some t \<Longrightarrow> init_step dec s t"

text \<open>What a run of events makes of a list: each put that can be decoded replaces it.\<close>

fun follow :: "services_decoder \<Rightarrow> key_history \<Rightarrow> backend_service_info list \<Rightarrow> backend_service_info list" where
  "follow dec [] l = l"
| "follow dec (w # ws) l = follow dec ws (case w of None \<Rightarrow> l | Some v \<Rightarrow> (case dec v of Inl err \<Rightarrow> l | Inr svcs \<Rightarrow> svcs))"

lemma follow_append: "follow dec (xs @ ys) l = follow dec ys (follow dec xs l)"
  by (induction xs arbitrary: l) simp_all

lemma Update_ptr: "svcInfoPtr (snd (UpdateBackendServiceInfo dec v b)) = follow dec [Some v] (svcInfoPtr b)"
  by (simp add: UpdateBackendServiceInfo_def split: sum.splits)

subsection \<open>The list follows the key\<close>

definition settled :: "init_sys \<Rightarrow> nat \<Rightarrow> bool" where
  "settled s j \<longleftrightarrow> is_main s = InReturned \<and> is_watch s = WAt j \<and> j \<le> length (is_hist s)"

definition follows :: "services_decoder \<Rightarrow> nat \<Rightarrow> backend_service_info list \<Rightarrow> init_sys \<Rightarrow> bool" where
  "follows dec j l0 s \<longleftrightarrow> is_main s = InReturned \<and>
     (case is_watch s of
        WStarting \<Rightarrow> False
      | WAt i \<Rightarrow> j \<le> i \<and> i \<le> length (is_hist s) \<and> svcInfoPtr (is_loader s) = follow dec (drop j (take i (is_hist s))) l0
      | WEnded \<Rightarrow> True)"

lemma follows_step:
  assumes "init_step dec s t" and "follows dec j l0 s"
  shows "follows dec j l0 t"
  using assms
proof cases
  case (in_write w)
  then show ?thesis using assms(2) by (auto simp: follows_def split: watch_pc.splits)
next
  case (in_watch chClosed)
  show ?thesis
  proof (cases "is_watch s")
    case (WAt i)
    then have f: "is_main s = InReturned" "j \<le> i" "i \<le> length (is_hist s)"
      "svcInfoPtr (is_loader s) = follow dec (drop j (take i (is_hist s))) l0" using assms(2) by (auto simp: follows_def)
    have "drop j (take (Suc i) (is_hist s)) = drop j (take i (is_hist s)) @ [is_hist s ! i]" if "i < length (is_hist s)"
      using that f(2) by (simp add: take_Suc_conv_app_nth)
    then show ?thesis using in_watch WAt f
      by (auto simp: watch_step_def follows_def follow_append Update_ptr split: if_splits option.splits)
  qed (use in_watch assms(2) in \<open>auto simp: watch_step_def follows_def\<close>)
next
  case (in_main getErr)
  then show ?thesis using assms(2) by (auto simp: main_step_def follows_def)
qed

lemma settled_follows: "settled s0 j \<Longrightarrow> (init_step dec)\<^sup>*\<^sup>* s0 s \<Longrightarrow> follows dec j (svcInfoPtr (is_loader s0)) s"
proof -
  assume "settled s0 j" and steps: "(init_step dec)\<^sup>*\<^sup>* s0 s"
  then have "follows dec j (svcInfoPtr (is_loader s0)) s0" by (simp add: settled_def follows_def)
  then show ?thesis using stable_steps [OF _ steps, of "follows dec j (svcInfoPtr (is_loader s0))"] follows_step by blast
qed

lemma follow_undecodable: "\<forall>v. Some v \<in> set ws \<longrightarrow> (\<exists>err. dec v = Inl err) \<Longrightarrow> follow dec ws l = l"
  by (induction ws arbitrary: l) (fastforce split: option.splits)+

lemma hist_grows: "(init_step dec)\<^sup>*\<^sup>* s0 s \<Longrightarrow> \<exists>ws. is_hist s = is_hist s0 @ ws"
proof (induction rule: rtranclp_induct)
  case (step s t)
  have "is_hist t = is_hist s \<or> (\<exists>w. is_hist t = is_hist s @ [w])" using step(2)
    by cases (auto simp: watch_step_def main_step_def split: watch_pc.splits init_pc.splits list.splits if_splits option.splits)
  then show ?case using step(3) by auto
qed simp

subsection \<open>From the list to the table\<close>

definition service_of :: "backend_service_info list \<Rightarrow> int \<Rightarrow> string option" where
  "service_of infos bizID = map_of (rev (map (\<lambda>i. (bs_BizID i, bs_Name i)) infos)) bizID"

lemma finish_get_cached:
  assumes "\<And>k c. sm_load m k = Some c \<Longrightarrow> c = cl k" and "dial (''etcd:///'' @ name) = Ret (cl name)"
  shows "\<exists>m'. finish_get (clients_Get dial name) m = Ret (cl name, m') \<and> (\<forall>k c. sm_load m' k = Some c \<longrightarrow> c = cl k)"
  using assms by (cases "sm_load m name") (auto simp: finish_get_def clients_Get_def numeral_3_eq_3)

lemma load_loop_table:
  assumes "\<And>k c. sm_load m k = Some c \<Longrightarrow> c = cl k" and "\<forall>i \<in> set infos. dial (''etcd:///'' @ bs_Name i) = Ret (cl (bs_Name i))"
  shows "\<exists>t. load_loop (clients_Get dial) infos m clients = Ret t \<and>
    (\<forall>b. sm_load t b = (case service_of infos b of Some name \<Rightarrow> Some (cl name) | None \<Rightarrow> sm_load clients b))"
  using assms
proof (induction infos arbitrary: m clients)
  case Nil
  then show ?case by (simp add: service_of_def)
next
  case (Cons i infos)
  obtain m' where m': "finish_get (clients_Get dial (bs_Name i)) m = Ret (cl (bs_Name i), m')" "\<forall>k c. sm_load m' k = Some c \<longrightarrow> c = cl k"
    using finish_get_cached [of m cl dial "bs_Name i"] Cons.prems by auto
  obtain t where t: "load_loop (clients_Get dial) infos m' (sm_store (bs_BizID i) (cl (bs_Name i)) clients) = Ret t"
    "\<And>b. sm_load t b = (case service_of infos b of Some name \<Rightarrow> Some (cl name)
        | None \<Rightarrow> sm_load (sm_store (bs_BizID i) (cl (bs_Name i)) clients) b)"
    using Cons.IH [of m' "sm_store (bs_BizID i) (cl (bs_Name i)) clients"] m'(2) Cons.prems(2) by auto
  have "service_of (i # infos) b = (case service_of infos b of Some name \<Rightarrow> Some name | None \<Rightarrow> if b = bs_BizID i then Some (bs_Name i) else None)" for b
    by (auto simp: service_of_def map_add_def split: option.splits)
  then show ?case using m'(1) t by (auto split: option.splits)
qed

lemma Load_table:
  assumes "\<forall>i \<in> set (svcInfoPtr b). dial (''etcd:///'' @ bs_Name i) = Ret (cl (bs_Name i))"
  shows "\<exists>t. loader_Load dial b = Ret t \<and> (\<forall>biz. sm_load t biz = map_option cl (service_of (svcInfoPtr b) biz))"
proof -
  obtain t where "load_loop (clients_Get dial) (svcInfoPtr b) [] [] = Ret t"
    "\<And>biz. sm_load t biz = (case service_of (svcInfoPtr b) biz of Some name \<Rightarrow> Some (cl name) | None \<Rightarrow> sm_load [] biz)"
    using load_loop_table [of "[]" cl "svcInfoPtr b" dial "[]"] assms by auto
  then show ?thesis by (auto simp: loader_Load_def split: option.splits)
qed

subsection \<open>The handler gets the client of the newest list\<close>

text \<open>C21. From the key to the forwarding of a message, for the lists put after the start-up is over, that is after the initial
  read has returned and the watch was established (a list put before that can be missed for good, see
  \<open>loader_can_be_stale\<close> below): when all events have been delivered the loader holds the last such list that can be decoded,
  whatever it held before; if its services can be dialled, the table it loads maps each business to the client of the last
  service listed for it, and a handler with no client for a business gets from it exactly that client, or the
  unknown-business error if no service is listed.\<close>

theorem backend_follows:
  assumes settled: "settled s0 j" and steps: "(init_step dec)\<^sup>*\<^sup>* s0 s"
    and delivered: "is_watch s = WAt (length (is_hist s))"
    and hist: "is_hist s = is_hist s0 @ ws @ [Some v] @ ws'" and v: "dec v = Inr svcs"
    and newest: "\<forall>v'. Some v' \<in> set ws' \<longrightarrow> (\<exists>err. dec v' = Inl err)"
    and dial: "\<forall>i \<in> set svcs. dial (''etcd:///'' @ bs_Name i) = Ret (cl (bs_Name i))"
  shows "svcInfoPtr (is_loader s) = svcs \<and>
    (\<exists>table. loader_Load dial (is_loader s) = Ret table \<and>
      (\<forall>E hs bizID. he_loader E = table \<longrightarrow> sm_load (hs_bizToClient hs) bizID = None \<longrightarrow>
         getBackendServiceClient E bizID hs =
           (case service_of svcs bizID of Some name \<Rightarrow> Inr (cl name) | None \<Rightarrow> Inl (WrapE [Sen ErrUnknownBizID]),
            hs\<lparr>hs_bizToClient := table\<rparr>)))"
proof -
  have f: "follows dec j (svcInfoPtr (is_loader s0)) s" by (rule settled_follows [OF settled steps])
  have "drop j (is_hist s) = drop j (is_hist s0) @ ws @ [Some v] @ ws'" using settled hist by (simp add: settled_def)
  then have "svcInfoPtr (is_loader s) = svcs"
    using f delivered v follow_undecodable [OF newest] by (simp add: follows_def follow_append)
  moreover obtain table where "loader_Load dial (is_loader s) = Ret table"
    "\<forall>biz. sm_load table biz = map_option cl (service_of svcs biz)"
    using Load_table [of "is_loader s" dial cl] dial calculation by auto
  ultimately show ?thesis by (auto simp: getBackendServiceClient_def split: option.splits)
qed

text \<open>A client the handler has is used as long as it has it: a service that takes over a business the handler already knows
  is not noticed until some other business is unknown.\<close>

lemma handler_keeps_client:
  "sm_load (hs_bizToClient hs) bizID = Some client \<Longrightarrow> getBackendServiceClient E bizID hs = (Inr client, hs)"
  by (simp add: getBackendServiceClient_def)

subsection \<open>What can be missed at the start\<close>

definition ex_svc :: "backend_service_info list" where
  "ex_svc = [\<lparr>bs_BizID = 1, bs_Name = ''chat''\<rparr>]"

definition ex_services_json :: services_decoder where
  "ex_services_json v = (if v = ''none'' then Inr [] else if v = ''chat'' then Inr ex_svc else Inl (Ext ''json''))"

datatype init_act = AWrite "string option" | AWatch | AMain

fun run_init :: "services_decoder \<Rightarrow> init_act list \<Rightarrow> init_sys \<Rightarrow> init_sys" where
  "run_init dec [] s = s"
| "run_init dec (a # as) s =
     run_init dec as
       (case a of
          AWrite w \<Rightarrow> s\<lparr>is_hist := is_hist s @ [w]\<rparr>
        | AWatch \<Rightarrow> (case watch_step dec False s of Some t \<Rightarrow> t | None \<Rightarrow> s)
        | AMain \<Rightarrow> (case main_step dec None s of Some t \<Rightarrow> t | None \<Rightarrow> s))"

lemma run_init_steps: "(init_step dec)\<^sup>*\<^sup>* s (run_init dec as s)"
proof (induction as arbitrary: s)
  case (Cons a as)
  let ?t = "case a of AWrite w \<Rightarrow> s\<lparr>is_hist := is_hist s @ [w]\<rparr>
    | AWatch \<Rightarrow> (case watch_step dec False s of Some t \<Rightarrow> t | None \<Rightarrow> s)
    | AMain \<Rightarrow> (case main_step dec None s of Some t \<Rightarrow> t | None \<Rightarrow> s)"
  have "(init_step dec)\<^sup>*\<^sup>* s ?t"
    by (auto split: init_act.splits option.splits intro: init_step.intros)
  then show ?case using Cons.IH [of ?t] by simp
qed simp

definition ex_init :: init_sys where
  "ex_init = \<lparr>is_loader = NewBackendClientLoader [], is_hist = [Some ''none''], is_watch = WStarting, is_main = InGet\<rparr>"

text \<open>The watch runs in its own goroutine. A change between the initial read and the moment the watch is established is never
  seen; and if the answer of the initial read is applied after the watch has delivered a newer value, it replaces it.\<close>

lemma loader_can_be_stale:
  assumes "as \<in> {[AMain, AWrite (Some ''chat''), AWatch, AMain, AMain], [AWatch, AMain, AWrite (Some ''chat''), AWatch, AMain, AMain]}"
  shows "\<exists>s. (init_step ex_services_json)\<^sup>*\<^sup>* ex_init s \<and> s = run_init ex_services_json as ex_init \<and> settled s 2
     \<and> is_hist s = [Some ''none'', Some ''chat''] \<and> ex_services_json ''chat'' = Inr ex_svc \<and> svcInfoPtr (is_loader s) = []"
  using assms run_init_steps [of ex_services_json ex_init as]
  by (auto simp: ex_init_def watch_step_def main_step_def NewBackendClientLoader_def UpdateBackendServiceInfo_def
      ex_services_json_def key_value_def settled_def)

definition ex_table_env :: "(int, nat) smap \<Rightarrow> (unit, nat) henv" where
  "ex_table_env table = \<lparr>he_marshal = \<lambda>m. Inr [], he_unmarshal = \<lambda>b. Inl (Ext ''unused''), he_marshalResp = \<lambda>r. Inr [],
     he_encrypt = \<lambda>n b. Inr b, he_decrypt = Inr, he_setnx = \<lambda>k v e c. (Inr True, c), he_delete = \<lambda>k c. (Inr 1, c),
     he_expiration = 0, he_loader = table, he_next = countdown, he_retry0 = Some 2\<rparr>"

theorem backend_follows_witness:
  "\<exists>s table. (init_step ex_services_json)\<^sup>*\<^sup>* ex_init s \<and> svcInfoPtr (is_loader s) = ex_svc \<and> loader_Load (\<lambda>t. Ret 7) (is_loader s) = Ret table
     \<and> getBackendServiceClient (ex_table_env table) 1 (NewHandler () 1 2) = (Inr 7, (NewHandler () 1 2)\<lparr>hs_bizToClient := table\<rparr>)"
proof -
  let ?d = ex_services_json
  let ?start = "run_init ?d [AWatch, AMain, AMain, AMain] ex_init"
  let ?fin = "run_init ?d [AWrite (Some ''chat''), AWatch] ?start"
  note d = ex_init_def watch_step_def main_step_def NewBackendClientLoader_def UpdateBackendServiceInfo_def
    ex_services_json_def key_value_def settled_def
  have start: "settled ?start 1" by (simp add: d)
  have fin: "is_watch ?fin = WAt (length (is_hist ?fin))" "is_hist ?fin = is_hist ?start @ [] @ [Some ''chat''] @ []" by (simp_all add: d)
  have v: "?d ''chat'' = Inr ex_svc" by (simp add: d)
  have n: "\<forall>v'. Some v' \<in> set [] \<longrightarrow> (\<exists>err. ?d v' = Inl err)" by simp
  have dial: "\<forall>i \<in> set ex_svc. (\<lambda>t. Ret 7) (''etcd:///'' @ bs_Name i) = Ret ((\<lambda>_. 7) (bs_Name i))" by simp
  have "svcInfoPtr (is_loader ?fin) = ex_svc \<and> (\<exists>table. loader_Load (\<lambda>t. Ret 7) (is_loader ?fin) = Ret table \<and>
      (\<forall>(E :: (unit, nat) henv) hs bizID. he_loader E = table \<longrightarrow> sm_load (hs_bizToClient hs) bizID = None \<longrightarrow>
         getBackendServiceClient E bizID hs =
           (case service_of ex_svc bizID of Some name \<Rightarrow> Inr 7 | None \<Rightarrow> Inl (WrapE [Sen ErrUnknownBizID]),
            hs\<lparr>hs_bizToClient := table\<rparr>)))"
    by (rule backend_follows [OF start run_init_steps fin v n dial])
  then obtain table where "svcInfoPtr (is_loader ?fin) = ex_svc" "loader_Load (\<lambda>t. Ret 7) (is_loader ?fin) = Ret table"
    "getBackendServiceClient (ex_table_env table) 1 (NewHandler () 1 2) =
       (case service_of ex_svc 1 of Some name \<Rightarrow> Inr 7 | None \<Rightarrow> Inl (WrapE [Sen ErrUnknownBizID]), (NewHandler () 1 2)\<lparr>hs_bizToClient := table\<rparr>)"
    by (auto simp: ex_table_env_def NewHandler_def)
  moreover have "service_of ex_svc 1 = Some ''chat''" by (simp add: service_of_def ex_svc_def)
  moreover have "(init_step ?d)\<^sup>*\<^sup>* ex_init ?fin" using run_init_steps rtranclp_trans by metis
  ultimately show ?thesis by (intro exI [of _ ?fin] exI [of _ table] conjI) simp_all
qed

subsection \<open>A backend enters the list\<close>

text \<open>A call of \<open>joinConfigPlatform\<close>: before the read, before the transaction on the version read, returned. One step makes one
  call to etcd; the sleep before another round is not modelled.\<close>

datatype join_pc = JGet | JTxn string nat | JDone "gerr option"

definition joinConfigPlatform ::
  "(backend_service_info list \<Rightarrow> gerr + string) \<Rightarrow> services_decoder \<Rightarrow> backend_service_info \<Rightarrow> remote_call \<Rightarrow> join_pc \<Rightarrow> key_history
     \<Rightarrow> join_pc \<times> key_history" where
  "joinConfigPlatform enc dec serviceInfo c pc h =
     (case pc of
        JGet \<Rightarrow>
          (case fst (remote_run c (\<lambda>h. ((key_value h, key_version h), h)) h) of
             Inl err \<Rightarrow> (JDone (Some err), h)
           | Inr (val, ver) \<Rightarrow>
               (case (case val of
                        None \<Rightarrow> Inr ([serviceInfo], 0)
                      | Some v \<Rightarrow>
                          (case dec v of
                             Inl err \<Rightarrow> Inl err
                           | Inr services \<Rightarrow>
                               Inr (if \<exists>svc \<in> set services. bs_BizID svc = bs_BizID serviceInfo \<and> bs_Name svc = bs_Name serviceInfo
                                    then services else services @ [serviceInfo], ver))) of
                  Inl err \<Rightarrow> (JDone (Some err), h)
                | Inr (services, version) \<Rightarrow>
                    (case enc services of
                       Inl err \<Rightarrow> (JDone (Some err), h)
                     | Inr newValue \<Rightarrow> (JTxn newValue version, h))))
      | JTxn newValue version \<Rightarrow>
          (case remote_run c (\<lambda>h. if key_version h = version then (True, h @ [Some newValue]) else (False, h)) h of
             (Inl err, h') \<Rightarrow> (JDone (Some err), h')
           | (Inr succeeded, h') \<Rightarrow> (if succeeded then JDone None else JGet, h'))
      | JDone r \<Rightarrow> (JDone r, h))"

text \<open>Any number of backends entering at once.\<close>

record join_sys =
  js_hist :: key_history
  js_calls :: "(backend_service_info \<times> join_pc) list"

inductive join_step :: "(backend_service_info list \<Rightarrow> gerr + string) \<Rightarrow> services_decoder \<Rightarrow> join_sys \<Rightarrow> join_sys \<Rightarrow> bool" for enc dec where
  jn_call: "join_step enc dec s (s\<lparr>js_calls := js_calls s @ [(b, JGet)]\<rparr>)"
| jn_run: "i < length (js_calls s) \<Longrightarrow> js_calls s ! i = (b, pc) \<Longrightarrow> joinConfigPlatform enc dec b c pc (js_hist s) = (pc', h') \<Longrightarrow>
     join_step enc dec s (s\<lparr>js_hist := h', js_calls := (js_calls s)[i := (b, pc')]\<rparr>)"

definition listed :: "services_decoder \<Rightarrow> key_history \<Rightarrow> backend_service_info list option" where
  "listed dec h = (case key_value h of None \<Rightarrow> Some [] | Some v \<Rightarrow> (case dec v of Inl err \<Rightarrow> None | Inr l \<Rightarrow> Some l))"

text \<open>The key was never deleted; it holds a list with \<open>l0\<close> and every backend whose call returned nil; and a pending transaction
  that can still succeed would extend it.\<close>

definition join_pc_ok :: "services_decoder \<Rightarrow> key_history \<Rightarrow> backend_service_info list \<Rightarrow> backend_service_info \<Rightarrow> join_pc \<Rightarrow> bool" where
  "join_pc_ok dec h l b pc =
     (case pc of
        JGet \<Rightarrow> True
      | JTxn v n \<Rightarrow> n \<le> length h \<and> (n = length h \<longrightarrow> (\<exists>l'. dec v = Inr l' \<and> set l \<subseteq> set l' \<and> b \<in> set l' \<and> (distinct l \<longrightarrow> distinct l')))
      | JDone r \<Rightarrow> r = None \<longrightarrow> b \<in> set l)"

definition join_inv :: "services_decoder \<Rightarrow> backend_service_info list \<Rightarrow> join_sys \<Rightarrow> bool" where
  "join_inv dec l0 s \<longleftrightarrow> None \<notin> set (js_hist s) \<and>
     (\<exists>l. listed dec (js_hist s) = Some l \<and> set l0 \<subseteq> set l \<and> (distinct l0 \<longrightarrow> distinct l) \<and>
       (\<forall>(b, pc) \<in> set (js_calls s). join_pc_ok dec (js_hist s) l b pc))"

lemma key_version_puts: "None \<notin> set h \<Longrightarrow> key_version h = length h"
proof -
  assume "None \<notin> set h"
  then have "takeWhile (\<lambda>w. w \<noteq> None) (rev h) = rev h" by (subst takeWhile_eq_all_conv) (metis set_rev)
  then show ?thesis unfolding key_version_def by (simp only: length_rev)
qed

lemma same_service: "bs_BizID a = bs_BizID b \<and> bs_Name a = bs_Name b \<longleftrightarrow> a = (b :: backend_service_info)"
  by (cases a; cases b) simp

lemma join_get:
  assumes enc: "\<And>l v. enc l = Inr v \<Longrightarrow> dec v = Inr l"
    and h: "None \<notin> set h" "listed dec h = Some l" and step: "joinConfigPlatform enc dec b c JGet h = (pc', h')"
  shows "h' = h \<and> pc' \<noteq> JDone None \<and> join_pc_ok dec h l b pc'"
proof (cases "key_value h")
  case None
  then have "h = []" using h(1) by (auto simp: key_value_def split: if_splits) (metis last_in_set)
  then show ?thesis using step h(2) None
    by (cases c) (auto simp: joinConfigPlatform_def remote_run_def listed_def join_pc_ok_def split: sum.splits dest: enc)
next
  case (Some v)
  then have d: "dec v = Inr l" using h(2) by (simp add: listed_def split: sum.splits)
  then show ?thesis using step Some key_version_puts [OF h(1)]
    by (cases c) (auto simp: joinConfigPlatform_def remote_run_def same_service join_pc_ok_def split: sum.splits if_splits dest!: enc)
qed

lemma join_txn:
  assumes "None \<notin> set h" and "joinConfigPlatform enc dec b c (JTxn v n) h = (pc', h')"
  shows "h' = h \<and> (pc' = JGet \<or> (\<exists>err. pc' = JDone (Some err)))
    \<or> n = length h \<and> h' = h @ [Some v] \<and> (pc' = JDone None \<or> (\<exists>err. pc' = JDone (Some err)))"
  using assms(2) by (cases c) (auto simp: joinConfigPlatform_def remote_run_def key_version_puts [OF assms(1)] split: if_splits)

lemma join_pc_ok_append:
  "join_pc_ok dec h l b pc \<Longrightarrow> set l \<subseteq> set l' \<Longrightarrow> join_pc_ok dec (h @ [w]) l' b pc"
  by (auto simp: join_pc_ok_def split: join_pc.splits)

lemma join_step_inv:
  assumes enc: "\<And>l v. enc l = Inr v \<Longrightarrow> dec v = Inr l" and step: "join_step enc dec s t" and inv: "join_inv dec l0 s"
  shows "join_inv dec l0 t"
  using step
proof cases
  case (jn_call b)
  then show ?thesis using inv by (auto simp: join_inv_def join_pc_ok_def [of _ _ _ _ JGet])
next
  case (jn_run i b pc c pc' h')
  obtain l where l: "None \<notin> set (js_hist s)" "listed dec (js_hist s) = Some l" "set l0 \<subseteq> set l" "distinct l0 \<longrightarrow> distinct l"
    "\<forall>(b, pc) \<in> set (js_calls s). join_pc_ok dec (js_hist s) l b pc" using inv by (auto simp: join_inv_def)
  have ok: "join_pc_ok dec (js_hist s) l b pc" using l(5) jn_run(2,3) nth_mem by fastforce
  have quiet: ?thesis if "h' = js_hist s" "join_pc_ok dec (js_hist s) l b pc'"
    using l that jn_run(1) by (auto simp: join_inv_def dest!: set_update_subset_insert [THEN subsetD])
  show ?thesis
  proof (cases pc)
    case JGet
    then show ?thesis using join_get [OF enc l(1,2)] jn_run(4) quiet by blast
  next
    case (JTxn v n)
    consider "h' = js_hist s" "pc' = JGet \<or> (\<exists>err. pc' = JDone (Some err))"
      | "n = length (js_hist s)" "h' = js_hist s @ [Some v]" "pc' = JDone None \<or> (\<exists>err. pc' = JDone (Some err))"
      using join_txn [OF l(1) jn_run(4) [unfolded JTxn]] by blast
    then show ?thesis
    proof cases
      case 1
      then show ?thesis by (auto simp: join_pc_ok_def intro!: quiet)
    next
      case 2
      obtain l' where l': "dec v = Inr l'" "set l \<subseteq> set l'" "b \<in> set l'" "distinct l \<longrightarrow> distinct l'"
        using ok JTxn 2(1) by (auto simp: join_pc_ok_def)
      have "join_pc_ok dec h' l' b pc'" using 2(3) l'(3) by (auto simp: join_pc_ok_def)
      moreover have "\<forall>(b, pc) \<in> set (js_calls s). join_pc_ok dec h' l' b pc"
        using l(5) join_pc_ok_append l'(2) 2(2) by fastforce
      ultimately show ?thesis using l l' 2(2) jn_run(1)
        by (auto simp: join_inv_def listed_def key_value_def dest!: set_update_subset_insert [THEN subsetD])
    qed
  next
    case (JDone r)
    then show ?thesis using jn_run(4) ok by (intro quiet) (auto simp: joinConfigPlatform_def)
  qed
qed

text \<open>However many backends enter at once: while the key is only extended by them, the list keeps what it held, never repeats an
  entry, and contains every backend whose call returned nil; and a call that is not disturbed returns nil after one read and
  one transaction.\<close>

definition join_init :: "services_decoder \<Rightarrow> backend_service_info list \<Rightarrow> join_sys \<Rightarrow> bool" where
  "join_init dec l0 s \<longleftrightarrow> None \<notin> set (js_hist s) \<and> listed dec (js_hist s) = Some l0 \<and> js_calls s = []"

theorem backends_never_lost:
  assumes enc: "\<And>l v. enc l = Inr v \<Longrightarrow> dec v = Inr l" and reach: "reach (join_init dec l0) (join_step enc dec) s"
  shows "(\<exists>l. listed dec (js_hist s) = Some l \<and> set l0 \<subseteq> set l \<and> (distinct l0 \<longrightarrow> distinct l) \<and>
      (\<forall>b. (b, JDone None) \<in> set (js_calls s) \<longrightarrow> b \<in> set l)) \<and>
    (\<forall>b. (\<forall>l. \<exists>v. enc l = Inr v) \<longrightarrow>
      (\<exists>pc1. joinConfigPlatform enc dec b remote_call.ROk JGet (js_hist s) = (pc1, js_hist s) \<and>
        fst (joinConfigPlatform enc dec b remote_call.ROk pc1 (js_hist s)) = JDone None))"
proof -
  have "join_inv dec l0 s" using reach
  proof (induction rule: reach.induct)
    case (reach_init s)
    then show ?case by (auto simp: join_init_def join_inv_def)
  next
    case (reach_step s t)
    show ?case by (rule join_step_inv [OF enc reach_step(2,3)])
  qed
  then obtain l where l: "None \<notin> set (js_hist s)" "listed dec (js_hist s) = Some l" "set l0 \<subseteq> set l" "distinct l0 \<longrightarrow> distinct l"
    "\<forall>(b, pc) \<in> set (js_calls s). join_pc_ok dec (js_hist s) l b pc" by (auto simp: join_inv_def)
  have "b \<in> set l" if "(b, JDone None) \<in> set (js_calls s)" for b using l(5) that by (auto simp: join_pc_ok_def)
  moreover have "\<exists>pc1. joinConfigPlatform enc dec b remote_call.ROk JGet (js_hist s) = (pc1, js_hist s) \<and>
      fst (joinConfigPlatform enc dec b remote_call.ROk pc1 (js_hist s)) = JDone None" if total: "\<forall>l. \<exists>v. enc l = Inr v" for b
  proof -
    obtain v where "joinConfigPlatform enc dec b remote_call.ROk JGet (js_hist s) = (JTxn v (length (js_hist s)), js_hist s)"
    proof (cases "key_value (js_hist s)")
      case None
      then have "js_hist s = []" using l(1) by (auto simp: key_value_def split: if_splits) (metis last_in_set)
      moreover obtain v where "enc [b] = Inr v" using total by blast
      ultimately show thesis using that [of v] by (simp add: joinConfigPlatform_def key_value_def)
    next
      case (Some w)
      then have d: "dec w = Inr l" using l(2) by (simp add: listed_def split: sum.splits)
      obtain v where "enc (if b \<in> set l then l else l @ [b]) = Inr v" using total by blast
      then show thesis using that [of v] Some d key_version_puts [OF l(1)]
        by (auto simp: joinConfigPlatform_def same_service split: if_splits)
    qed
    then show ?thesis using key_version_puts [OF l(1)] by (auto simp: joinConfigPlatform_def)
  qed
  ultimately show ?thesis using l(2-4) by blast
qed

text \<open>The version of a key starts again when the key is deleted: a transaction on a version read before can then succeed, and
  drops the backend that entered in between.\<close>

lemma join_after_delete:
  assumes "dec ''a'' = Inr [a]" "dec ''b'' = Inr [b]" "enc [a, c] = Inr ''ac''" "a \<noteq> c"
  shows "joinConfigPlatform enc dec c remote_call.ROk JGet [Some ''a''] = (JTxn ''ac'' 1, [Some ''a''])"
    and "joinConfigPlatform enc dec c remote_call.ROk (JTxn ''ac'' 1) ([Some ''a''] @ [None, Some ''b'']) = (JDone None, [Some ''a'', None, Some ''b'', Some ''ac''])"
  using assms by (simp_all add: joinConfigPlatform_def key_value_def key_version_def same_service)

definition join_exec ::
  "(backend_service_info list \<Rightarrow> gerr + string) \<Rightarrow> services_decoder \<Rightarrow> backend_service_info \<Rightarrow> nat \<Rightarrow> join_sys \<Rightarrow> join_sys" where
  "join_exec enc dec b i s =
     (if i < length (js_calls s)
      then let (b', pc) = js_calls s ! i; (pc', h') = joinConfigPlatform enc dec b' remote_call.ROk pc (js_hist s)
           in s\<lparr>js_hist := h', js_calls := (js_calls s)[i := (b', pc')]\<rparr>
      else s\<lparr>js_calls := js_calls s @ [(b, JGet)]\<rparr>)"

lemma join_exec_reach: "reach init (join_step enc dec) s \<Longrightarrow> reach init (join_step enc dec) (join_exec enc dec b i s)"
proof -
  assume r: "reach init (join_step enc dec) s"
  show ?thesis
  proof (cases "i < length (js_calls s)")
    case True
    obtain b' pc where p: "js_calls s ! i = (b', pc)" by fastforce
    obtain pc' h' where "joinConfigPlatform enc dec b' remote_call.ROk pc (js_hist s) = (pc', h')" by fastforce
    then show ?thesis using reach_step [OF r jn_run [OF True p]] True p by (simp add: join_exec_def)
  next
    case False
    then show ?thesis using reach_step [OF r jn_call] by (simp add: join_exec_def)
  qed
qed

definition ex_chat :: backend_service_info where
  "ex_chat = \<lparr>bs_BizID = 1, bs_Name = ''chat''\<rparr>"

definition ex_mail :: backend_service_info where
  "ex_mail = \<lparr>bs_BizID = 2, bs_Name = ''mail''\<rparr>"

definition ex_join_enc :: "backend_service_info list \<Rightarrow> gerr + string" where
  "ex_join_enc l = (if l = [ex_chat] then Inr ''c'' else if l = [ex_mail] then Inr ''m'' else if l = [ex_chat, ex_mail] then Inr ''cm''
     else Inl (Ext ''unused''))"

definition ex_join_dec :: services_decoder where
  "ex_join_dec v = (if v = ''c'' then Inr [ex_chat] else if v = ''m'' then Inr [ex_mail] else if v = ''cm'' then Inr [ex_chat, ex_mail]
     else Inl (Ext ''json''))"

text \<open>Both read the empty key; the second transaction fails, and its caller reads again.\<close>

definition ex_join_run :: join_sys where
  "ex_join_run = fold (\<lambda>(b, i). join_exec ex_join_enc ex_join_dec b i)
     [(ex_chat, 9), (ex_mail, 9), (ex_chat, 0), (ex_chat, 1), (ex_chat, 0), (ex_chat, 1), (ex_chat, 1), (ex_chat, 1)] \<lparr>js_hist = [], js_calls = []\<rparr>"

lemma ex_join_run_reach: "reach (join_init ex_join_dec []) (join_step ex_join_enc ex_join_dec) ex_join_run"
proof -
  have "join_init ex_join_dec [] \<lparr>js_hist = [], js_calls = []\<rparr>" by (simp add: join_init_def listed_def key_value_def)
  then show ?thesis unfolding ex_join_run_def by (simp add: join_exec_reach reach_init)
qed

theorem backends_never_lost_witness:
  "js_calls ex_join_run = [(ex_chat, JDone None), (ex_mail, JDone None)] \<and>
     (\<exists>l. listed ex_join_dec (js_hist ex_join_run) = Some l \<and> distinct l \<and> ex_chat \<in> set l \<and> ex_mail \<in> set l)"
proof -
  have e: "ex_join_enc l = Inr v \<Longrightarrow> ex_join_dec v = Inr l" for l v
    by (auto simp: ex_join_enc_def ex_join_dec_def split: if_splits)
  have n: "ex_chat \<noteq> ex_mail" by (simp add: ex_chat_def ex_mail_def)
  have c: "js_calls ex_join_run = [(ex_chat, JDone None), (ex_mail, JDone None)]"
    by (simp add: ex_join_run_def join_exec_def joinConfigPlatform_def key_value_def key_version_def same_service n n [symmetric]
        ex_join_enc_def ex_join_dec_def nth_Cons')
  from backends_never_lost [OF e ex_join_run_reach] show ?thesis using c by auto
qed

end
