(* ===== verification/GW_Startup.thy ===== *)
theory GW_Startup
  imports GW_Scaler GW_Manager GW_Limiter GW_EventBus
begin

text \<open>
  Starting a node: how \<open>cmd/main.go\<close> makes the node's description from the environment and the configuration, and the
  parts of \<open>ioc\<close> that decide something (connecting to the message queue with retries, the consumers' names, the values the
  link manager, the connection limiter and the scaler are built with). Reading the configuration is an argument: the values
  that were read, or the error. The environment is the list \<open>KEY=value\<close> a container is started with, so that the container the
  scaler describes and the node that starts in it can be put together.
\<close>

subsection \<open>The environment\<close>

text \<open>\<open>os.Getenv\<close>: the first entry of the variable, else the empty string.\<close>

definition Getenv :: "string list \<Rightarrow> string \<Rightarrow> string" where
  "Getenv env key =
     (case find (\<lambda>e. take (length key + 1) e = key @ ''='') env of Some e \<Rightarrow> drop (length key + 1) e | None \<Rightarrow> [])"

text \<open>\<open>strconv.ParseInt(s, 10, 32)\<close>; \<open>None\<close> is its error.\<close>

definition parse_int32 :: "string \<Rightarrow> int option" where
  "parse_int32 s = (case parse_int64 s of Some x \<Rightarrow> if - (2 ^ 31) \<le> x \<and> x < 2 ^ 31 then Some x else None | None \<Rightarrow> None)"

text \<open>The entries of \<open>server.websocket\<close> the function reads.\<close>

record main_config =
  mn_host :: string
  mn_port :: int
  mn_weight :: int
  mn_labels :: "string list"
  mn_capacity :: int

definition DefaultStopTimeoutMain :: int where
  "DefaultStopTimeoutMain = 30 * 1000000000"

definition stopTimeout :: "string list \<Rightarrow> int" where
  "stopTimeout env =
     (case parse_int64 (Getenv env ''GATEWAY_STOP_TIMEOUT'') of Some n \<Rightarrow> i64 (n * 1000000000) | None \<Rightarrow> DefaultStopTimeoutMain)"

definition getHost :: "string list \<Rightarrow> main_config \<Rightarrow> string" where
  "getHost env c = (let ip = Getenv env ''GATEWAY_NODE_HOST_IP'' in if ip \<noteq> [] then ip else mn_host c)"

definition getPort :: "string list \<Rightarrow> main_config \<Rightarrow> int" where
  "getPort env c = (case parse_int32 (Getenv env ''GATEWAY_NODE_HOST_PORT'') of Some atoi \<Rightarrow> i32 atoi | None \<Rightarrow> i32 (mn_port c))"

definition main_nodeInfo :: "string list \<Rightarrow> main_config \<Rightarrow> node" where
  "main_nodeInfo env c =
     \<lparr>nd_id = Getenv env ''GATEWAY_NODE_ID'', nd_ip = getHost env c, nd_port = getPort env c, nd_weight = i32 (mn_weight c),
      nd_location = Getenv env ''GATEWAY_NODE_LOCATION'', nd_labels = mn_labels c, nd_capacity = mn_capacity c, nd_load = 0\<rparr>"

subsection \<open>The message queue\<close>

text \<open>\<open>initMQ\<close>: the queue the library makes, then its topics. \<open>create\<close> is the answer of \<open>CreateTopic\<close>, \<open>str\<close> and \<open>num\<close> are the
  configuration.\<close>

definition createTopic :: "(string \<Rightarrow> int \<Rightarrow> gerr option) \<Rightarrow> (string \<Rightarrow> string) \<Rightarrow> (string \<Rightarrow> int) \<Rightarrow> string \<Rightarrow> string \<Rightarrow> gerr option" where
  "createTopic create str num topicKey partitionsKey = create (str topicKey) (num partitionsKey)"

definition initMQ :: "(string \<Rightarrow> string) \<Rightarrow> (string \<Rightarrow> int) \<Rightarrow> gerr + 'q \<Rightarrow> (string \<Rightarrow> int \<Rightarrow> gerr option) \<Rightarrow> gerr + 'q" where
  "initMQ str num made create =
     (case made of
        Inl err \<Rightarrow> Inl err
      | Inr queue \<Rightarrow>
          (case createTopic create str num ''pushMessageEvent.topic'' ''pushMessageEvent.partitions'' of
             Some err \<Rightarrow> Inl err
           | None \<Rightarrow>
               (case createTopic create str num ''userActionEvent.topic'' ''userActionEvent.partitions'' of
                  Some err \<Rightarrow> Inl err
                | None \<Rightarrow>
                    (case createTopic create str num ''scaleUpEvent.topic'' ''scaleUpEvent.partitions'' of
                       Some err \<Rightarrow> Inl err
                     | None \<Rightarrow> Inr queue))))"

text \<open>The loop against the results of \<open>initMQ\<close>, and the global \<open>q\<close> behind \<open>sync.Once\<close>: a function that panicked counts as done,
  and leaves the queue nil.\<close>

fun initMQ_loop :: "'rs strategy \<Rightarrow> 'rs \<Rightarrow> (gerr + 'q) list \<Rightarrow> 'q exec" where
  "initMQ_loop nxt rs [] = Block"
| "initMQ_loop nxt rs (r # results) =
     (case r of
        Inr q \<Rightarrow> Ret q
      | Inl err \<Rightarrow> (case nxt rs of None \<Rightarrow> Panic | Some (d, rs') \<Rightarrow> initMQ_loop nxt rs' results))"

record 'q mq_global =
  gq_done :: bool
  gq_q :: "'q option"

definition InitMQ :: "'rs strategy \<Rightarrow> gerr + 'rs \<Rightarrow> (gerr + 'q) list \<Rightarrow> 'q mq_global \<Rightarrow> 'q option exec \<times> 'q mq_global" where
  "InitMQ nxt strat results g =
     (if gq_done g then (Ret (gq_q g), g)
      else (case strat of
              Inl err \<Rightarrow> (Panic, g\<lparr>gq_done := True\<rparr>)
            | Inr rs \<Rightarrow>
                (case initMQ_loop nxt rs results of
                   Ret q \<Rightarrow> (Ret (Some q), \<lparr>gq_done = True, gq_q = Some q\<rparr>)
                 | Block \<Rightarrow> (Block, g)
                 | Panic \<Rightarrow> (Panic, \<lparr>gq_done = True, gq_q = None\<rparr>))))"

subsection \<open>Consumers, manager, limiter, scaler\<close>

definition consumer_name :: "string \<Rightarrow> string \<Rightarrow> string" where
  "consumer_name eventName nodeID = eventName @ ''-'' @ nodeID"

definition initPushMessageConsumer :: "(string \<Rightarrow> int) \<Rightarrow> node \<Rightarrow> 'm consumer" where
  "initPushMessageConsumer num nodeInfo = NewConsumer (consumer_name ''pushMessageEvent'' (nd_id nodeInfo)) (num ''pushMessageEvent.partitions'')"

definition initScaleUpConsumer :: "(string \<Rightarrow> int) \<Rightarrow> node \<Rightarrow> 'm consumer" where
  "initScaleUpConsumer num nodeInfo = NewConsumer (consumer_name ''scaleUpEvent'' (nd_id nodeInfo)) (num ''scaleUpEvent.partitions'')"

definition InitConsumers :: "(string \<Rightarrow> int) \<Rightarrow> node \<Rightarrow> (string, 'm consumer) smap" where
  "InitConsumers num nodeInfo = [(''pushMessage'', initPushMessageConsumer num nodeInfo), (''scaleUp'', initScaleUpConsumer num nodeInfo)]"

text \<open>The section \<open>link\<close> has the manager's fields in a nested form.\<close>

definition InitLinkManager :: "gerr + manager_config \<Rightarrow> manager exec" where
  "InitLinkManager cfg = (case cfg of Inl err \<Rightarrow> Panic | Inr c \<Rightarrow> Ret (NewManager (Some c)))"

definition InitTokenLimiter :: "gerr + token_limiter_config \<Rightarrow> token_limiter exec" where
  "InitTokenLimiter cfg =
     (case cfg of
        Inl err \<Rightarrow> Panic
      | Inr c \<Rightarrow> exec_bind (NewTokenLimiter c) (\<lambda>r. case r of Inl err \<Rightarrow> Panic | Inr t \<Rightarrow> Ret t))"

definition InitDockerScaler :: "(string \<Rightarrow> (bool \<times> bool) option) \<Rightarrow> string \<Rightarrow> int \<Rightarrow> node \<Rightarrow> (scaler \<times> (gerr + string)) exec" where
  "InitDockerScaler parseIP dockerComposeProject port nodeInfo =
     (if dockerComposeProject = [] then Panic
      else Ret (\<lparr>sl_currentNodeID = nd_id nodeInfo, sl_internalPort = fmt_d port, sl_project = dockerComposeProject, sl_parseIP = parseIP\<rparr>,
                Inr ''localhost''))"

subsection \<open>The container the scaler starts becomes the node it waits for\<close>

lemma parse_int32_fmt: "- (2 ^ 31) \<le> x \<Longrightarrow> x < 2 ^ 31 \<Longrightarrow> parse_int32 (fmt_d x) = Some x"
  by (simp add: parse_int32_def parse_fmt_d in64_def)

lemma i32_id: "- (2 ^ 31) \<le> x \<Longrightarrow> x < 2 ^ 31 \<Longrightarrow> i32 x = x"
  by (simp add: i32_def)

lemma container_env:
  "Getenv (co_env (containerConfig d cn nodeID img hostIP p)) ''GATEWAY_NODE_ID'' = nodeID"
  "Getenv (co_env (containerConfig d cn nodeID img hostIP p)) ''GATEWAY_NODE_HOST_IP'' = hostIP"
  "Getenv (co_env (containerConfig d cn nodeID img hostIP p)) ''GATEWAY_NODE_HOST_PORT'' = fmt_d p"
  "Getenv (co_env (containerConfig d cn nodeID img hostIP p)) ''GATEWAY_STOP_TIMEOUT'' = fmt_d DefaultStopTimeout"
  "Getenv (co_env (containerConfig d cn nodeID img hostIP p)) ''GATEWAY_NODE_LOCATION'' = []"
  by (simp_all add: Getenv_def containerConfig_def)

text \<open>C40. What the scaler promises of a new node is what the new process makes of its environment: the node it describes when it
  starts in the container the scaler created has the id, the address and the port the scaler reported, and the stop timeout it chose,
  whatever its own configuration says; and once that description is listed in the registry, the scaler that waits for
  the node finds it.\<close>

theorem scaled_node_matches:
  assumes "getNextAvailableNodeIDAndPort avail = Inr (i, p)" and "createSingleNode D d avail img hostIP w = (Inr n, w')"
    and "hostIP \<noteq> []" and "0 \<le> p" and "p < 2 ^ 31"
  shows "\<exists>spec cid w1. dk_create D spec w = (Inr cid, w1) \<and> co_image spec = img \<and> stopTimeout (co_env spec) = 30 * 10 ^ 9
    \<and> (\<forall>cfg. case main_nodeInfo (co_env spec) cfg of m \<Rightarrow>
         nd_id m = nd_id n \<and> nd_ip m = nd_ip n \<and> nd_port m = nd_port n
         \<and> (\<forall>as bs. nd_id n \<notin> nd_id ` set as \<longrightarrow> findRegisteredNodes [n] (as @ m # bs) = [m]))"
proof -
  let ?id = "''gw-'' @ fmt_d i"
  let ?spec = "containerConfig d (sl_project d @ ''-gateway-'' @ fmt_d i @ ''-1'') ?id img hostIP p"
  obtain cid w1 where c: "dk_create D ?spec w = (Inr cid, w1)" and n: "nd_id n = ?id" "nd_ip n = hostIP" "nd_port n = i32 p"
    using assms(1,2) by (auto simp: createSingleNode_def createAndStartContainer_def Let_def split: prod.splits sum.splits option.splits)
  have m: "nd_id (main_nodeInfo (co_env ?spec) cfg) = nd_id n" "nd_ip (main_nodeInfo (co_env ?spec) cfg) = nd_ip n"
    "nd_port (main_nodeInfo (co_env ?spec) cfg) = nd_port n" for cfg
    using assms(3-5) n by (simp_all add: main_nodeInfo_def getHost_def getPort_def container_env parse_int32_fmt)
  have "stopTimeout (co_env ?spec) = 30 * 10 ^ 9"
    by (simp add: stopTimeout_def container_env DefaultStopTimeout_def parse_fmt_d in64_def)
  moreover have "findRegisteredNodes [n] (as @ m # bs) = [m]" if "nd_id m = nd_id n" "nd_id n \<notin> nd_id ` set as" for m :: node and as bs
  proof -
    have "find (\<lambda>a. nd_id n = nd_id a) as = None" using that(2) by (auto simp: find_None_iff)
    moreover have "find P (xs @ ys) = (case find P xs of None \<Rightarrow> find P ys | Some x \<Rightarrow> Some x)" for P and xs ys :: "node list"
      by (induction xs) simp_all
    ultimately show ?thesis using that(1) by (simp add: findRegisteredNodes_def)
  qed
  moreover have "co_image ?spec = img" by (simp add: containerConfig_def)
  ultimately show ?thesis using c m by (intro exI [of _ ?spec] exI [of _ cid] exI [of _ w1]) simp
qed

text \<open>Without any node the first id is 2, not 1 as one comment says.\<close>

lemma scaler_first_id: "getNextAvailableNodeIDAndPort (Inr []) = Inr (2, 9003)"
  by (simp add: getNextAvailableNodeIDAndPort_def DefaultStartNodeID_def DefaultStartPort_def in64_def)

theorem scaled_node_matches_witness:
  "\<exists>spec :: container_spec. co_image spec = ''ws-gateway-1'' \<and> stopTimeout (co_env spec) = 30 * 10 ^ 9 \<and>
     nd_id (main_nodeInfo (co_env spec) \<lparr>mn_host = ''0.0.0.0'', mn_port = 9002, mn_weight = 1, mn_labels = [], mn_capacity = 10\<rparr>) = ''gw-2''"
proof -
  note nx = scaler_first_id
  obtain n w' where c: "createSingleNode ex_docker ex_scaler (Inr []) ''ws-gateway-1'' ''localhost'' [] = (Inr n, w')" "nd_id n = ''gw-2''"
    by (simp add: createSingleNode_def createAndStartContainer_def nx ex_docker_def Let_def fmt_d_def fmt_nat.simps digit_def)
  have "''localhost'' \<noteq> []" "(0 :: int) \<le> 9003" "(9003 :: int) < 2 ^ 31" by simp_all
  from scaled_node_matches [OF nx c(1) this] obtain spec :: container_spec where spec: "co_image spec = ''ws-gateway-1''"
    "stopTimeout (co_env spec) = 30 * 10 ^ 9" "\<forall>cfg. nd_id (main_nodeInfo (co_env spec) cfg) = nd_id n" by auto
  then show ?thesis using c(2) by (intro exI [of _ spec]) simp
qed

text \<open>A port beyond \<open>int32\<close> does not survive: the process falls back to its configuration, while the scaler reports the truncated
  number.\<close>

lemma scaled_node_large_port:
  "getPort (co_env (containerConfig d cn nodeID img hostIP (2 ^ 31))) cfg = i32 (mn_port cfg)"
  by (simp add: getPort_def container_env parse_int32_def parse_fmt_d in64_def)

subsection \<open>The queue is there, or the process is not\<close>

lemma initMQ_loop_ends:
  "gives_up nxt rs n \<Longrightarrow> n < length results \<Longrightarrow>
   (\<exists>k \<le> n. \<exists>q. results ! k = Inr q \<and> (\<forall>j < k. \<exists>e. results ! j = Inl e) \<and> initMQ_loop nxt rs results = Ret q)
   \<or> initMQ_loop nxt rs results = Panic \<and> (\<exists>e. results ! 0 = Inl e)"
proof (induction n arbitrary: rs results)
  case 0
  then show ?case by (cases results; cases "hd results") auto
next
  case (Suc n)
  obtain r rest where r: "results = r # rest" using Suc.prems(2) by (cases results) auto
  show ?case
  proof (cases r)
    case (Inr q)
    then show ?thesis using r by auto
  next
    case (Inl e)
    show ?thesis
    proof (cases "nxt rs")
      case None
      then show ?thesis using r Inl by simp
    next
      case (Some a)
      obtain d rs' where a: "a = (d, rs')" by (cases a)
      have "gives_up nxt rs' n" "n < length rest" using Suc.prems Some a r by simp_all
      from Suc.IH [OF this] show ?thesis
      proof (elim disjE exE conjE)
        fix k q assume k: "k \<le> n" "rest ! k = Inr q" "\<forall>j < k. \<exists>e. rest ! j = Inl e" "initMQ_loop nxt rs' rest = Ret q"
        have "\<exists>e. results ! j = Inl e" if "j < Suc k" for j using k(3) that r Inl by (cases j) auto
        then have "Suc k \<le> Suc n \<and> results ! Suc k = Inr q \<and> (\<forall>j < Suc k. \<exists>e. results ! j = Inl e) \<and> initMQ_loop nxt rs results = Ret q"
          using k r Inl Some a by simp
        then show ?thesis by blast
      qed (use r Inl Some a in auto)
    qed
  qed
qed

text \<open>\<open>InitMQ\<close> ends after at most one attempt more than its strategy has retries: with the queue of the first attempt that
  succeeded, its three topics created, which every later call then returns at once; or with a panic. After a panic that
  was recovered, later calls return the nil queue.\<close>

theorem mq_init_ends:
  assumes "gives_up nxt rs n" and "n < length results" and "\<not> gq_done g"
  shows "(\<exists>k \<le> n. \<exists>q. results ! k = Inr q \<and> (\<forall>j < k. \<exists>e. results ! j = Inl e) \<and>
        (\<exists>g'. InitMQ nxt (Inr rs) results g = (Ret (Some q), g') \<and> (\<forall>strat more. InitMQ nxt strat more g' = (Ret (Some q), g'))))
    \<or> (\<exists>g'. InitMQ nxt (Inr rs) results g = (Panic, g') \<and> (\<forall>strat more. InitMQ nxt strat more g' = (Ret None, g')))"
  using initMQ_loop_ends [OF assms(1,2)]
proof (elim disjE exE conjE)
  fix k q assume "k \<le> n" "results ! k = Inr q" "\<forall>j < k. \<exists>e. results ! j = Inl e" "initMQ_loop nxt rs results = Ret q"
  then have "InitMQ nxt (Inr rs) results g = (Ret (Some q), \<lparr>gq_done = True, gq_q = Some q\<rparr>)" using assms(3) by (simp add: InitMQ_def)
  moreover have "InitMQ nxt strat more \<lparr>gq_done = True, gq_q = Some q\<rparr> = (Ret (Some q), \<lparr>gq_done = True, gq_q = Some q\<rparr>)" for strat more
    by (simp add: InitMQ_def)
  ultimately show ?thesis using \<open>k \<le> n\<close> \<open>results ! k = Inr q\<close> \<open>\<forall>j < k. \<exists>e. results ! j = Inl e\<close> by blast
next
  assume "initMQ_loop nxt rs results = Panic"
  then have "InitMQ nxt (Inr rs) results g = (Panic, \<lparr>gq_done = True, gq_q = None\<rparr>)" using assms(3) by (simp add: InitMQ_def)
  moreover have "InitMQ nxt strat more \<lparr>gq_done = True, gq_q = None\<rparr> = (Ret None, \<lparr>gq_done = True, gq_q = None\<rparr>)" for strat more
    by (simp add: InitMQ_def)
  ultimately show ?thesis by blast
qed

theorem mq_init_ends_witness:
  "InitMQ countdown (Inr 1) [Inl (Ext ''no broker''), Inr (7 :: nat)] \<lparr>gq_done = False, gq_q = None\<rparr> = (Ret (Some 7), \<lparr>gq_done = True, gq_q = Some 7\<rparr>)"
proof -
  have "(\<exists>k \<le> 1. \<exists>q. [Inl (Ext ''no broker''), Inr (7 :: nat)] ! k = Inr q \<and> (\<forall>j < k. \<exists>e. [Inl (Ext ''no broker''), Inr (7 :: nat)] ! j = Inl e) \<and>
        (\<exists>g'. InitMQ countdown (Inr 1) [Inl (Ext ''no broker''), Inr (7 :: nat)] \<lparr>gq_done = False, gq_q = None\<rparr> = (Ret (Some q), g') \<and>
          (\<forall>strat more. InitMQ countdown strat more g' = (Ret (Some q), g'))))
    \<or> (\<exists>g'. InitMQ countdown (Inr 1) [Inl (Ext ''no broker''), Inr (7 :: nat)] \<lparr>gq_done = False, gq_q = None\<rparr> = (Panic, g') \<and>
          (\<forall>strat more. InitMQ countdown strat more g' = (Ret None, g')))"
    by (rule mq_init_ends) (simp_all add: countdown_gives_up)
  then show ?thesis by (auto simp: InitMQ_def)
qed

lemma initMQ_topics:
  "initMQ str num made create = Inr q \<longleftrightarrow> made = Inr q \<and>
     (\<forall>e \<in> {''pushMessageEvent'', ''userActionEvent'', ''scaleUpEvent''}. create (str (e @ ''.topic'')) (num (e @ ''.partitions'')) = None)"
  by (auto simp: initMQ_def createTopic_def split: sum.splits option.splits)

text \<open>Every consumer of every node has a name of its own, so that each node gets all push messages and all scale-up events.\<close>

lemma consumer_names:
  assumes "nd_id a \<noteq> nd_id b"
  shows "distinct (map (\<lambda>(k, c). cs_name c) (InitConsumers num a @ InitConsumers num b))"
  using assms by (simp add: InitConsumers_def initPushMessageConsumer_def initScaleUpConsumer_def consumer_name_def NewConsumer_def)

end
