(* ===== verification/GW_Client.thy ===== *)
theory GW_Client
  imports GW_Wire GW_Handler
begin

text \<open>
  The WebSocket client of the demo (\<open>demo/ws/client/internal\<close>: \<open>client.go\<close>, \<open>writer.go\<close>, \<open>stats.go\<close>), the other end of the
  protocol the gateway speaks: the messages it makes, its writer, and the goroutines that share its connection behind one
  mutex. Put together with the gateway's handler, what the user typed is what the gateway forwards.
\<close>

subsection \<open>Messages\<close>

text \<open>A Go string of valid UTF-8 as its code points; \<open>len\<close> counts bytes.\<close>

type_synonym runes = "nat list"

definition utf8_len :: "nat \<Rightarrow> nat" where
  "utf8_len r = (if r < 128 then 1 else if r < 2048 then 2 else if r < 65536 then 3 else 4)"

definition IsSpace :: "nat \<Rightarrow> bool" where
  "IsSpace r \<longleftrightarrow> 9 \<le> r \<and> r \<le> 13 \<or> r \<in> {32, 133, 160, 5760, 8232, 8233, 8239, 8287, 12288} \<or> 8192 \<le> r \<and> r \<le> 8202"

definition TrimSpace :: "runes \<Rightarrow> runes" where
  "TrimSpace s = rev (dropWhile IsSpace (rev (dropWhile IsSpace s)))"

definition sanitizeMessageContent :: "runes \<Rightarrow> gerr + runes" where
  "sanitizeMessageContent content =
     (if content = [] then Inl (Txt ''empty'')
      else if sum_list (map utf8_len content) > 1024 * 1024 then Inl (Txt ''too long'')
      else if 0 \<in> set content then Inl (Txt ''null character'')
      else let content = TrimSpace content in if content = [] then Inl (Txt ''blank'') else Inr content)"

definition fmt_x :: "bytes \<Rightarrow> string" where
  "fmt_x bs = concat (map (\<lambda>b. [''0123456789abcdef'' ! (unat b div 16), ''0123456789abcdef'' ! (unat b mod 16)]) bs)"

text \<open>The sixteen random bytes are an argument; an error of the source is ignored by the code.\<close>

definition generateUniqueKey :: "bytes \<Rightarrow> string" where
  "generateUniqueKey b = fmt_x b"

text \<open>\<open>js\<close>: \<open>protojson.Marshal\<close> of a \<open>StringValue\<close>.\<close>

definition generateUpstreamMessage ::
  "(runes \<Rightarrow> gerr + bytes) \<Rightarrow> (bytes \<Rightarrow> gerr + bytes) \<Rightarrow> bytes \<Rightarrow> runes \<Rightarrow> gerr + message" where
  "generateUpstreamMessage js enc b content =
     (case sanitizeMessageContent content of
        Inl err \<Rightarrow> Inl (WrapE [err])
      | Inr cleanContent \<Rightarrow>
          (case js cleanContent of
             Inl err \<Rightarrow> Inl (WrapE [err])
           | Inr bytes \<Rightarrow>
               if bytes = [] then Inl (Txt ''empty message'')
               else (case enc bytes of
                       Inl err \<Rightarrow> Inl (WrapE [err])
                     | Inr encryptedBody \<Rightarrow>
                         if encryptedBody = [] then Inl (Txt ''empty body'')
                         else Inr \<lparr>msg_cmd = UPSTREAM_MESSAGE, msg_key = generateUniqueKey b, msg_body = encryptedBody\<rparr>)))"

definition generateDownstreamAck :: "string \<Rightarrow> message" where
  "generateDownstreamAck key = \<lparr>msg_cmd = DOWNSTREAM_ACK, msg_key = key, msg_body = []\<rparr>"

definition generateHeartbeat :: "bytes \<Rightarrow> message" where
  "generateHeartbeat b = \<lparr>msg_cmd = HEARTBEAT, msg_key = generateUniqueKey b, msg_body = []\<rparr>"

text \<open>\<open>initEncryptor\<close>: the key the demo's servers are configured with.\<close>

definition initEncryptor :: "gerr + encryptor_impl" where
  "initEncryptor = NewAESEncryptor ''1234567890abcdef1234567890abcdef''"

subsection \<open>Writing\<close>

definition NewClientWriter :: "('d, 'w) frame_layer \<Rightarrow> 'd \<Rightarrow> bool \<Rightarrow> 'w ws_writer" where
  "NewClientWriter F dest compressed = \<lparr>wr_writer = fl_NewWriter F False compressed dest, wr_flate = True\<rparr>"

definition client_writeUncompressed :: "('d, 'w) frame_layer \<Rightarrow> bytes \<Rightarrow> 'w ws_writer \<Rightarrow> (int \<times> gerr option) \<times> 'w ws_writer" where
  "client_writeUncompressed F p w =
     (case fl_Write F p (wr_writer w) of
        ((n, Some err), w1) \<Rightarrow> ((0, Some err), w\<lparr>wr_writer := w1\<rparr>)
      | ((n, None), w1) \<Rightarrow> let (err, w2) = fl_Flush F w1 in ((n, err), w\<lparr>wr_writer := w2\<rparr>))"

definition client_writeCompressed :: "('d, 'w) frame_layer \<Rightarrow> bytes \<Rightarrow> 'w ws_writer \<Rightarrow> (int \<times> gerr option) \<times> 'w ws_writer" where
  "client_writeCompressed F p w =
     (case fl_flateWrite F p (fl_flateReset F (wr_writer w)) of
        ((n, Some err), w1) \<Rightarrow> ((0, Some err), w\<lparr>wr_writer := w1\<rparr>)
      | ((n, None), w1) \<Rightarrow>
          (case fl_flateClose F w1 of
             (Some err, w2) \<Rightarrow> ((0, Some err), w\<lparr>wr_writer := w2\<rparr>)
           | (None, w2) \<Rightarrow> let (err, w3) = fl_Flush F w2 in ((n, err), w\<lparr>wr_writer := w3\<rparr>)))"

definition client_Write :: "('d, 'w) frame_layer \<Rightarrow> bytes \<Rightarrow> 'w ws_writer \<Rightarrow> (int \<times> gerr option) \<times> 'w ws_writer" where
  "client_Write F p w = (if fl_marks F (wr_writer w) then client_writeCompressed F p w else client_writeUncompressed F p w)"

lemma client_Write_eq: "wr_flate w \<Longrightarrow> Writer_Write F p w = Ret (client_Write F p w)"
  by (auto simp: Writer_Write_def client_Write_def writeCompressed_def client_writeCompressed_def writeUncompressed_def
      client_writeUncompressed_def Let_def split: prod.splits option.splits)

text \<open>\<open>sendMessageSafe\<close> with the mutex held: the error and what was written.\<close>

definition sendMessageSafe ::
  "('d, 'w) frame_layer \<Rightarrow> message codec \<Rightarrow> bool \<Rightarrow> 'd option \<Rightarrow> message \<Rightarrow> gerr option \<times> (bool \<times> bytes) list" where
  "sendMessageSafe F c compressed conn msg =
     (case conn of
        None \<Rightarrow> (Some (Txt ''closed''), [])
      | Some d \<Rightarrow>
          (case cd_Marshal c (ProtoMessage msg) of
             Inl err \<Rightarrow> (Some (WrapE [err]), [])
           | Inr payload \<Rightarrow>
               let w0 = NewClientWriter F d compressed; ((n, err), w) = client_Write F payload w0
               in (case err of Some e \<Rightarrow> Some (WrapE [e]) | None \<Rightarrow> None,
                   drop (length (fl_wire F (wr_writer w0))) (fl_wire F (wr_writer w)))))"

subsection \<open>Statistics\<close>

record client_stats =
  st_totalConnections :: int
  st_activeConnections :: int
  st_totalMessages :: int
  st_successMessages :: int
  st_failedMessages :: int

definition IncrementConnections :: "client_stats \<Rightarrow> client_stats" where
  "IncrementConnections s =
     s\<lparr>st_totalConnections := i64 (st_totalConnections s + 1), st_activeConnections := i64 (st_activeConnections s + 1)\<rparr>"

definition DecrementConnections :: "client_stats \<Rightarrow> client_stats" where
  "DecrementConnections s = s\<lparr>st_activeConnections := i64 (st_activeConnections s - 1)\<rparr>"

definition IncrementMessages :: "bool \<Rightarrow> client_stats \<Rightarrow> client_stats" where
  "IncrementMessages success s =
     (let s1 = s\<lparr>st_totalMessages := i64 (st_totalMessages s + 1)\<rparr>
      in if success then s1\<lparr>st_successMessages := i64 (st_successMessages s1 + 1)\<rparr>
         else s1\<lparr>st_failedMessages := i64 (st_failedMessages s1 + 1)\<rparr>)"

text \<open>\<open>Start\<close> counts the connection as active only while it starts its two goroutines: the decrement is deferred to its own end.\<close>

definition start_stats :: "client_stats \<Rightarrow> client_stats" where
  "start_stats s = DecrementConnections (IncrementConnections s)"

lemma start_never_active: "in64 (st_activeConnections s) \<Longrightarrow> st_activeConnections (start_stats s) = st_activeConnections s"
  by (simp add: start_stats_def DecrementConnections_def IncrementConnections_def)

lemma messages_add_up:
  "st_totalMessages s = i64 (st_successMessages s + st_failedMessages s) \<Longrightarrow>
   st_totalMessages (IncrementMessages ok s) = i64 (st_successMessages (IncrementMessages ok s) + st_failedMessages (IncrementMessages ok s))"
  by (simp add: IncrementMessages_def Let_def algebra_simps)

subsection \<open>What the user typed is what the gateway forwards\<close>

definition codec_unmarshal :: "message codec \<Rightarrow> bytes \<Rightarrow> gerr + message" where
  "codec_unmarshal c p =
     (case cd_Unmarshal c p (ProtoMessage \<lparr>msg_cmd = INVALID_UNSPECIFIED, msg_key = [], msg_body = []\<rparr>) of
        (None, ProtoMessage m) \<Rightarrow> Inr m | (None, OtherType t) \<Rightarrow> Inl (Txt t) | (Some err, v) \<Rightarrow> Inl err)"

lemma sendMessageSafe_wire:
  assumes ok: "frames_ok F" and send: "sendMessageSafe F c compressed (Some d) msg = (None, ws)"
  shows "\<exists>payload m. cd_Marshal c (ProtoMessage msg) = Inr payload \<and> ws = [m] \<and> decodes F m payload"
proof -
  let ?w0 = "NewClientWriter F d compressed"
  obtain payload where p: "cd_Marshal c (ProtoMessage msg) = Inr payload" using send by (auto simp: sendMessageSafe_def split: sum.splits)
  obtain n err w where w: "client_Write F payload ?w0 = ((n, err), w)" by (metis prod.collapse)
  then have e: "err = None" "ws = drop (length (fl_wire F (wr_writer ?w0))) (fl_wire F (wr_writer w))"
    using send p by (auto simp: sendMessageSafe_def Let_def split: option.splits)
  have "fl_idle F (wr_writer ?w0)" "fl_marks F (wr_writer ?w0) \<longrightarrow> wr_flate ?w0" "wr_flate ?w0"
    using frames_new [OF ok] by (simp_all add: NewClientWriter_def)
  from Writer_Write_once(2) [OF ok this(1,2)] client_Write_eq [OF this(3), of F payload] w e(1)
  obtain m where "decodes F m payload" "fl_wire F (wr_writer w) = fl_wire F (wr_writer ?w0) @ [m]" by force
  then show ?thesis using p e(2) by simp
qed

lemma fmt_x_nonempty: "b \<noteq> [] \<Longrightarrow> generateUniqueKey b \<noteq> []"
  by (cases b) (simp_all add: generateUniqueKey_def fmt_x_def)

text \<open>From the client to the gateway: a text the client accepts, encrypted, serialised, written with or without compression and
  carried over the connection, is read by the gateway's reader, deserialised and decrypted by its handler to an upstream message
  with the client's key whose body is the client's encoding of the text without its surrounding white space.\<close>

theorem client_message_understood:
  assumes "crypto_ok cr" and "nonce_ok rnd" and "initEncryptor = Inr e" and "b \<noteq> []" and "frames_ok F" and "proto_ok P"
    and gen: "generateUpstreamMessage js (Encrypt cr e rnd) b content = Inr msg"
    and send: "sendMessageSafe F (NewJSONCodec P) compressed (Some d) msg = (None, ws)" and "carries ws evs"
    and gateway: "he_unmarshal E = codec_unmarshal (NewJSONCodec P)" "he_decrypt E = Decrypt cr e"
  shows "\<exists>clean body payload evs'. sanitizeMessageContent content = Inr clean \<and> js clean = Inr body
    \<and> Reader_Read (fl_inflate F) evs = Some (Inr payload, evs')
    \<and> getMessage E payload = Inr \<lparr>msg_cmd = UPSTREAM_MESSAGE, msg_key = generateUniqueKey b, msg_body = body\<rparr>"
proof -
  obtain clean body enc where g: "sanitizeMessageContent content = Inr clean" "js clean = Inr body" "Encrypt cr e rnd body = Inr enc"
    "msg = \<lparr>msg_cmd = UPSTREAM_MESSAGE, msg_key = generateUniqueKey b, msg_body = enc\<rparr>"
    using gen by (auto simp: generateUpstreamMessage_def split: sum.splits if_splits)
  obtain payload m where p: "cd_Marshal (NewJSONCodec P) (ProtoMessage msg) = Inr payload" "ws = [m]" "decodes F m payload"
    using sendMessageSafe_wire [OF assms(5) send] by blast
  obtain evs' where "Reader_Read (fl_inflate F) evs = Some (Inr payload, evs')"
    using Reader_Read_carries [of m "[]" evs F payload] assms(9) p(2,3) by auto
  moreover have "pl_Unmarshal P payload m0 = (None, msg)" for m0
    using p(1) assms(6) by (simp add: NewJSONCodec_def jsonCodec_Marshal_def proto_ok_def)
  then have "he_unmarshal E payload = Inr msg"
    by (simp add: gateway codec_unmarshal_def NewJSONCodec_def jsonCodec_Unmarshal_def)
  then have "getMessage E payload = Inr (msg\<lparr>msg_body := body\<rparr>)"
    using Encrypt_Decrypt [OF assms(1,2) g(3)] fmt_x_nonempty [OF assms(4)] g(4) by (simp add: getMessage_def gateway)
  ultimately show ?thesis using g by (intro exI conjI) simp_all
qed

definition ex_upstream :: message where
  "ex_upstream = \<lparr>msg_cmd = UPSTREAM_MESSAGE, msg_key = ''00'', msg_body = replicate 12 5 @ [1, 7]\<rparr>"

definition ex_message_lib :: "message proto_lib" where
  "ex_message_lib = \<lparr>pl_Marshal = \<lambda>m. if m = ex_upstream then Inr [9] else Inl (Ext ''unused''),
     pl_Unmarshal = \<lambda>b m. if b = [9] then (None, ex_upstream) else (Some (Ext ''unused''), m)\<rparr>"

definition ex_gateway :: "(unit, nat) henv" where
  "ex_gateway = \<lparr>he_marshal = \<lambda>m. Inr [], he_unmarshal = codec_unmarshal (NewJSONCodec ex_message_lib), he_marshalResp = \<lambda>r. Inr [],
     he_encrypt = \<lambda>n b. Inr b, he_decrypt = Decrypt ex_crypto (AESEncryptor (go_bytes ''1234567890abcdef1234567890abcdef'')),
     he_setnx = \<lambda>k v e c. (Inr True, c), he_delete = \<lambda>k c. (Inr 1, c), he_expiration = 0, he_loader = [], he_next = countdown,
     he_retry0 = Some 2\<rparr>"

theorem client_message_understood_witness:
  "\<exists>payload evs'. Reader_Read (fl_inflate mem_frames) [EvControl None, EvData True (Inr [42, 9])] = Some (Inr payload, evs') \<and>
     getMessage ex_gateway payload = Inr \<lparr>msg_cmd = UPSTREAM_MESSAGE, msg_key = ''00'', msg_body = [1]\<rparr>"
proof -
  let ?e = "AESEncryptor (go_bytes ''1234567890abcdef1234567890abcdef'')"
  have e: "initEncryptor = Inr ?e" by (simp add: initEncryptor_def NewAESEncryptor_def)
  have lib: "proto_ok ex_message_lib" by (auto simp: proto_ok_def ex_message_lib_def split: if_splits)
  have gen: "generateUpstreamMessage (\<lambda>_. Inr [1]) (Encrypt ex_crypto ?e ex_nonce) [0] [32, 104, 105] = Inr ex_upstream"
    by (simp add: generateUpstreamMessage_def sanitizeMessageContent_def TrimSpace_def IsSpace_def utf8_len_def generateUniqueKey_def
        fmt_x_def Encrypt_def aes_Encrypt_def aes_NewCipher_def ex_crypto_def ex_nonce_def ex_upstream_def)
  have send: "sendMessageSafe mem_frames (NewJSONCodec ex_message_lib) True (Some ()) ex_upstream = (None, [(True, [42, 9])])"
    by (simp add: sendMessageSafe_def NewJSONCodec_def jsonCodec_Marshal_def ex_message_lib_def NewClientWriter_def client_Write_def
        client_writeCompressed_def mem_frames_def)
  have c: "carries [(True, [42, 9])] [EvControl None, EvData True (Inr [42, 9])]" by (intro carries.intros)
  have g: "he_unmarshal ex_gateway = codec_unmarshal (NewJSONCodec ex_message_lib)" "he_decrypt ex_gateway = Decrypt ex_crypto ?e"
    by (simp_all add: ex_gateway_def)
  from client_message_understood [OF ex_crypto_ok ex_nonce_ok e _ mem_frames_ok lib gen send c g] show ?thesis
    by (auto simp: generateUniqueKey_def fmt_x_def)
qed

text \<open>What the client accepts: the text without surrounding white space, non-empty, at most a mebibyte and without null
  characters.\<close>

lemma sanitize_accepts:
  "sanitizeMessageContent content = Inr clean \<longleftrightarrow>
     clean = TrimSpace content \<and> clean \<noteq> [] \<and> sum_list (map utf8_len content) \<le> 2 ^ 20 \<and> 0 \<notin> set content"
  by (auto simp: sanitizeMessageContent_def Let_def TrimSpace_def)

subsection \<open>The goroutines of a client\<close>

text \<open>Where a call of \<open>SendUpstreamMessage\<close> stands: before sending, waiting for the reader it started or for its timeout, before
  acknowledging what it read, returned. A reader: before taking the mutex, reading while it holds it, finished. The heartbeat:
  at its select, before sending, gone. \<open>Stop\<close>: not called, waiting for the heartbeat, before closing, done. \<open>timeout\<close>, \<open>tick\<close> and \<open>ctxDone\<close> say which branch of a \<open>select\<close> is ready.\<close>

datatype call_pc = CcSend message | CcWait nat | CcAck string | CcDone "gerr option"
datatype reader_pc = RdWant | RdRead | RdDone "gerr + message"
datatype beat_pc = BtSelect | BtSend | BtGone
datatype stop_pc = SpNot | SpWait | SpClose | SpDone

record 'd ws_client =
  wc_conn :: "'d option"
  wc_reading :: "nat option"
  wc_incoming :: "(gerr + bytes) list"
  wc_written :: "(bool \<times> bytes) list"
  wc_calls :: "call_pc list"
  wc_readers :: "reader_pc list"
  wc_beat :: beat_pc
  wc_stopped :: bool
  wc_stop :: stop_pc

text \<open>The mutex is held over several steps only by a reader: \<open>wc_reading\<close>.\<close>

definition upstream_step :: "('d, 'w) frame_layer \<Rightarrow> message codec \<Rightarrow> bool \<Rightarrow> bool \<Rightarrow> nat \<Rightarrow> 'd ws_client \<Rightarrow> 'd ws_client option" where
  "upstream_step F c compressed timeout i s =
     (case wc_calls s ! i of
        CcSend msg \<Rightarrow>
          if wc_reading s \<noteq> None then None
          else let (err, ws) = sendMessageSafe F c compressed (wc_conn s) msg; s1 = s\<lparr>wc_written := wc_written s @ ws\<rparr>
               in Some (case err of
                    Some e \<Rightarrow> s1\<lparr>wc_calls := (wc_calls s)[i := CcDone (Some (WrapE [e]))]\<rparr>
                  | None \<Rightarrow> s1\<lparr>wc_calls := (wc_calls s)[i := CcWait (length (wc_readers s))], wc_readers := wc_readers s @ [RdWant]\<rparr>)
      | CcWait r \<Rightarrow>
          if timeout then Some (s\<lparr>wc_calls := (wc_calls s)[i := CcDone (Some (WrapE [WrapE [Sen CtxErr]]))]\<rparr>)
          else (case wc_readers s ! r of
                  RdDone (Inl e) \<Rightarrow> Some (s\<lparr>wc_calls := (wc_calls s)[i := CcDone (Some (WrapE [e]))]\<rparr>)
                | RdDone (Inr m) \<Rightarrow>
                    Some (s\<lparr>wc_calls := (wc_calls s)[i := if msg_cmd m = DOWNSTREAM_MESSAGE then CcAck (msg_key m) else CcDone None]\<rparr>)
                | _ \<Rightarrow> None)
      | CcAck key \<Rightarrow>
          if wc_reading s \<noteq> None then None
          else let (err, ws) = sendMessageSafe F c compressed (wc_conn s) (generateDownstreamAck key)
               in Some (s\<lparr>wc_written := wc_written s @ ws, wc_calls := (wc_calls s)[i := CcDone err]\<rparr>)
      | CcDone err \<Rightarrow> None)"

definition receiveMessage :: "message codec \<Rightarrow> gerr + bytes \<Rightarrow> gerr + message" where
  "receiveMessage c r = (case r of Inl err \<Rightarrow> Inl (WrapE [err]) | Inr payload \<Rightarrow>
     (case codec_unmarshal c payload of Inl err \<Rightarrow> Inl (WrapE [err]) | Inr m \<Rightarrow> Inr m))"

definition reader_step :: "message codec \<Rightarrow> nat \<Rightarrow> 'd ws_client \<Rightarrow> 'd ws_client option" where
  "reader_step c r s =
     (case wc_readers s ! r of
        RdWant \<Rightarrow>
          if wc_reading s \<noteq> None then None
          else if wc_conn s = None then Some (s\<lparr>wc_readers := (wc_readers s)[r := RdDone (Inl (Txt ''closed''))]\<rparr>)
          else Some (s\<lparr>wc_reading := Some r, wc_readers := (wc_readers s)[r := RdRead]\<rparr>)
      | RdRead \<Rightarrow>
          (case wc_incoming s of
             [] \<Rightarrow> None
           | x # xs \<Rightarrow> Some (s\<lparr>wc_incoming := xs, wc_reading := None, wc_readers := (wc_readers s)[r := RdDone (receiveMessage c x)]\<rparr>))
      | RdDone m \<Rightarrow> None)"

definition heartbeat_step :: "('d, 'w) frame_layer \<Rightarrow> message codec \<Rightarrow> bool \<Rightarrow> bytes \<Rightarrow> bool \<Rightarrow> bool \<Rightarrow> 'd ws_client \<Rightarrow> 'd ws_client option" where
  "heartbeat_step F c compressed b tick ctxDone s =
     (case wc_beat s of
        BtSelect \<Rightarrow>
          if tick then Some (s\<lparr>wc_beat := BtSend\<rparr>)
          else if wc_stopped s \<or> ctxDone then Some (s\<lparr>wc_beat := BtGone\<rparr>) else None
      | BtSend \<Rightarrow>
          if wc_reading s \<noteq> None then None
          else let (err, ws) = sendMessageSafe F c compressed (wc_conn s) (generateHeartbeat b)
               in Some (s\<lparr>wc_written := wc_written s @ ws, wc_beat := (case err of Some e \<Rightarrow> BtGone | None \<Rightarrow> BtSelect)\<rparr>)
      | BtGone \<Rightarrow> None)"

definition stop_step :: "'d ws_client \<Rightarrow> 'd ws_client option" where
  "stop_step s =
     (case wc_stop s of
        SpNot \<Rightarrow> Some (s\<lparr>wc_stopped := True, wc_stop := SpWait\<rparr>)
      | SpWait \<Rightarrow> if wc_beat s = BtGone then Some (s\<lparr>wc_stop := SpClose\<rparr>) else None
      | SpClose \<Rightarrow> if wc_reading s \<noteq> None then None else Some (s\<lparr>wc_conn := None, wc_stop := SpDone\<rparr>)
      | SpDone \<Rightarrow> None)"

text \<open>The steps of the client itself, without the server's answers.\<close>

inductive client_step :: "('d, 'w) frame_layer \<Rightarrow> message codec \<Rightarrow> bool \<Rightarrow> 'd ws_client \<Rightarrow> 'd ws_client \<Rightarrow> bool" for F c compressed where
  wc_call: "generateUpstreamMessage js enc b content = Inr msg \<Longrightarrow>
     client_step F c compressed s (s\<lparr>wc_calls := wc_calls s @ [CcSend msg]\<rparr>)"
| wc_upstream: "i < length (wc_calls s) \<Longrightarrow> upstream_step F c compressed timeout i s = Some t \<Longrightarrow> client_step F c compressed s t"
| wc_reader: "r < length (wc_readers s) \<Longrightarrow> reader_step c r s = Some t \<Longrightarrow> client_step F c compressed s t"
| wc_heartbeat: "heartbeat_step F c compressed b tick ctxDone s = Some t \<Longrightarrow> client_step F c compressed s t"
| wc_stopping: "stop_step s = Some t \<Longrightarrow> client_step F c compressed s t"

definition client_start :: "'d \<Rightarrow> 'd ws_client" where
  "client_start d = \<lparr>wc_conn = Some d, wc_reading = None, wc_incoming = [], wc_written = [], wc_calls = [], wc_readers = [],
     wc_beat = BtSelect, wc_stopped = False, wc_stop = SpNot\<rparr>"

subsection \<open>A reader that waits blocks everybody\<close>

definition blocked :: "nat \<Rightarrow> (bool \<times> bytes) list \<Rightarrow> 'd ws_client \<Rightarrow> bool" where
  "blocked r ws s \<longleftrightarrow> wc_reading s = Some r \<and> wc_incoming s = [] \<and> wc_written s = ws \<and> wc_stop s \<noteq> SpDone"

lemma blocked_step: "client_step F c compressed s t \<Longrightarrow> blocked r ws s \<Longrightarrow> blocked r ws t"
proof (induction rule: client_step.induct)
  case (wc_upstream i s timeout t)
  then show ?case
    by (auto simp: upstream_step_def blocked_def split: call_pc.splits if_splits reader_pc.splits sum.splits)
next
  case (wc_reader r s t)
  then show ?case by (auto simp: reader_step_def blocked_def split: reader_pc.splits if_splits)
next
  case (wc_heartbeat b tick ctxDone s t)
  then show ?case by (auto simp: heartbeat_step_def blocked_def split: beat_pc.splits if_splits)
next
  case (wc_stopping s t)
  then show ?case by (auto simp: stop_step_def blocked_def split: stop_pc.splits if_splits)
qed (simp add: blocked_def)

text \<open>The read of the acknowledgement holds the mutex of the connection while it waits. Once a call has timed out, the reader
  it left behind keeps the mutex: as long as the server sends nothing, no message, heartbeat or acknowledgement of this client is
  written any more, and \<open>Stop\<close> does not return.\<close>

theorem client_blocked:
  assumes "wc_reading s = Some r" and "wc_incoming s = []" and "wc_stop s \<noteq> SpDone" and steps: "(client_step F c compressed)\<^sup>*\<^sup>* s t"
  shows "wc_written t = wc_written s \<and> wc_reading t = Some r \<and> wc_stop t \<noteq> SpDone"
proof -
  have "blocked r (wc_written s) s" using assms(1-3) by (simp add: blocked_def)
  then have "blocked r (wc_written s) t" using stable_steps [OF _ steps, of "blocked r (wc_written s)"] blocked_step by blast
  then show ?thesis by (simp add: blocked_def)
qed

text \<open>The state is reached by one call without an answer.\<close>

definition ex_text :: runes where
  "ex_text = [104, 105]"

definition ex_client_codec :: "message codec" where
  "ex_client_codec = NewJSONCodec \<lparr>pl_Marshal = \<lambda>m. Inr (msg_body m), pl_Unmarshal = \<lambda>b m. (Some (Ext ''unused''), m)\<rparr>"

theorem client_blocked_witness:
  "\<exists>s. (client_step mem_frames ex_client_codec False)\<^sup>*\<^sup>* (client_start ()) s \<and> wc_calls s = [CcDone (Some (WrapE [WrapE [Sen CtxErr]]))] \<and>
     length (wc_written s) = 1 \<and> (\<forall>t. (client_step mem_frames ex_client_codec False)\<^sup>*\<^sup>* s t \<longrightarrow> wc_written t = wc_written s \<and> wc_stop t \<noteq> SpDone)"
proof -
  let ?R = "client_step mem_frames ex_client_codec False"
  let ?m = "\<lparr>msg_cmd = UPSTREAM_MESSAGE, msg_key = ''00'', msg_body = [7]\<rparr>"
  have gen: "generateUpstreamMessage (\<lambda>_. Inr [7]) Inr [0] ex_text = Inr ?m"
    by (simp add: generateUpstreamMessage_def sanitizeMessageContent_def TrimSpace_def IsSpace_def utf8_len_def ex_text_def
        generateUniqueKey_def fmt_x_def)
  have send: "sendMessageSafe mem_frames ex_client_codec False (Some ()) ?m = (None, [(False, [7])])"
    by (simp add: sendMessageSafe_def ex_client_codec_def NewJSONCodec_def jsonCodec_Marshal_def NewClientWriter_def client_Write_def
        client_writeUncompressed_def mem_frames_def)
  let ?a = "(client_start ())\<lparr>wc_calls := [CcSend ?m]\<rparr>"
  let ?b = "?a\<lparr>wc_written := [(False, [7])], wc_calls := [CcWait 0], wc_readers := [RdWant]\<rparr>"
  let ?c = "?b\<lparr>wc_reading := Some 0, wc_readers := [RdRead]\<rparr>"
  let ?d = "?c\<lparr>wc_calls := [CcDone (Some (WrapE [WrapE [Sen CtxErr]]))]\<rparr>"
  have "?R (client_start ()) ?a" using wc_call [OF gen, of mem_frames ex_client_codec False "client_start ()"] by (simp add: client_start_def)
  moreover have "?R ?a ?b"
    by (rule wc_upstream [where i = 0 and timeout = False]) (simp_all add: upstream_step_def client_start_def send)
  moreover have "?R ?b ?c" by (rule wc_reader [where r = 0]) (simp_all add: reader_step_def client_start_def)
  moreover have "?R ?c ?d" by (rule wc_upstream [where i = 0 and timeout = True]) (simp_all add: upstream_step_def client_start_def)
  ultimately have "?R\<^sup>*\<^sup>* (client_start ()) ?d"
    by (meson converse_rtranclp_into_rtranclp rtranclp.rtrancl_refl)
  moreover have "wc_written t = wc_written ?d \<and> wc_stop t \<noteq> SpDone" if "?R\<^sup>*\<^sup>* ?d t" for t
    using client_blocked [of ?d 0, OF _ _ _ that] by (simp add: client_start_def)
  ultimately show ?thesis by (intro exI [of _ ?d]) (simp add: client_start_def)
qed

text \<open>Whatever arrives next counts as the acknowledgement: a heartbeat the server sent back makes the call succeed.\<close>

lemma any_answer_acknowledges:
  "i < length (wc_calls s) \<Longrightarrow> wc_calls s ! i = CcWait r \<Longrightarrow> wc_readers s ! r = RdDone (Inr m) \<Longrightarrow> msg_cmd m \<noteq> DOWNSTREAM_MESSAGE \<Longrightarrow>
   upstream_step F c compressed False i s = Some (s\<lparr>wc_calls := (wc_calls s)[i := CcDone None]\<rparr>)"
  by (simp add: upstream_step_def)

end
