(* ===== verification/Spec2Isabelle.thy ===== *)
theory Spec2Isabelle
  imports GW_Link GW_Manager GW_Limiter GW_PushRetry GW_Encrypt GW_Handler GW_Coordinator GW_Batch GW_Events GW_Server GW_Node
    GW_Session GW_Generator GW_Registry GW_BalancerV1 GW_Discovery GW_LinkVariants GW_LinkV4 GW_EventBus GW_Scaler GW_Webhook
    GW_Wire GW_Backend GW_Startup GW_Client
begin

text \<open>
  Verification of the WebSocket gateway \<open>ws-gateway\<close>. Paths below are relative to the repository's root.

  \<^bold>\<open>The program.\<close> A gateway node accepts WebSocket connections of the users of many businesses. Each connection is
  authenticated by a token during the handshake, gets a session in Redis and becomes a \<open>Link\<close> with goroutines that write and
  read. What a client sends goes through a chain of link event handlers; the central one forwards upstream messages to the gRPC
  backend of the business, alone or in batches, answers heartbeats and takes acknowledgements. What a backend wants to push
  arrives over a message queue, is sent to the receiver's link and retransmitted until it is acknowledged. Nodes register in etcd
  under a lease, report their load, scale out by starting containers, and redirect part of their clients to new nodes. Backends
  are found through etcd too, by a gRPC resolver with a balancer that lets new instances warm up.

  \<^bold>\<open>Theories, bottom up.\<close>

  \<^item> \<open>GW_Prelude\<close>: \<open>int64\<close> with wrap-around, decimal text, Go errors and \<open>errors.Is\<close>, outcomes of a call (\<open>Ret\<close>, \<open>Block\<close>,
    \<open>Panic\<close>), buffered channels, \<open>sync.Map\<close>, reachable states and the locales \<open>inv_system\<close> (invariants of a transition system)
    and \<open>counted_map\<close> (a map with a separate counter). \<open>GW_Float\<close>: the \<open>float64\<close> operations the code uses, correctly rounded.
    \<open>GW_Types\<close>: the protobuf messages, retry strategies, and the fate of a remote call (done, refused, done but answer lost).
  \<^item> \<open>GW_Link\<close>: \<open>internal/link/link.go\<close>. Options, constructor, \<open>Send\<close>, \<open>Close\<close>, \<open>TryCloseIfIdle\<close>, and both goroutines as one
    transition system. \<open>GW_LinkVariants\<close> (\<open>link_v2.go\<close>, \<open>link_v3.go\<close>: one goroutine for both directions, version 3 as a refinement
    of \<open>GW_Link\<close>) and \<open>GW_LinkV4\<close> (\<open>link_v4.go\<close>: two links behind one channel).
  \<^item> \<open>GW_Selector\<close> and \<open>GW_Manager\<close>: \<open>internal/link\<close>'s selectors and \<open>manager.go\<close>, the node's links by user.
  \<^item> \<open>GW_Limiter\<close>: \<open>internal/limiter/connection_limiter.go\<close>. \<open>GW_PushRetry\<close>: \<open>pkg/pushretry/manager.go\<close>, instruction by
    instruction. \<open>GW_Encrypt\<close>: \<open>pkg/encrypt\<close>.
  \<^item> \<open>GW_Handler\<close>: \<open>internal/linkevent/handler.go\<close>, \<open>handlerv2.go\<close>. \<open>GW_Coordinator\<close> and \<open>GW_Batch\<close>: \<open>coordinator.go\<close>,
    \<open>batch_processor.go\<close>, \<open>batch_handler.go\<close>. \<open>GW_Events\<close>: \<open>types.go\<close> (the wrapper), the four small handlers, and
    \<open>ioc/linkevent_handler.go\<close>, which fixes their order.
  \<^item> \<open>GW_Server\<close> and \<open>GW_Node\<close>: \<open>internal/websocket_server.go\<close> with options, configuration and container; accepting,
    one goroutine per connection, the consumers, starting and stopping, as one transition system over the manager, the limiter and
    the handlers.
  \<^item> \<open>GW_Session\<close>: \<open>pkg/session\<close>, \<open>pkg/jwt\<close>, \<open>pkg/compression\<close>, \<open>internal/upgrader\<close>.
  \<^item> \<open>GW_Etcd\<close> (the store as an argument, its laws, an instance in memory), \<open>GW_Generator\<close> (\<open>pkg/generator\<close>), \<open>GW_Registry\<close>
    (\<open>internal/registry/registry.go\<close>).
  \<^item> \<open>GW_Capacity\<close>, \<open>GW_Balancer\<close>, \<open>GW_BalancerV1\<close>: \<open>pkg/grpc/balancer/capacity\<close>. \<open>GW_Discovery\<close>: \<open>pkg/grpc\<close>'s registry,
    resolver and clients. \<open>GW_Backend\<close>: the client loaders of \<open>ioc\<close>, and how a backend enters their list.
  \<^item> \<open>GW_EventBus\<close>: \<open>internal/event\<close>. \<open>GW_Scaler\<close>: \<open>pkg/scaler/docker.go\<close>. \<open>GW_Webhook\<close>: \<open>internal/webhook\<close>, composed with
    the scaler and with the consumer on another node. \<open>GW_Wire\<close>: \<open>pkg/codec\<close>, \<open>pkg/wswrapper\<close>, \<open>ioc/serializer.go\<close>.
    \<open>GW_Startup\<close>: \<open>cmd/main.go\<close> and the parts of \<open>ioc\<close> that decide something, composed with the scaler.
    \<open>GW_Client\<close>: the demo client (\<open>demo/ws/client/internal\<close>), the other end of the protocol, composed with the handler.

  \<^bold>\<open>How the code is represented.\<close> A struct is a record with the names of the code's fields behind a prefix, an operation a function
  on it with the code's name; objects that are shared by reference (links, messages, tasks, requests, wrapped connections)
  live in a heap, a list indexed by reference. Goroutines are program counters (\<open>send_pc\<close>, \<open>conn_pc\<close>, \<open>co_thread\<close>, \<open>gen_pc\<close> and
  others), and one step does what is atomic in Go: one channel operation, one access to a shared map, one call of a remote
  store. A \<open>select\<close> with several ready branches is a boolean argument. Every interleaving is a run of the step relation. Time appears
  as the value of the clock an operation reads, and as the freedom of a timer to fire at any step at which it is armed. Errors are
  values, a panic is \<open>Panic\<close>, waiting is \<open>Block\<close> or the absence of a step. Log output and metrics that nothing reads are left
  out, as are the texts of errors.

  \<^bold>\<open>Arguments of the model.\<close> What is not in the repository is an argument, and what the code relies on is a named hypothesis: etcd
  (\<open>etcd_ok\<close>), Redis (\<open>redis_ok\<close>), golang-jwt (\<open>jwt_ok\<close>: a signed token parses to a map
  equal to the claims as JSON stores them, unless its \<open>exp\<close> or \<open>nbf\<close> says otherwise or its algorithm is not accepted), the ciphers (\<open>crypto_ok\<close>), JSON and protobuf (\<open>codec_ok\<close>, \<open>proto_ok\<close>,
  \<open>node_json_ok\<close>, \<open>svc_json_ok\<close>), the cache (\<open>cache_ok\<close>), \<open>gobwas/ws\<close> (\<open>frames_ok\<close>; its control handler answers a
  ping or a close with a frame of its own), retry strategies (\<open>gives_up\<close>), the message
  queue (a log of messages), Docker, gRPC and the rate limiters (their answers). Each hypothesis is met by a concrete instance
  in the witnesses.

  \<^bold>\<open>What is shown.\<close> Properties are marked C1 to C40; the theorem after the mark is the statement, \<open>_witness\<close> its application
  to a concrete run.
  Node: the number of connections never exceeds the capacity the limiter has released, links are owned by exactly one goroutine,
  pushes reach only their receiver. Link: what is written is what was accepted, in order, what is delivered is what was read, the
  \<open>Close\<close> acts once, whatever the control handler and the deferred close of the server's goroutine add, and sending ends within
  its retries; the variants are compared with it. Manager, limiter, push retries:
  counters agree with the maps and channels they count. Handlers: when a key stays in the duplicate cache, who is
  acknowledged; where the batch handler does what the plain one does. Coordinator: every caller gets the answer to its
  own request or an error, none is forgotten, and the timer and one goroutine are enough to serve it. Session, token, codec, encryptor, frames: round
  trips. Registry, generator: a node that left stays gone, ids are unique, registering ends and leaves no lease but
  those whose \<open>Grant\<close> reply or \<open>Revoke\<close> was lost. Balancer and discovery:
  the published picker serves exactly the ready connections, connections do not leak, capacity only grows and stays in its bounds,
  a registered instance is connected and an unregistered one dropped. Scaling out: what is reported is what was started; from the alert to the number of clients another node redirects, and from the
  container that is created to the node that registers. Backends: after the start-up the handler gets the client of the newest list.
  The theorems without a mark are further results about the same definitions, among them the behaviour behind every entry
  of the list of findings: the re-encryption of retransmitted messages, the counter drift of a replaced link, stale retry
  chains, version 2 of the link ending after one message, the batch producer that never empties its batch and panics when it is cancelled, node ids that
  repeat when several nodes are started at once.

  \<^bold>\<open>Bounds and fuel.\<close> Loops that call a remote system take the list of its answers as an argument and return \<open>Block\<close> or \<open>None\<close>
  when the list ends first; the theorems say how many answers are enough (for example one more than the retries the strategy has
  left), or hold for every list. No other recursion is bounded: the remaining loops are structural or have a measure. Integers
  are mathematical with \<open>i64\<close> or \<open>i32\<close> applied where the code computes at that width and it matters; the balancer's
  index, the limiter's capacity, counters and generated ids keep their wrap-around.

  \<^bold>\<open>Not modelled.\<close> Generated code beyond the message types (\<open>api/proto/gen\<close>, mocks); the rest of \<open>cmd\<close> and \<open>ioc\<close>, which
  reads the configuration and calls the constructors modelled here; \<open>internal/registry/example.go\<close>; the demo programs except
  \<open>joinConfigPlatform\<close> and the client, as nothing of the gateway calls them. Within the modelled parts: log output, metrics other than
  the online gauge, durations that only delay a retry, data races inside one Go statement, a
  negative batch size of the coordinator and retry intervals the retry library refuses (both end in a panic, see the findings).
\<close>

end
